(* ===== verification/Prelude.thy ===== *)
theory Prelude
  imports Main "HOL-Library.Word"
begin

text \<open>
  Shared material of the development: the error values of the program, the sequencing of
  fallible computations, bytes and their little- and big-endian integer encodings, the
  byte-wise order of strings, decimal printing, and the generic lemmas about them.
\<close>

section \<open>Errors and fallible results\<close>

text \<open>
  The program throws four exception classes; each carries its message.  \<open>Stuck\<close> stands for
  a run that has left the defined behaviour of the source (a failed \<open>assert\<close>, a null
  dereference, a read outside an object): nothing is claimed about the code after it.
  \<open>StdException\<close> is an exception of the standard library that the program does not turn into
  one of its own.  \<open>OutOfFuel\<close> is returned by the bounded loops of the model only.
\<close>

datatype err =
    ParseException string
  | ExecutionException string
  | IOException string
  | ConfigException string
  | StdException string
  | Stuck string
  | OutOfFuel

type_synonym 'a res = "err + 'a"

definition bindR :: "'e + 'a \<Rightarrow> ('a \<Rightarrow> 'e + 'b) \<Rightarrow> 'e + 'b" where
  "bindR m f = (case m of Inl e \<Rightarrow> Inl e | Inr x \<Rightarrow> f x)"

definition mapR :: "('a \<Rightarrow> 'b) \<Rightarrow> 'e + 'a \<Rightarrow> 'e + 'b" where
  "mapR f m = (case m of Inl e \<Rightarrow> Inl e | Inr x \<Rightarrow> Inr (f x))"

text \<open>\<open>guardR b e\<close> raises \<open>e\<close> unless \<open>b\<close> holds.\<close>

definition guardR :: "bool \<Rightarrow> 'e \<Rightarrow> 'e + unit" where
  "guardR b e = (if b then Inr () else Inl e)"

fun traverseR :: "('a \<Rightarrow> 'e + 'b) \<Rightarrow> 'a list \<Rightarrow> 'e + 'b list" where
  "traverseR f [] = Inr []"
| "traverseR f (x # xs) = bindR (f x) (\<lambda>y. mapR ((#) y) (traverseR f xs))"

fun foldR :: "('s \<Rightarrow> 'a \<Rightarrow> 'e + 's) \<Rightarrow> 's \<Rightarrow> 'a list \<Rightarrow> 'e + 's" where
  "foldR f s [] = Inr s"
| "foldR f s (x # xs) = bindR (f s x) (\<lambda>s'. foldR f s' xs)"

text \<open>The same loops when the body also threads a state.\<close>

fun traverseS :: "('a \<Rightarrow> 's \<Rightarrow> 'e + 'b \<times> 's) \<Rightarrow> 'a list \<Rightarrow> 's \<Rightarrow> 'e + 'b list \<times> 's" where
  "traverseS f [] s = Inr ([], s)"
| "traverseS f (x # xs) s =
     bindR (f x s) (\<lambda>(y, s'). mapR (\<lambda>(ys, s''). (y # ys, s'')) (traverseS f xs s'))"

named_theorems res_simps \<open>evaluation of the fallible combinators\<close>
named_theorems codec_simps \<open>lengths and inverses of byte encodings\<close>

lemma bindR_simps [simp, res_simps]:
  "bindR (Inl e) f = Inl e"
  "bindR (Inr x) f = f x"
  by (simp_all add: bindR_def)

lemma bindR_assoc: "bindR (bindR m f) g = bindR m (\<lambda>x. bindR (f x) g)"
  by (cases m) simp_all

lemma mapR_simps [simp, res_simps]:
  "mapR g (Inl e) = Inl e"
  "mapR g (Inr x) = Inr (g x)"
  by (simp_all add: mapR_def)

lemma guardR_simps [simp, res_simps]:
  "guardR True e = Inr ()"
  "guardR False e = Inl e"
  by (simp_all add: guardR_def)

lemma bindR_eq_Inr: "bindR m f = Inr y \<longleftrightarrow> (\<exists>x. m = Inr x \<and> f x = Inr y)"
  by (cases m) auto

lemma bindR_InrE [elim!]:
  assumes "bindR m f = Inr y"
  obtains x where "m = Inr x" "f x = Inr y"
  using assms by (auto simp: bindR_eq_Inr)

lemma mapR_eq_Inr: "mapR g m = Inr y \<longleftrightarrow> (\<exists>x. m = Inr x \<and> y = g x)"
  by (cases m) auto

lemma mapR_InrE [elim!]:
  assumes "mapR g m = Inr y"
  obtains x where "m = Inr x" "y = g x"
  using assms by (auto simp: mapR_eq_Inr)

lemma guardR_eq_Inr [simp]: "guardR b e = Inr u \<longleftrightarrow> b"
  by (simp add: guardR_def)

lemma guardR_eq_Inl [simp]: "guardR b e = Inl e' \<longleftrightarrow> \<not> b \<and> e' = e"
  by (auto simp: guardR_def)

lemma bindR_cong [fundef_cong]:
  assumes "m = m'" and "\<And>x. m' = Inr x \<Longrightarrow> f x = g x"
  shows "bindR m f = bindR m' g"
  using assms by (cases m') auto

lemma mapR_cong [fundef_cong]:
  assumes "m = m'" and "\<And>x. m' = Inr x \<Longrightarrow> f x = g x"
  shows "mapR f m = mapR g m'"
  using assms by (cases m') auto

lemma traverseR_cong [fundef_cong]:
  assumes "xs = ys" and "\<And>x. x \<in> set ys \<Longrightarrow> f x = g x"
  shows "traverseR f xs = traverseR g ys"
  using assms by (induction ys arbitrary: xs) auto

lemma foldR_cong [fundef_cong]:
  assumes "xs = ys" and "s = t" and "\<And>s x. x \<in> set ys \<Longrightarrow> f s x = g s x"
  shows "foldR f s xs = foldR g t ys"
proof -
  have "foldR f s ys = foldR g s ys"
    using assms(3)
  proof (induction ys arbitrary: s)
    case (Cons y ys)
    then show ?case by (cases "g s y") auto
  qed simp
  then show ?thesis using assms by simp
qed

lemma traverseS_cong [fundef_cong]:
  assumes "xs = ys" and "s = t" and "\<And>x s. x \<in> set ys \<Longrightarrow> f x s = g x s"
  shows "traverseS f xs s = traverseS g ys t"
proof -
  have "traverseS f ys s = traverseS g ys s"
    using assms(3)
  proof (induction ys arbitrary: s)
    case (Cons y ys)
    then show ?case by (cases "g y s") auto
  qed simp
  then show ?thesis using assms by simp
qed

text \<open>A property of each step's input and output holds position by position.\<close>

lemma traverseS_list_all2:
  assumes "traverseS f xs s = Inr (ys, t)"
    and "\<And>x s y s'. x \<in> set xs \<Longrightarrow> f x s = Inr (y, s') \<Longrightarrow> P x y"
  shows "list_all2 P xs ys"
  using assms
proof (induction xs arbitrary: s ys)
  case (Cons x xs)
  from Cons.prems(1) obtain y s' zs where
    y: "f x s = Inr (y, s')" and zs: "traverseS f xs s' = Inr (zs, t)" and ys: "ys = y # zs"
    by auto
  have "P x y" using Cons.prems(2) [OF _ y] by simp
  moreover have "list_all2 P xs zs"
    using Cons.IH [OF zs] Cons.prems(2) by (meson list.set_intros(2))
  ultimately show ?case by (simp add: ys)
qed simp

lemma traverseS_mono:
  fixes s t :: nat
  assumes "traverseS f xs s = Inr (ys, t)"
    and "\<And>x s y s'. x \<in> set xs \<Longrightarrow> f x s = Inr (y, s') \<Longrightarrow> s \<le> s'"
  shows "s \<le> t"
  using assms
proof (induction xs arbitrary: s ys)
  case (Cons x xs)
  from Cons.prems(1) obtain y s' zs where
    y: "f x s = Inr (y, s')" and zs: "traverseS f xs s' = Inr (zs, t)"
    by auto
  have "s \<le> s'" using Cons.prems(2) [OF _ y] by simp
  moreover have "s' \<le> t"
    using Cons.IH [OF zs] Cons.prems(2) by (meson list.set_intros(2))
  ultimately show ?case by simp
qed simp

lemma traverseR_Inr_iff:
  "traverseR f xs = Inr ys \<longleftrightarrow> list_all2 (\<lambda>x y. f x = Inr y) xs ys"
proof (induction xs arbitrary: ys)
  case Nil
  then show ?case by auto
next
  case (Cons x xs)
  then show ?case
    by (cases ys; cases "f x") (auto simp: mapR_eq_Inr)
qed

lemma traverseR_length: "traverseR f xs = Inr ys \<Longrightarrow> length ys = length xs"
  by (auto simp: traverseR_Inr_iff dest: list_all2_lengthD)

lemma traverseR_nth:
  "traverseR f xs = Inr ys \<Longrightarrow> i < length xs \<Longrightarrow> f (xs ! i) = Inr (ys ! i)"
  by (auto simp: traverseR_Inr_iff dest: list_all2_nthD)

lemma traverseR_set:
  assumes "traverseR f xs = Inr ys" "y \<in> set ys"
  obtains x where "x \<in> set xs" "f x = Inr y"
proof -
  from assms obtain i where i: "i < length xs" "y = ys ! i"
    by (auto simp: in_set_conv_nth traverseR_length)
  then show ?thesis using traverseR_nth [OF assms(1)] by (intro that [of "xs ! i"]) auto
qed

lemma traverseR_eq_map:
  assumes "traverseR f xs = Inr ys" "\<And>x y. x \<in> set xs \<Longrightarrow> f x = Inr y \<Longrightarrow> y = g x"
  shows "ys = map g xs"
  using assms
  by (auto simp: traverseR_Inr_iff list_all2_conv_all_nth intro!: nth_equalityI)

lemma traverseR_map_Inr: "(\<And>x. x \<in> set xs \<Longrightarrow> f x = Inr (g x)) \<Longrightarrow> traverseR f xs = Inr (map g xs)"
  by (induction xs) auto

lemma foldR_append: "foldR f s (xs @ ys) = bindR (foldR f s xs) (\<lambda>s'. foldR f s' ys)"
proof (induction xs arbitrary: s)
  case (Cons x xs)
  then show ?case by (cases "f s x") auto
qed simp

lemma foldR_invariant:
  assumes "foldR f s xs = Inr t" and "P s"
    and "\<And>s x s'. P s \<Longrightarrow> x \<in> set xs \<Longrightarrow> f s x = Inr s' \<Longrightarrow> P s'"
  shows "P t"
  using assms
proof (induction xs arbitrary: s)
  case (Cons x xs)
  from Cons.prems(1) obtain s' where s': "f s x = Inr s'" "foldR f s' xs = Inr t" by auto
  have "P s'" using Cons.prems(3) [OF Cons.prems(2) _ s'(1)] by simp
  moreover have "\<And>s x s'. P s \<Longrightarrow> x \<in> set xs \<Longrightarrow> f s x = Inr s' \<Longrightarrow> P s'"
    using Cons.prems(3) by (meson list.set_intros(2))
  ultimately show ?case using Cons.IH [OF s'(2)] by blast
qed simp

section \<open>Bytes\<close>

type_synonym byte = "8 word"

definition byte_of_char :: "char \<Rightarrow> byte" where
  "byte_of_char c = word_of_nat (of_char c)"

definition char_of_byte :: "byte \<Rightarrow> char" where
  "char_of_byte b = char_of (unat b)"

lemma of_char_less_256: "of_char c < (256 :: nat)"
  by (cases c) (simp add: of_char_def horner_sum_simps split: bool.splits)

lemma unat_byte_of_char: "unat (byte_of_char c) = of_char c"
  using of_char_less_256 [of c] by (simp add: byte_of_char_def unat_of_nat take_bit_eq_mod)

lemma char_of_byte_of_char [simp, codec_simps]: "char_of_byte (byte_of_char c) = c"
  by (simp add: char_of_byte_def unat_byte_of_char)

lemma byte_of_char_of_byte [simp, codec_simps]: "byte_of_char (char_of_byte b) = b"
proof -
  have "unat b < 256" using unsigned_less [of b, where ?'a = nat] by simp
  then show ?thesis
    by (simp add: byte_of_char_def char_of_byte_def)
qed

definition bytes_of :: "string \<Rightarrow> byte list" where
  "bytes_of s = map byte_of_char s"

definition string_of :: "byte list \<Rightarrow> string" where
  "string_of bs = map char_of_byte bs"

lemma length_bytes_of [simp]: "length (bytes_of s) = length s"
  by (simp add: bytes_of_def)

lemma length_string_of [simp]: "length (string_of bs) = length bs"
  by (simp add: string_of_def)

lemma string_of_bytes_of [simp, codec_simps]: "string_of (bytes_of s) = s"
  by (simp add: string_of_def bytes_of_def comp_def)

lemma bytes_of_string_of [simp, codec_simps]: "bytes_of (string_of bs) = bs"
  by (simp add: string_of_def bytes_of_def comp_def)

section \<open>Integer encodings\<close>

text \<open>The machine is little-endian; the network order of \<open>htonl\<close>/\<open>ntohl\<close> is big-endian.\<close>

fun le_bytes :: "nat \<Rightarrow> int \<Rightarrow> byte list" where
  "le_bytes 0 v = []"
| "le_bytes (Suc n) v = word_of_int (v mod 256) # le_bytes n (v div 256)"

fun le_uint :: "byte list \<Rightarrow> int" where
  "le_uint [] = 0"
| "le_uint (b # bs) = uint b + 256 * le_uint bs"

definition be_bytes :: "nat \<Rightarrow> int \<Rightarrow> byte list" where
  "be_bytes n v = rev (le_bytes n v)"

definition be_uint :: "byte list \<Rightarrow> int" where
  "be_uint bs = le_uint (rev bs)"

text \<open>Two's complement reading of an \<open>n\<close>-byte value.\<close>

definition to_signed :: "nat \<Rightarrow> int \<Rightarrow> int" where
  "to_signed n u = (if u < 2 ^ (8 * n - 1) then u else u - 2 ^ (8 * n))"

text \<open>Conversion of an arbitrary integer to an \<open>n\<close>-byte signed integer (wraps around).\<close>

definition wrap_signed :: "nat \<Rightarrow> int \<Rightarrow> int" where
  "wrap_signed n v = to_signed n (v mod 2 ^ (8 * n))"

definition wrap64 :: "int \<Rightarrow> int" where
  "wrap64 v = wrap_signed 8 v"

definition int64_range :: "int \<Rightarrow> bool" where
  "int64_range v \<longleftrightarrow> - (2 ^ 63) \<le> v \<and> v < 2 ^ 63"

lemma length_le_bytes [simp, codec_simps]: "length (le_bytes n v) = n"
  by (induction n arbitrary: v) auto

lemma length_be_bytes [simp, codec_simps]: "length (be_bytes n v) = n"
  by (simp add: be_bytes_def)

lemma uint_word_mod_256 [simp]: "uint (word_of_int (v mod 256) :: byte) = v mod 256"
  by (simp add: uint_word_of_int)

lemma le_uint_le_bytes [codec_simps]: "le_uint (le_bytes n v) = v mod 256 ^ n"
proof (induction n arbitrary: v)
  case (Suc n)
  have "v mod 256 ^ Suc n = 256 * (v div 256 mod 256 ^ n) + v mod 256"
    by (simp add: zmod_zmult2_eq)
  then show ?case using Suc by simp
qed simp

lemma be_uint_be_bytes [codec_simps]: "be_uint (be_bytes n v) = v mod 256 ^ n"
  by (simp add: be_uint_def be_bytes_def le_uint_le_bytes)

lemma le_uint_bounds: "0 \<le> le_uint bs \<and> le_uint bs < 256 ^ length bs"
proof (induction bs)
  case (Cons b bs)
  have "uint b < 256" "0 \<le> uint b" using uint_lt2p [of b] by simp_all
  then show ?case using Cons by auto
qed simp

lemma be_uint_bounds: "0 \<le> be_uint bs \<and> be_uint bs < 256 ^ length bs"
  using le_uint_bounds [of "rev bs"] by (simp add: be_uint_def)

lemma wrap_signed_id:
  assumes "0 < n" and "- (2 ^ (8 * n - 1)) \<le> v" and "v < 2 ^ (8 * n - 1)"
  shows "wrap_signed n v = v"
proof -
  have p: "(2::int) ^ (8 * n) = 2 * 2 ^ (8 * n - 1)"
    using assms(1) by (simp flip: power_Suc)
  show ?thesis
  proof (cases "0 \<le> v")
    case True
    then have "v mod 2 ^ (8 * n) = v" using assms(3) p by simp
    then show ?thesis using assms(3) by (simp add: wrap_signed_def to_signed_def)
  next
    case False
    have "(v + 2 ^ (8 * n)) mod 2 ^ (8 * n) = v + 2 ^ (8 * n)"
      using False assms(2) p by (intro mod_pos_pos_trivial) auto
    then have "v mod 2 ^ (8 * n) = v + 2 ^ (8 * n)" by simp
    then show ?thesis using assms(2) p by (simp add: wrap_signed_def to_signed_def)
  qed
qed

lemma wrap64_id: "int64_range v \<Longrightarrow> wrap64 v = v"
  using wrap_signed_id [of 8 v] by (simp add: wrap64_def int64_range_def)

lemma wrap64_range: "int64_range (wrap64 v)"
proof -
  have "0 \<le> v mod 18446744073709551616" "v mod 18446744073709551616 < 18446744073709551616"
    by simp_all
  then show ?thesis
    by (auto simp: wrap64_def wrap_signed_def to_signed_def int64_range_def)
qed

lemma to_signed_le_bytes:
  assumes "0 < n" and "- (2 ^ (8 * n - 1)) \<le> v" and "v < 2 ^ (8 * n - 1)"
  shows "to_signed n (le_uint (le_bytes n v)) = v"
proof -
  have "(256::int) ^ n = 2 ^ (8 * n)" by (simp add: power_mult)
  then show ?thesis
    using wrap_signed_id [OF assms] by (simp add: le_uint_le_bytes wrap_signed_def)
qed

lemma to_signed_be_bytes:
  assumes "0 < n" and "- (2 ^ (8 * n - 1)) \<le> v" and "v < 2 ^ (8 * n - 1)"
  shows "to_signed n (be_uint (be_bytes n v)) = v"
  using to_signed_le_bytes [OF assms] by (simp add: be_uint_def be_bytes_def)

section \<open>Strings\<close>

text \<open>\<open>std::string\<close> orders bytes as unsigned characters and a proper prefix first.\<close>

definition ccode :: "char \<Rightarrow> nat" where
  "ccode c = of_char c"

lemma ccode_inject [simp]: "ccode x = ccode y \<longleftrightarrow> x = y"
  by (simp add: ccode_def)

lemma ccode_less_256: "ccode c < 256"
  by (simp add: ccode_def of_char_less_256)

fun str_compare :: "string \<Rightarrow> string \<Rightarrow> int" where
  "str_compare [] [] = 0"
| "str_compare [] (y # ys) = -1"
| "str_compare (x # xs) [] = 1"
| "str_compare (x # xs) (y # ys) =
     (if ccode x < ccode y then -1
      else if ccode y < ccode x then 1
      else str_compare xs ys)"

lemma ccode_total: "\<not> ccode x < ccode y \<Longrightarrow> \<not> ccode y < ccode x \<Longrightarrow> x = y"
  using ccode_inject by fastforce

lemma str_compare_eq_0 [simp]: "str_compare s t = 0 \<longleftrightarrow> s = t"
  by (induction s t rule: str_compare.induct) (auto dest: ccode_total)

lemma str_compare_antisym: "str_compare t s = - str_compare s t"
  by (induction s t rule: str_compare.induct) auto

lemma str_compare_trans:
  "str_compare a b \<le> 0 \<Longrightarrow> str_compare b c \<le> 0 \<Longrightarrow> str_compare a c \<le> 0"
proof (induction a b arbitrary: c rule: str_compare.induct)
  case (1 c) then show ?case by simp
next
  case (2 y ys c) then show ?case by (cases c) auto
next
  case (3 x xs c) then show ?case by simp
next
  case (4 x xs y ys c)
  show ?case
  proof (cases c)
    case Nil
    then show ?thesis using 4 by simp
  next
    case (Cons z zs)
    show ?thesis
      using "4.prems" "4.IH" [of zs] unfolding Cons
      by (auto split: if_splits)
  qed
qed

text \<open>Position of the first occurrence of a substring (\<open>std::string::find\<close>).\<close>

fun is_prefix :: "'a list \<Rightarrow> 'a list \<Rightarrow> bool" where
  "is_prefix [] ys = True"
| "is_prefix (x # xs) [] = False"
| "is_prefix (x # xs) (y # ys) = (x = y \<and> is_prefix xs ys)"

fun str_find :: "string \<Rightarrow> string \<Rightarrow> nat option" where
  "str_find [] t = (if t = [] then Some 0 else None)"
| "str_find (c # cs) t = (if is_prefix t (c # cs) then Some 0 else map_option Suc (str_find cs t))"

lemma is_prefix_iff: "is_prefix xs ys \<longleftrightarrow> (\<exists>zs. ys = xs @ zs)"
  by (induction xs ys rule: is_prefix.induct) auto

lemma str_find_Some_iff: "str_find s t \<noteq> None \<longleftrightarrow> (\<exists>u v. s = u @ t @ v)"
proof (induction s)
  case Nil
  then show ?case by auto
next
  case (Cons c cs)
  show ?case
  proof (cases "is_prefix t (c # cs)")
    case True
    then obtain zs where "c # cs = t @ zs" by (auto simp: is_prefix_iff)
    then have "c # cs = [] @ t @ zs" by simp
    then have "\<exists>u v. c # cs = u @ t @ v" by blast
    then show ?thesis using True by simp
  next
    case False
    have "(\<exists>u v. c # cs = u @ t @ v) \<longleftrightarrow> (\<exists>u v. cs = u @ t @ v)"
    proof
      assume "\<exists>u v. c # cs = u @ t @ v"
      then obtain u v where uv: "c # cs = u @ t @ v" by blast
      have "u \<noteq> []" using uv False by (auto simp: is_prefix_iff)
      then show "\<exists>u v. cs = u @ t @ v" using uv by (cases u) auto
    next
      assume "\<exists>u v. cs = u @ t @ v"
      then obtain u v where "cs = u @ t @ v" by blast
      then have "c # cs = (c # u) @ t @ v" by simp
      then show "\<exists>u v. c # cs = u @ t @ v" by blast
    qed
    then show ?thesis using False Cons by simp
  qed
qed

text \<open>Decimal printing, as \<open>absl::StrCat\<close> and \<open>std::to_string\<close> print integers.\<close>

definition digit_char :: "nat \<Rightarrow> char" where
  "digit_char d = char_of (48 + d)"

fun nat_to_string :: "nat \<Rightarrow> string" where
  "nat_to_string n = (if n < 10 then [digit_char n] else nat_to_string (n div 10) @ [digit_char (n mod 10)])"

declare nat_to_string.simps [simp del]

definition int_to_string :: "int \<Rightarrow> string" where
  "int_to_string v = (if v < 0 then CHR ''-'' # nat_to_string (nat (- v)) else nat_to_string (nat v))"

definition str_cat :: "string list \<Rightarrow> string" where
  "str_cat parts = concat parts"

fun str_join :: "string \<Rightarrow> string list \<Rightarrow> string" where
  "str_join sep [] = []"
| "str_join sep [s] = s"
| "str_join sep (s # t # ss) = s @ sep @ str_join sep (t # ss)"

definition tabs :: "nat \<Rightarrow> string" where
  "tabs depth = replicate depth (CHR 0x09)"

lemma nat_to_string_nonempty [simp]: "nat_to_string n \<noteq> []"
  by (subst nat_to_string.simps) simp

section \<open>Three-way comparison of lists\<close>

text \<open>
  The comparison loops of the program: compare position by position and stop at the first
  difference.
\<close>

fun lex_compare :: "('k \<Rightarrow> 'a \<Rightarrow> 'a \<Rightarrow> int) \<Rightarrow> 'k list \<Rightarrow> 'a list \<Rightarrow> 'a list \<Rightarrow> int" where
  "lex_compare cmp (k # ks) (x # xs) (y # ys) =
     (let n = cmp k x y in if n \<noteq> 0 then n else lex_compare cmp ks xs ys)"
| "lex_compare cmp _ _ _ = 0"

lemma lex_compare_refl:
  assumes "\<And>k x. x \<in> set xs \<Longrightarrow> cmp k x x = 0"
  shows "lex_compare cmp ks xs xs = 0"
  using assms
proof (induction ks arbitrary: xs)
  case (Cons k ks)
  then show ?case by (cases xs) auto
qed simp

section \<open>Ordered maps\<close>

text \<open>
  \<open>std::map\<close> with string keys, as the list of its entries in iteration order: \<open>smap_put\<close> is
  \<open>m[k] = v\<close>, \<open>map_of\<close> is \<open>find\<close>.
\<close>

fun smap_put :: "string \<Rightarrow> 'v \<Rightarrow> (string \<times> 'v) list \<Rightarrow> (string \<times> 'v) list" where
  "smap_put k v [] = [(k, v)]"
| "smap_put k v ((k', v') # m) =
     (let n = str_compare k k' in
      if n < 0 then (k, v) # (k', v') # m
      else if n = 0 then (k, v) # m
      else (k', v') # smap_put k v m)"

fun smap_ok :: "(string \<times> 'v) list \<Rightarrow> bool" where
  "smap_ok [] = True"
| "smap_ok ((k, v) # m) = ((\<forall>(k', v') \<in> set m. str_compare k k' < 0) \<and> smap_ok m)"

lemma smap_put_lookup: "map_of (smap_put k v m) = (map_of m)(k \<mapsto> v)"
  by (induction m) (auto simp: Let_def fun_eq_iff)

lemma smap_put_keys: "fst ` set (smap_put k v m) = insert k (fst ` set m)"
proof (induction m)
  case (Cons e m)
  then show ?case by (cases e) (simp add: Let_def insert_commute)
qed simp

lemma str_compare_less_trans:
  assumes "str_compare a b < 0" "str_compare b c < 0"
  shows "str_compare a c < 0"
proof -
  have "str_compare a c \<le> 0" using assms by (intro str_compare_trans [of a b c]) simp_all
  moreover have "a \<noteq> c"
  proof
    assume "a = c"
    then show False using assms str_compare_antisym [of a b] by simp
  qed
  then have "str_compare a c \<noteq> 0" by simp
  ultimately show ?thesis by linarith
qed

lemma smap_put_ok: "smap_ok m \<Longrightarrow> smap_ok (smap_put k v m)"
proof (induction m)
  case (Cons e m)
  obtain k' v' where e: "e = (k', v')" by (cases e)
  consider "str_compare k k' < 0" | "str_compare k k' = 0" | "str_compare k k' > 0" by linarith
  then show ?case
  proof cases
    case 1
    then show ?thesis using Cons.prems by (auto simp: e intro: str_compare_less_trans)
  next
    case 2
    then show ?thesis using Cons.prems by (simp add: e Let_def)
  next
    case 3
    then have "str_compare k' k < 0" using str_compare_antisym [of k' k] by simp
    moreover have "x \<in> set (smap_put k v m) \<Longrightarrow> fst x = k \<or> fst x \<in> fst ` set m" for x
      using smap_put_keys [of k v m] by (metis image_eqI insertE)
    ultimately show ?thesis using Cons 3 by (fastforce simp: e)
  qed
qed simp

lemma smap_ok_distinct: "smap_ok m \<Longrightarrow> distinct (map fst m)"
proof (induction m)
  case (Cons e m)
  then show ?case by (cases e) (auto, metis less_irrefl case_prodD str_compare_eq_0)
qed simp

section \<open>The contract of a comparator\<close>

text \<open>
  What every three-way comparison of the program promises on the values it is meant for, and
  what the storage engine and \<open>std::sort\<close> rely on: it is a total preorder, with the sign of
  the result saying which argument comes first.
\<close>

locale three_way =
  fixes cmp :: "'a \<Rightarrow> 'a \<Rightarrow> int" and ok :: "'a \<Rightarrow> bool"
  assumes cmp_refl: "ok x \<Longrightarrow> cmp x x = 0"
    and cmp_antisym: "ok x \<Longrightarrow> ok y \<Longrightarrow> cmp y x = - cmp x y"
    and cmp_trans: "ok x \<Longrightarrow> ok y \<Longrightarrow> ok z \<Longrightarrow> cmp x y \<le> 0 \<Longrightarrow> cmp y z \<le> 0 \<Longrightarrow> cmp x z \<le> 0"
begin

lemma cmp_total: "ok x \<Longrightarrow> ok y \<Longrightarrow> cmp x y \<le> 0 \<or> cmp y x \<le> 0"
  using cmp_antisym [of x y] by linarith

lemma cmp_less_trans: "ok x \<Longrightarrow> ok y \<Longrightarrow> ok z \<Longrightarrow> cmp x y < 0 \<Longrightarrow> cmp y z \<le> 0 \<Longrightarrow> cmp x z < 0"
  using cmp_trans [of x y z] cmp_trans [of z x y] cmp_antisym [of x y] cmp_antisym [of y z] cmp_antisym [of x z]
    cmp_trans [of y z x] by (smt (verit))

lemma cmp_le_less_trans: "ok x \<Longrightarrow> ok y \<Longrightarrow> ok z \<Longrightarrow> cmp x y \<le> 0 \<Longrightarrow> cmp y z < 0 \<Longrightarrow> cmp x z < 0"
  using cmp_trans [of x y z] cmp_trans [of z x y] cmp_antisym [of x y] cmp_antisym [of y z] cmp_antisym [of x z]
    cmp_trans [of y z x] by (smt (verit))

lemma cmp_eq_left:
  assumes "ok x" "ok y" "ok z" "cmp x y = 0"
  shows "sgn (cmp x z) = sgn (cmp y z)"
proof -
  have "cmp y x = 0" using assms cmp_antisym [of x y] by simp
  then have "cmp x z \<le> 0 \<longleftrightarrow> cmp y z \<le> 0" "cmp z x \<le> 0 \<longleftrightarrow> cmp z y \<le> 0"
    using assms cmp_trans [of x y z] cmp_trans [of y x z] cmp_trans [of z x y] cmp_trans [of z y x] by auto
  then show ?thesis
    using assms cmp_antisym [of x z] cmp_antisym [of y z] by (auto simp: sgn_if)
qed

end

lemma lex_compare_refl_ok:
  assumes "\<And>k. three_way (cmp k) (ok k)" and "list_all2 ok ks xs"
  shows "lex_compare cmp ks xs xs = 0"
  using assms(2) by (induction rule: list_all2_induct) (simp_all add: three_way.cmp_refl [OF assms(1)])

lemma lex_compare_antisym_ok:
  assumes "\<And>k. three_way (cmp k) (ok k)" and "list_all2 ok ks xs" "list_all2 ok ks ys"
  shows "lex_compare cmp ks ys xs = - lex_compare cmp ks xs ys"
  using assms(2,3)
proof (induction arbitrary: ys rule: list_all2_induct)
  case (Cons k ks x xs)
  then obtain y zs where ys: "ys = y # zs" "ok k y" "list_all2 ok ks zs"
    by (auto simp: list_all2_Cons1)
  from three_way.cmp_antisym [OF assms(1) Cons(1) ys(2)] Cons(3) [OF ys(3)]
  show ?case by (simp add: ys(1) Let_def)
qed simp

lemma lex_compare_trans_ok:
  assumes "\<And>k. three_way (cmp k) (ok k)" and "list_all2 ok ks xs" "list_all2 ok ks ys" "list_all2 ok ks zs"
    and "lex_compare cmp ks xs ys \<le> 0" "lex_compare cmp ks ys zs \<le> 0"
  shows "lex_compare cmp ks xs zs \<le> 0"
  using assms(2-)
proof (induction arbitrary: ys zs rule: list_all2_induct)
  case (Cons k ks x xs)
  then obtain y ys' z zs' where
    ys: "ys = y # ys'" "ok k y" "list_all2 ok ks ys'" and zs: "zs = z # zs'" "ok k z" "list_all2 ok ks zs'"
    by (auto simp: list_all2_Cons1)
  note tw = assms(1) [of k]
  have le: "cmp k x y \<le> 0" "cmp k y z \<le> 0"
    using Cons.prems(3,4) by (auto simp: ys(1) zs(1) Let_def split: if_splits)
  have xz: "cmp k x z \<le> 0" by (rule three_way.cmp_trans [OF tw Cons(1) ys(2) zs(2) le])
  show ?case
  proof (cases "cmp k x y = 0 \<and> cmp k y z = 0")
    case True
    then have "lex_compare cmp ks xs zs' \<le> 0"
      using Cons.prems(3,4) Cons.IH [OF ys(3) zs(3)] by (simp add: ys(1) zs(1) Let_def)
    then show ?thesis using xz by (simp add: zs(1) Let_def)
  next
    case False
    then have "cmp k x z < 0"
      using le three_way.cmp_less_trans [OF tw Cons(1) ys(2) zs(2)]
        three_way.cmp_le_less_trans [OF tw Cons(1) ys(2) zs(2)] by linarith
    then show ?thesis by (simp add: zs(1) Let_def)
  qed
qed simp

text \<open>Comparing columns one after the other keeps the contract.\<close>

lemma three_way_lex:
  assumes "\<And>k. three_way (cmp k) (ok k)"
  shows "three_way (lex_compare cmp ks) (list_all2 ok ks)"
  by unfold_locales
    (auto intro: lex_compare_refl_ok lex_compare_antisym_ok lex_compare_trans_ok assms)

end
