(* ===== verification/Nodes.thy ===== *)
theory Nodes
  imports Prelude
begin

text \<open>
  The parse tree of \<open>common/ParseNode.h\<close> and the arena it lives in
  (\<open>common/ParseResult.h\<close>, \<open>common/ParseResult.cpp\<close>).

  A \<open>ParseNode\<close> is a \<open>PNode\<close>; its first component is the address the arena gave it, so that
  two occurrences of one shared node are the same node (the parameter binding of a session
  writes through such an address).  A null child pointer is \<open>NullNode\<close>.
\<close>

section \<open>Enumerations\<close>

datatype DBDataType =
    DT_UNKNOWN | DT_INT16 | DT_INT32 | DT_INT64 | DT_STRING | DT_DATETIME | DT_DATE
  | DT_FLOAT | DT_DOUBLE | DT_BYTES | DT_BOOL

datatype NodeType =
    NT_INT | NT_STR | NT_BINARY | NT_DATE | NT_FLOAT | NT_NONE | NT_PARENT | NT_NAME | NT_OP
  | NT_FUNC | NT_INFO | NT_PARAM | NT_LIST | NT_PLAN

datatype Operation =
    OP_NONE
  | COMP_EQ | COMP_NE | COMP_LE | COMP_LT | COMP_GT | COMP_GE | COMP_LIKE | COMP_IN | COMP_NOT_IN
  | OP_MINUS | OP_ADD | OP_SUB | OP_DIV | OP_MUL | OP_MOD
  | OP_MEMBER | OP_AS
  | OP_AND | OP_OR
  | OP_ASC | OP_DESC
  | OP_ALL_COLUMNS
  | OP_SHOW_TABLES | OP_DESC_TABLE | OP_SELECT | OP_INSERT | OP_REMOVE | OP_EXPLAIN | OP_VALUES
  | OP_SELECT_WITH_SUBQUERY
  | TEXT_PARAM | BINARY_PARAM | UNBOUND_PARAM

section \<open>Nodes\<close>

datatype pnode =
    NullNode
  | PNode (n_id: nat) (n_type: NodeType) (n_op: Operation) (n_expr: string) (n_value: string)
      (n_children: "pnode list")
  where
    "n_id NullNode = 0"
  | "n_type NullNode = NT_NONE"
  | "n_op NullNode = OP_NONE"
  | "n_expr NullNode = []"
  | "n_value NullNode = []"
  | "n_children NullNode = []"

definition is_null :: "pnode \<Rightarrow> bool" where
  "is_null n = (case n of NullNode \<Rightarrow> True | _ \<Rightarrow> False)"

definition getOperationName :: "Operation \<Rightarrow> string" where
  "getOperationName op = (case op of
       COMP_EQ \<Rightarrow> ''=''
     | COMP_NE \<Rightarrow> ''!=''
     | COMP_LE \<Rightarrow> ''<=''
     | COMP_LT \<Rightarrow> ''<''
     | COMP_GT \<Rightarrow> ''>''
     | COMP_GE \<Rightarrow> ''>=''
     | COMP_LIKE \<Rightarrow> ''like''
     | COMP_IN \<Rightarrow> ''in''
     | COMP_NOT_IN \<Rightarrow> ''not in''
     | OP_MINUS \<Rightarrow> ''-''
     | OP_ADD \<Rightarrow> ''+''
     | OP_SUB \<Rightarrow> ''-''
     | OP_DIV \<Rightarrow> ''/''
     | OP_MUL \<Rightarrow> ''*''
     | OP_MOD \<Rightarrow> [CHR 0x25]
     | OP_MEMBER \<Rightarrow> ''.''
     | OP_AS \<Rightarrow> ''as''
     | OP_AND \<Rightarrow> ''and''
     | OP_OR \<Rightarrow> ''or''
     | OP_ASC \<Rightarrow> ''asc''
     | OP_DESC \<Rightarrow> ''desc''
     | OP_ALL_COLUMNS \<Rightarrow> ''*''
     | OP_SHOW_TABLES \<Rightarrow> ''show tables''
     | OP_DESC_TABLE \<Rightarrow> ''desc''
     | OP_SELECT \<Rightarrow> ''select''
     | OP_INSERT \<Rightarrow> ''insert''
     | OP_REMOVE \<Rightarrow> ''remove''
     | OP_EXPLAIN \<Rightarrow> ''explain''
     | OP_VALUES \<Rightarrow> ''values''
     | OP_SELECT_WITH_SUBQUERY \<Rightarrow> ''select()''
     | TEXT_PARAM \<Rightarrow> ''text_param''
     | BINARY_PARAM \<Rightarrow> ''binary_param''
     | UNBOUND_PARAM \<Rightarrow> ''unbound_param''
     | OP_NONE \<Rightarrow> ''none'')"

definition isConst :: "pnode \<Rightarrow> bool" where
  "isConst n = (case n_type n of
       NT_INT \<Rightarrow> True | NT_STR \<Rightarrow> True | NT_BINARY \<Rightarrow> True | NT_DATE \<Rightarrow> True
     | NT_FLOAT \<Rightarrow> True | NT_PARAM \<Rightarrow> True | _ \<Rightarrow> False)"

definition getConstResultType :: "pnode \<Rightarrow> DBDataType" where
  "getConstResultType n = (case n_type n of
       NT_INT \<Rightarrow> DT_INT64
     | NT_STR \<Rightarrow> DT_STRING
     | NT_BINARY \<Rightarrow> DT_BYTES
     | NT_FLOAT \<Rightarrow> DT_DOUBLE
     | NT_DATE \<Rightarrow> DT_DATETIME
     | _ \<Rightarrow> DT_UNKNOWN)"

definition isTrueConst :: "pnode \<Rightarrow> bool" where
  "isTrueConst n = (case n_type n of NT_INT \<Rightarrow> n_value n \<noteq> ''0'' | _ \<Rightarrow> False)"

definition isFalseConst :: "pnode \<Rightarrow> bool" where
  "isFalseConst n = (case n_type n of NT_INT \<Rightarrow> n_value n = ''0'' | _ \<Rightarrow> False)"

text \<open>\<open>getChild\<close> and \<open>setChild\<close> index a C array: outside its bounds nothing is defined.\<close>

definition getChild :: "pnode \<Rightarrow> nat \<Rightarrow> pnode res" where
  "getChild n i =
     (if i < length (n_children n) then Inr (n_children n ! i) else Inl (Stuck ''getChild''))"

definition setChild :: "pnode \<Rightarrow> nat \<Rightarrow> pnode \<Rightarrow> pnode res" where
  "setChild n i c = (case n of
       NullNode \<Rightarrow> Inl (Stuck ''setChild'')
     | PNode a t op e v cs \<Rightarrow>
         if i < length cs then Inr (PNode a t op e v (cs[i := c])) else Inl (Stuck ''setChild''))"

definition setString :: "string \<Rightarrow> pnode \<Rightarrow> pnode" where
  "setString v n = (case n of NullNode \<Rightarrow> NullNode | PNode a t op e _ cs \<Rightarrow> PNode a t op e v cs)"

definition setBindParamMode :: "Operation \<Rightarrow> pnode \<Rightarrow> pnode" where
  "setBindParamMode op n = (case n of NullNode \<Rightarrow> NullNode | PNode a t _ e v cs \<Rightarrow> PNode a t op e v cs)"

definition allChildOf :: "pnode \<Rightarrow> (nat \<Rightarrow> pnode \<Rightarrow> bool) \<Rightarrow> bool" where
  "allChildOf n f = list_all (\<lambda>(i, c). f i c) (enumerate 0 (n_children n))"

definition anyChildOf :: "pnode \<Rightarrow> (nat \<Rightarrow> pnode \<Rightarrow> bool) \<Rightarrow> bool" where
  "anyChildOf n f = list_ex (\<lambda>(i, c). f i c) (enumerate 0 (n_children n))"

lemma size_child_less: "c \<in> set (n_children n) \<Longrightarrow> size c < size n"
  by (cases n) (auto dest: size_list_estimation' [where f = size, OF _ order_refl])

lemma n_type_nonnull [simp]: "n_type n \<noteq> NT_NONE \<Longrightarrow> n \<noteq> NullNode"
  by auto

lemma isConst_types:
  "isConst n \<longleftrightarrow> n_type n \<in> {NT_INT, NT_STR, NT_BINARY, NT_DATE, NT_FLOAT, NT_PARAM}"
  by (simp add: isConst_def split: NodeType.splits)

lemma true_false_const_disjoint: "\<not> (isTrueConst n \<and> isFalseConst n)"
  by (simp add: isTrueConst_def isFalseConst_def split: NodeType.splits)

section \<open>The arena\<close>

text \<open>
  \<open>ParseResult\<close> owns one block of \<open>BLOCK_SIZE\<close> bytes and hands out consecutive pieces.
  \<open>p_current\<close> is \<open>m_iCurrent\<close>, \<open>p_mark\<close> is \<open>m_iMark\<close>; \<open>p_result\<close> is \<open>m_pResult\<close> and
  \<open>p_params\<close> the addresses in \<open>m_bindParamNodes\<close>.
\<close>

definition BLOCK_SIZE :: nat where
  "BLOCK_SIZE = 512 * 1024"

record parse_result =
  p_current :: nat
  p_mark :: nat
  p_sql :: string
  p_error :: string
  p_result :: pnode
  p_params :: "nat list"

text \<open>\<open>sizeof(ParseNode)\<close> and \<open>sizeof(ParseNode*)\<close> on a 64-bit target.\<close>

definition node_size :: nat where "node_size = 64"
definition ptr_size :: nat where "ptr_size = 8"

definition pr_alloc :: "nat \<Rightarrow> nat \<Rightarrow> err + nat \<times> nat" where
  "pr_alloc sz cur =
     (if cur + sz > BLOCK_SIZE then Inl (ParseException ''Not enough parse buffer'')
      else Inr (cur, cur + sz))"

definition newParseNode ::
  "NodeType \<Rightarrow> Operation \<Rightarrow> string \<Rightarrow> pnode list \<Rightarrow> nat \<Rightarrow> err + pnode \<times> nat" where
  "newParseNode t op e cs cur =
     bindR (pr_alloc (node_size + length cs * ptr_size) cur) (\<lambda>(p, cur').
       Inr (PNode (p + length cs * ptr_size) t op e [] cs, cur'))"

definition newExprNode :: "Operation \<Rightarrow> string \<Rightarrow> pnode list \<Rightarrow> nat \<Rightarrow> err + pnode \<times> nat" where
  "newExprNode op e cs cur = newParseNode NT_OP op e cs cur"

definition pr_concate :: "string list \<Rightarrow> nat \<Rightarrow> err + string \<times> nat" where
  "pr_concate parts cur =
     bindR (pr_alloc (sum_list (map length parts)) cur) (\<lambda>(_, cur'). Inr (concat parts, cur'))"

definition pr_allocString :: "string \<Rightarrow> bool \<Rightarrow> nat \<Rightarrow> err + string \<times> nat" where
  "pr_allocString s zeroEnded cur =
     bindR (pr_alloc (length s + (if zeroEnded then 1 else 0)) cur) (\<lambda>(_, cur'). Inr (s, cur'))"

definition pr_initParse :: "string \<Rightarrow> parse_result \<Rightarrow> err + parse_result" where
  "pr_initParse sql p =
     bindR (pr_allocString sql True 0) (\<lambda>(s, cur).
       Inr (p\<lparr>p_current := cur, p_result := NullNode, p_params := [], p_sql := s, p_error := []\<rparr>))"

definition pr_mark :: "parse_result \<Rightarrow> parse_result" where
  "pr_mark p = p\<lparr>p_mark := p_current p\<rparr>"

definition pr_restore :: "parse_result \<Rightarrow> parse_result" where
  "pr_restore p = p\<lparr>p_current := p_mark p\<rparr>"

text \<open>What every allocation promises: fresh bytes, inside the block.\<close>

lemma pr_alloc_bounds:
  "pr_alloc sz cur = Inr (p, cur') \<Longrightarrow> p = cur \<and> cur' = cur + sz \<and> cur' \<le> BLOCK_SIZE"
  by (simp add: pr_alloc_def split: if_splits)

lemma newParseNode_Inr:
  "newParseNode t op e cs cur = Inr (n, cur') \<Longrightarrow>
     n = PNode (cur + length cs * ptr_size) t op e [] cs \<and>
     cur' = cur + node_size + length cs * ptr_size \<and> cur' \<le> BLOCK_SIZE"
  by (auto simp: newParseNode_def dest!: pr_alloc_bounds)

lemmas newExprNode_Inr = newParseNode_Inr [where t = NT_OP, folded newExprNode_def]

lemma pr_concate_Inr:
  "pr_concate parts cur = Inr (s, cur') \<Longrightarrow>
     s = concat parts \<and> cur' = cur + length (concat parts) \<and> cur' \<le> BLOCK_SIZE"
  by (auto simp: pr_concate_def length_concat dest!: pr_alloc_bounds)

end
