(* ===== verification/QueryRewriter.thy ===== *)
theory QueryRewriter
  imports Nodes
begin

text \<open>
  \<open>common/QueryRewritter.cpp\<close>: flattening of list nodes, expansion of \<open>IN\<close> and
  \<open>NOT IN\<close>, and lifting of \<open>OR\<close> to the root of a predicate.  New nodes come from the arena,
  so every function takes the arena position \<open>cur\<close> (\<open>m_iCurrent\<close>) and returns the next one.
  The theorems state that a rewritten predicate means what the parsed one meant, and that it
  has the disjunctive shape the plan builder relies on.
\<close>

section \<open>Operations\<close>

fun collectElements :: "string \<Rightarrow> pnode \<Rightarrow> err + pnode list" where
  "collectElements sName NullNode = Inl (Stuck ''collectElements'')"
| "collectElements sName (PNode a t op e v cs) =
     (if t = NT_LIST \<and> v = sName then mapR concat (traverseR (collectElements sName) cs)
      else Inr [PNode a t op e v cs])"

definition rewriteList :: "pnode \<Rightarrow> nat \<Rightarrow> err + pnode \<times> nat" where
  "rewriteList pParent cur =
     (let sName = n_value pParent in
      bindR (collectElements sName pParent) (\<lambda>elements.
      bindR (newParseNode NT_LIST OP_NONE (n_expr pParent) elements cur) (\<lambda>(pNew, cur').
      Inr (setString sName pNew, cur'))))"

text \<open>One comparison of an expanded \<open>IN\<close> list.\<close>

definition rewriteElement :: "bool \<Rightarrow> pnode \<Rightarrow> pnode \<Rightarrow> nat \<Rightarrow> err + pnode \<times> nat" where
  "rewriteElement isin pLeft pChild cur =
     (if \<not> isConst pChild then Inl (ParseException (''expect const value:'' @ n_expr pChild))
      else let op = (if isin then COMP_EQ else COMP_NE) in
        bindR (pr_concate [n_expr pLeft, if isin then ''='' else ''!='', n_expr pChild] cur)
          (\<lambda>(sExpr, cur'). newExprNode op sExpr [pLeft, pChild] cur'))"

definition rewriteInOrNotIN :: "pnode \<Rightarrow> bool \<Rightarrow> nat \<Rightarrow> err + pnode \<times> nat" where
  "rewriteInOrNotIN pNode isin cur =
     bindR (getChild pNode 0) (\<lambda>pLeft.
     bindR (getChild pNode 1) (\<lambda>pList.
     bindR (rewriteList pList cur) (\<lambda>(pValue, cur1).
     bindR (traverseS (rewriteElement isin pLeft) (n_children pValue) cur1) (\<lambda>(expressions, cur2).
       if length expressions = 1 then Inr (hd expressions, cur2)
       else newParseNode NT_OP OP_OR (n_expr pNode) expressions cur2))))"

fun rewriteOp :: "pnode \<Rightarrow> nat \<Rightarrow> err + (pnode \<times> bool) \<times> nat" where
  "rewriteOp NullNode cur = Inl (Stuck ''rewriteOp'')"
| "rewriteOp (PNode a t op e v cs) cur =
     (if op = OP_OR \<or> op = OP_AND then
        mapR (\<lambda>(rs, cur'). ((PNode a t op e v (map fst rs), op = OP_OR \<or> list_ex snd rs), cur'))
          (traverseS rewriteOp cs cur)
      else if op = COMP_IN then
        mapR (\<lambda>(n, cur'). ((n, n_op n = OP_OR), cur')) (rewriteInOrNotIN (PNode a t op e v cs) True cur)
      else if op = COMP_NOT_IN then
        mapR (\<lambda>(n, cur'). ((n, n_op n = OP_OR), cur')) (rewriteInOrNotIN (PNode a t op e v cs) False cur)
      else Inr ((PNode a t op e v cs, False), cur))"

fun hasOrPredicate :: "pnode \<Rightarrow> bool" where
  "hasOrPredicate NullNode = False"
| "hasOrPredicate (PNode a t op e v cs) = (op = OP_OR \<or> list_ex hasOrPredicate cs)"

definition combineAnd :: "pnode \<times> pnode \<Rightarrow> nat \<Rightarrow> err + pnode \<times> nat" where
  "combineAnd lr cur = newExprNode OP_AND [] [fst lr, snd lr] cur"

fun collectOrOperators :: "pnode \<Rightarrow> nat \<Rightarrow> err + pnode list \<times> nat" where
  "collectOrOperators NullNode cur = Inl (Stuck ''collectOrOperators'')"
| "collectOrOperators (PNode a t op e v cs) cur =
     (if t \<noteq> NT_OP then Inl (ParseException (''Unsupported predicate '' @ e))
      else if op = OP_AND then
        (if \<not> hasOrPredicate (PNode a t op e v cs) then Inr ([PNode a t op e v cs], cur)
         else (case cs of
             l # r # _ \<Rightarrow>
               bindR (collectOrOperators l cur) (\<lambda>(left, cur1).
               bindR (collectOrOperators r cur1) (\<lambda>(right, cur2).
               traverseS combineAnd (List.product left right) cur2))
           | _ \<Rightarrow> Inl (Stuck ''collectOrOperators'')))
      else if op = OP_OR then
        mapR (\<lambda>(ops, cur'). (concat ops, cur')) (traverseS collectOrOperators cs cur)
      else Inr ([PNode a t op e v cs], cur))"

definition liftOrPredicate :: "pnode \<Rightarrow> nat \<Rightarrow> err + pnode \<times> nat" where
  "liftOrPredicate pParent cur =
     bindR (collectOrOperators pParent cur) (\<lambda>(operators, cur').
       newParseNode NT_OP OP_OR (n_expr pParent) operators cur')"

text \<open>The predicate case of \<open>rewrite\<close>.\<close>

definition rewritePredicate :: "pnode \<Rightarrow> nat \<Rightarrow> err + pnode \<times> nat" where
  "rewritePredicate pNode cur =
     bindR (rewriteOp pNode cur) (\<lambda>((n, hasOr), cur').
       if hasOr then liftOrPredicate n cur' else Inr (n, cur'))"

lemma collectElements_size:
  "collectElements nm n = Inr xs \<Longrightarrow> x \<in> set xs \<Longrightarrow> size x \<le> size n"
proof (induction nm n arbitrary: x xs rule: collectElements.induct)
  case (2 nm a t op e v cs)
  show ?case
  proof (cases "t = NT_LIST \<and> v = nm")
    case True
    with "2.prems" obtain yss ys where
      yss: "traverseR (collectElements nm) cs = Inr yss" "ys \<in> set yss" "x \<in> set ys"
      by auto
    from yss(1,2) obtain c where c: "c \<in> set cs" "collectElements nm c = Inr ys"
      by (rule traverseR_set)
    from "2.IH" [OF True c yss(3)] show ?thesis
      using size_child_less [of c "PNode a t op e v cs"] c(1) by simp
  next
    case False
    then show ?thesis using "2.prems" by auto
  qed
qed simp

lemma collectElements_child_size:
  assumes "collectElements (n_value n) n = Inr xs" "n_type n = NT_LIST" "x \<in> set xs"
  shows "size x < size n"
proof (cases n)
  case (PNode a t op e v cs)
  with assms obtain yss ys where
    yss: "traverseR (collectElements v) cs = Inr yss" "ys \<in> set yss" "x \<in> set ys"
    by auto
  from yss(1,2) obtain c where c: "c \<in> set cs" "collectElements v c = Inr ys"
    by (rule traverseR_set)
  from collectElements_size [OF c(2) yss(3)]
  show ?thesis using size_child_less [of c n] c(1) PNode by simp
qed (use assms in simp)

lemma rewriteList_Inr:
  assumes "rewriteList n cur = Inr (n', cur')"
  obtains xs where "collectElements (n_value n) n = Inr xs" "n_children n' = xs"
    "n_type n' = NT_LIST" "n_value n' = n_value n" "n_op n' = OP_NONE" "n_expr n' = n_expr n"
    "cur \<le> cur'" "cur' \<le> BLOCK_SIZE"
  using assms
  by (auto simp: rewriteList_def Let_def setString_def dest!: newParseNode_Inr)

text \<open>
  \<open>QueryRewritter::rewrite\<close>.  A list node is flattened first and its elements are rewritten
  then; every other node that is not a predicate has its children rewritten in place.
\<close>

function rewrite :: "pnode \<Rightarrow> nat \<Rightarrow> err + pnode \<times> nat" where
  "rewrite NullNode cur = Inr (NullNode, cur)"
| "rewrite (PNode a t op e v cs) cur =
     (if t = NT_LIST then
        bindR (rewriteList (PNode a t op e v cs) cur) (\<lambda>(n, cur1).
        mapR (\<lambda>(cs', cur2). (PNode (n_id n) (n_type n) (n_op n) (n_expr n) (n_value n) cs', cur2))
          (traverseS rewrite (n_children n) cur1))
      else if t = NT_OP then rewritePredicate (PNode a t op e v cs) cur
      else mapR (\<lambda>(cs', cur'). (PNode a t op e v cs', cur')) (traverseS rewrite cs cur))"
  by pat_completeness auto
termination
proof (relation "measure (\<lambda>(n, _). size n)", goal_cases)
  case 1
  then show ?case by simp
next
  case (2 a t op e v cs cur x y z c s)
  from 2(2) have "rewriteList (PNode a t op e v cs) cur = Inr (y, z)" using 2(3) by simp
  then obtain xs where "collectElements v (PNode a t op e v cs) = Inr xs" "n_children y = xs"
    by (auto elim: rewriteList_Inr)
  then show ?case
    using collectElements_child_size [of "PNode a t op e v cs" xs c] 2(1,4) by simp
next
  case (3 a t op e v cs cur x s)
  then show ?case using size_child_less [of x "PNode a t op e v cs"] by simp
qed

section \<open>Flattening\<close>

text \<open>The elements of a left- or right-nested list, in order.\<close>

fun listElements :: "string \<Rightarrow> pnode \<Rightarrow> pnode list" where
  "listElements nm NullNode = []"
| "listElements nm (PNode a t op e v cs) =
     (if t = NT_LIST \<and> v = nm then concat (map (listElements nm) cs) else [PNode a t op e v cs])"

lemma collectElements_listElements:
  "collectElements nm n = Inr xs \<Longrightarrow> xs = listElements nm n"
proof (induction nm n arbitrary: xs rule: collectElements.induct)
  case (2 nm a t op e v cs)
  show ?case
  proof (cases "t = NT_LIST \<and> v = nm")
    case True
    with "2.prems" obtain yss where yss: "traverseR (collectElements nm) cs = Inr yss" "xs = concat yss"
      by auto
    have "yss = map (listElements nm) cs"
      by (rule traverseR_eq_map [OF yss(1)]) (rule "2.IH" [OF True])
    then show ?thesis using True yss(2) by simp
  next
    case False
    then show ?thesis using "2.prems" by auto
  qed
qed simp

lemma listElements_flat:
  "x \<in> set (listElements nm n) \<Longrightarrow> \<not> (n_type x = NT_LIST \<and> n_value x = nm)"
  by (induction nm n rule: listElements.induct) (auto split: if_splits)

section \<open>Meaning of a predicate\<close>

text \<open>
  A valuation says which comparisons hold on a row; \<open>holds\<close> reads a predicate over it as SQL
  does: \<open>x IN (c1, \<dots>)\<close> is some \<open>x = ci\<close> and \<open>x NOT IN (c1, \<dots>)\<close> is all of \<open>x != ci\<close>.
\<close>

type_synonym valuation = "Operation \<Rightarrow> pnode \<Rightarrow> pnode \<Rightarrow> bool"

definition atom_holds :: "valuation \<Rightarrow> Operation \<Rightarrow> pnode list \<Rightarrow> bool" where
  "atom_holds v op cs = (case cs of
       l # r # _ \<Rightarrow>
         (if op = COMP_IN then list_ex (v COMP_EQ l) (listElements (n_value r) r)
          else if op = COMP_NOT_IN then list_all (v COMP_NE l) (listElements (n_value r) r)
          else v op l r)
     | _ \<Rightarrow> False)"

fun holds :: "valuation \<Rightarrow> pnode \<Rightarrow> bool" where
  "holds v NullNode = False"
| "holds v (PNode a t op e val cs) =
     (if op = OP_AND then list_all (holds v) cs
      else if op = OP_OR then list_ex (holds v) cs
      else atom_holds v op cs)"

text \<open>
  What the grammar guarantees of a predicate: \<open>AND\<close> has two operands.  \<open>simple_not_in\<close> says
  that every \<open>NOT IN\<close> has a single value.
\<close>

fun binary_and :: "pnode \<Rightarrow> bool" where
  "binary_and NullNode = True"
| "binary_and (PNode a t op e v cs) =
     ((op = OP_AND \<longrightarrow> length cs = 2) \<and> (op = OP_AND \<or> op = OP_OR \<longrightarrow> list_all binary_and cs))"

fun simple_not_in :: "pnode \<Rightarrow> bool" where
  "simple_not_in NullNode = True"
| "simple_not_in (PNode a t op e v cs) =
     ((op = OP_AND \<or> op = OP_OR \<longrightarrow> list_all simple_not_in cs) \<and>
      (op = COMP_NOT_IN \<longrightarrow> length (listElements (n_value (cs ! 1)) (cs ! 1)) = 1))"

text \<open>The shape the plan builder needs: no \<open>OR\<close> below \<open>AND\<close>, and at most one, at the root.\<close>

fun no_or :: "pnode \<Rightarrow> bool" where
  "no_or NullNode = True"
| "no_or (PNode a t op e v cs) = (op \<noteq> OP_OR \<and> (op = OP_AND \<longrightarrow> list_all no_or cs))"

definition disjunctive :: "pnode \<Rightarrow> bool" where
  "disjunctive n = (if n_op n = OP_OR then list_all no_or (n_children n) else no_or n)"

section \<open>Correctness of the expansion of IN\<close>

lemma rewriteElement_Inr:
  assumes "rewriteElement isin l c cur = Inr (n, cur')"
  shows "n_op n = (if isin then COMP_EQ else COMP_NE)" "n_type n = NT_OP" "n_children n = [l, c]"
    "isConst c" "cur \<le> cur'" "cur' \<le> BLOCK_SIZE"
  using assms
  by (auto simp: rewriteElement_def Let_def split: if_splits dest!: newExprNode_Inr pr_concate_Inr)

lemma rewriteElement_holds:
  assumes "rewriteElement isin l c cur = Inr (n, cur')"
  shows "holds v n = v (if isin then COMP_EQ else COMP_NE) l c" "no_or n" "binary_and n"
  using rewriteElement_Inr(1,3) [OF assms] by (cases n; simp add: atom_holds_def split: if_splits)+

lemma rewriteInOrNotIN_elements:
  assumes "rewriteInOrNotIN n isin cur = Inr (n', cur')"
  obtains l r rest ns cur1 cur2 where
    "n_children n = l # r # rest"
    "list_all2 (\<lambda>c m. n_type m = NT_OP \<and> no_or m \<and> binary_and m \<and> isConst c \<and>
       (\<forall>v. holds v m = v (if isin then COMP_EQ else COMP_NE) l c)) (listElements (n_value r) r) ns"
    "if length ns = 1 then n' = hd ns \<and> cur' = cur2
     else newParseNode NT_OP OP_OR (n_expr n) ns cur2 = Inr (n', cur')"
    "cur \<le> cur1" "cur1 \<le> BLOCK_SIZE"
    "traverseS (rewriteElement isin l) (listElements (n_value r) r) cur1 = Inr (ns, cur2)"
proof -
  from assms obtain l r pv cur1 ns cur2 where
    ch: "getChild n 0 = Inr l" "getChild n 1 = Inr r" and
    rl: "rewriteList r cur = Inr (pv, cur1)" and
    ts: "traverseS (rewriteElement isin l) (n_children pv) cur1 = Inr (ns, cur2)" and
    fin: "if length ns = 1 then n' = hd ns \<and> cur' = cur2
       else newParseNode NT_OP OP_OR (n_expr n) ns cur2 = Inr (n', cur')"
    by (auto simp: rewriteInOrNotIN_def split: if_splits)
  from rl obtain xs where "collectElements (n_value r) r = Inr xs" "n_children pv = xs"
    and c: "cur \<le> cur1" "cur1 \<le> BLOCK_SIZE"
    by (auto elim: rewriteList_Inr)
  then have pv: "n_children pv = listElements (n_value r) r"
    by (simp add: collectElements_listElements)
  obtain rest where "n_children n = l # r # rest"
    using ch by (cases "n_children n"; cases "tl (n_children n)") (auto simp: getChild_def split: if_splits)
  moreover have "list_all2 (\<lambda>c m. n_type m = NT_OP \<and> no_or m \<and> binary_and m \<and> isConst c \<and>
       (\<forall>v. holds v m = v (if isin then COMP_EQ else COMP_NE) l c)) (listElements (n_value r) r) ns"
  proof (rule traverseS_list_all2 [OF ts [unfolded pv]])
    fix c s m s'
    assume e: "rewriteElement isin l c s = Inr (m, s')"
    show "n_type m = NT_OP \<and> no_or m \<and> binary_and m \<and> isConst c \<and>
       (\<forall>v. holds v m = v (if isin then COMP_EQ else COMP_NE) l c)"
      using rewriteElement_Inr(2,4) [OF e] rewriteElement_holds [OF e] by blast
  qed
  ultimately show ?thesis using that fin c ts pv by auto
qed

lemma list_ex_list_all2:
  assumes "list_all2 (\<lambda>x y. Q y = P x) xs ys"
  shows "list_ex Q ys = list_ex P xs" "list_all Q ys = list_all P xs"
  using assms by (induction rule: list_all2_induct) auto

lemma list_all2_right:
  assumes "list_all2 (\<lambda>x y. Q y) xs ys"
  shows "list_all Q ys"
  using assms by (induction rule: list_all2_induct) auto

lemma rewriteInOrNotIN_shape:
  assumes "rewriteInOrNotIN n isin cur = Inr (n', cur')"
  shows "disjunctive n'" "binary_and n'" "n_type n' = NT_OP" "n' \<noteq> NullNode"
    "n_op n' = OP_OR \<longrightarrow> (\<forall>c \<in> set (n_children n'). n_type c = NT_OP \<and> no_or c)"
    "n_op n' \<noteq> OP_OR \<longrightarrow> no_or n'"
proof -
  from assms obtain l r ns cur2 where
    ns: "list_all2 (\<lambda>c m. n_type m = NT_OP \<and> no_or m \<and> binary_and m \<and> isConst c \<and>
       (\<forall>v. holds v m = v (if isin then COMP_EQ else COMP_NE) l c)) (listElements (n_value r) r) ns"
    and fin: "if length ns = 1 then n' = hd ns \<and> cur' = cur2
       else newParseNode NT_OP OP_OR (n_expr n) ns cur2 = Inr (n', cur')"
    by (rule rewriteInOrNotIN_elements) blast
  have all: "list_all (\<lambda>m. n_type m = NT_OP \<and> no_or m \<and> binary_and m) ns"
    by (rule list_all2_right [OF list_all2_mono [OF ns]]) blast
  have *: "disjunctive n' \<and> binary_and n' \<and> n_type n' = NT_OP \<and> n' \<noteq> NullNode \<and>
    (n_op n' = OP_OR \<longrightarrow> (\<forall>c \<in> set (n_children n'). n_type c = NT_OP \<and> no_or c)) \<and>
    (n_op n' \<noteq> OP_OR \<longrightarrow> no_or n')"
  proof (cases "length ns = 1")
    case True
    then obtain m where m: "ns = [m]" by (cases ns) auto
    then have "n' = m" "n_type m = NT_OP" "no_or m" "binary_and m" using fin all by auto
    then show ?thesis by (cases m) (auto simp: disjunctive_def)
  next
    case False
    then have "newParseNode NT_OP OP_OR (n_expr n) ns cur2 = Inr (n', cur')" using fin by simp
    from newParseNode_Inr [OF this] show ?thesis using all
      by (auto simp: disjunctive_def list_all_iff)
  qed
  show "disjunctive n'" "binary_and n'" "n_type n' = NT_OP" "n' \<noteq> NullNode"
    "n_op n' = OP_OR \<longrightarrow> (\<forall>c \<in> set (n_children n'). n_type c = NT_OP \<and> no_or c)"
    "n_op n' \<noteq> OP_OR \<longrightarrow> no_or n'"
    using * by blast+
qed

lemma rewriteInOrNotIN_holds:
  assumes "rewriteInOrNotIN n isin cur = Inr (n', cur')"
    and "n_children n = l # r # rest"
  shows "holds v n' = list_ex (v (if isin then COMP_EQ else COMP_NE) l) (listElements (n_value r) r)"
proof -
  from assms obtain ns cur2 where
    ns: "list_all2 (\<lambda>c m. n_type m = NT_OP \<and> no_or m \<and> binary_and m \<and> isConst c \<and>
       (\<forall>v. holds v m = v (if isin then COMP_EQ else COMP_NE) l c)) (listElements (n_value r) r) ns"
    and fin: "if length ns = 1 then n' = hd ns \<and> cur' = cur2
       else newParseNode NT_OP OP_OR (n_expr n) ns cur2 = Inr (n', cur')"
    by - (erule rewriteInOrNotIN_elements, simp)
  have "list_all2 (\<lambda>c m. holds v m = v (if isin then COMP_EQ else COMP_NE) l c)
      (listElements (n_value r) r) ns"
    by (rule list_all2_mono [OF ns]) simp
  from list_ex_list_all2(1) [OF this]
  have ex: "list_ex (holds v) ns = list_ex (v (if isin then COMP_EQ else COMP_NE) l) (listElements (n_value r) r)" .
  show ?thesis
  proof (cases "length ns = 1")
    case True
    then obtain m where "ns = [m]" by (cases ns) auto
    then show ?thesis using fin ex by simp
  next
    case False
    then have "newParseNode NT_OP OP_OR (n_expr n) ns cur2 = Inr (n', cur')" using fin by simp
    from newParseNode_Inr [OF this] show ?thesis using ex by simp
  qed
qed

section \<open>Correctness of rewriteOp\<close>

definition op_rewritten :: "pnode \<Rightarrow> pnode \<times> bool \<Rightarrow> bool" where
  "op_rewritten n r \<longleftrightarrow>
     (binary_and n \<longrightarrow> binary_and (fst r)) \<and> (\<not> snd r \<longrightarrow> no_or (fst r)) \<and>
     (n_type n = NT_OP \<longrightarrow> n_type (fst r) = NT_OP) \<and> fst r \<noteq> NullNode \<and>
     (simple_not_in n \<longrightarrow> (\<forall>v. holds v (fst r) = holds v n))"

lemma op_rewritten_list:
  assumes "list_all2 op_rewritten cs rs"
  shows "list_all binary_and cs \<Longrightarrow> list_all binary_and (map fst rs)"
    "\<not> list_ex snd rs \<Longrightarrow> list_all no_or (map fst rs)"
    "list_all simple_not_in cs \<Longrightarrow> list_all (holds v) (map fst rs) = list_all (holds v) cs"
    "list_all simple_not_in cs \<Longrightarrow> list_ex (holds v) (map fst rs) = list_ex (holds v) cs"
  using assms by (induction rule: list_all2_induct) (auto simp: op_rewritten_def)

lemma rewriteInOrNotIN_rewritten:
  assumes "rewriteInOrNotIN (PNode a NT_OP op e v cs) isin cur = Inr (n', cur')"
    and "op = (if isin then COMP_IN else COMP_NOT_IN)"
  shows "op_rewritten (PNode a NT_OP op e v cs) (n', n_op n' = OP_OR)"
proof -
  obtain l r rest where cs: "cs = l # r # rest"
    using assms(1) by (rule rewriteInOrNotIN_elements) simp
  have h: "holds w n' = list_ex (w (if isin then COMP_EQ else COMP_NE) l) (listElements (n_value r) r)" for w
    using rewriteInOrNotIN_holds [OF assms(1), of l r rest w] cs by simp
  have eq: "holds w n' = holds w (PNode a NT_OP op e v cs)"
    if "simple_not_in (PNode a NT_OP op e v cs)" for w
  proof (cases isin)
    case True
    then show ?thesis using assms(2) h [of w] cs by (simp add: atom_holds_def)
  next
    case False
    then have "length (listElements (n_value r) r) = 1" using that assms(2) cs by simp
    then obtain c where "listElements (n_value r) r = [c]"
      by (cases "listElements (n_value r) r") auto
    then show ?thesis using False assms(2) h [of w] cs by (simp add: atom_holds_def)
  qed
  show ?thesis
    using rewriteInOrNotIN_shape [OF assms(1)] eq by (simp add: op_rewritten_def)
qed

lemma rewriteInOrNotIN_any_type:
  assumes "rewriteInOrNotIN (PNode a t op e v cs) isin cur = Inr (n', cur')"
  shows "rewriteInOrNotIN (PNode a NT_OP op e v cs) isin cur = Inr (n', cur')"
  using assms by (simp add: rewriteInOrNotIN_def getChild_def cong: if_cong)

lemma rewriteOp_rewritten:
  "rewriteOp n cur = Inr (r, cur') \<Longrightarrow> op_rewritten n r"
proof (induction n cur arbitrary: r cur' rule: rewriteOp.induct)
  case (2 a t op e v cs cur)
  consider (logic) "op = OP_OR \<or> op = OP_AND" | (inop) "op = COMP_IN" | (notin) "op = COMP_NOT_IN"
    | (other) "op \<notin> {OP_OR, OP_AND, COMP_IN, COMP_NOT_IN}" by auto
  then show ?case
  proof cases
    case logic
    with "2.prems" obtain rs where
      ts: "traverseS rewriteOp cs cur = Inr (rs, cur')" and
      r: "r = (PNode a t op e v (map fst rs), op = OP_OR \<or> list_ex snd rs)"
      by auto
    have rs: "list_all2 op_rewritten cs rs"
      by (rule traverseS_list_all2 [OF ts]) (rule "2.IH" [OF logic])
    show ?thesis
      using logic op_rewritten_list [OF rs] list_all2_lengthD [OF rs]
      by (auto simp: op_rewritten_def r)
  next
    case inop
    with "2.prems" obtain n' where
      "rewriteInOrNotIN (PNode a t op e v cs) True cur = Inr (n', cur')" "r = (n', n_op n' = OP_OR)"
      by auto
    then show ?thesis
      using rewriteInOrNotIN_rewritten [OF rewriteInOrNotIN_any_type] inop
      by (fastforce simp: op_rewritten_def)
  next
    case notin
    with "2.prems" obtain n' where
      "rewriteInOrNotIN (PNode a t op e v cs) False cur = Inr (n', cur')" "r = (n', n_op n' = OP_OR)"
      by auto
    then show ?thesis
      using rewriteInOrNotIN_rewritten [OF rewriteInOrNotIN_any_type] notin
      by (fastforce simp: op_rewritten_def)
  next
    case other
    with "2.prems" have "r = (PNode a t op e v cs, False)" by auto
    then show ?thesis using other by (simp add: op_rewritten_def)
  qed
qed simp

section \<open>Correctness of the lifting\<close>

lemma not_hasOr_no_or: "\<not> hasOrPredicate n \<Longrightarrow> no_or n"
  by (induction n rule: hasOrPredicate.induct) (auto simp: list_all_iff list_ex_iff)

lemma combineAnd_Inr:
  assumes "combineAnd lr cur = Inr (n, cur')"
  shows "n_type n = NT_OP" "n_op n = OP_AND" "n_children n = [fst lr, snd lr]"
  using assms by (auto simp: combineAnd_def dest!: newExprNode_Inr)

definition operator_ok :: "pnode \<Rightarrow> bool" where
  "operator_ok n \<longleftrightarrow> n_type n = NT_OP \<and> no_or n"

lemma combineAnd_product:
  assumes "traverseS combineAnd (List.product left right) cur = Inr (ops, cur')"
    and "list_all operator_ok left" "list_all operator_ok right"
  shows "list_all operator_ok ops"
    "list_ex (holds v) ops \<longleftrightarrow> list_ex (holds v) left \<and> list_ex (holds v) right"
proof -
  have rel: "list_all2 (\<lambda>lr m. m \<noteq> NullNode \<and> n_type m = NT_OP \<and> n_op m = OP_AND \<and> n_children m = [fst lr, snd lr])
      (List.product left right) ops"
    by (rule traverseS_list_all2 [OF assms(1)]) (auto dest: combineAnd_Inr)
  have ok: "operator_ok l" "operator_ok r" if "(l, r) \<in> set (List.product left right)" for l r
    using that assms(2,3) by (auto simp: list_all_iff)
  show "list_all operator_ok ops"
  proof (rule list_all2_right)
    show "list_all2 (\<lambda>x. operator_ok) (List.product left right) ops"
    proof (rule list.rel_mono_strong [OF rel])
      fix lr m
      assume "lr \<in> set (List.product left right)" "m \<noteq> NullNode \<and> n_type m = NT_OP \<and> n_op m = OP_AND \<and> n_children m = [fst lr, snd lr]"
      then show "operator_ok m"
        using ok [of "fst lr" "snd lr"] by (cases m) (auto simp: operator_ok_def)
    qed
  qed
  have "list_all2 (\<lambda>lr m. holds v m = (holds v (fst lr) \<and> holds v (snd lr))) (List.product left right) ops"
  proof (rule list_all2_mono [OF rel])
    fix lr m
    assume "m \<noteq> NullNode \<and> n_type m = NT_OP \<and> n_op m = OP_AND \<and> n_children m = [fst lr, snd lr]"
    then show "holds v m = (holds v (fst lr) \<and> holds v (snd lr))" by (cases m) auto
  qed
  from list_ex_list_all2(1) [OF this]
  show "list_ex (holds v) ops \<longleftrightarrow> list_ex (holds v) left \<and> list_ex (holds v) right"
    by (auto simp: list_ex_iff)
qed

definition operators_of :: "pnode \<Rightarrow> pnode list \<Rightarrow> bool" where
  "operators_of n ops \<longleftrightarrow> list_all operator_ok ops \<and> (\<forall>v. list_ex (holds v) ops = holds v n)"

lemma operators_of_concat:
  "list_all2 operators_of cs opss \<Longrightarrow>
     list_all operator_ok (concat opss) \<and> list_ex (holds v) (concat opss) = list_ex (holds v) cs"
  by (induction rule: list_all2_induct) (auto simp: operators_of_def list_ex_iff)

lemma collectOrOperators_correct:
  "collectOrOperators n cur = Inr (ops, cur') \<Longrightarrow> binary_and n \<Longrightarrow> operators_of n ops"
proof (induction n cur arbitrary: ops cur' rule: collectOrOperators.induct)
  case (2 a t op e v cs cur)
  let ?n = "PNode a t op e v cs"
  have t: "t = NT_OP" using "2.prems"(1) by (auto split: if_splits)
  consider (plain) "op = OP_AND" "\<not> hasOrPredicate ?n" | (conj) "op = OP_AND" "hasOrPredicate ?n"
    | (disj) "op = OP_OR" | (atom) "op \<noteq> OP_AND" "op \<noteq> OP_OR" by auto
  then show ?case
  proof cases
    case plain
    then have "ops = [?n]" using "2.prems"(1) t by auto
    then show ?thesis using t not_hasOr_no_or [OF plain(2)] by (simp add: operators_of_def operator_ok_def)
  next
    case conj
    then obtain l r where cs: "cs = [l, r]" using "2.prems"(2) by (auto simp: length_Suc_conv numeral_2_eq_2)
    obtain left cur1 right cur2 where
      l: "collectOrOperators l cur = Inr (left, cur1)" and
      r: "collectOrOperators r cur1 = Inr (right, cur2)" and
      p: "traverseS combineAnd (List.product left right) cur2 = Inr (ops, cur')"
      using "2.prems"(1) conj t cs by auto
    have "operators_of l left"
      using "2.IH"(1) [OF _ conj(1) _ cs] "2.prems"(2) conj t l cs by simp
    moreover have "operators_of r right"
      using "2.IH"(2) [OF _ conj(1) _ cs] "2.prems"(2) conj t l r cs by simp
    ultimately show ?thesis
      using combineAnd_product [OF p] conj(1) cs by (simp add: operators_of_def)
  next
    case disj
    then obtain opss where
      ts: "traverseS collectOrOperators cs cur = Inr (opss, cur')" and ops: "ops = concat opss"
      using "2.prems"(1) t by auto
    have "list_all2 operators_of cs opss"
    proof (rule traverseS_list_all2 [OF ts])
      fix c s os s'
      assume "c \<in> set cs" "collectOrOperators c s = Inr (os, s')"
      then show "operators_of c os"
        using "2.IH"(3) [of c s os s'] "2.prems"(2) disj t by (auto simp: list_all_iff)
    qed
    from operators_of_concat [OF this] show ?thesis using disj by (simp add: operators_of_def ops)
  next
    case atom
    then have "ops = [?n]" using "2.prems"(1) t by auto
    then show ?thesis using t atom by (simp add: operators_of_def operator_ok_def)
  qed
qed simp

section \<open>The rewritten predicate\<close>

lemma rewritePredicate_operators:
  assumes "rewritePredicate n cur = Inr (n', cur')" "n_type n = NT_OP" "binary_and n"
  shows "disjunctive n'" "n_type n' = NT_OP"
    "simple_not_in n \<Longrightarrow> holds v n' = holds v n"
    "n_op n' = OP_OR \<Longrightarrow> list_all operator_ok (n_children n')"
proof -
  from assms(1) obtain m hasOr cur1 where
    ro: "rewriteOp n cur = Inr ((m, hasOr), cur1)" and
    fin: "if hasOr then liftOrPredicate m cur1 = Inr (n', cur') else n' = m \<and> cur' = cur1"
    by (auto simp: rewritePredicate_def split: if_splits)
  have m: "binary_and m" "\<not> hasOr \<Longrightarrow> no_or m" "n_type m = NT_OP" "m \<noteq> NullNode"
    "simple_not_in n \<Longrightarrow> holds v m = holds v n"
    using rewriteOp_rewritten [OF ro] assms(2,3) by (auto simp: op_rewritten_def)
  have *: "disjunctive n' \<and> n_type n' = NT_OP \<and> (holds v n' = holds v m) \<and>
      (n_op n' = OP_OR \<longrightarrow> list_all operator_ok (n_children n'))"
  proof (cases hasOr)
    case True
    with fin obtain ops cur2 where
      ops: "collectOrOperators m cur1 = Inr (ops, cur2)" and
      n': "newParseNode NT_OP OP_OR (n_expr m) ops cur2 = Inr (n', cur')"
      by (auto simp: liftOrPredicate_def)
    from collectOrOperators_correct [OF ops m(1)] newParseNode_Inr [OF n']
    show ?thesis
      by (auto simp: operators_of_def disjunctive_def list_all_iff operator_ok_def)
  next
    case False
    then have "n' = m" "no_or m" using fin m(2) by auto
    then show ?thesis using m(3,4) by (cases m) (auto simp: disjunctive_def)
  qed
  show "disjunctive n'" "n_type n' = NT_OP" "simple_not_in n \<Longrightarrow> holds v n' = holds v n"
    "n_op n' = OP_OR \<Longrightarrow> list_all operator_ok (n_children n')"
    using * m(5) by blast+
qed

lemma rewrite_predicate:
  "n_type n = NT_OP \<Longrightarrow> rewrite n cur = rewritePredicate n cur"
  by (cases n) simp_all

text \<open>
  C4.  Rewriting keeps the meaning of a predicate: under every valuation of the comparisons
  the rewritten tree holds exactly when the parsed one does, provided no \<open>NOT IN\<close> of the
  predicate has more than one value.
\<close>

theorem rewrite_preserves_meaning:
  assumes "rewrite n cur = Inr (n', cur')" "n_type n = NT_OP" "binary_and n" "simple_not_in n"
  shows "holds v n' = holds v n"
  using assms rewritePredicate_operators(3) [of n cur n' cur' v] by (simp add: rewrite_predicate)


text \<open>A concrete predicate: \<open>(a = 1 or b = 2) and c in (3, 4)\<close>.\<close>

definition ex_name :: "string \<Rightarrow> pnode" where "ex_name s = PNode 0 NT_NAME OP_NONE s s []"
definition ex_int :: "string \<Rightarrow> pnode" where "ex_int s = PNode 0 NT_INT OP_NONE s s []"
definition ex_op :: "Operation \<Rightarrow> string \<Rightarrow> pnode list \<Rightarrow> pnode" where
  "ex_op op e cs = PNode 0 NT_OP op e [] cs"
definition ex_list :: "string \<Rightarrow> pnode list \<Rightarrow> pnode" where
  "ex_list nm cs = PNode 0 NT_LIST OP_NONE [] nm cs"

definition ex_pred :: pnode where
  "ex_pred = ex_op OP_AND ''p''
     [ex_op OP_OR ''q'' [ex_op COMP_EQ ''a=1'' [ex_name ''a'', ex_int ''1''],
                         ex_op COMP_EQ ''b=2'' [ex_name ''b'', ex_int ''2'']],
      ex_op COMP_IN ''c in (3,4)''
        [ex_name ''c'', ex_list ''ValueList'' [ex_int ''3'', ex_list ''ValueList'' [ex_int ''4'']]]]"

lemma ex_pred_wf: "n_type ex_pred = NT_OP" "binary_and ex_pred" "simple_not_in ex_pred"
  by (simp_all add: ex_pred_def ex_op_def ex_name_def ex_int_def ex_list_def)

definition yields :: "err + pnode \<times> nat \<Rightarrow> (pnode \<Rightarrow> bool) \<Rightarrow> bool" where
  "yields r P = (case r of Inl _ \<Rightarrow> False | Inr (n, _) \<Rightarrow> P n)"

lemma yieldsE: "yields r P \<Longrightarrow> \<exists>n cur. r = Inr (n, cur) \<and> P n"
  by (cases r) (auto simp: yields_def)

lemmas rewriter_eval =
  yields_def rewritePredicate_def rewriteInOrNotIN_def rewriteElement_def rewriteList_def
  liftOrPredicate_def combineAnd_def getChild_def isConst_def setString_def
  newExprNode_def newParseNode_def pr_alloc_def pr_concate_def BLOCK_SIZE_def node_size_def
  ptr_size_def ex_name_def ex_int_def ex_op_def ex_list_def

lemma ex_pred_yields: "yields (rewrite ex_pred 100) (\<lambda>n. length (n_children n) = 4)"
  by (simp add: ex_pred_def rewriter_eval)

lemmas ex_pred_rewrite = yieldsE [OF ex_pred_yields]

theorem rewrite_preserves_meaning_witness:
  "\<exists>n' cur'. rewrite ex_pred 100 = Inr (n', cur') \<and> (\<forall>v. holds v n' = holds v ex_pred)"
  using ex_pred_rewrite ex_pred_wf rewrite_preserves_meaning by blast


text \<open>
  C36.  \<open>NOT IN\<close> with two or more different values is rewritten into an \<open>OR\<close> of
  inequalities, which holds of every row: whatever the value of the left side, it differs
  from one of two values it cannot equal at once.
\<close>

theorem rewrite_not_in_is_trivial:
  assumes "rewrite (PNode a NT_OP COMP_NOT_IN e val (l # r # rest)) cur = Inr (n', cur')"
    and "c1 \<in> set (listElements (n_value r) r)" "c2 \<in> set (listElements (n_value r) r)"
    and "\<not> (v COMP_EQ l c1 \<and> v COMP_EQ l c2)"
    and "\<And>c. v COMP_NE l c = (\<not> v COMP_EQ l c)"
  shows "holds v n'"
proof -
  let ?n = "PNode a NT_OP COMP_NOT_IN e val (l # r # rest)"
  have "\<exists>m. rewriteInOrNotIN ?n False cur = Inr (m, cur') \<and> n' = m \<or>
      (\<exists>m cur1. rewriteInOrNotIN ?n False cur = Inr (m, cur1) \<and> n_op m = OP_OR \<and>
         liftOrPredicate m cur1 = Inr (n', cur'))"
    using assms(1) by (auto simp: rewritePredicate_def split: if_splits)
  then obtain m cur1 where m: "rewriteInOrNotIN ?n False cur = Inr (m, cur1)"
    and n': "n' = m \<or> liftOrPredicate m cur1 = Inr (n', cur')" by blast
  have "holds v m"
    using rewriteInOrNotIN_holds [OF m, of l r rest v] assms(2-5) by (auto simp: list_ex_iff)
  moreover have "holds v n' = holds v m"
    using n'
  proof
    assume "liftOrPredicate m cur1 = Inr (n', cur')"
    then obtain ops cur2 where
      ops: "collectOrOperators m cur1 = Inr (ops, cur2)" and
      new: "newParseNode NT_OP OP_OR (n_expr m) ops cur2 = Inr (n', cur')"
      by (auto simp: liftOrPredicate_def)
    from collectOrOperators_correct [OF ops rewriteInOrNotIN_shape(2) [OF m]] newParseNode_Inr [OF new]
    show ?thesis by (simp add: operators_of_def)
  qed simp
  ultimately show ?thesis by simp
qed

definition ex_not_in :: "pnode list" where
  "ex_not_in = [ex_name ''a'', ex_list ''ValueList'' [ex_int ''1'', ex_list ''ValueList'' [ex_int ''2'']]]"

lemma ex_not_in_yields: "yields (rewrite (PNode 0 NT_OP COMP_NOT_IN ''e'' [] ex_not_in) 0) (\<lambda>_. True)"
  by (simp add: ex_not_in_def rewriter_eval)

theorem rewrite_not_in_is_trivial_witness:
  "\<exists>n' cur'. rewrite (PNode 0 NT_OP COMP_NOT_IN ''e'' [] ex_not_in) 0 = Inr (n', cur') \<and>
     holds (\<lambda>op l c. (op = COMP_NE) \<noteq> (c = ex_int ''1'')) n' \<and>
     \<not> holds (\<lambda>op l c. (op = COMP_NE) \<noteq> (c = ex_int ''1'')) (PNode 0 NT_OP COMP_NOT_IN ''e'' [] ex_not_in)"
proof -
  let ?v = "\<lambda>op l c. (op = COMP_NE) \<noteq> (c = ex_int ''1'')"
  let ?r = "ex_list ''ValueList'' [ex_int ''1'', ex_list ''ValueList'' [ex_int ''2'']]"
  obtain n' cur' where r: "rewrite (PNode 0 NT_OP COMP_NOT_IN ''e'' [] ex_not_in) 0 = Inr (n', cur')"
    using yieldsE [OF ex_not_in_yields] by blast
  have els: "listElements (n_value ?r) ?r = [ex_int ''1'', ex_int ''2'']"
    by (simp add: ex_list_def ex_int_def)
  have "holds ?v n'"
    by (rule rewrite_not_in_is_trivial [OF r [unfolded ex_not_in_def], of "ex_int ''1''" "ex_int ''2''"])
      (simp_all add: els, simp add: ex_int_def)
  moreover have "\<not> holds ?v (PNode 0 NT_OP COMP_NOT_IN ''e'' [] ex_not_in)"
    using els by (simp add: ex_not_in_def atom_holds_def)
  ultimately show ?thesis using r by blast
qed

end
