(* ===== verification/Ieee.thy ===== *)
theory Ieee
  imports Prelude
begin

text \<open>
  The C++ types \<open>double\<close> and \<open>float\<close> as IEEE-754 binary64 and binary32 bit patterns: the
  comparisons, negation, conversions, addition and division the program uses, computed on
  exact integers and rounded to nearest, ties to even.  This is the language's arithmetic,
  not code of the repository, so nothing here has a source line.
\<close>

type_synonym double = "64 word"
type_synonym float32 = "32 word"

section \<open>Fields and order of a double\<close>

definition d_sign :: "double \<Rightarrow> bool" where
  "d_sign d \<longleftrightarrow> 2 ^ 63 \<le> uint d"

definition d_mag :: "double \<Rightarrow> int" where
  "d_mag d = uint d mod 2 ^ 63"

definition d_inf_mag :: int where
  "d_inf_mag = 2047 * 2 ^ 52"

definition d_is_nan :: "double \<Rightarrow> bool" where
  "d_is_nan d \<longleftrightarrow> d_inf_mag < d_mag d"

definition d_is_inf :: "double \<Rightarrow> bool" where
  "d_is_inf d \<longleftrightarrow> d_mag d = d_inf_mag"

definition mk_double :: "bool \<Rightarrow> int \<Rightarrow> double" where
  "mk_double s m = word_of_int (m + (if s then 2 ^ 63 else 0))"

text \<open>On numbers the order of doubles is the order of the signed magnitudes.\<close>

definition d_key :: "double \<Rightarrow> int" where
  "d_key d = (if d_sign d then - d_mag d else d_mag d)"

definition d_eq :: "double \<Rightarrow> double \<Rightarrow> bool" where
  "d_eq a b \<longleftrightarrow> \<not> d_is_nan a \<and> \<not> d_is_nan b \<and> d_key a = d_key b"

definition d_less :: "double \<Rightarrow> double \<Rightarrow> bool" where
  "d_less a b \<longleftrightarrow> \<not> d_is_nan a \<and> \<not> d_is_nan b \<and> d_key a < d_key b"

definition d_zero :: double where "d_zero = 0"
definition d_max :: double where "d_max = mk_double False (d_inf_mag - 1)"
definition d_lowest :: double where "d_lowest = mk_double True (d_inf_mag - 1)"
definition d_nan :: double where "d_nan = mk_double False (d_inf_mag + 2 ^ 51)"

definition d_neg :: "double \<Rightarrow> double" where
  "d_neg d = mk_double (\<not> d_sign d) (d_mag d)"

section \<open>Rounding\<close>

function bit_len :: "int \<Rightarrow> nat" where
  "bit_len n = (if n \<le> 0 then 0 else Suc (bit_len (n div 2)))"
  by pat_completeness auto
termination by (relation "measure nat") auto

declare bit_len.simps [simp del]

text \<open>
  \<open>fp_round p emin infm m e\<close> is the magnitude pattern of \<open>m * 2 ^ e\<close> rounded to \<open>p\<close>
  significant bits, with least exponent \<open>emin\<close>; \<open>infm\<close> is the pattern of infinity.
\<close>

definition fp_round :: "nat \<Rightarrow> int \<Rightarrow> int \<Rightarrow> int \<Rightarrow> int \<Rightarrow> int" where
  "fp_round p emin infm m e =
     (if m = 0 then 0
      else let e' = max (e + int (bit_len m) - int p) emin;
               q = (if e' \<le> e then m * 2 ^ nat (e - e')
                    else let s = nat (e' - e); q = m div 2 ^ s; r = m mod 2 ^ s; h = 2 ^ (s - 1)
                         in if h < r \<or> (r = h \<and> odd q) then q + 1 else q)
           in min infm ((e' - emin) * 2 ^ (p - 1) + q))"

definition fp_decode :: "nat \<Rightarrow> int \<Rightarrow> int \<Rightarrow> int \<times> int" where
  "fp_decode p emin mag =
     (let f = mag mod 2 ^ (p - 1); x = mag div 2 ^ (p - 1)
      in if x = 0 then (f, emin) else (f + 2 ^ (p - 1), x - 1 + emin))"

definition d_round :: "bool \<Rightarrow> int \<Rightarrow> int \<Rightarrow> double" where
  "d_round s m e = mk_double s (fp_round 53 (-1074) d_inf_mag m e)"

definition d_decode :: "double \<Rightarrow> int \<times> int" where
  "d_decode d = fp_decode 53 (-1074) (d_mag d)"

section \<open>Arithmetic\<close>

definition d_of_int :: "int \<Rightarrow> double" where
  "d_of_int v = d_round (v < 0) \<bar>v\<bar> 0"

definition d_add :: "double \<Rightarrow> double \<Rightarrow> double" where
  "d_add a b =
     (if d_is_nan a \<or> d_is_nan b then d_nan
      else if d_is_inf a then (if d_is_inf b \<and> d_sign a \<noteq> d_sign b then d_nan else a)
      else if d_is_inf b then b
      else let (ma, ea) = d_decode a; (mb, eb) = d_decode b; e = min ea eb;
               va = ma * 2 ^ nat (ea - e); vb = mb * 2 ^ nat (eb - e);
               v = (if d_sign a then - va else va) + (if d_sign b then - vb else vb)
           in if v = 0 then mk_double (d_sign a \<and> d_sign b) 0
              else d_round (v < 0) \<bar>v\<bar> e)"

text \<open>
  The quotient is computed with 64 extra bits and a sticky bit below them, so that the
  rounding sees on which side of a tie the exact quotient lies.
\<close>

definition d_div :: "double \<Rightarrow> double \<Rightarrow> double" where
  "d_div a b =
     (let s = (d_sign a \<noteq> d_sign b) in
      if d_is_nan a \<or> d_is_nan b then d_nan
      else if d_is_inf a then (if d_is_inf b then d_nan else mk_double s d_inf_mag)
      else if d_is_inf b then mk_double s 0
      else if d_mag b = 0 then (if d_mag a = 0 then d_nan else mk_double s d_inf_mag)
      else let (ma, ea) = d_decode a; (mb, eb) = d_decode b;
               n = ma * 2 ^ 128; q = n div mb; r = n mod mb
           in d_round s (2 * q + (if r = 0 then 0 else 1)) (ea - eb - 129))"

section \<open>Single precision\<close>

definition f_sign :: "float32 \<Rightarrow> bool" where
  "f_sign f \<longleftrightarrow> 2 ^ 31 \<le> uint f"

definition f_mag :: "float32 \<Rightarrow> int" where
  "f_mag f = uint f mod 2 ^ 31"

definition f_inf_mag :: int where
  "f_inf_mag = 255 * 2 ^ 23"

definition mk_float :: "bool \<Rightarrow> int \<Rightarrow> float32" where
  "mk_float s m = word_of_int (m + (if s then 2 ^ 31 else 0))"

definition f_to_d :: "float32 \<Rightarrow> double" where
  "f_to_d f =
     (if f_inf_mag < f_mag f then mk_double (f_sign f) (d_inf_mag + 2 ^ 51 + (f_mag f mod 2 ^ 22) * 2 ^ 29)
      else if f_mag f = f_inf_mag then mk_double (f_sign f) d_inf_mag
      else (case fp_decode 24 (-149) (f_mag f) of (m, e) \<Rightarrow> d_round (f_sign f) m e))"

definition d_to_f :: "double \<Rightarrow> float32" where
  "d_to_f d =
     (if d_is_nan d then mk_float (d_sign d) (f_inf_mag + 2 ^ 22 + (d_mag d mod 2 ^ 51) div 2 ^ 29)
      else if d_is_inf d then mk_float (d_sign d) f_inf_mag
      else (case d_decode d of (m, e) \<Rightarrow> mk_float (d_sign d) (fp_round 24 (-149) f_inf_mag m e)))"

definition flt_max :: double where "flt_max = f_to_d (mk_float False (f_inf_mag - 1))"
definition flt_lowest :: double where "flt_lowest = f_to_d (mk_float True (f_inf_mag - 1))"

section \<open>Facts\<close>

lemma d_mag_bounds: "0 \<le> d_mag d" "d_mag d < 2 ^ 63"
  by (simp_all add: d_mag_def)

lemma uint_word_of_int_64: "0 \<le> v \<Longrightarrow> v < 2 ^ 64 \<Longrightarrow> uint (word_of_int v :: 64 word) = v"
  by (simp add: uint_word_of_int)

lemma uint_mk_double:
  "0 \<le> m \<Longrightarrow> m < 2 ^ 63 \<Longrightarrow> uint (mk_double s m) = m + (if s then 2 ^ 63 else 0)"
  unfolding mk_double_def by (rule uint_word_of_int_64) auto

lemma uint_word_of_int_32: "0 \<le> v \<Longrightarrow> v < 2 ^ 32 \<Longrightarrow> uint (word_of_int v :: 32 word) = v"
  by (simp add: uint_word_of_int)

lemma uint_mk_float:
  "0 \<le> m \<Longrightarrow> m < 2 ^ 31 \<Longrightarrow> uint (mk_float s m) = m + (if s then 2 ^ 31 else 0)"
  unfolding mk_float_def by (rule uint_word_of_int_32) auto

lemma d_mag_mk_double [simp]: "0 \<le> m \<Longrightarrow> m < 2 ^ 63 \<Longrightarrow> d_mag (mk_double s m) = m"
  by (cases s) (simp_all add: d_mag_def uint_mk_double)

lemma d_sign_mk_double [simp]: "0 \<le> m \<Longrightarrow> m < 2 ^ 63 \<Longrightarrow> d_sign (mk_double s m) = s"
  by (cases s) (simp_all add: d_sign_def uint_mk_double)

lemma d_mag_sign: "d_mag d + (if d_sign d then 2 ^ 63 else 0) = uint d"
proof -
  have u: "uint d < 2 ^ 64" "0 \<le> uint d" using uint_lt2p [of d] by simp_all
  show ?thesis
  proof (cases "d_sign d")
    case True
    then have "uint d mod 2 ^ 63 = (uint d - 2 ^ 63) mod 2 ^ 63" by simp
    also have "\<dots> = uint d - 2 ^ 63"
      using u True unfolding d_sign_def by (intro mod_pos_pos_trivial) auto
    finally show ?thesis using True by (simp add: d_mag_def)
  next
    case False
    then have "uint d mod 2 ^ 63 = uint d"
      using u unfolding d_sign_def by (intro mod_pos_pos_trivial) auto
    then show ?thesis using False by (simp add: d_mag_def)
  qed
qed

lemma mk_double_fields [simp]: "mk_double (d_sign d) (d_mag d) = d"
  unfolding mk_double_def d_mag_sign by simp

lemma d_neg_neg [simp]: "d_neg (d_neg d) = d"
  using d_mag_bounds [of d] by (simp add: d_neg_def)

lemma d_less_trichotomy:
  "\<not> d_is_nan a \<Longrightarrow> \<not> d_is_nan b \<Longrightarrow> d_eq a b \<or> d_less a b \<or> d_less b a"
  by (auto simp: d_eq_def d_less_def)

lemma d_nan_unordered: "d_is_nan a \<Longrightarrow> \<not> d_eq a b \<and> \<not> d_less a b \<and> \<not> d_less b a"
  by (simp add: d_eq_def d_less_def)

lemma d_nan_is_nan: "d_is_nan d_nan"
  by (simp add: d_nan_def d_is_nan_def d_inf_mag_def)

end
