(* ===== verification/DataTypes.thy ===== *)
theory DataTypes
  imports Nodes Ieee
begin

unbundle bit_operations_syntax

text \<open>
  Values and their types: \<open>execution/ExecutionResult.h\<close> (the variant a plan returns),
  \<open>common/ParseTools.h\<close> (binary parameters) and \<open>execution/DBDataTypeHandler.cpp\<close> (one
  handler class per column type: sizes, conversion from text and parse nodes, the stored byte
  format, comparison and arithmetic).

  Memory is a byte list: a pointer \<open>pData\<close> is the list of the bytes from \<open>pData\<close> to the end of
  its object, so a read past the object is \<open>Stuck\<close>.
\<close>

section \<open>Functions of abseil and of the C library\<close>

text \<open>
  These are linked, not part of the repository: parsing of numbers (\<open>absl::SimpleAtoi\<close> into
  an \<open>int64_t\<close>, \<open>absl::SimpleAtod\<close>), \<open>absl::EqualsIgnoreCase\<close>, the text \<open>absl::StrCat\<close> makes of
  a double, and \<open>timegm\<close> of what \<open>std::get_time\<close> reads of a string in a format.
\<close>

record lib =
  SimpleAtoi :: "string \<Rightarrow> int option"
  SimpleAtod :: "string \<Rightarrow> double option"
  EqualsIgnoreCase :: "string \<Rightarrow> string \<Rightarrow> bool"
  StrCatDouble :: "double \<Rightarrow> string"
  getTimeGm :: "string \<Rightarrow> string \<Rightarrow> int"

text \<open>Documented behaviour: \<open>SimpleAtoi\<close> fails rather than leave the range of its target.\<close>

definition lib_ok :: "lib \<Rightarrow> bool" where
  "lib_ok L \<longleftrightarrow> (\<forall>s v. SimpleAtoi L s = Some v \<longrightarrow> int64_range v)"

text \<open>
  An environment to evaluate the model in: decimal numerals without sign, ASCII case folding.
  \<open>ex_lib_ok\<close> shows that it meets the documented behaviour.
\<close>

fun ex_digits :: "int \<Rightarrow> string \<Rightarrow> int option" where
  "ex_digits acc [] = Some acc"
| "ex_digits acc (c # s) =
     (if 48 \<le> ccode c \<and> ccode c \<le> 57 then ex_digits (acc * 10 + int (ccode c) - 48) s else None)"

definition ex_lower :: "char \<Rightarrow> nat" where
  "ex_lower c = (if 65 \<le> ccode c \<and> ccode c \<le> 90 then ccode c + 32 else ccode c)"

definition ex_lib :: lib where
  "ex_lib = \<lparr>
     SimpleAtoi = (\<lambda>s. if s = [] then None else
       case ex_digits 0 s of Some v \<Rightarrow> if int64_range v then Some v else None | None \<Rightarrow> None),
     SimpleAtod = (\<lambda>s. if s = [] then None else map_option d_of_int (ex_digits 0 s)),
     EqualsIgnoreCase = (\<lambda>a b. map ex_lower a = map ex_lower b),
     StrCatDouble = (\<lambda>d. ''double''),
     getTimeGm = (\<lambda>f s. 0)\<rparr>"

lemma ex_lib_ok: "lib_ok ex_lib"
  by (simp add: lib_ok_def ex_lib_def split: option.splits)

section \<open>ExecutionResult\<close>

datatype eresult =
    R_Null
  | R_StringView string
  | R_String string
  | R_MaxString
  | R_Int int
  | R_Double double

definition isNull :: "eresult \<Rightarrow> bool" where
  "isNull r = (case r of R_Null \<Rightarrow> True | _ \<Rightarrow> False)"

definition isMaxString :: "eresult \<Rightarrow> bool" where
  "isMaxString r = (case r of R_MaxString \<Rightarrow> True | _ \<Rightarrow> False)"

definition r_toString :: "lib \<Rightarrow> eresult \<Rightarrow> string" where
  "r_toString L r = (case r of
       R_Null \<Rightarrow> ''null''
     | R_StringView s \<Rightarrow> ''string:'' @ s
     | R_String s \<Rightarrow> ''string:'' @ s
     | R_MaxString \<Rightarrow> ''string_max''
     | R_Int v \<Rightarrow> ''int:'' @ int_to_string v
     | R_Double d \<Rightarrow> ''double:'' @ StrCatDouble L d)"

definition getString :: "lib \<Rightarrow> eresult \<Rightarrow> string res" where
  "getString L r = (case r of
       R_String s \<Rightarrow> Inr s
     | R_StringView s \<Rightarrow> Inr s
     | _ \<Rightarrow> Inl (ExecutionException (''wrong DataType expect string, got '' @ r_toString L r)))"

definition getInt :: "lib \<Rightarrow> eresult \<Rightarrow> int res" where
  "getInt L r = (case r of
       R_Int v \<Rightarrow> Inr v
     | _ \<Rightarrow> Inl (ExecutionException (''wrong DataType expect int, got '' @ r_toString L r)))"

definition getDouble :: "lib \<Rightarrow> eresult \<Rightarrow> double res" where
  "getDouble L r = (case r of
       R_Int v \<Rightarrow> Inr (d_of_int v)
     | R_Double d \<Rightarrow> Inr d
     | _ \<Rightarrow> Inl (ExecutionException (''wrong DataType expect double, got '' @ r_toString L r)))"

text \<open>\<open>cache\<close> copies a view into an owned string.\<close>

definition r_cache :: "eresult \<Rightarrow> eresult" where
  "r_cache r = (case r of R_StringView s \<Rightarrow> R_String s | _ \<Rightarrow> r)"

section \<open>Binary parameters\<close>

definition signed_char :: "byte \<Rightarrow> int" where
  "signed_char b = to_signed 1 (uint b)"

definition binaryToInt :: "string \<Rightarrow> int res" where
  "binaryToInt sValue =
     (let bs = bytes_of sValue in
      if length sValue = 1 then Inr (signed_char (hd bs))
      else if length sValue = 2 then Inr (be_uint bs)
      else if length sValue = 4 then Inr (be_uint bs)
      else if length sValue = 8 then
        (let hiword = to_signed 4 (be_uint (take 4 bs)); loword = to_signed 4 (be_uint (drop 4 bs))
         in Inr ((hiword * 2 ^ 32) OR loword))
      else Inl (ParseException (''Wrong bind data length '' @ nat_to_string (length sValue))))"

definition binaryToDouble :: "string \<Rightarrow> double res" where
  "binaryToDouble sValue =
     (let bs = bytes_of sValue in
      if length sValue = 4 then Inr (f_to_d (word_of_int (be_uint bs)))
      else if length sValue = 8 then
        (let hiword = to_signed 4 (be_uint (take 4 bs)); loword = to_signed 4 (be_uint (drop 4 bs))
         in Inr (word_of_int ((hiword * 2 ^ 32) OR loword)))
      else Inl (ParseException (''Wrong bind data length '' @ nat_to_string (length sValue))))"

section \<open>The handler classes\<close>

datatype int_type = T_int16 | T_int32 | T_int64 | T_bool
datatype float_type = T_float | T_double

text \<open>
  \<open>IntDBDataTypeHandler<Type>\<close>, \<open>BoolDBDataTypeHandler\<close>, \<open>FloatDBDataTypeHandler<Type>\<close>,
  \<open>StringDBDataTypeHandler\<close> and \<open>DatetimeDBDataTypeHandler\<close>; the second and the last inherit
  from the first, at \<open>bool\<close> and at \<open>int64_t\<close>.
\<close>

datatype handler = H_Int int_type | H_Bool | H_Float float_type | H_String | H_Datetime

definition int_size :: "int_type \<Rightarrow> nat" where
  "int_size t = (case t of T_int16 \<Rightarrow> 2 | T_int32 \<Rightarrow> 4 | T_int64 \<Rightarrow> 8 | T_bool \<Rightarrow> 1)"

definition int_min :: "int_type \<Rightarrow> int" where
  "int_min t = (case t of T_int16 \<Rightarrow> - (2 ^ 15) | T_int32 \<Rightarrow> - (2 ^ 31) | T_int64 \<Rightarrow> - (2 ^ 63) | T_bool \<Rightarrow> 0)"

definition int_max :: "int_type \<Rightarrow> int" where
  "int_max t = (case t of T_int16 \<Rightarrow> 2 ^ 15 - 1 | T_int32 \<Rightarrow> 2 ^ 31 - 1 | T_int64 \<Rightarrow> 2 ^ 63 - 1 | T_bool \<Rightarrow> 1)"

definition float_size :: "float_type \<Rightarrow> nat" where
  "float_size t = (case t of T_float \<Rightarrow> 4 | T_double \<Rightarrow> 8)"

definition float_max :: "float_type \<Rightarrow> double" where
  "float_max t = (case t of T_float \<Rightarrow> flt_max | T_double \<Rightarrow> d_max)"

definition float_lowest :: "float_type \<Rightarrow> double" where
  "float_lowest t = (case t of T_float \<Rightarrow> flt_lowest | T_double \<Rightarrow> d_lowest)"

definition checkInt :: "int_type \<Rightarrow> int \<Rightarrow> unit res" where
  "checkInt t value =
     guardR (\<not> (value < int_min t \<or> value > int_max t))
       (ParseException (''integer '' @ int_to_string value @ '' exceed data type range''))"

definition checkFloat :: "lib \<Rightarrow> float_type \<Rightarrow> double \<Rightarrow> unit res" where
  "checkFloat L t value =
     guardR (\<not> d_less (float_max t) (if d_less d_zero value then value else d_neg value))
       (ParseException (''float '' @ StrCatDouble L value @ '' exceed data type range''))"

text \<open>The integer representation a handler inherits, if any.\<close>

definition handler_int :: "handler \<Rightarrow> int_type option" where
  "handler_int h = (case h of H_Int t \<Rightarrow> Some t | H_Bool \<Rightarrow> Some T_bool | H_Datetime \<Rightarrow> Some T_int64 | _ \<Rightarrow> None)"

definition U16_MAX :: int where "U16_MAX = 65535"

subsection \<open>Sizes and bounds\<close>

definition h_getSize :: "lib \<Rightarrow> handler \<Rightarrow> eresult \<Rightarrow> nat res" where
  "h_getSize L h r = (case h of
       H_Int t \<Rightarrow> Inr (int_size t)
     | H_Bool \<Rightarrow> Inr (int_size T_bool)
     | H_Datetime \<Rightarrow> Inr (int_size T_int64)
     | H_Float t \<Rightarrow> Inr (float_size t)
     | H_String \<Rightarrow> if isMaxString r then Inr 2 else mapR (\<lambda>s. length s + 2) (getString L r))"

definition h_getSizeAt :: "handler \<Rightarrow> byte list \<Rightarrow> nat res" where
  "h_getSizeAt h pData = (case h of
       H_Int t \<Rightarrow> Inr (int_size t)
     | H_Bool \<Rightarrow> Inr (int_size T_bool)
     | H_Datetime \<Rightarrow> Inr (int_size T_int64)
     | H_Float t \<Rightarrow> Inr (float_size t)
     | H_String \<Rightarrow>
         if length pData < 2 then Inl (Stuck ''read outside the row'')
         else let len = nat (le_uint (take 2 pData)) + 2
              in if int len = U16_MAX then Inr 2 else Inr len)"

definition h_setToMin :: "handler \<Rightarrow> eresult" where
  "h_setToMin h = (case h of
       H_Int t \<Rightarrow> R_Int (int_min t)
     | H_Bool \<Rightarrow> R_Int (int_min T_bool)
     | H_Datetime \<Rightarrow> R_Int (int_min T_int64)
     | H_Float t \<Rightarrow> R_Double (float_lowest t)
     | H_String \<Rightarrow> R_StringView [])"

definition h_setToMax :: "handler \<Rightarrow> eresult" where
  "h_setToMax h = (case h of
       H_Int t \<Rightarrow> R_Int (int_max t)
     | H_Bool \<Rightarrow> R_Int (int_max T_bool)
     | H_Datetime \<Rightarrow> R_Int (int_max T_int64)
     | H_Float t \<Rightarrow> R_Double (float_max t)
     | H_String \<Rightarrow> R_MaxString)"

subsection \<open>The stored format\<close>

definition read_int :: "int_type \<Rightarrow> byte list \<Rightarrow> eresult res" where
  "read_int t pData =
     (if length pData < int_size t then Inl (Stuck ''read outside the row'')
      else let u = le_uint (take (int_size t) pData) in
        case t of
          T_bool \<Rightarrow> if u = 0 \<or> u = 1 then Inr (R_Int u) else Inl (Stuck ''not a bool'')
        | _ \<Rightarrow> Inr (R_Int (to_signed (int_size t) u)))"

definition read_float :: "float_type \<Rightarrow> byte list \<Rightarrow> eresult res" where
  "read_float t pData =
     (if length pData < float_size t then Inl (Stuck ''read outside the row'')
      else let u = le_uint (take (float_size t) pData) in
        case t of
          T_float \<Rightarrow> Inr (R_Double (f_to_d (word_of_int u)))
        | T_double \<Rightarrow> Inr (R_Double (word_of_int u)))"

definition read_string :: "byte list \<Rightarrow> eresult res" where
  "read_string pData =
     (if length pData < 2 then Inl (Stuck ''read outside the row'')
      else let len = le_uint (take 2 pData) in
        if len = U16_MAX then Inr R_MaxString
        else if length pData < 2 + nat len then Inl (Stuck ''read outside the row'')
        else Inr (R_StringView (string_of (take (nat len) (drop 2 pData)))))"

definition h_read :: "handler \<Rightarrow> byte list \<Rightarrow> eresult res" where
  "h_read h pData = (case h of
       H_Int t \<Rightarrow> read_int t pData
     | H_Bool \<Rightarrow> read_int T_bool pData
     | H_Datetime \<Rightarrow> read_int T_int64 pData
     | H_Float t \<Rightarrow> read_float t pData
     | H_String \<Rightarrow> read_string pData)"

text \<open>\<open>h_write\<close> is the bytes \<open>write\<close> stores from \<open>pData\<close> on.\<close>

definition write_int :: "lib \<Rightarrow> int_type \<Rightarrow> eresult \<Rightarrow> byte list res" where
  "write_int L t r =
     bindR (getInt L r) (\<lambda>value. bindR (checkInt t value) (\<lambda>_. Inr (le_bytes (int_size t) value)))"

definition write_float :: "lib \<Rightarrow> float_type \<Rightarrow> eresult \<Rightarrow> byte list res" where
  "write_float L t r =
     bindR (getDouble L r) (\<lambda>value. bindR (checkFloat L t value) (\<lambda>_.
       Inr (case t of T_float \<Rightarrow> le_bytes 4 (uint (d_to_f value)) | T_double \<Rightarrow> le_bytes 8 (uint value))))"

definition write_string :: "lib \<Rightarrow> eresult \<Rightarrow> byte list res" where
  "write_string L r =
     (if isMaxString r then Inr (le_bytes 2 U16_MAX)
      else bindR (getString L r) (\<lambda>s.
        if int (length s) \<ge> U16_MAX then Inl (ExecutionException ''too large string value'')
        else Inr (le_bytes 2 (int (length s)) @ bytes_of s)))"

definition h_write :: "lib \<Rightarrow> handler \<Rightarrow> eresult \<Rightarrow> byte list res" where
  "h_write L h r = (case h of
       H_Int t \<Rightarrow> write_int L t r
     | H_Bool \<Rightarrow> write_int L T_bool r
     | H_Datetime \<Rightarrow> write_int L T_int64 r
     | H_Float t \<Rightarrow> write_float L t r
     | H_String \<Rightarrow> write_string L r)"

subsection \<open>Conversion from text\<close>

definition stringToInt :: "lib \<Rightarrow> int_type \<Rightarrow> string \<Rightarrow> int res" where
  "stringToInt L t s =
     (if s = [] then Inr 0
      else case SimpleAtoi L s of
          None \<Rightarrow> Inl (ParseException (''Could not convert to int:'' @ s))
        | Some value \<Rightarrow> bindR (checkInt t value) (\<lambda>_. Inr value))"

text \<open>\<open>m_valueMap\<close> of the bool handler, in the order a \<open>std::map\<close> iterates it.\<close>

definition bool_names :: "(string \<times> bool) list" where
  "bool_names =
     [(''0'', False), (''1'', True), (''f'', False), (''false'', False), (''n'', False), (''no'', False),
      (''off'', False), (''on'', True), (''t'', True), (''true'', True), (''y'', True), (''yes'', True)]"

definition stringToBool :: "lib \<Rightarrow> string \<Rightarrow> bool res" where
  "stringToBool L s =
     (case List.find (\<lambda>(k, v). EqualsIgnoreCase L s k) bool_names of
        Some (k, v) \<Rightarrow> Inr v
      | None \<Rightarrow> Inl (ExecutionException (''unexpected bool value: '' @ s)))"

definition stringToDouble :: "lib \<Rightarrow> string \<Rightarrow> double res" where
  "stringToDouble L s =
     (if s = [] then Inr d_zero
      else case SimpleAtod L s of
          None \<Rightarrow> Inl (ParseException (''Could not convert to double:'' @ s))
        | Some value \<Rightarrow> Inr value)"

definition parseTime :: "lib \<Rightarrow> string \<Rightarrow> int" where
  "parseTime L sTime =
     (if length sTime < 10 then 0
      else let iRetTime = getTimeGm L (if length sTime < 19 then [CHR 0x25] @ ''Y-'' @ [CHR 0x25] @ ''m-'' @ [CHR 0x25] @ ''d''
               else [CHR 0x25] @ ''Y-'' @ [CHR 0x25] @ ''m-'' @ [CHR 0x25] @ ''d '' @
                 [CHR 0x25] @ ''H:'' @ [CHR 0x25] @ ''M:'' @ [CHR 0x25] @ ''S'') sTime
           in if iRetTime = -1 then 0 else iRetTime)"

definition timeToInt :: "lib \<Rightarrow> string \<Rightarrow> int res" where
  "timeToInt L sTime =
     (if sTime = [] then Inr 0
      else let iValue = parseTime L sTime in
        if iValue \<le> 0 then Inl (ExecutionException (''Wrong Time Format:'' @ sTime)) else Inr iValue)"

definition h_fromString :: "lib \<Rightarrow> handler \<Rightarrow> string \<Rightarrow> eresult res" where
  "h_fromString L h s = (case h of
       H_Int t \<Rightarrow> mapR R_Int (stringToInt L t s)
     | H_Bool \<Rightarrow> mapR (\<lambda>b. R_Int (if b then 1 else 0)) (stringToBool L s)
     | H_Datetime \<Rightarrow> mapR R_Int (timeToInt L s)
     | H_Float t \<Rightarrow> bindR (stringToDouble L s) (\<lambda>value. bindR (checkFloat L t value) (\<lambda>_. Inr (R_Double value)))
     | H_String \<Rightarrow> Inr (R_StringView s))"

subsection \<open>Conversion from parse nodes\<close>

abbreviation unbound_error :: err where
  "unbound_error \<equiv> ExecutionException ''parameter unbound''"

definition int_fromNode :: "lib \<Rightarrow> int_type \<Rightarrow> pnode \<Rightarrow> eresult res" where
  "int_fromNode L t n =
     bindR (case n_type n of
         NT_INT \<Rightarrow> stringToInt L t (n_value n)
       | NT_PARAM \<Rightarrow> (case n_op n of
             TEXT_PARAM \<Rightarrow> stringToInt L t (n_value n)
           | BINARY_PARAM \<Rightarrow> binaryToInt (n_value n)
           | UNBOUND_PARAM \<Rightarrow> Inl unbound_error
           | _ \<Rightarrow> Inr 0)
       | _ \<Rightarrow> Inl (ExecutionException (''wrong const value type:'' @ n_expr n)))
     (\<lambda>value. bindR (checkInt t value) (\<lambda>_. Inr (R_Int value)))"

definition bool_fromNode :: "lib \<Rightarrow> pnode \<Rightarrow> eresult res" where
  "bool_fromNode L n =
     mapR (\<lambda>b. R_Int (if b then 1 else 0)) (case n_type n of
         NT_INT \<Rightarrow> Inr (n_value n \<noteq> ''0'')
       | NT_STR \<Rightarrow> stringToBool L (n_value n)
       | NT_PARAM \<Rightarrow> (case n_op n of
             TEXT_PARAM \<Rightarrow> stringToBool L (n_value n)
           | BINARY_PARAM \<Rightarrow> mapR (\<lambda>v. v \<noteq> 0) (binaryToInt (n_value n))
           | UNBOUND_PARAM \<Rightarrow> Inl unbound_error
           | _ \<Rightarrow> Inr False)
       | _ \<Rightarrow> Inl (ExecutionException (''wrong const value type:'' @ n_expr n)))"

definition float_fromNode :: "lib \<Rightarrow> float_type \<Rightarrow> pnode \<Rightarrow> eresult res" where
  "float_fromNode L t n =
     bindR (case n_type n of
         NT_INT \<Rightarrow> stringToDouble L (n_value n)
       | NT_FLOAT \<Rightarrow> stringToDouble L (n_value n)
       | NT_PARAM \<Rightarrow> (case n_op n of
             TEXT_PARAM \<Rightarrow> stringToDouble L (n_value n)
           | BINARY_PARAM \<Rightarrow> binaryToDouble (n_value n)
           | UNBOUND_PARAM \<Rightarrow> Inl unbound_error
           | _ \<Rightarrow> Inr d_zero)
       | _ \<Rightarrow> Inl (ParseException (''wrong const value type:'' @ n_expr n)))
     (\<lambda>value. bindR (checkFloat L t value) (\<lambda>_. Inr (R_Double value)))"

definition string_fromNode :: "pnode \<Rightarrow> eresult res" where
  "string_fromNode n = (case n_type n of
       NT_STR \<Rightarrow> Inr (R_StringView (n_value n))
     | NT_BINARY \<Rightarrow> Inr (R_StringView (n_value n))
     | NT_PARAM \<Rightarrow> (case n_op n of
           TEXT_PARAM \<Rightarrow> Inr (R_StringView (n_value n))
         | UNBOUND_PARAM \<Rightarrow> Inl unbound_error
         | _ \<Rightarrow> Inl (ExecutionException ''wrong bind param mode''))
     | _ \<Rightarrow> Inl (ExecutionException (''Wrong data type for '' @ n_expr n @ '', expect string'')))"

text \<open>The datetime handler leaves its result unchanged on a parameter of no known mode.\<close>

definition datetime_fromNode :: "lib \<Rightarrow> pnode \<Rightarrow> eresult \<Rightarrow> eresult res" where
  "datetime_fromNode L n old = (case n_type n of
       NT_DATE \<Rightarrow> mapR R_Int (timeToInt L (n_value n))
     | NT_PARAM \<Rightarrow> (case n_op n of
           TEXT_PARAM \<Rightarrow> mapR R_Int (timeToInt L (n_value n))
         | UNBOUND_PARAM \<Rightarrow> Inl unbound_error
         | BINARY_PARAM \<Rightarrow> Inl (ExecutionException ''Wrong bind parameter mode for datetime'')
         | _ \<Rightarrow> Inr old)
     | _ \<Rightarrow> Inl (ParseException (''wrong const value type:'' @ n_expr n)))"

definition h_fromNode :: "lib \<Rightarrow> handler \<Rightarrow> pnode \<Rightarrow> eresult \<Rightarrow> eresult res" where
  "h_fromNode L h n old = (case h of
       H_Int t \<Rightarrow> int_fromNode L t n
     | H_Bool \<Rightarrow> bool_fromNode L n
     | H_Float t \<Rightarrow> float_fromNode L t n
     | H_String \<Rightarrow> string_fromNode n
     | H_Datetime \<Rightarrow> datetime_fromNode L n old)"

subsection \<open>Arithmetic and comparison\<close>

text \<open>\<open>int64_t\<close> addition is written out with its wrap-around.\<close>

definition h_add :: "lib \<Rightarrow> handler \<Rightarrow> eresult \<Rightarrow> eresult \<Rightarrow> eresult res" where
  "h_add L h r a = (case h of
       H_Bool \<Rightarrow> Inl (ExecutionException ''add is not supported for bool'')
     | H_String \<Rightarrow> Inl (ExecutionException ''add is not supported for string'')
     | H_Float t \<Rightarrow>
         bindR (getDouble L r) (\<lambda>x. bindR (getDouble L a) (\<lambda>y.
           let value = d_add x y in bindR (checkFloat L t value) (\<lambda>_. Inr (R_Double value))))
     | _ \<Rightarrow>
         bindR (getInt L r) (\<lambda>x. bindR (getInt L a) (\<lambda>y.
           let value = wrap64 (x + y);
               t = (case h of H_Int t \<Rightarrow> t | _ \<Rightarrow> T_int64)
           in bindR (checkInt t value) (\<lambda>_. Inr (R_Int value)))))"

definition h_div :: "lib \<Rightarrow> handler \<Rightarrow> eresult \<Rightarrow> nat \<Rightarrow> eresult res" where
  "h_div L h r value = (case h of
       H_Bool \<Rightarrow> Inl (ExecutionException ''div is not supported for bool'')
     | H_String \<Rightarrow> Inl (ExecutionException ''div is not supported for string'')
     | H_Float t \<Rightarrow> bindR (getDouble L r) (\<lambda>v. Inr (R_Double (d_div v (d_of_int (int value)))))
     | _ \<Rightarrow> bindR (getInt L r) (\<lambda>v. Inr (R_Double (d_div (d_of_int v) (d_of_int (int value))))))"

definition int_compare :: "int \<Rightarrow> int \<Rightarrow> int" where
  "int_compare a b = (if a = b then 0 else if a < b then -1 else 1)"

definition double_compare :: "double \<Rightarrow> double \<Rightarrow> int" where
  "double_compare a b = (if d_eq a b then 0 else if d_less a b then -1 else 1)"

definition string_compare :: "lib \<Rightarrow> eresult \<Rightarrow> eresult \<Rightarrow> int res" where
  "string_compare L a b =
     (if isMaxString a then Inr (if isMaxString b then 0 else 1)
      else if isMaxString b then Inr (-1)
      else bindR (getString L a) (\<lambda>s. bindR (getString L b) (\<lambda>t. Inr (str_compare s t))))"

definition h_compare :: "lib \<Rightarrow> handler \<Rightarrow> eresult \<Rightarrow> eresult \<Rightarrow> int res" where
  "h_compare L h a b = (case h of
       H_String \<Rightarrow> string_compare L a b
     | H_Float t \<Rightarrow> bindR (getDouble L a) (\<lambda>x. bindR (getDouble L b) (\<lambda>y. Inr (double_compare x y)))
     | _ \<Rightarrow> bindR (getInt L a) (\<lambda>x. bindR (getInt L b) (\<lambda>y. Inr (int_compare x y))))"

section \<open>The handler table\<close>

definition getHandler :: "DBDataType \<Rightarrow> handler option" where
  "getHandler type = (case type of
       DT_BOOL \<Rightarrow> Some H_Bool
     | DT_INT16 \<Rightarrow> Some (H_Int T_int16)
     | DT_INT32 \<Rightarrow> Some (H_Int T_int32)
     | DT_INT64 \<Rightarrow> Some (H_Int T_int64)
     | DT_DATE \<Rightarrow> Some H_Datetime
     | DT_DATETIME \<Rightarrow> Some H_Datetime
     | DT_FLOAT \<Rightarrow> Some (H_Float T_float)
     | DT_DOUBLE \<Rightarrow> Some (H_Float T_double)
     | DT_STRING \<Rightarrow> Some H_String
     | DT_BYTES \<Rightarrow> Some H_String
     | DT_UNKNOWN \<Rightarrow> None)"

definition getTypeName :: "DBDataType \<Rightarrow> string" where
  "getTypeName type = (case type of
       DT_BOOL \<Rightarrow> ''bool'' | DT_INT16 \<Rightarrow> ''int16'' | DT_INT32 \<Rightarrow> ''int32'' | DT_INT64 \<Rightarrow> ''int64''
     | DT_DATE \<Rightarrow> ''date'' | DT_DATETIME \<Rightarrow> ''datetime'' | DT_FLOAT \<Rightarrow> ''float'' | DT_DOUBLE \<Rightarrow> ''double''
     | DT_STRING \<Rightarrow> ''varchar'' | DT_BYTES \<Rightarrow> ''bytes'' | DT_UNKNOWN \<Rightarrow> ''unknown'')"

text \<open>A virtual call through the pointer the table returns: a null one is undefined.\<close>

definition with_handler :: "DBDataType \<Rightarrow> (handler \<Rightarrow> 'a res) \<Rightarrow> 'a res" where
  "with_handler type f = (case getHandler type of None \<Rightarrow> Inl (Stuck ''no handler'') | Some h \<Rightarrow> f h)"

definition r_div :: "lib \<Rightarrow> eresult \<Rightarrow> nat \<Rightarrow> DBDataType \<Rightarrow> eresult res" where
  "r_div L r value type =
     (if value = 0 then Inl (ExecutionException ''Divide zero'')
      else with_handler type (\<lambda>h. h_div L h r value))"

definition r_add :: "lib \<Rightarrow> eresult \<Rightarrow> eresult \<Rightarrow> DBDataType \<Rightarrow> eresult res" where
  "r_add L r a type = with_handler type (\<lambda>h. h_add L h r a)"

definition r_compare :: "lib \<Rightarrow> eresult \<Rightarrow> eresult \<Rightarrow> DBDataType \<Rightarrow> int res" where
  "r_compare L a b type = with_handler type (\<lambda>h. h_compare L h a b)"

section \<open>Values of a type\<close>

text \<open>
  \<open>value_ok h r\<close>: \<open>r\<close> is a value a column of handler \<open>h\<close> can hold: an integer in range, a
  number (not a NaN) in range, a string short enough to be stored.  \<open>bound_ok\<close> also admits
  the greatest string, which only search bounds use.
\<close>

definition float_ok :: "float_type \<Rightarrow> double \<Rightarrow> bool" where
  "float_ok t d \<longleftrightarrow> \<not> d_is_nan d \<and> \<not> d_less (float_max t) (if d_less d_zero d then d else d_neg d)"

definition value_ok :: "handler \<Rightarrow> eresult \<Rightarrow> bool" where
  "value_ok h r = (case h of
       H_String \<Rightarrow> (case r of R_StringView s \<Rightarrow> length s < 65535 | R_String s \<Rightarrow> length s < 65535 | _ \<Rightarrow> False)
     | H_Float t \<Rightarrow> (case r of R_Double d \<Rightarrow> float_ok t d | _ \<Rightarrow> False)
     | H_Bool \<Rightarrow> (case r of R_Int v \<Rightarrow> int_min T_bool \<le> v \<and> v \<le> int_max T_bool | _ \<Rightarrow> False)
     | H_Datetime \<Rightarrow> (case r of R_Int v \<Rightarrow> int_min T_int64 \<le> v \<and> v \<le> int_max T_int64 | _ \<Rightarrow> False)
     | H_Int t \<Rightarrow> (case r of R_Int v \<Rightarrow> int_min t \<le> v \<and> v \<le> int_max t | _ \<Rightarrow> False))"

definition bound_ok :: "handler \<Rightarrow> eresult \<Rightarrow> bool" where
  "bound_ok h r \<longleftrightarrow> value_ok h r \<or> h = H_String \<and> r = R_MaxString"

text \<open>What a written value is read back as: strings as views, a \<open>float\<close> column's number narrowed.\<close>

definition stored :: "handler \<Rightarrow> eresult \<Rightarrow> eresult" where
  "stored h r = (case r of
       R_String s \<Rightarrow> R_StringView s
     | R_Double d \<Rightarrow> (if h = H_Float T_float then R_Double (f_to_d (d_to_f d)) else R_Double d)
     | _ \<Rightarrow> r)"

section \<open>Writing and reading back\<close>

lemma int_range_split:
  "int_min t \<le> v \<Longrightarrow> v \<le> int_max t \<Longrightarrow> t \<noteq> T_bool \<Longrightarrow>
     0 < int_size t \<and> - (2 ^ (8 * int_size t - 1)) \<le> v \<and> v < 2 ^ (8 * int_size t - 1)"
  by (cases t) (auto simp: int_min_def int_max_def int_size_def)

lemma le_bytes_1: "le_bytes (Suc 0) v = [word_of_int (v mod 256)]"
  by simp

lemma read_int_write:
  assumes "int_min t \<le> v" "v \<le> int_max t"
  shows "read_int t (le_bytes (int_size t) v @ rest) = Inr (R_Int v)"
proof (cases "t = T_bool")
  case True
  then have "v = 0 \<or> v = 1" using assms by (auto simp: int_min_def int_max_def)
  then show ?thesis using True by (auto simp: read_int_def int_size_def Let_def le_bytes_1)
next
  case False
  from to_signed_le_bytes int_range_split [OF assms False]
  have "to_signed (int_size t) (le_uint (le_bytes (int_size t) v)) = v" by blast
  then show ?thesis using False by (cases t) (simp_all add: read_int_def Let_def)
qed

lemma write_int_ok:
  "int_min t \<le> v \<Longrightarrow> v \<le> int_max t \<Longrightarrow> write_int L t (R_Int v) = Inr (le_bytes (int_size t) v)"
  by (simp add: write_int_def getInt_def checkInt_def)

lemma write_int_out_of_range:
  "v < int_min t \<or> int_max t < v \<Longrightarrow>
     write_int L t (R_Int v) =
       Inl (ParseException (''integer '' @ int_to_string v @ '' exceed data type range''))"
  by (auto simp: write_int_def getInt_def checkInt_def guardR_def)

lemma word_of_le_uint_64: "(word_of_int (le_uint (le_bytes 8 (uint (d :: 64 word)))) :: 64 word) = d"
proof -
  have "uint d mod 256 ^ 8 = uint d" using uint_lt2p [of d] by simp
  then show ?thesis by (simp only: le_uint_le_bytes) simp
qed

lemma word_of_le_uint_32: "(word_of_int (le_uint (le_bytes 4 (uint (f :: 32 word)))) :: 32 word) = f"
proof -
  have "uint f mod 256 ^ 4 = uint f" using uint_lt2p [of f] by simp
  then show ?thesis by (simp only: le_uint_le_bytes) simp
qed

lemma read_float_write:
  "read_float T_double (le_bytes 8 (uint d) @ rest) = Inr (R_Double d)"
  "read_float T_float (le_bytes 4 (uint f) @ rest) = Inr (R_Double (f_to_d f))"
  using word_of_le_uint_64 [of d] word_of_le_uint_32 [of f]
  by (simp_all add: read_float_def float_size_def Let_def del: le_bytes.simps)

lemma write_float_ok:
  "float_ok t d \<Longrightarrow> write_float L t (R_Double d) =
     Inr (case t of T_float \<Rightarrow> le_bytes 4 (uint (d_to_f d)) | T_double \<Rightarrow> le_bytes 8 (uint d))"
  by (simp add: write_float_def getDouble_def checkFloat_def float_ok_def)

lemma le_uint_len16: "n < 65536 \<Longrightarrow> le_uint (le_bytes 2 (int n)) = int n"
  by (simp add: le_uint_le_bytes)

lemma read_string_write:
  assumes "length s < 65535"
  shows "read_string (le_bytes 2 (int (length s)) @ bytes_of s @ rest) = Inr (R_StringView s)"
  using assms by (simp add: read_string_def Let_def le_uint_len16 U16_MAX_def del: le_bytes.simps)

lemma read_string_max: "read_string (le_bytes 2 U16_MAX @ rest) = Inr R_MaxString"
  using le_uint_len16 [of 65535] by (simp add: read_string_def Let_def U16_MAX_def del: le_bytes.simps)

text \<open>
  The stored format of every handler: a value of the type is written in exactly the number of
  bytes \<open>getSize\<close> announces, and reading them gives the value back.
\<close>

lemma h_write_read:
  assumes "bound_ok h r"
  obtains bs where "h_write L h r = Inr bs" "h_getSize L h r = Inr (length bs)"
    "\<And>rest. h_read h (bs @ rest) = Inr (stored h r)"
proof (cases h)
  case (H_Int t)
  with assms obtain v where v: "r = R_Int v" "int_min t \<le> v" "v \<le> int_max t"
    by (auto simp: bound_ok_def value_ok_def split: eresult.splits)
  show ?thesis
    by (rule that [of "le_bytes (int_size t) v"])
      (simp_all add: H_Int v h_write_def write_int_ok h_getSize_def h_read_def read_int_write stored_def)
next
  case H_Bool
  with assms obtain v where v: "r = R_Int v" "int_min T_bool \<le> v" "v \<le> int_max T_bool"
    by (auto simp: bound_ok_def value_ok_def split: eresult.splits)
  show ?thesis
    by (rule that [of "le_bytes (int_size T_bool) v"])
      (simp_all add: H_Bool v h_write_def write_int_ok h_getSize_def h_read_def read_int_write stored_def)
next
  case H_Datetime
  with assms obtain v where v: "r = R_Int v" "int_min T_int64 \<le> v" "v \<le> int_max T_int64"
    by (auto simp: bound_ok_def value_ok_def split: eresult.splits)
  show ?thesis
    by (rule that [of "le_bytes (int_size T_int64) v"])
      (simp_all add: H_Datetime v h_write_def write_int_ok h_getSize_def h_read_def read_int_write stored_def)
next
  case (H_Float t)
  with assms obtain d where d: "r = R_Double d" "float_ok t d"
    by (auto simp: bound_ok_def value_ok_def split: eresult.splits)
  note w = write_float_ok [OF d(2), of L]
  show ?thesis
  proof (cases t)
    case T_float
    show ?thesis
      by (rule that [of "le_bytes 4 (uint (d_to_f d))"])
        (use w in \<open>simp_all add: H_Float T_float d(1) h_write_def h_getSize_def h_read_def
          read_float_write stored_def float_size_def del: le_bytes.simps\<close>)
  next
    case T_double
    show ?thesis
      by (rule that [of "le_bytes 8 (uint d)"])
        (use w in \<open>simp_all add: H_Float T_double d(1) h_write_def h_getSize_def h_read_def
          read_float_write stored_def float_size_def del: le_bytes.simps\<close>)
  qed
next
  case H_String
  show ?thesis
  proof (cases "r = R_MaxString")
    case True
    show ?thesis
      by (rule that [of "le_bytes 2 U16_MAX"])
        (simp_all add: H_String True h_write_def write_string_def isMaxString_def h_getSize_def
          h_read_def read_string_max stored_def del: le_bytes.simps)
  next
    case False
    with assms H_String obtain s where s: "length s < 65535" "r = R_StringView s \<or> r = R_String s"
      by (auto simp: bound_ok_def value_ok_def split: eresult.splits)
    show ?thesis
      by (rule that [of "le_bytes 2 (int (length s)) @ bytes_of s"])
        (use s in \<open>auto simp: H_String h_write_def write_string_def isMaxString_def h_getSize_def
          h_read_def read_string_write stored_def getString_def U16_MAX_def simp del: le_bytes.simps\<close>)
  qed
qed

lemma stored_value_roundtrip_lemma:
  assumes "bound_ok h r"
  shows "\<exists>bs. h_write L h r = Inr bs \<and> h_getSize L h r = Inr (length bs) \<and>
    (\<forall>rest. h_read h (bs @ rest) = Inr (stored h r))"
  using h_write_read [OF assms, of L] by metis

text \<open>
  \<open>getSize\<close> on stored bytes agrees with the bytes written, but for two cases: a string of
  length 65533, whose size \<open>65533 + 2\<close> is taken for the mark of the greatest string, and the
  greatest string itself, whose size is computed from the mark.
\<close>

lemma h_getSizeAt_write:
  assumes "h_write L h r = Inr bs" "bound_ok h r" "r \<noteq> R_MaxString"
    "\<And>s. r = R_StringView s \<or> r = R_String s \<Longrightarrow> length s \<noteq> 65533"
  shows "h_getSizeAt h (bs @ rest) = Inr (length bs)"
proof (cases h)
  case H_String
  with assms obtain s where s: "length s < 65535" "length s \<noteq> 65533" "r = R_StringView s \<or> r = R_String s"
    by (auto simp: bound_ok_def value_ok_def split: eresult.splits)
  then have "bs = le_bytes 2 (int (length s)) @ bytes_of s"
    using assms(1) by (auto simp: H_String h_write_def write_string_def isMaxString_def getString_def
        U16_MAX_def simp del: le_bytes.simps)
  then show ?thesis
    using s(1,2) by (simp add: H_String h_getSizeAt_def Let_def le_uint_len16 U16_MAX_def del: le_bytes.simps)
qed (use assms in \<open>auto simp: h_getSizeAt_def h_write_def write_int_def write_float_def bound_ok_def
    value_ok_def getInt_def getDouble_def float_size_def split: eresult.splits float_type.splits
    simp del: le_bytes.simps\<close>)

lemma h_getSizeAt_65533:
  assumes "length s = 65533" "h_write L H_String (R_StringView s) = Inr bs"
  shows "h_getSizeAt H_String (bs @ rest) = Inr 2" "length bs = 65535"
proof -
  have "bs = le_bytes 2 (int (length s)) @ bytes_of s"
    using assms by (simp add: h_write_def write_string_def isMaxString_def getString_def
        U16_MAX_def del: le_bytes.simps)
  then show "h_getSizeAt H_String (bs @ rest) = Inr 2" "length bs = 65535"
    using assms(1) le_uint_len16 [of 65533]
    by (simp_all add: h_getSizeAt_def Let_def U16_MAX_def del: le_bytes.simps)
qed

lemma h_getSizeAt_max:
  "h_write L H_String R_MaxString = Inr bs \<Longrightarrow> h_getSizeAt H_String (bs @ rest) = Inr 65537 \<and> length bs = 2"
  using le_uint_len16 [of 65535]
  by (auto simp: h_write_def write_string_def isMaxString_def h_getSizeAt_def Let_def U16_MAX_def
      simp del: le_bytes.simps)

section \<open>Comparison\<close>

text \<open>\<open>comparable h r\<close>: the comparison of handler \<open>h\<close> is defined on \<open>r\<close> and not disturbed by a NaN.\<close>

definition comparable :: "handler \<Rightarrow> eresult \<Rightarrow> bool" where
  "comparable h r = (case h of
       H_String \<Rightarrow> (case r of R_StringView _ \<Rightarrow> True | R_String _ \<Rightarrow> True | R_MaxString \<Rightarrow> True | _ \<Rightarrow> False)
     | H_Float t \<Rightarrow> (case r of R_Double d \<Rightarrow> \<not> d_is_nan d | _ \<Rightarrow> False)
     | _ \<Rightarrow> (case r of R_Int _ \<Rightarrow> True | _ \<Rightarrow> False))"

text \<open>The order of a type as a total function.\<close>

definition cmp_val :: "handler \<Rightarrow> eresult \<Rightarrow> eresult \<Rightarrow> int" where
  "cmp_val h a b = (case h_compare undefined h a b of Inr n \<Rightarrow> n | Inl _ \<Rightarrow> 0)"

lemma h_compare_cmp_val:
  "comparable h a \<Longrightarrow> comparable h b \<Longrightarrow> h_compare L h a b = Inr (cmp_val h a b)"
  by (cases h; cases a; cases b)
    (simp_all add: cmp_val_def h_compare_def comparable_def string_compare_def isMaxString_def
      getString_def getInt_def getDouble_def)

lemma int_compare_laws:
  "int_compare x x = 0"
  "int_compare x y \<le> 0 \<longleftrightarrow> x \<le> y" "int_compare x y < 0 \<longleftrightarrow> x < y" "int_compare x y = 0 \<longleftrightarrow> x = y"
  by (auto simp: int_compare_def)

lemma int_compare_antisym: "int_compare y x = - int_compare x y"
  by (simp add: int_compare_def)

lemma double_compare_key:
  "\<not> d_is_nan a \<Longrightarrow> \<not> d_is_nan b \<Longrightarrow> double_compare a b = int_compare (d_key a) (d_key b)"
  by (simp add: double_compare_def int_compare_def d_eq_def d_less_def)

lemma cmp_val_simps:
  "handler_int h \<noteq> None \<Longrightarrow> cmp_val h (R_Int x) (R_Int y) = int_compare x y"
  "\<not> d_is_nan x' \<Longrightarrow> \<not> d_is_nan y' \<Longrightarrow> cmp_val (H_Float t) (R_Double x') (R_Double y') = int_compare (d_key x') (d_key y')"
  by (cases h; simp add: cmp_val_def h_compare_def getInt_def handler_int_def)
    (simp add: cmp_val_def h_compare_def getDouble_def double_compare_key)

text \<open>The text of a string value, and the greatest string above all of them.\<close>

definition text_of :: "eresult \<Rightarrow> string option" where
  "text_of r = (case r of R_StringView s \<Rightarrow> Some s | R_String s \<Rightarrow> Some s | _ \<Rightarrow> None)"

lemma cmp_val_string:
  "comparable H_String a \<Longrightarrow> comparable H_String b \<Longrightarrow>
     cmp_val H_String a b = (case (text_of a, text_of b) of
         (Some s, Some t) \<Rightarrow> str_compare s t | (None, None) \<Rightarrow> 0 | (None, Some _) \<Rightarrow> 1 | (Some _, None) \<Rightarrow> -1)"
  by (cases a; cases b)
    (simp_all add: cmp_val_def h_compare_def comparable_def string_compare_def isMaxString_def
      getString_def text_of_def)

lemma three_way_handler: "three_way (cmp_val h) (comparable h)"
proof (cases "h = H_String")
  case True
  show ?thesis
  proof (unfold_locales, unfold True)
    fix x y z
    show "comparable H_String x \<Longrightarrow> cmp_val H_String x x = 0"
      by (simp add: cmp_val_string split: option.splits)
    show "comparable H_String x \<Longrightarrow> comparable H_String y \<Longrightarrow> cmp_val H_String y x = - cmp_val H_String x y"
      by (simp add: cmp_val_string split: option.splits) (metis str_compare_antisym)
    show "comparable H_String x \<Longrightarrow> comparable H_String y \<Longrightarrow> comparable H_String z \<Longrightarrow>
        cmp_val H_String x y \<le> 0 \<Longrightarrow> cmp_val H_String y z \<le> 0 \<Longrightarrow> cmp_val H_String x z \<le> 0"
      by (auto simp: cmp_val_string split: option.splits intro: str_compare_trans)
  qed
next
  case False
  then consider (int) "handler_int h \<noteq> None" | (float) t where "h = H_Float t"
    by (cases h) (auto simp: handler_int_def)
  then show ?thesis
  proof cases
    case int
    then have "comparable h r \<longleftrightarrow> (\<exists>v. r = R_Int v)" for r
      by (cases h) (auto simp: comparable_def handler_int_def split: eresult.splits)
    then show ?thesis
      using int by unfold_locales (auto simp: cmp_val_simps int_compare_laws intro: int_compare_antisym)
  next
    case float
    then have "comparable h r \<longleftrightarrow> (\<exists>d. r = R_Double d \<and> \<not> d_is_nan d)" for r
      by (auto simp: comparable_def split: eresult.splits)
    then show ?thesis
      using float by unfold_locales (auto simp: cmp_val_simps int_compare_laws intro: int_compare_antisym)
  qed
qed

interpretation handler_order: three_way "cmp_val h" "comparable h" for h
  by (rule three_way_handler)

section \<open>Binary parameters\<close>

lemma or_high_low:
  fixes hi lo :: int
  assumes "0 \<le> lo" "lo < 2 ^ 32"
  shows "(hi * 2 ^ 32) OR lo = hi * 2 ^ 32 + lo"
proof -
  have "(push_bit 32 hi) AND lo = 0"
  proof (rule bit_eqI)
    fix n
    have "\<not> bit lo n" if "32 \<le> n"
    proof -
      have "(2::int) ^ 32 \<le> 2 ^ n" using that by (intro power_increasing) auto
      then have "lo div 2 ^ n = 0" using assms by (intro div_pos_pos_trivial) auto
      then show ?thesis by (simp add: bit_iff_odd)
    qed
    then show "bit (push_bit 32 hi AND lo) n \<longleftrightarrow> bit (0::int) n"
      by (auto simp: bit_and_iff bit_push_bit_iff)
  qed
  then have "push_bit 32 hi OR lo = push_bit 32 hi + lo"
    by (simp add: disjunctive_add_eq_or)
  then show ?thesis by (simp add: push_bit_eq_mult)
qed

lemma or_high_negative:
  fixes hi lo :: int
  assumes "lo < 0" "- (2 ^ 32) \<le> lo"
  shows "(hi * 2 ^ 32) OR lo = lo"
proof -
  have "push_bit 32 hi OR lo = lo"
  proof (rule bit_eqI)
    fix n
    have "bit lo n" if "32 \<le> n"
    proof -
      have "(2::int) ^ 32 \<le> 2 ^ n" using that by (intro power_increasing) auto
      then have "(lo + 2 ^ n) div 2 ^ n = 0" using assms by (intro div_pos_pos_trivial) auto
      moreover have "(lo + 2 ^ n) div 2 ^ n = lo div 2 ^ n + 1"
        by (rule div_add_self2) simp
      ultimately have "lo div 2 ^ n = -1" by linarith
      then show ?thesis by (simp add: bit_iff_odd)
    qed
    then show "bit (push_bit 32 hi OR lo) n \<longleftrightarrow> bit lo n"
      by (auto simp: bit_or_iff bit_push_bit_iff)
  qed
  then show ?thesis by (simp add: push_bit_eq_mult)
qed

lemma be_bytes_8_split: "be_bytes 8 v = be_bytes 4 (v div 2 ^ 32) @ be_bytes 4 v"
  by (simp add: be_bytes_def numeral_eq_Suc div_mult2_eq [symmetric] zdiv_zmult2_eq [symmetric])

lemma binaryToInt_8:
  assumes "int64_range v"
  shows "binaryToInt (string_of (be_bytes 8 v)) =
    Inr (if v mod 2 ^ 32 < 2 ^ 31 then v else v mod 2 ^ 32 - 2 ^ 32)"
proof -
  let ?lo = "v mod 2 ^ 32"
  have hi: "to_signed 4 (v div 2 ^ 32 mod 2 ^ 32) = v div 2 ^ 32"
  proof -
    obtain q r where qr: "q = v div 2 ^ 32" "r = v mod 2 ^ 32" by blast
    have "v = 4294967296 * q + r" "0 \<le> r" "r < 4294967296" by (simp_all add: qr)
    moreover have "- 9223372036854775808 \<le> v" "v < 9223372036854775808"
      using assms by (simp_all add: int64_range_def)
    ultimately have "- 2147483648 \<le> q" "q < 2147483648" by linarith+
    then have "- (2 ^ 31) \<le> v div 2 ^ 32" "v div 2 ^ 32 < 2 ^ 31" by (simp_all add: qr)
    then show ?thesis using wrap_signed_id [of 4 "v div 2 ^ 32"] by (simp add: wrap_signed_def)
  qed
  have lo: "to_signed 4 ?lo = (if ?lo < 2 ^ 31 then ?lo else ?lo - 2 ^ 32)"
    by (simp add: to_signed_def)
  have v: "v div 2 ^ 32 * 2 ^ 32 + ?lo = v" by (rule div_mult_mod_eq)
  have "(v div 2 ^ 32 * 2 ^ 32) OR (if ?lo < 2 ^ 31 then ?lo else ?lo - 2 ^ 32)
      = (if ?lo < 2 ^ 31 then v else ?lo - 2 ^ 32)"
  proof (cases "?lo < 2 ^ 31")
    case True
    have "(v div 2 ^ 32 * 2 ^ 32) OR ?lo = v div 2 ^ 32 * 2 ^ 32 + ?lo" by (rule or_high_low) simp_all
    then show ?thesis using True v by simp
  next
    case False
    have "(v div 2 ^ 32 * 2 ^ 32) OR (?lo - 2 ^ 32) = ?lo - 2 ^ 32" by (rule or_high_negative) simp_all
    then show ?thesis using False by simp
  qed
  moreover have "be_uint (take 4 (be_bytes 8 v)) = v div 2 ^ 32 mod 2 ^ 32"
    "be_uint (drop 4 (be_bytes 8 v)) = ?lo"
    by (simp_all add: be_bytes_8_split be_uint_be_bytes)
  ultimately show ?thesis
    unfolding binaryToInt_def Let_def bytes_of_string_of length_string_of length_be_bytes
    by (simp only: hi lo) simp
qed

lemma binaryToInt_4: "binaryToInt (string_of (be_bytes 4 v)) = Inr (v mod 2 ^ 32)"
  unfolding binaryToInt_def Let_def bytes_of_string_of length_string_of length_be_bytes
  by (simp add: be_uint_be_bytes)

lemma binaryToInt_2: "binaryToInt (string_of (be_bytes 2 v)) = Inr (v mod 2 ^ 16)"
  unfolding binaryToInt_def Let_def bytes_of_string_of length_string_of length_be_bytes
  by (simp add: be_uint_be_bytes)
section \<open>Properties\<close>

text \<open>
  C25.  Every value a column type admits (and every search bound) is stored in as many bytes as
  \<open>getSize\<close> announces, and reading these bytes, whatever follows them, gives the value back.
\<close>

theorem stored_value_roundtrip:
  assumes "bound_ok h r"
  shows "\<exists>bs. h_write L h r = Inr bs \<and> h_getSize L h r = Inr (length bs) \<and>
    (\<forall>rest. h_read h (bs @ rest) = Inr (stored h r))"
  using assms by (rule stored_value_roundtrip_lemma)

theorem stored_value_roundtrip_witness:
  "bound_ok (H_Int T_int16) (R_Int (-2)) \<and>
   (\<exists>bs. h_write ex_lib (H_Int T_int16) (R_Int (-2)) = Inr bs \<and> h_read (H_Int T_int16) bs = Inr (R_Int (-2)))"
proof -
  have ok: "bound_ok (H_Int T_int16) (R_Int (-2))"
    by (simp add: bound_ok_def value_ok_def int_min_def int_max_def)
  from stored_value_roundtrip [OF ok, of ex_lib] obtain bs where
    "h_write ex_lib (H_Int T_int16) (R_Int (-2)) = Inr bs"
    "h_read (H_Int T_int16) (bs @ []) = Inr (stored (H_Int T_int16) (R_Int (-2)))" by blast
  moreover have "stored (H_Int T_int16) (R_Int (-2)) = R_Int (-2)" by (simp add: stored_def)
  ultimately show ?thesis using ok unfolding append_Nil2 by metis
qed

text \<open>
  C39.  The one string length whose stored size is misread: after a string of 65533 bytes,
  which \<open>write\<close> accepts, \<open>getSize\<close> on the stored bytes answers 2 instead of 65535.
\<close>

theorem string_size_65533:
  assumes "length s = 65533"
  shows "\<exists>bs. h_write L H_String (R_StringView s) = Inr bs \<and> length bs = 65535 \<and>
    h_getSize L H_String (R_StringView s) = Inr 65535 \<and> h_getSizeAt H_String (bs @ rest) = Inr 2"
proof -
  have ok: "bound_ok H_String (R_StringView s)"
    using assms by (simp add: bound_ok_def value_ok_def)
  from h_write_read [OF ok, of L] obtain bs where
    bs: "h_write L H_String (R_StringView s) = Inr bs" "h_getSize L H_String (R_StringView s) = Inr (length bs)"
    by blast
  from h_getSizeAt_65533 [OF assms bs(1)] bs show ?thesis by auto
qed

theorem string_size_65533_witness:
  "\<exists>bs. h_write ex_lib H_String (R_StringView (replicate 65533 (CHR ''a''))) = Inr bs \<and>
     length bs = 65535 \<and> h_getSizeAt H_String bs = Inr 2"
  using string_size_65533 [OF length_replicate [of 65533 "CHR ''a''"], of ex_lib "[]", unfolded append_Nil2]
  by blast



text \<open>
  C40.  A 4-byte binary parameter for an \<open>int32\<close> column is taken as unsigned: every
  non-negative value arrives, every negative one is refused as out of range.
\<close>

theorem negative_int32_param:
  assumes "- (2 ^ 31) \<le> v" "v < 2 ^ 31"
  shows "int_fromNode L T_int32 (PNode a NT_PARAM BINARY_PARAM e (string_of (be_bytes 4 v)) cs) =
    (if 0 \<le> v then Inr (R_Int v)
     else Inl (ParseException (''integer '' @ int_to_string (v + 2 ^ 32) @ '' exceed data type range'')))"
proof (cases "0 \<le> v")
  case True
  then have "v mod 2 ^ 32 = v" using assms by simp
  then show ?thesis using True assms
    by (simp add: int_fromNode_def binaryToInt_4 checkInt_def int_min_def int_max_def)
next
  case False
  then have "(v + 2 ^ 32) mod 2 ^ 32 = v + 2 ^ 32" using assms by (intro mod_pos_pos_trivial) auto
  then have "v mod 2 ^ 32 = v + 2 ^ 32" by simp
  then show ?thesis using False assms
    by (simp add: int_fromNode_def binaryToInt_4 checkInt_def int_min_def int_max_def guardR_def)
qed

theorem negative_int32_param_witness:
  "int_fromNode ex_lib T_int32 (PNode 0 NT_PARAM BINARY_PARAM ''p'' (string_of (be_bytes 4 (-1))) []) =
     Inl (ParseException (''integer '' @ int_to_string 4294967295 @ '' exceed data type range''))"
  using negative_int32_param [of "-1" ex_lib 0 "''p''" "[]"] by simp

end
