(* ===== verification/Config.thy ===== *)
theory Config
  imports DataTypes
begin

text \<open>
  The catalogue: \<^verbatim>\<open>src/common/ConfigInfo.h\<close>, \<^verbatim>\<open>ConfigInfo.cpp\<close> (columns and tables),
  \<^verbatim>\<open>MetaConfig.h\<close> and \<^verbatim>\<open>MetaConfig.cpp\<close> (the configuration file).  The regular expressions
  of the source are written as matching functions; \<open>absl::StrSplit\<close> is a parameter.
\<close>

section \<open>Columns and tables\<close>

record column_info =
  c_name :: string
  c_type :: DBDataType
  c_len :: nat
  c_index :: nat
  c_keyIndex :: int
  c_valueIndex :: int

definition newColumnInfo :: "string \<Rightarrow> DBDataType \<Rightarrow> column_info" where
  "newColumnInfo name type = \<lparr>c_name = name, c_type = type, c_len = 0, c_index = 0,
     c_keyIndex = -1, c_valueIndex = -1\<rparr>"

text \<open>
  \<open>t_keys\<close>, \<open>t_values\<close> and \<open>t_columnMap\<close> hold pointers into \<open>m_columns\<close>: here the positions.
\<close>

record table_info =
  t_columns :: "column_info list"
  t_keys :: "nat list"
  t_values :: "nat list"
  t_columnMap :: "(string \<times> nat) list"
  t_attr :: "(string \<times> string) list"
  t_name :: string

definition newTableInfo :: table_info where
  "newTableInfo = \<lparr>t_columns = [], t_keys = [], t_values = [], t_columnMap = [], t_attr = [], t_name = []\<rparr>"

definition setName :: "string \<Rightarrow> table_info \<Rightarrow> table_info" where
  "setName name T = T\<lparr>t_name := name\<rparr>"

definition getColumnCount :: "table_info \<Rightarrow> nat" where "getColumnCount T = length (t_columns T)"
definition getKeyCount :: "table_info \<Rightarrow> nat" where "getKeyCount T = length (t_keys T)"
definition getValueCount :: "table_info \<Rightarrow> nat" where "getValueCount T = length (t_values T)"

definition getColumn :: "table_info \<Rightarrow> nat \<Rightarrow> column_info res" where
  "getColumn T i = (if i < length (t_columns T) then Inr (t_columns T ! i) else Inl (Stuck ''m_columns[i]''))"

definition getKeyColumn :: "table_info \<Rightarrow> nat \<Rightarrow> column_info res" where
  "getKeyColumn T i =
     (if i < length (t_keys T) then getColumn T (t_keys T ! i) else Inl (Stuck ''m_keys[i]''))"

definition getValueColumn :: "table_info \<Rightarrow> nat \<Rightarrow> column_info res" where
  "getValueColumn T i =
     (if i < length (t_values T) then getColumn T (t_values T ! i) else Inl (Stuck ''m_values[i]''))"

definition getColumnByName :: "table_info \<Rightarrow> string \<Rightarrow> column_info option" where
  "getColumnByName T name = map_option (\<lambda>i. t_columns T ! i) (map_of (t_columnMap T) name)"

definition addAttribute :: "string \<Rightarrow> string \<Rightarrow> table_info \<Rightarrow> table_info" where
  "addAttribute key v T = T\<lparr>t_attr := smap_put key v (t_attr T)\<rparr>"

definition getAttribute :: "table_info \<Rightarrow> string \<Rightarrow> string res" where
  "getAttribute T key = (case map_of (t_attr T) key of
       None \<Rightarrow> Inl (ConfigException (''attribute '' @ key @ '' for '' @ t_name T @ '' not found''))
     | Some v \<Rightarrow> Inr v)"

definition getAttributeOr :: "table_info \<Rightarrow> string \<Rightarrow> string \<Rightarrow> string" where
  "getAttributeOr T key defValue = (case map_of (t_attr T) key of None \<Rightarrow> defValue | Some v \<Rightarrow> v)"

definition hasAttribute :: "table_info \<Rightarrow> string \<Rightarrow> bool" where
  "hasAttribute T key = (map_of (t_attr T) key \<noteq> None)"

section \<open>The regular expressions\<close>

definition is_ws :: "char \<Rightarrow> bool" where
  "is_ws c = (ccode c = 32 \<or> (9 \<le> ccode c \<and> ccode c \<le> 13))"

definition is_dec :: "char \<Rightarrow> bool" where
  "is_dec c = (48 \<le> ccode c \<and> ccode c \<le> 57)"

text \<open>
  \<^verbatim>\<open>([^:\s]+):([^:\(\)\s]+)(\([\d]+\))?\<close>, at the front of a string and then searched from
  left to right.  The first group can only end at a colon, so it is the longest run; the third
  group is optional and greedy.
\<close>

definition column_match :: "string \<Rightarrow> (string \<times> string \<times> string) option" where
  "column_match s =
     (let name = takeWhile (\<lambda>c. c \<noteq> CHR '':'' \<and> \<not> is_ws c) s; r1 = drop (length name) s;
          type = takeWhile (\<lambda>c. c \<noteq> CHR '':'' \<and> c \<noteq> CHR ''('' \<and> c \<noteq> CHR '')'' \<and> \<not> is_ws c) (tl r1);
          r2 = drop (length type) (tl r1);
          digits = takeWhile is_dec (tl r2); r3 = drop (length digits) (tl r2)
      in if name = [] \<or> r1 = [] \<or> hd r1 \<noteq> CHR '':'' \<or> type = [] then None
         else if r2 \<noteq> [] \<and> hd r2 = CHR ''('' \<and> digits \<noteq> [] \<and> r3 \<noteq> [] \<and> hd r3 = CHR '')''
         then Some (name, type, CHR ''('' # digits @ [CHR '')''])
         else Some (name, type, []))"

fun regex_search :: "(string \<Rightarrow> 'm option) \<Rightarrow> string \<Rightarrow> 'm option" where
  "regex_search m [] = m []"
| "regex_search m (c # s) = (case m (c # s) of Some r \<Rightarrow> Some r | None \<Rightarrow> regex_search m s)"

text \<open>
  \<^verbatim>\<open>([^=\s]+)\s*=\s*([^=]+)\s*\<close>.  The blanks after the equals sign go to \<^verbatim>\<open>\s*\<close>, except that
  the second group needs a character: it takes the last blank when nothing else is left.  The
  blanks after the value belong to the group, which excludes only the equals sign.
\<close>

definition attribute_match :: "string \<Rightarrow> (string \<times> string) option" where
  "attribute_match s =
     (let key = takeWhile (\<lambda>c. c \<noteq> CHR ''='' \<and> \<not> is_ws c) s;
          r1 = dropWhile is_ws (drop (length key) s);
          ws = takeWhile is_ws (tl r1);
          v = takeWhile (\<lambda>c. c \<noteq> CHR ''='') (dropWhile is_ws (tl r1))
      in if key = [] \<or> r1 = [] \<or> hd r1 \<noteq> CHR ''='' then None
         else if v \<noteq> [] then Some (key, v)
         else if ws \<noteq> [] then Some (key, [last ws])
         else None)"

section \<open>Operations of a table\<close>

definition dec_value :: "string \<Rightarrow> nat" where
  "dec_value s = foldl (\<lambda>n c. n * 10 + (ccode c - 48)) 0 s"

definition INT_MAX :: nat where "INT_MAX = 2147483647"

definition lookup_type :: "(string \<times> DBDataType) list \<Rightarrow> string \<Rightarrow> DBDataType" where
  "lookup_type dataTypes ty = (case map_of dataTypes ty of None \<Rightarrow> DT_UNKNOWN | Some t \<Rightarrow> t)"

definition addColumn :: "(string \<times> DBDataType) list \<Rightarrow> string \<Rightarrow> table_info \<Rightarrow> table_info res" where
  "addColumn dataTypes sValue T =
     (case regex_search column_match sValue of
        None \<Rightarrow> Inl (ConfigException (''Illegal attribute value '' @ sValue))
      | Some (name, ty, sLen) \<Rightarrow>
          (let type = lookup_type dataTypes ty in
           if type = DT_UNKNOWN then Inl (ConfigException (''Unknown datatype '' @ ty))
           else
             (let len = dec_value (butlast (tl sLen)) in
              if sLen \<noteq> [] \<and> len > INT_MAX then Inl (Stuck ''atoi'')
              else if sLen \<noteq> [] \<and> len = 0 then Inl (ConfigException (''Illegal type length '' @ sLen))
              else Inr (T\<lparr>
                t_columns := t_columns T @
                  [(newColumnInfo name type)\<lparr>c_index := length (t_columns T),
                     c_len := (if sLen \<noteq> [] then len else 0)\<rparr>],
                t_columnMap := smap_put name (length (t_columns T)) (t_columnMap T)\<rparr>))))"

definition addKeyColumn :: "table_info \<Rightarrow> string \<Rightarrow> table_info res" where
  "addKeyColumn T name =
     (case map_of (t_columnMap T) name of
        None \<Rightarrow> Inl (ConfigException (''Undefined key column '' @ [CHR 0x27] @ name @ [CHR 0x27]))
      | Some i \<Rightarrow> Inr (T\<lparr>
          t_columns := (t_columns T)[i := (t_columns T ! i)\<lparr>c_keyIndex := int (length (t_keys T))\<rparr>],
          t_keys := t_keys T @ [i]\<rparr>))"

text \<open>One step of the loop of \<open>evaluate\<close>, for the column at position \<open>i\<close>.\<close>

definition addValueColumn :: "table_info \<Rightarrow> nat \<Rightarrow> table_info" where
  "addValueColumn T i =
     (if c_keyIndex (t_columns T ! i) \<ge> 0 then T
      else T\<lparr>t_columns := (t_columns T)[i := (t_columns T ! i)\<lparr>c_valueIndex := int (length (t_values T))\<rparr>],
             t_values := t_values T @ [i]\<rparr>)"

definition evaluate :: "table_info \<Rightarrow> table_info res" where
  "evaluate T =
     (let T' = foldl addValueColumn T [0..<length (t_columns T)] in
      if getAttributeOr T' ''path'' [] = []
      then Inl (ConfigException (''Table '' @ t_name T' @ '' does not define path attribute before keys''))
      else Inr T')"

definition getDBColumns :: "table_info \<Rightarrow> pnode \<Rightarrow> column_info list res" where
  "getDBColumns T pColumn =
     (case pColumn of
        NullNode \<Rightarrow> Inr (t_columns T)
      | PNode _ _ _ _ _ cs \<Rightarrow>
          traverseR (\<lambda>p. case p of
              NullNode \<Rightarrow> Inl (Stuck ''null column node'')
            | PNode _ t _ e v _ \<Rightarrow>
                if t \<noteq> NT_NAME then Inl (ParseException (''Unsupported select expression:'' @ e))
                else (case getColumnByName T v of
                        None \<Rightarrow> Inl (ParseException (''Table '' @ t_name T @ '' does not have column named '' @ v))
                      | Some c \<Rightarrow> Inr c)) cs)"

section \<open>The configuration\<close>

text \<open>
  \<open>mc_store\<close> is the heap of tables, \<open>mc_tableMap\<close> points into it.  \<open>StrSplit\<close>, a parameter, is
  \<open>absl::StrSplit(s, ",", absl::SkipWhitespace())\<close>.
\<close>

record meta_config =
  mc_store :: "table_info list"
  mc_tableMap :: "(string \<times> nat) list"
  mc_dataTypeMap :: "(string \<times> DBDataType) list"
  mc_workerNum :: nat
  mc_timeout :: nat
  mc_execBuffer :: nat
  mc_port :: int

definition newMetaConfig :: meta_config where
  "newMetaConfig = \<lparr>mc_store = [], mc_tableMap = [], mc_dataTypeMap = [], mc_workerNum = 20,
     mc_timeout = 60, mc_execBuffer = 1024 * 1024 * 1024, mc_port = 5433\<rparr>"

definition addDataType :: "string \<Rightarrow> DBDataType \<Rightarrow> meta_config \<Rightarrow> meta_config" where
  "addDataType key v M = M\<lparr>mc_dataTypeMap := smap_put key v (mc_dataTypeMap M)\<rparr>"

definition init_dataTypes :: "meta_config \<Rightarrow> meta_config" where
  "init_dataTypes M = foldl (\<lambda>M t. addDataType (getTypeName t) t M) M
     [DT_INT16, DT_INT32, DT_INT64, DT_STRING, DT_DATETIME, DT_DATE, DT_FLOAT, DT_DOUBLE, DT_BYTES, DT_BOOL]"

definition getDataType :: "meta_config \<Rightarrow> string \<Rightarrow> DBDataType" where
  "getDataType M sType = lookup_type (mc_dataTypeMap M) sType"

definition typeToString :: "meta_config \<Rightarrow> DBDataType \<Rightarrow> string" where
  "typeToString M targetType =
     (case find (\<lambda>(name, t). targetType = t) (mc_dataTypeMap M) of Some (name, t) \<Rightarrow> name | None \<Rightarrow> ''unknown'')"

definition getTables :: "meta_config \<Rightarrow> table_info list" where
  "getTables M = map (\<lambda>(name, p). mc_store M ! p) (mc_tableMap M)"

definition getTableInfo :: "meta_config \<Rightarrow> string \<Rightarrow> table_info option" where
  "getTableInfo M name = map_option (\<lambda>p. mc_store M ! p) (map_of (mc_tableMap M) name)"

definition addTable :: "nat \<Rightarrow> meta_config \<Rightarrow> meta_config res" where
  "addTable p M =
     (let name = t_name (mc_store M ! p) in
      if getTableInfo M name \<noteq> None
      then Inl (ConfigException (''table '' @ name @ '' already defined!''))
      else Inr (M\<lparr>mc_tableMap := smap_put name p (mc_tableMap M)\<rparr>))"

text \<open>\<open>std::stol\<close>, and the conversion of its result to \<open>uint32_t\<close>.\<close>

definition stol :: "string \<Rightarrow> int res" where
  "stol s =
     (let s1 = dropWhile is_ws s;
          sg = (s1 \<noteq> [] \<and> hd s1 = CHR ''-'');
          s2 = (if s1 \<noteq> [] \<and> (hd s1 = CHR ''-'' \<or> hd s1 = CHR ''+'') then tl s1 else s1);
          ds = takeWhile is_dec s2;
          v = (if sg then - int (dec_value ds) else int (dec_value ds))
      in if ds = [] then Inl (StdException ''stol'')
         else if \<not> int64_range v then Inl (StdException ''stol'')
         else Inr v)"

definition to_uint32 :: "int \<Rightarrow> nat" where
  "to_uint32 v = nat (v mod 2 ^ 32)"

definition update_current :: "nat \<Rightarrow> (table_info \<Rightarrow> table_info res) \<Rightarrow> meta_config \<Rightarrow> meta_config res" where
  "update_current p f M = bindR (f (mc_store M ! p)) (\<lambda>T. Inr (M\<lparr>mc_store := (mc_store M)[p := T]\<rparr>))"

text \<open>
  One attribute of the file.  A second \<open>name\<close> for a registered table would change the string its
  map entry views and hand the table to a second owner.
\<close>

definition load_global :: "string \<Rightarrow> string \<Rightarrow> meta_config \<Rightarrow> meta_config res" where
  "load_global sKey sValue M =
     (if sKey = ''worker_num'' then bindR (stol sValue) (\<lambda>v. Inr (M\<lparr>mc_workerNum := to_uint32 v\<rparr>))
      else if sKey = ''timeout'' then bindR (stol sValue) (\<lambda>v. Inr (M\<lparr>mc_timeout := to_uint32 v\<rparr>))
      else if sKey = ''execution_buffer'' then bindR (stol sValue) (\<lambda>v. Inr (M\<lparr>mc_execBuffer := to_uint32 v\<rparr>))
      else Inr M)"

definition load_attribute ::
  "(string \<Rightarrow> string list) \<Rightarrow> nat \<Rightarrow> string \<Rightarrow> string \<Rightarrow> meta_config \<Rightarrow> meta_config res" where
  "load_attribute StrSplit p sKey sValue M =
     (if sKey = ''name'' then
        (if p \<in> snd ` set (mc_tableMap M) then Inl (Stuck ''table registered twice'')
         else bindR (update_current p (\<lambda>T. Inr (setName sValue T)) M) (addTable p))
      else if sKey = ''column'' then update_current p (addColumn (mc_dataTypeMap M) sValue) M
      else if sKey = ''key'' then
        update_current p (\<lambda>T. bindR (foldR addKeyColumn T (StrSplit sValue)) evaluate) M
      else update_current p (\<lambda>T. Inr (addAttribute sKey sValue T)) M)"

type_synonym load_state = "meta_config \<times> nat option"

definition load_line :: "(string \<Rightarrow> string list) \<Rightarrow> load_state \<Rightarrow> string \<Rightarrow> load_state res" where
  "load_line StrSplit = (\<lambda>(M, cur) l.
     (let line = (case str_find l ''#'' of None \<Rightarrow> l | Some pos \<Rightarrow> take pos l) in
      if str_find line ''[table]'' \<noteq> None
      then Inr (M\<lparr>mc_store := mc_store M @ [newTableInfo]\<rparr>, Some (length (mc_store M)))
      else (case regex_search attribute_match line of
              None \<Rightarrow> Inr (M, cur)
            | Some (sKey, sValue) \<Rightarrow>
                (case cur of
                   None \<Rightarrow> mapR (\<lambda>M. (M, None)) (load_global sKey sValue M)
                 | Some p \<Rightarrow> mapR (\<lambda>M. (M, Some p)) (load_attribute StrSplit p sKey sValue M)))))"

text \<open>The lines of the file, or nothing when it cannot be opened.\<close>

definition load :: "(string \<Rightarrow> string list) \<Rightarrow> string \<Rightarrow> string list option \<Rightarrow> meta_config \<Rightarrow> meta_config res" where
  "load StrSplit sPath infile M =
     (case infile of
        None \<Rightarrow> Inl (ConfigException (''reading config file '' @ sPath @ '' failed''))
      | Some ls \<Rightarrow> mapR fst (foldR (load_line StrSplit) (M\<lparr>mc_store := [], mc_tableMap := []\<rparr>, None) ls))"

section \<open>Well-formed tables\<close>

text \<open>
  The positions a column carries point back at it: \<open>slot_ok k i xs\<close> says that \<open>k\<close> is -1 or the
  position of \<open>i\<close> in \<open>xs\<close>.
\<close>

definition slot_ok :: "int \<Rightarrow> nat \<Rightarrow> nat list \<Rightarrow> bool" where
  "slot_ok k i xs \<longleftrightarrow> k = -1 \<or> (0 \<le> k \<and> nat k < length xs \<and> xs ! nat k = i)"

definition column_wf :: "table_info \<Rightarrow> nat \<Rightarrow> bool" where
  "column_wf T i \<longleftrightarrow> (let c = t_columns T ! i in
     c_index c = i \<and> c_type c \<noteq> DT_UNKNOWN \<and>
     slot_ok (c_keyIndex c) i (t_keys T) \<and> slot_ok (c_valueIndex c) i (t_values T) \<and>
     (i \<in> set (t_keys T) \<longrightarrow> 0 \<le> c_keyIndex c) \<and> (i \<in> set (t_values T) \<longrightarrow> 0 \<le> c_valueIndex c))"

definition names_ok :: "column_info list \<Rightarrow> (string \<times> nat) list \<Rightarrow> bool" where
  "names_ok cs m \<longleftrightarrow> (\<forall>(name, i) \<in> set m. i < length cs \<and> c_name (cs ! i) = name)"

definition table_wf :: "table_info \<Rightarrow> bool" where
  "table_wf T \<longleftrightarrow>
     (\<forall>i < length (t_columns T). column_wf T i) \<and>
     (\<forall>i \<in> set (t_keys T) \<union> set (t_values T). i < length (t_columns T)) \<and>
     names_ok (t_columns T) (t_columnMap T) \<and>
     smap_ok (t_columnMap T)"

lemma slot_ok_append: "slot_ok k i xs \<Longrightarrow> slot_ok k i (xs @ ys)"
  by (auto simp: slot_ok_def nth_append)

lemma slot_ok_new: "slot_ok (int (length xs)) i (xs @ [i])"
  by (simp add: slot_ok_def)

lemma smap_put_set: "smap_ok m \<Longrightarrow> e \<in> set (smap_put k v m) \<Longrightarrow> e = (k, v) \<or> e \<in> set m"
  by (induction m rule: smap_ok.induct) (auto simp: Let_def split: if_splits)

lemma slot_ok_mem: "slot_ok k i xs \<Longrightarrow> k \<noteq> -1 \<Longrightarrow> 0 \<le> k \<and> i \<in> set xs \<and> xs ! nat k = i \<and> nat k < length xs"
  by (auto simp: slot_ok_def)

lemma column_wf_positions:
  assumes "column_wf T i"
  shows "i \<in> set (t_keys T) \<longleftrightarrow> c_keyIndex (t_columns T ! i) \<noteq> -1"
    "i \<in> set (t_values T) \<longleftrightarrow> c_valueIndex (t_columns T ! i) \<noteq> -1"
    "c_keyIndex (t_columns T ! i) < 0 \<longleftrightarrow> c_keyIndex (t_columns T ! i) = -1"
  using assms slot_ok_mem unfolding column_wf_def Let_def by (metis neg_0_le_iff_le not_one_le_zero, metis neg_0_le_iff_le not_one_le_zero, metis linorder_not_less zero_le_one neg_less_0_iff_less zero_less_one)

lemma newTableInfo_wf: "table_wf newTableInfo"
  by (simp add: table_wf_def newTableInfo_def names_ok_def)

lemma names_ok_update:
  assumes "names_ok cs m" "c_name c = c_name (cs ! i)"
  shows "names_ok (cs[i := c]) m"
  unfolding names_ok_def
proof (clarify, intro conjI)
  fix name j
  assume "(name, j) \<in> set m"
  then have j: "j < length cs" "c_name (cs ! j) = name" using assms(1) by (auto simp: names_ok_def)
  then show "j < length (cs[i := c])" by simp
  show "c_name (cs[i := c] ! j) = name" using j assms(2) by (cases "i = j") auto
qed

lemma names_ok_append:
  assumes "names_ok cs m" "smap_ok m"
  shows "names_ok (cs @ [c]) (smap_put (c_name c) (length cs) m)"
  using assms(1) smap_put_set [OF assms(2)] by (fastforce simp: names_ok_def nth_append)

lemma setName_wf: "table_wf T \<Longrightarrow> table_wf (setName n T)"
  by (simp add: table_wf_def setName_def column_wf_def)

lemma addAttribute_wf: "table_wf T \<Longrightarrow> table_wf (addAttribute k v T)"
  by (simp add: table_wf_def addAttribute_def column_wf_def)

lemma addColumn_InrE:
  assumes "addColumn dataTypes sValue T = Inr T'"
  obtains name type len where "type \<noteq> DT_UNKNOWN"
    "T' = T\<lparr>t_columns := t_columns T @ [(newColumnInfo name type)\<lparr>c_index := length (t_columns T), c_len := len\<rparr>],
            t_columnMap := smap_put name (length (t_columns T)) (t_columnMap T)\<rparr>"
  using assms by (auto simp: addColumn_def Let_def split: option.splits prod.splits if_splits)

lemma addColumn_wf:
  assumes "table_wf T" "addColumn dataTypes sValue T = Inr T'"
  shows "table_wf T'"
proof -
  from assms(2) obtain name type len where ty: "type \<noteq> DT_UNKNOWN" and T':
    "T' = T\<lparr>t_columns := t_columns T @ [(newColumnInfo name type)\<lparr>c_index := length (t_columns T), c_len := len\<rparr>],
            t_columnMap := smap_put name (length (t_columns T)) (t_columnMap T)\<rparr>"
    by (rule addColumn_InrE)
  have "length (t_columns T) \<notin> set (t_keys T) \<union> set (t_values T)"
    using assms(1) by (auto simp: table_wf_def)
  then have "column_wf T' i" if "i < length (t_columns T')" for i
    using that assms(1) ty
    by (auto simp: T' table_wf_def column_wf_def newColumnInfo_def nth_append slot_ok_def less_Suc_eq Let_def)
  moreover have "names_ok (t_columns T') (t_columnMap T')"
    using assms(1) names_ok_append [of "t_columns T" "t_columnMap T" "(newColumnInfo name type)\<lparr>c_index := length (t_columns T), c_len := len\<rparr>"]
    by (simp add: T' table_wf_def newColumnInfo_def)
  ultimately show ?thesis
    using assms(1) by (auto simp: table_wf_def T' smap_put_ok less_SucI)
qed

lemma addKeyColumn_InrE:
  assumes "addKeyColumn T name = Inr T'" "table_wf T"
  obtains i where "i < length (t_columns T)" "c_name (t_columns T ! i) = name"
    "map_of (t_columnMap T) name = Some i"
    "T' = T\<lparr>t_columns := (t_columns T)[i := (t_columns T ! i)\<lparr>c_keyIndex := int (length (t_keys T))\<rparr>],
            t_keys := t_keys T @ [i]\<rparr>"
proof -
  from assms(1) obtain i where i: "map_of (t_columnMap T) name = Some i"
    "T' = T\<lparr>t_columns := (t_columns T)[i := (t_columns T ! i)\<lparr>c_keyIndex := int (length (t_keys T))\<rparr>],
            t_keys := t_keys T @ [i]\<rparr>"
    by (auto simp: addKeyColumn_def split: option.splits)
  then have "(name, i) \<in> set (t_columnMap T)" by (simp add: map_of_SomeD)
  then show ?thesis using assms(2) i by (intro that [of i]) (auto simp: table_wf_def names_ok_def)
qed

lemma addKeyColumn_wf:
  assumes "table_wf T" "addKeyColumn T name = Inr T'"
  shows "table_wf T'"
proof -
  from assms(2,1) obtain i where i: "i < length (t_columns T)" and T':
    "T' = T\<lparr>t_columns := (t_columns T)[i := (t_columns T ! i)\<lparr>c_keyIndex := int (length (t_keys T))\<rparr>],
            t_keys := t_keys T @ [i]\<rparr>"
    by (rule addKeyColumn_InrE)
  have "column_wf T' j" if "j < length (t_columns T')" for j
    using that assms(1) i
    by (cases "i = j") (auto simp: T' table_wf_def column_wf_def Let_def slot_ok_new slot_ok_append)
  moreover have "names_ok (t_columns T') (t_columnMap T')"
    using assms(1) by (simp add: T' table_wf_def names_ok_update)
  ultimately show ?thesis
    using assms(1) i by (auto simp: table_wf_def T')
qed

lemma addValueColumn_wf:
  assumes "table_wf T" "i < length (t_columns T)"
  shows "table_wf (addValueColumn T i)"
proof (cases "c_keyIndex (t_columns T ! i) \<ge> 0")
  case False
  define T' where "T' = addValueColumn T i"
  have T': "T' = T\<lparr>t_columns := (t_columns T)[i := (t_columns T ! i)\<lparr>c_valueIndex := int (length (t_values T))\<rparr>],
             t_values := t_values T @ [i]\<rparr>"
    using False by (simp add: T'_def addValueColumn_def)
  have "column_wf T' j" if "j < length (t_columns T')" for j
    using that assms
    by (cases "i = j") (auto simp: T' table_wf_def column_wf_def Let_def slot_ok_new slot_ok_append)
  moreover have "names_ok (t_columns T') (t_columnMap T')"
    using assms(1) by (simp add: T' table_wf_def names_ok_update)
  ultimately have "table_wf T'"
    using assms by (auto simp: table_wf_def T')
  then show ?thesis by (simp add: T'_def)
qed (simp add: addValueColumn_def assms)

lemma addValueColumn_columns [simp]: "length (t_columns (addValueColumn T i)) = length (t_columns T)"
  by (simp add: addValueColumn_def)

lemma addValueColumns_wf:
  "table_wf T \<Longrightarrow> set is \<subseteq> {..<length (t_columns T)} \<Longrightarrow> table_wf (foldl addValueColumn T is)"
  by (induction "is" arbitrary: T) (simp_all add: addValueColumn_wf)

lemma evaluate_InrE:
  assumes "evaluate T = Inr T'"
  obtains "T' = foldl addValueColumn T [0..<length (t_columns T)]"
  using assms by (auto simp: evaluate_def Let_def split: if_splits)

lemma evaluate_wf: "table_wf T \<Longrightarrow> evaluate T = Inr T' \<Longrightarrow> table_wf T'"
  by (erule evaluate_InrE) (auto intro: addValueColumns_wf)

lemmas table_wf_intros = newTableInfo_wf setName_wf addAttribute_wf addColumn_wf addKeyColumn_wf evaluate_wf

section \<open>Well-formed configurations\<close>

definition config_wf :: "meta_config \<Rightarrow> bool" where
  "config_wf M \<longleftrightarrow>
     (\<forall>T \<in> set (mc_store M). table_wf T) \<and>
     (\<forall>(name, p) \<in> set (mc_tableMap M). p < length (mc_store M) \<and> t_name (mc_store M ! p) = name) \<and>
     smap_ok (mc_tableMap M)"

definition load_wf :: "load_state \<Rightarrow> bool" where
  "load_wf = (\<lambda>(M, cur). config_wf M \<and> (\<forall>p. cur = Some p \<longrightarrow> p < length (mc_store M)))"

lemma config_wf_nth: "config_wf M \<Longrightarrow> p < length (mc_store M) \<Longrightarrow> table_wf (mc_store M ! p)"
  by (simp add: config_wf_def)

lemma update_current_wf:
  assumes "config_wf M" "p < length (mc_store M)" "update_current p f M = Inr M'"
    and "\<And>T T'. table_wf T \<Longrightarrow> f T = Inr T' \<Longrightarrow> table_wf T' \<and> (t_name T' = t_name T \<or> p \<notin> snd ` set (mc_tableMap M))"
  shows "config_wf M' \<and> length (mc_store M') = length (mc_store M) \<and> mc_tableMap M' = mc_tableMap M"
proof -
  from assms(3) obtain T' where T': "f (mc_store M ! p) = Inr T'" "M' = M\<lparr>mc_store := (mc_store M)[p := T']\<rparr>"
    by (auto simp: update_current_def)
  note w = assms(4) [OF config_wf_nth [OF assms(1,2)] T'(1)]
  have "p' < length (mc_store M') \<and> t_name (mc_store M' ! p') = name" if "(name, p') \<in> set (mc_tableMap M)" for name p'
  proof -
    have b: "p' < length (mc_store M)" "t_name (mc_store M ! p') = name"
      using that assms(1) by (auto simp: config_wf_def)
    show ?thesis
    proof (cases "p' = p")
      case True
      then have "p \<in> snd ` set (mc_tableMap M)" using that by force
      then show ?thesis using w b True T'(2) by simp
    next
      case False
      then show ?thesis using b T'(2) by simp
    qed
  qed
  moreover have "\<forall>T \<in> set (mc_store M'). table_wf T"
    using assms(1) w T'(2) by (auto simp: config_wf_def dest: set_update_subset_insert [THEN subsetD])
  ultimately show ?thesis using assms(1) T'(2) by (auto simp: config_wf_def)
qed

lemma addTable_wf:
  assumes "config_wf M" "p < length (mc_store M)" "addTable p M = Inr M'"
  shows "config_wf M' \<and> length (mc_store M') = length (mc_store M)"
proof -
  have sm: "smap_ok (mc_tableMap M)" using assms(1) by (simp add: config_wf_def)
  have M': "M' = M\<lparr>mc_tableMap := smap_put (t_name (mc_store M ! p)) p (mc_tableMap M)\<rparr>"
    using assms(3) by (simp add: addTable_def Let_def split: if_splits)
  show ?thesis
    using assms(1,2) sm by (auto simp: M' config_wf_def smap_put_ok dest!: smap_put_set [OF sm])
qed

lemma addTable_store: "addTable p M = Inr M' \<Longrightarrow> mc_store M' = mc_store M"
  by (auto simp: addTable_def Let_def split: if_splits)

lemma addColumn_name: "addColumn d v T = Inr T' \<Longrightarrow> t_name T' = t_name T"
  by (auto elim: addColumn_InrE)

lemma addKeyColumn_name: "addKeyColumn T v = Inr T' \<Longrightarrow> t_name T' = t_name T"
  by (auto simp: addKeyColumn_def split: option.splits)

lemma evaluate_name: "evaluate T = Inr T' \<Longrightarrow> t_name T' = t_name T"
proof (erule evaluate_InrE)
  have "t_name (foldl addValueColumn T is) = t_name T" for "is"
    by (induction "is" arbitrary: T) (simp_all add: addValueColumn_def)
  then show "T' = foldl addValueColumn T [0..<length (t_columns T)] \<Longrightarrow> t_name T' = t_name T" by simp
qed

lemma keys_wf:
  assumes "table_wf T" "bindR (foldR addKeyColumn T names) evaluate = Inr T'"
  shows "table_wf T' \<and> t_name T' = t_name T"
proof -
  from assms(2) obtain T1 where T1: "foldR addKeyColumn T names = Inr T1" "evaluate T1 = Inr T'" by auto
  have "table_wf T1 \<and> t_name T1 = t_name T"
    using T1(1) by (rule foldR_invariant) (auto simp: assms(1) addKeyColumn_wf addKeyColumn_name)
  then show ?thesis using T1(2) evaluate_wf evaluate_name by metis
qed

lemma load_attribute_wf:
  assumes "config_wf M" "p < length (mc_store M)" "load_attribute StrSplit p sKey sValue M = Inr M'"
  shows "config_wf M' \<and> length (mc_store M') = length (mc_store M)"
proof -
  note up = update_current_wf [OF assms(1,2)]
  consider "sKey = ''name''" | "sKey = ''column''" | "sKey = ''key''"
    | "sKey \<noteq> ''name''" "sKey \<noteq> ''column''" "sKey \<noteq> ''key''" by blast
  then show ?thesis
  proof cases
    case 1
    with assms(3) obtain M1 where fresh: "p \<notin> snd ` set (mc_tableMap M)"
      and M1: "update_current p (\<lambda>T. Inr (setName sValue T)) M = Inr M1" "addTable p M1 = Inr M'"
      by (auto simp: load_attribute_def split: if_splits)
    have "config_wf M1 \<and> length (mc_store M1) = length (mc_store M) \<and> mc_tableMap M1 = mc_tableMap M"
      by (rule up [OF M1(1)]) (use fresh in \<open>auto simp: setName_wf\<close>)
    then show ?thesis using addTable_wf [OF _ _ M1(2)] assms(2) by auto
  next
    case 2
    with assms(3) have "update_current p (addColumn (mc_dataTypeMap M) sValue) M = Inr M'"
      by (simp add: load_attribute_def)
    from up [OF this] show ?thesis by (auto simp: addColumn_wf addColumn_name)
  next
    case 3
    with assms(3) have "update_current p (\<lambda>T. bindR (foldR addKeyColumn T (StrSplit sValue)) evaluate) M = Inr M'"
      by (simp add: load_attribute_def)
    then have "config_wf M' \<and> length (mc_store M') = length (mc_store M) \<and> mc_tableMap M' = mc_tableMap M"
      by (rule up) (metis keys_wf)
    then show ?thesis by simp
  next
    case 4
    with assms(3) have "update_current p (\<lambda>T. Inr (addAttribute sKey sValue T)) M = Inr M'"
      by (simp add: load_attribute_def)
    then have "config_wf M' \<and> length (mc_store M') = length (mc_store M) \<and> mc_tableMap M' = mc_tableMap M"
      by (rule up) (auto simp: addAttribute_wf, simp add: addAttribute_def)
    then show ?thesis by simp
  qed
qed

lemma load_global_store: "load_global k v M = Inr M' \<Longrightarrow> mc_store M' = mc_store M \<and> mc_tableMap M' = mc_tableMap M"
  by (auto simp: load_global_def split: if_splits)

lemma load_line_wf:
  assumes "load_wf s" "load_line StrSplit s l = Inr s'"
  shows "load_wf s'"
proof -
  obtain M cur where s: "s = (M, cur)" by (cases s)
  have M: "config_wf M" using assms(1) by (simp add: load_wf_def s)
  have newtab: "config_wf (M\<lparr>mc_store := mc_store M @ [newTableInfo]\<rparr>)"
    using M by (auto simp: config_wf_def nth_append newTableInfo_wf)
  define line where "line = (case str_find l ''#'' of None \<Rightarrow> l | Some pos \<Rightarrow> take pos l)"
  note ll = assms(2) [unfolded s load_line_def prod.case, folded line_def, unfolded Let_def]
  show ?thesis
  proof (cases "str_find line ''[table]''")
    case (Some a)
    then show ?thesis using ll newtab by (auto simp: load_wf_def)
  next
    case None
    show ?thesis
    proof (cases "regex_search attribute_match line")
      case None': None
      then show ?thesis using ll None assms(1) s by simp
    next
      case (Some kv)
      then obtain k v where kv: "regex_search attribute_match line = Some (k, v)" by (cases kv) simp
      show ?thesis
      proof (cases cur)
        case cur: None
        then obtain M' where "load_global k v M = Inr M'" "s' = (M', None)" using ll None kv by auto
        then show ?thesis using M load_global_store by (auto simp: load_wf_def config_wf_def)
      next
        case cur: (Some p)
        then have "p < length (mc_store M)" using assms(1) by (simp add: s load_wf_def)
        moreover obtain M' where "load_attribute StrSplit p k v M = Inr M'" "s' = (M', Some p)"
          using ll None kv cur by auto
        ultimately show ?thesis using load_attribute_wf [OF M] by (auto simp: load_wf_def)
      qed
    qed
  qed
qed

section \<open>Keys and values of a loaded table\<close>

lemma map_same_update: "f c = f (xs ! i) \<Longrightarrow> map f (xs[i := c]) = map f xs"
  by (metis list_update_id map_update)

lemma addValueColumn_keys [simp]:
  "t_keys (addValueColumn T i) = t_keys T"
  "map c_keyIndex (t_columns (addValueColumn T i)) = map c_keyIndex (t_columns T)"
  "map c_name (t_columns (addValueColumn T i)) = map c_name (t_columns T)"
  "map c_type (t_columns (addValueColumn T i)) = map c_type (t_columns T)"
  by (simp_all add: addValueColumn_def map_same_update)

lemma addValueColumns:
  assumes "set is \<subseteq> {..<length (t_columns T)}"
  shows "t_values (foldl addValueColumn T is) = t_values T @ filter (\<lambda>i. c_keyIndex (t_columns T ! i) < 0) is \<and>
    t_keys (foldl addValueColumn T is) = t_keys T \<and>
    map c_keyIndex (t_columns (foldl addValueColumn T is)) = map c_keyIndex (t_columns T) \<and>
    map c_name (t_columns (foldl addValueColumn T is)) = map c_name (t_columns T) \<and>
    map c_type (t_columns (foldl addValueColumn T is)) = map c_type (t_columns T)"
  using assms
proof (induction "is" arbitrary: T)
  case (Cons i "is")
  let ?T = "addValueColumn T i"
  have k: "c_keyIndex (t_columns ?T ! j) = c_keyIndex (t_columns T ! j)" if "j < length (t_columns T)" for j
    using that arg_cong [OF addValueColumn_keys(2) [of T i], of "\<lambda>xs. xs ! j"]
    by (simp add: addValueColumn_keys(2) [symmetric] del: addValueColumn_keys(2))
  have f: "filter (\<lambda>j. c_keyIndex (t_columns ?T ! j) < 0) is = filter (\<lambda>j. c_keyIndex (t_columns T ! j) < 0) is"
    using Cons.prems by (intro filter_cong) (auto simp: k)
  have v: "t_values ?T = t_values T @ filter (\<lambda>j. c_keyIndex (t_columns T ! j) < 0) [i]"
    by (simp add: addValueColumn_def)
  have "set is \<subseteq> {..<length (t_columns ?T)}" using Cons.prems by simp
  from Cons.IH [OF this] show ?case using f v by simp
qed simp

lemma addKeyColumns:
  assumes "table_wf T" "foldR addKeyColumn T names = Inr T'"
  shows "t_keys T' = t_keys T @ map (\<lambda>n. the (map_of (t_columnMap T) n)) names \<and>
    (\<forall>n \<in> set names. map_of (t_columnMap T) n \<noteq> None) \<and> t_values T' = t_values T \<and>
    t_columnMap T' = t_columnMap T \<and> map c_name (t_columns T') = map c_name (t_columns T) \<and>
    map c_type (t_columns T') = map c_type (t_columns T) \<and> table_wf T'"
  using assms
proof (induction names arbitrary: T)
  case (Cons n names)
  from Cons.prems(2) obtain T1 where T1: "addKeyColumn T n = Inr T1" "foldR addKeyColumn T1 names = Inr T'"
    by auto
  from T1(1) Cons.prems(1) obtain i where i: "i < length (t_columns T)" "map_of (t_columnMap T) n = Some i"
    "T1 = T\<lparr>t_columns := (t_columns T)[i := (t_columns T ! i)\<lparr>c_keyIndex := int (length (t_keys T))\<rparr>],
            t_keys := t_keys T @ [i]\<rparr>"
    by (rule addKeyColumn_InrE)
  have "map c_name (t_columns T1) = map c_name (t_columns T)" "map c_type (t_columns T1) = map c_type (t_columns T)"
    by (simp_all add: i(3) map_same_update)
  then show ?case
    using Cons.IH [OF addKeyColumn_wf [OF Cons.prems(1) T1(1)] T1(2)] i by simp
qed simp

text \<open>
  \<open>keyed_table T names\<close>: the key columns of \<open>T\<close> are the named ones, in order, the value columns
  are the others, and every column knows its place.
\<close>

definition keyed_table :: "table_info \<Rightarrow> string list \<Rightarrow> bool" where
  "keyed_table T names \<longleftrightarrow>
     getKeyCount T = length names \<and> getKeyCount T + getValueCount T = getColumnCount T \<and>
     (\<forall>i < getKeyCount T. \<exists>c. getKeyColumn T i = Inr c \<and> c_name c = names ! i \<and> c_keyIndex c = int i \<and> c_valueIndex c = -1) \<and>
     (\<forall>i < getValueCount T. \<exists>c. getValueColumn T i = Inr c \<and> c_keyIndex c = -1 \<and> c_valueIndex c = int i)"

lemma evaluated_keyed:
  assumes "table_wf T" "t_keys T = []" "t_values T = []" "distinct names"
    and "foldR addKeyColumn T names = Inr T1" "evaluate T1 = Inr T2"
  shows "keyed_table T2 names \<and> table_wf T2 \<and>
    map c_name (t_columns T2) = map c_name (t_columns T) \<and> map c_type (t_columns T2) = map c_type (t_columns T)"
proof -
  define n where "n = length (t_columns T)"
  define pos where "pos = (\<lambda>s. the (map_of (t_columnMap T) s))"
  note k = addKeyColumns [OF assms(1,5), folded pos_def]
  have T2: "T2 = foldl addValueColumn T1 [0..<length (t_columns T1)]" using assms(6) by (rule evaluate_InrE)
  have len1: "length (t_columns T1) = n" using k map_eq_imp_length_eq unfolding n_def by blast
  have "set [0..<n] \<subseteq> {..<length (t_columns T1)}" by (auto simp: len1)
  note v = addValueColumns [OF this, folded T2 [unfolded len1]]
  have len2: "length (t_columns T2) = n" using v map_eq_imp_length_eq len1 by metis
  have wf: "table_wf T2" using evaluate_wf k assms(6) by blast
  have keys: "t_keys T2 = map pos names" using k v assms(2) by simp
  have name_pos: "pos s < n \<and> c_name (t_columns T2 ! pos s) = s" if s: "s \<in> set names" for s
  proof -
    from k s obtain i where "map_of (t_columnMap T) s = Some i" by blast
    then have "(s, i) \<in> set (t_columnMap T)" "pos s = i" by (simp_all add: map_of_SomeD pos_def)
    then have i: "pos s < n" "c_name (t_columns T ! pos s) = s"
      using assms(1) by (auto simp: table_wf_def names_ok_def n_def)
    have "map c_name (t_columns T2) = map c_name (t_columns T)" using k v by simp
    then have "c_name (t_columns T2 ! pos s) = c_name (t_columns T ! pos s)"
      using i(1) len2 n_def by (metis nth_map)
    then show ?thesis using i by simp
  qed
  have dist: "distinct (t_keys T2)"
    unfolding keys using assms(4) name_pos by (auto simp: distinct_map inj_on_def) metis
  have kidx: "c_keyIndex (t_columns T2 ! j) = c_keyIndex (t_columns T1 ! j)" if "j < n" for j
    using v that len1 len2 by (metis nth_map)
  have cwf: "column_wf T2 j" if "j < n" for j using wf that len2 by (simp add: table_wf_def)
  have key_iff: "j \<in> set (t_keys T2) \<longleftrightarrow> \<not> c_keyIndex (t_columns T2 ! j) < 0" if "j < n" for j
    using column_wf_positions(1,3) [OF cwf [OF that]] by simp
  have not_key: "c_keyIndex (t_columns T2 ! j) = -1" if "j < n" "j \<notin> set (t_keys T2)" for j
    using column_wf_positions(1) [OF cwf [OF that(1)]] that(2) by blast
  have vals: "t_values T2 = filter (\<lambda>j. j \<notin> set (t_keys T2)) [0..<n]"
  proof -
    have "t_values T2 = filter (\<lambda>i. c_keyIndex (t_columns T1 ! i) < 0) [0..<n]" using v k assms(3) by simp
    also have "\<dots> = filter (\<lambda>j. j \<notin> set (t_keys T2)) [0..<n]"
      by (rule filter_cong) (auto simp: key_iff kidx)
    finally show ?thesis .
  qed
  have vdist: "distinct (t_values T2)" by (simp add: vals)
  have vpos: "c_valueIndex (t_columns T2 ! j) = -1" if "j < n" "j \<in> set (t_keys T2)" for j
    using column_wf_positions(2) [OF cwf [OF that(1)]] that(2) by (auto simp: vals)
  have "length (t_keys T2) + length (t_values T2) = n"
  proof -
    have "set (t_keys T2) \<subseteq> {..<n}" using wf len2 by (auto simp: table_wf_def)
    then have "filter (\<lambda>j. j \<in> set (t_keys T2)) [0..<n] \<in> {xs. set xs = set (t_keys T2) \<and> distinct xs}" by auto
    then have "length (filter (\<lambda>j. j \<in> set (t_keys T2)) [0..<n]) = length (t_keys T2)"
      using dist by (metis (mono_tags, lifting) distinct_card mem_Collect_eq)
    then show ?thesis using sum_length_filter_compl [of "\<lambda>j. j \<in> set (t_keys T2)" "[0..<n]"] by (simp add: vals)
  qed
  moreover have "\<exists>c. getKeyColumn T2 i = Inr c \<and> c_name c = names ! i \<and> c_keyIndex c = int i \<and> c_valueIndex c = -1"
    if "i < length names" for i
  proof -
    let ?j = "t_keys T2 ! i"
    have i: "i < length (t_keys T2)" using that keys by simp
    then have j: "?j \<in> set (t_keys T2)" by simp
    have jn: "?j < n" using j wf len2 by (auto simp: table_wf_def)
    have "c_keyIndex (t_columns T2 ! ?j) = int i"
    proof -
      obtain k where "c_keyIndex (t_columns T2 ! ?j) = int k" "k < length (t_keys T2)" "t_keys T2 ! k = ?j"
        using cwf [OF jn] j column_wf_positions(1) [OF cwf [OF jn]] unfolding column_wf_def Let_def
        by (metis nat_0_le slot_ok_mem)
      then show ?thesis using i dist nth_eq_iff_index_eq by metis
    qed
    then show ?thesis using i jn len2 vpos [OF jn j] name_pos [of "names ! i"] that keys
      by (simp add: getKeyColumn_def getColumn_def)
  qed
  moreover have "\<exists>c. getValueColumn T2 i = Inr c \<and> c_keyIndex c = -1 \<and> c_valueIndex c = int i"
    if i: "i < length (t_values T2)" for i
  proof -
    let ?j = "t_values T2 ! i"
    have j: "?j \<in> set (t_values T2)" using i by simp
    then have jn: "?j < n" "?j \<notin> set (t_keys T2)" by (auto simp: vals)
    have "c_valueIndex (t_columns T2 ! ?j) = int i"
    proof -
      obtain k where "c_valueIndex (t_columns T2 ! ?j) = int k" "k < length (t_values T2)" "t_values T2 ! k = ?j"
        using cwf [OF jn(1)] j column_wf_positions(2) [OF cwf [OF jn(1)]] unfolding column_wf_def Let_def
        by (metis nat_0_le slot_ok_mem)
      then show ?thesis using i vdist nth_eq_iff_index_eq by metis
    qed
    then show ?thesis using i jn len2 not_key by (simp add: getValueColumn_def getColumn_def)
  qed
  ultimately show ?thesis
    using keys len2 wf v k by (simp add: keyed_table_def getKeyCount_def getValueCount_def getColumnCount_def)
qed

section \<open>Properties\<close>

text \<open>
  C26.  Loading a configuration file leaves a well-formed catalogue: every table found under a
  name has that name, and the positions stored in its columns, its name map and its key and value
  lists agree.
\<close>

theorem loaded_catalogue_invariant:
  assumes "load StrSplit sPath infile M = Inr M'"
  shows "config_wf M' \<and> (\<forall>name T. getTableInfo M' name = Some T \<longrightarrow> t_name T = name \<and> table_wf T)"
proof -
  from assms obtain ls cur where "foldR (load_line StrSplit) (M\<lparr>mc_store := [], mc_tableMap := []\<rparr>, None) ls = Inr (M', cur)"
    by (auto simp: load_def split: option.splits)
  then have "load_wf (M', cur)"
  proof (rule foldR_invariant)
    show "load_wf (M\<lparr>mc_store := [], mc_tableMap := []\<rparr>, None)" by (simp add: load_wf_def config_wf_def)
  qed (rule load_line_wf)
  then have wf: "config_wf M'" by (simp add: load_wf_def)
  moreover have "t_name T = name \<and> table_wf T" if T: "getTableInfo M' name = Some T" for name T
  proof -
    from T obtain p where p: "map_of (mc_tableMap M') name = Some p" "T = mc_store M' ! p"
      by (auto simp: getTableInfo_def)
    then have "(name, p) \<in> set (mc_tableMap M')" by (simp add: map_of_SomeD)
    with wf have "p < length (mc_store M') \<and> t_name (mc_store M' ! p) = name" by (auto simp: config_wf_def)
    then show ?thesis using wf p(2) config_wf_nth by blast
  qed
  ultimately show ?thesis by blast
qed

text \<open>The first table of the test configuration.\<close>

definition ex_conf :: "string list" where
  "ex_conf = [''# test'', ''timeout=30'', ''[table]'', ''name=t'', ''path=testdb'',
     ''column=a:int32'', ''column=b:varchar(20)'', ''column=c:double'', ''key=b,a'']"

fun ex_split :: "string \<Rightarrow> string list" where
  "ex_split [] = [[]]"
| "ex_split (c # s) = (if c = CHR '','' then [] # ex_split s else (c # hd (ex_split s)) # tl (ex_split s))"

definition ex_table :: table_info where
  "ex_table = \<lparr>t_columns = [(newColumnInfo ''a'' DT_INT32), (newColumnInfo ''b'' DT_STRING)\<lparr>c_index := 1\<rparr>],
     t_keys = [], t_values = [], t_columnMap = [(''a'', 0), (''b'', 1)], t_attr = [(''path'', ''db'')], t_name = ''t''\<rparr>"

lemmas load_eval = load_def load_line_def load_global_def load_attribute_def update_current_def addTable_def
  getTableInfo_def addColumn_def column_match_def attribute_match_def addKeyColumn_def evaluate_def
  addValueColumn_def getAttributeOr_def setName_def addAttribute_def newTableInfo_def newMetaConfig_def
  newColumnInfo_def ex_conf_def ex_table_def init_dataTypes_def addDataType_def getTypeName_def lookup_type_def
  stol_def to_uint32_def dec_value_def is_dec_def is_ws_def ccode_def Let_def int64_range_def INT_MAX_def getKeyCount_def

theorem loaded_catalogue_invariant_witness:
  "\<exists>M' T. load ex_split ''meta.conf'' (Some ex_conf) (init_dataTypes newMetaConfig) = Inr M' \<and>
     mc_timeout M' = 30 \<and> getTableInfo M' ''t'' = Some T \<and> getKeyCount T = 2 \<and> table_wf T"
proof -
  have "case load ex_split ''meta.conf'' (Some ex_conf) (init_dataTypes newMetaConfig) of
      Inr M' \<Rightarrow> mc_timeout M' = 30 \<and> (case getTableInfo M' ''t'' of Some T \<Rightarrow> getKeyCount T = 2 | None \<Rightarrow> False)
    | Inl e \<Rightarrow> False"
    by (simp add: load_eval)
  then obtain M' T where "load ex_split ''meta.conf'' (Some ex_conf) (init_dataTypes newMetaConfig) = Inr M'"
    "mc_timeout M' = 30" "getTableInfo M' ''t'' = Some T" "getKeyCount T = 2"
    by (auto split: sum.splits option.splits)
  with loaded_catalogue_invariant [OF this(1)] show ?thesis by blast
qed

text \<open>
  C30.  A table whose columns are declared before its one \<open>key\<close> line is split into its key and
  value columns: the key columns are the named ones in the order of the line, the value columns
  the others, and each column carries its position in the one list it is in.
\<close>

theorem key_line_splits_columns:
  assumes "table_wf T" "t_keys T = []" "t_values T = []" "distinct (StrSplit sValue)"
    and "mc_store M ! p = T" "p < length (mc_store M)"
    and "load_attribute StrSplit p ''key'' sValue M = Inr M'"
  shows "keyed_table (mc_store M' ! p) (StrSplit sValue) \<and>
    map c_name (t_columns (mc_store M' ! p)) = map c_name (t_columns T) \<and>
    map c_type (t_columns (mc_store M' ! p)) = map c_type (t_columns T)"
proof -
  from assms(7) obtain T1 T2 where T: "foldR addKeyColumn T (StrSplit sValue) = Inr T1" "evaluate T1 = Inr T2"
    and M': "M' = M\<lparr>mc_store := (mc_store M)[p := T2]\<rparr>"
    by (auto simp: load_attribute_def update_current_def assms(5))
  from evaluated_keyed [OF assms(1-4) T] show ?thesis using assms(6) by (simp add: M')
qed

theorem key_line_splits_columns_witness:
  "\<exists>M'. load_attribute ex_split 0 ''key'' ''b'' (newMetaConfig\<lparr>mc_store := [ex_table]\<rparr>) = Inr M' \<and>
     keyed_table (mc_store M' ! 0) [''b'']"
proof -
  let ?M = "newMetaConfig\<lparr>mc_store := [ex_table]\<rparr>"
  have wf: "table_wf ex_table"
    by (simp add: table_wf_def ex_table_def less_Suc_eq column_wf_def slot_ok_def newColumnInfo_def names_ok_def ccode_def)
  have split: "ex_split ''b'' = [''b'']" by simp
  have "case load_attribute ex_split 0 ''key'' ''b'' ?M of Inr M' \<Rightarrow> True | Inl e \<Rightarrow> False"
    by (simp add: load_eval)
  then obtain M' where M': "load_attribute ex_split 0 ''key'' ''b'' ?M = Inr M'"
    by (auto split: sum.splits)
  have "keyed_table (mc_store M' ! 0) (ex_split ''b'')"
    using key_line_splits_columns [OF wf _ _ _ _ _ M'] by (simp add: split ex_table_def)
  then show ?thesis using M' split by simp
qed

end
