(* ===== verification/DataRows.thy ===== *)
theory DataRows
  imports DataTypes
begin

text \<open>
  \<open>execution/DataRow.cpp\<close>: a row is the concatenation of its columns in their stored format;
  and \<open>KeyComparator\<close> of \<open>execution/LevelDBHandler.h\<close>, which gives the storage engine the
  order of keys.  The theorems: a copied row is read back column by column, the comparison of
  two stored rows is the lexicographic comparison of their values, and the comparator is a
  total preorder on stored keys.
\<close>

section \<open>Operations\<close>

fun row_getResults :: "DBDataType list \<Rightarrow> byte list \<Rightarrow> eresult list res" where
  "row_getResults [] pStart = Inr []"
| "row_getResults (t # ts) pStart =
     with_handler t (\<lambda>h.
       bindR (h_read h pStart) (\<lambda>r.
       bindR (h_getSizeAt h pStart) (\<lambda>n.
       mapR ((#) r) (row_getResults ts (drop n pStart)))))"

fun row_getResult :: "DBDataType list \<Rightarrow> byte list \<Rightarrow> nat \<Rightarrow> eresult res" where
  "row_getResult [] pStart i = Inl (Stuck ''column index'')"
| "row_getResult (t # ts) pStart 0 = with_handler t (\<lambda>h. h_read h pStart)"
| "row_getResult (t # ts) pStart (Suc i) =
     with_handler t (\<lambda>h. bindR (h_getSizeAt h pStart) (\<lambda>n. row_getResult ts (drop n pStart) i))"

fun row_compare :: "lib \<Rightarrow> DBDataType list \<Rightarrow> byte list \<Rightarrow> byte list \<Rightarrow> int res" where
  "row_compare L [] pStartA pStartB = Inr 0"
| "row_compare L (t # ts) pStartA pStartB =
     with_handler t (\<lambda>h.
       bindR (h_read h pStartA) (\<lambda>a.
       bindR (h_read h pStartB) (\<lambda>b.
       bindR (h_compare L h a b) (\<lambda>ret.
         if ret \<noteq> 0 then Inr ret
         else bindR (h_getSizeAt h pStartA) (\<lambda>na.
              bindR (h_getSizeAt h pStartB) (\<lambda>nb.
              row_compare L ts (drop na pStartA) (drop nb pStartB)))))))"

definition row_compareAt :: "lib \<Rightarrow> DBDataType list \<Rightarrow> byte list \<Rightarrow> byte list \<Rightarrow> nat \<Rightarrow> int res" where
  "row_compareAt L types pA pB index =
     bindR (row_getResult types pA index) (\<lambda>a.
     bindR (row_getResult types pB index) (\<lambda>b.
     r_compare L a b (types ! index)))"

fun row_computeSize :: "lib \<Rightarrow> DBDataType list \<Rightarrow> eresult list \<Rightarrow> nat res" where
  "row_computeSize L (t # ts) (r # rs) =
     with_handler t (\<lambda>h. bindR (h_getSize L h r) (\<lambda>n. mapR ((+) n) (row_computeSize L ts rs)))"
| "row_computeSize L ts [] = Inr 0"
| "row_computeSize L [] (r # rs) = Inl (Stuck ''more results than types'')"

text \<open>The bytes \<open>copy\<close> stores from \<open>pData\<close> on; after each column it advances by \<open>getSize\<close>.\<close>

fun row_copy :: "lib \<Rightarrow> DBDataType list \<Rightarrow> eresult list \<Rightarrow> byte list res" where
  "row_copy L (t # ts) (r # rs) =
     with_handler t (\<lambda>h.
       bindR (h_write L h r) (\<lambda>bs.
       bindR (h_getSize L h r) (\<lambda>n.
         if n \<noteq> length bs then Inl (Stuck ''column size'')
         else mapR ((@) bs) (row_copy L ts rs))))"
| "row_copy L ts [] = Inr []"
| "row_copy L [] (r # rs) = Inl (Stuck ''more results than types'')"

text \<open>\<open>KeyComparator\<close>: the key types of a table, its order and its name.\<close>

definition keyComparator_Compare :: "lib \<Rightarrow> DBDataType list \<Rightarrow> byte list \<Rightarrow> byte list \<Rightarrow> int res" where
  "keyComparator_Compare L keyTypes a b = row_compare L keyTypes a b"

definition keyComparator_name :: "DBDataType list \<Rightarrow> string" where
  "keyComparator_name keyTypes = concat (map (\<lambda>t. getTypeName t @ '','') keyTypes)"

section \<open>Rows of values\<close>

text \<open>
  \<open>column_ok t r\<close>: \<open>r\<close> can be stored in a column of type \<open>t\<close> and its size is read back
  correctly; \<open>bound_column t r\<close> admits the greatest string as well.
\<close>

definition sized :: "eresult \<Rightarrow> bool" where
  "sized r = (case r of R_StringView s \<Rightarrow> length s \<noteq> 65533 | R_String s \<Rightarrow> length s \<noteq> 65533 | _ \<Rightarrow> True)"

definition column_ok :: "DBDataType \<Rightarrow> eresult \<Rightarrow> bool" where
  "column_ok t r = (case getHandler t of None \<Rightarrow> False | Some h \<Rightarrow> value_ok h r \<and> sized r)"

definition bound_column :: "DBDataType \<Rightarrow> eresult \<Rightarrow> bool" where
  "bound_column t r = (case getHandler t of None \<Rightarrow> False | Some h \<Rightarrow> bound_ok h r \<and> sized r)"

definition stored_column :: "DBDataType \<Rightarrow> eresult \<Rightarrow> eresult" where
  "stored_column t r = (case getHandler t of None \<Rightarrow> r | Some h \<Rightarrow> stored h r)"

definition type_cmp :: "DBDataType \<Rightarrow> eresult \<Rightarrow> eresult \<Rightarrow> int" where
  "type_cmp t a b = (case getHandler t of None \<Rightarrow> 0 | Some h \<Rightarrow> cmp_val h a b)"

definition type_comparable :: "DBDataType \<Rightarrow> eresult \<Rightarrow> bool" where
  "type_comparable t r = (case getHandler t of None \<Rightarrow> False | Some h \<Rightarrow> comparable h r)"

lemma column_bound: "column_ok t r \<Longrightarrow> bound_column t r \<and> r \<noteq> R_MaxString"
  by (auto simp: column_ok_def bound_column_def bound_ok_def value_ok_def split: option.splits handler.splits)

lemma bound_column_cases:
  assumes "bound_column t r"
  obtains h where "getHandler t = Some h" "bound_ok h r" "sized r"
  using assms by (auto simp: bound_column_def split: option.splits)

text \<open>Everything the row proofs need about the bytes of one column.\<close>

definition codec :: "handler \<Rightarrow> DBDataType \<Rightarrow> eresult \<Rightarrow> byte list \<Rightarrow> bool" where
  "codec h t r b \<longleftrightarrow> getHandler t = Some h \<and> (\<forall>rest. h_read h (b @ rest) = Inr (stored_column t r)) \<and>
     (r \<noteq> R_MaxString \<longrightarrow> (\<forall>rest. h_getSizeAt h (b @ rest) = Inr (length b)))"

lemma bound_column_write:
  assumes "bound_column t r"
  obtains h b where "h_write L h r = Inr b" "h_getSize L h r = Inr (length b)" "codec h t r b"
proof -
  from assms obtain h where h: "getHandler t = Some h" "bound_ok h r" "sized r"
    by (rule bound_column_cases)
  from stored_value_roundtrip_lemma [OF h(2), of L] obtain b where
    b: "h_write L h r = Inr b" "h_getSize L h r = Inr (length b)" "\<forall>rest. h_read h (b @ rest) = Inr (stored h r)"
    by blast
  have "r \<noteq> R_MaxString \<longrightarrow> (\<forall>rest. h_getSizeAt h (b @ rest) = Inr (length b))"
  proof (intro impI allI)
    fix rest
    assume "r \<noteq> R_MaxString"
    then show "h_getSizeAt h (b @ rest) = Inr (length b)"
      by (intro h_getSizeAt_write [OF b(1) h(2)]) (use h(3) in \<open>auto simp: sized_def\<close>)
  qed
  then have "codec h t r b" using h b by (simp add: codec_def stored_column_def)
  with b that show ?thesis by blast
qed

lemma stored_not_max: "stored_column t r = R_MaxString \<longleftrightarrow> r = R_MaxString"
  by (auto simp: stored_column_def stored_def split: option.splits eresult.splits)

section \<open>Narrowing keeps numbers numbers\<close>

lemma bit_len_nonneg [simp]: "0 \<le> int (bit_len m)" by simp

lemma fp_round_bounds:
  assumes "0 \<le> m" "0 \<le> infm"
  shows "0 \<le> fp_round p emin infm m e" "fp_round p emin infm m e \<le> infm"
proof -
  show "fp_round p emin infm m e \<le> infm"
    using assms by (simp add: fp_round_def Let_def)
  have "0 \<le> m div 2 ^ k" for k using assms(1) by (simp add: pos_imp_zdiv_nonneg_iff)
  then have "0 \<le> m div 2 ^ k + 1" for k by (meson add_increasing2 zero_le_one order_trans add_nonneg_nonneg)
  then show "0 \<le> fp_round p emin infm m e"
    using assms \<open>\<And>k. 0 \<le> m div 2 ^ k\<close>
    by (auto simp: fp_round_def Let_def intro!: add_nonneg_nonneg mult_nonneg_nonneg)
qed

lemma f_mag_mk_float: "0 \<le> m \<Longrightarrow> m < 2 ^ 31 \<Longrightarrow> f_mag (mk_float s m) = m"
  by (cases s) (simp_all add: f_mag_def uint_mk_float)

lemma fp_decode_nonneg: "0 \<le> mag \<Longrightarrow> 0 \<le> fst (fp_decode p emin mag)"
  by (auto simp: fp_decode_def Let_def)

lemma d_is_nan_mk_double: "0 \<le> m \<Longrightarrow> m \<le> d_inf_mag \<Longrightarrow> \<not> d_is_nan (mk_double s m)"
  by (simp add: d_is_nan_def d_inf_mag_def)

lemma narrowed_not_nan:
  assumes "\<not> d_is_nan d"
  shows "\<not> d_is_nan (f_to_d (d_to_f d))"
proof -
  obtain s m where f: "d_to_f d = mk_float s m" "0 \<le> m" "m \<le> f_inf_mag"
  proof (cases "d_is_inf d")
    case True
    then show ?thesis using that [of "d_sign d" f_inf_mag] assms by (simp add: d_to_f_def f_inf_mag_def)
  next
    case False
    obtain m e where de: "d_decode d = (m, e)" by (cases "d_decode d")
    have "0 \<le> m" using fp_decode_nonneg [of "d_mag d" 53 "-1074"] de d_mag_bounds [of d]
      by (simp add: d_decode_def)
    then show ?thesis
      using that [of "d_sign d" "fp_round 24 (-149) f_inf_mag m e"] False assms de
        fp_round_bounds [of m f_inf_mag 24 "-149" e]
      by (simp add: d_to_f_def f_inf_mag_def)
  qed
  have mag: "f_mag (mk_float s m) = m"
    using f(2,3) by (intro f_mag_mk_float) (simp_all add: f_inf_mag_def)
  show ?thesis
  proof (cases "m = f_inf_mag")
    case True
    then show ?thesis using mag d_is_nan_mk_double [of d_inf_mag]
      by (simp add: f(1) f_to_d_def d_inf_mag_def)
  next
    case False
    obtain m' e' where de: "fp_decode 24 (-149) m = (m', e')" by (cases "fp_decode 24 (-149) m")
    have "0 \<le> m'" using fp_decode_nonneg [of m 24 "-149"] de f(2) by simp
    then have "\<not> d_is_nan (d_round (f_sign (mk_float s m)) m' e')"
      unfolding d_round_def by (intro d_is_nan_mk_double fp_round_bounds) (simp_all add: d_inf_mag_def)
    then show ?thesis using False mag f(3) de by (simp add: f(1) f_to_d_def)
  qed
qed

lemma bound_ok_comparable: "bound_ok h r \<Longrightarrow> comparable h r \<and> comparable h (stored h r)"
  by (auto simp: bound_ok_def value_ok_def comparable_def stored_def float_ok_def narrowed_not_nan
      split: handler.splits eresult.splits)

lemma bound_column_comparable:
  "bound_column t r \<Longrightarrow> type_comparable t r \<and> type_comparable t (stored_column t r)"
  by (auto simp: bound_column_def type_comparable_def stored_column_def bound_ok_comparable split: option.splits)

lemma three_way_type: "three_way (type_cmp t) (type_comparable t)"
proof (cases "getHandler t")
  case None
  then show ?thesis by unfold_locales (simp_all add: type_cmp_def type_comparable_def)
next
  case (Some h)
  then have "type_cmp t = cmp_val h" "type_comparable t = comparable h"
    by (simp_all add: type_cmp_def type_comparable_def fun_eq_iff)
  then show ?thesis using three_way_handler by simp
qed

interpretation row_order: three_way "lex_compare type_cmp types" "list_all2 type_comparable types" for types
  by (rule three_way_lex) (rule three_way_type)

section \<open>Copying and reading rows\<close>

lemma row_copy_ok:
  assumes "list_all2 bound_column types rs"
  obtains bs where "row_copy L types rs = Inr bs" "row_computeSize L types rs = Inr (length bs)"
proof -
  from assms have "\<exists>bs. row_copy L types rs = Inr bs \<and> row_computeSize L types rs = Inr (length bs)"
  proof (induction rule: list_all2_induct)
    case (Cons t ts r rs)
    then obtain bs where "row_copy L ts rs = Inr bs" "row_computeSize L ts rs = Inr (length bs)" by blast
    moreover from Cons(1) obtain h b where
      "h_write L h r = Inr b" "h_getSize L h r = Inr (length b)" "codec h t r b"
      by (rule bound_column_write)
    ultimately show ?case by (simp add: with_handler_def codec_def)
  qed simp
  then show ?thesis using that by blast
qed

lemma row_copy_Cons:
  assumes "row_copy L (t # ts) (r # rs) = Inr bs" "bound_column t r"
  obtains h b bs' where "codec h t r b" "bs = b @ bs'" "row_copy L ts rs = Inr bs'"
proof -
  from assms(2) obtain h b where hb: "h_write L h r = Inr b" "h_getSize L h r = Inr (length b)" "codec h t r b"
    by (rule bound_column_write)
  then have "getHandler t = Some h" by (simp add: codec_def)
  with assms(1) hb obtain bs' where "bs = b @ bs'" "row_copy L ts rs = Inr bs'"
    by (auto simp: with_handler_def)
  with hb(3) that show ?thesis by blast
qed

lemma codec_simps:
  assumes "codec h t r b"
  shows "getHandler t = Some h" "h_read h (b @ rest) = Inr (stored_column t r)"
    "r \<noteq> R_MaxString \<Longrightarrow> h_getSizeAt h (b @ rest) = Inr (length b)"
  using assms by (simp_all add: codec_def)

lemma row_getResults_copy:
  assumes "list_all2 column_ok types rs" "row_copy L types rs = Inr bs"
  shows "row_getResults types (bs @ rest) = Inr (map2 stored_column types rs)"
  using assms
proof (induction arbitrary: bs rule: list_all2_induct)
  case (Cons t ts r rs)
  from row_copy_Cons [OF Cons.prems conjunct1 [OF column_bound [OF Cons(1)]]] obtain h b bs' where
    c: "codec h t r b" and hb: "bs = b @ bs'" "row_copy L ts rs = Inr bs'" .
  show ?case
    using Cons.IH [OF hb(2)] column_bound [OF Cons(1)] codec_simps [OF c]
    by (simp add: with_handler_def hb(1))
qed simp

lemma row_getResult_copy:
  assumes "list_all2 column_ok types rs" "row_copy L types rs = Inr bs" "i < length types"
  shows "row_getResult types (bs @ rest) i = Inr (stored_column (types ! i) (rs ! i))"
  using assms
proof (induction arbitrary: bs i rule: list_all2_induct)
  case (Cons t ts r rs)
  from row_copy_Cons [OF Cons.prems(1) conjunct1 [OF column_bound [OF Cons(1)]]] obtain h b bs' where
    c: "codec h t r b" and hb: "bs = b @ bs'" "row_copy L ts rs = Inr bs'" .
  show ?case
    using Cons.IH [OF hb(2)] Cons.prems(2) column_bound [OF Cons(1)] codec_simps [OF c]
    by (cases i) (simp_all add: with_handler_def hb(1))
qed simp

section \<open>Comparing rows\<close>

text \<open>
  Two rows can be compared on their stored bytes when they do not both hold the greatest string
  in the same column.
\<close>

definition comparable_rows :: "eresult list \<Rightarrow> eresult list \<Rightarrow> bool" where
  "comparable_rows rs qs = list_all2 (\<lambda>r q. \<not> (r = R_MaxString \<and> q = R_MaxString)) rs qs"

lemma type_cmp_max:
  assumes "type_comparable t a" "type_comparable t b" "(a = R_MaxString) \<noteq> (b = R_MaxString)"
  shows "type_cmp t a b \<noteq> 0"
proof -
  from assms(1) obtain h where h: "getHandler t = Some h" "comparable h a" "comparable h b"
    using assms(2) by (auto simp: type_comparable_def split: option.splits)
  from assms(3) h(2,3) have "h = H_String"
    by (auto simp: comparable_def split: handler.splits)
  then show ?thesis using h assms(3)
    by (auto simp: type_cmp_def cmp_val_string text_of_def comparable_def split: eresult.splits)
qed

lemma row_compare_copy:
  assumes "list_all2 bound_column types rs" "list_all2 bound_column types qs" "comparable_rows rs qs"
    and "row_copy L types rs = Inr bs" "row_copy L types qs = Inr cs"
  shows "row_compare L types (bs @ rest1) (cs @ rest2) =
    Inr (lex_compare type_cmp types (map2 stored_column types rs) (map2 stored_column types qs))"
  using assms
proof (induction arbitrary: qs bs cs rule: list_all2_induct)
  case (Cons t ts r rs)
  from Cons.prems(1) obtain q qs' where qs: "qs = q # qs'" "bound_column t q" "list_all2 bound_column ts qs'"
    by (auto simp: list_all2_Cons1)
  from row_copy_Cons [OF Cons.prems(3) Cons(1)] obtain h b bs' where
    b: "codec h t r b" "bs = b @ bs'" "row_copy L ts rs = Inr bs'" .
  from row_copy_Cons [OF Cons.prems(4) [unfolded qs(1)] qs(2)] obtain h' c cs' where
    c': "codec h' t q c" "cs = c @ cs'" "row_copy L ts qs' = Inr cs'" .
  have c: "codec h t q c" using c'(1) codec_simps(1) [OF b(1)] codec_simps(1) [OF c'(1)] by simp
  note cod = codec_simps [OF b(1)] codec_simps [OF c]
  let ?n = "type_cmp t (stored_column t r) (stored_column t q)"
  have comp: "type_comparable t (stored_column t r)" "type_comparable t (stored_column t q)"
    using bound_column_comparable Cons(1) qs(2) by auto
  then have cv: "h_compare L h (stored_column t r) (stored_column t q) = Inr ?n"
    using cod(1) by (simp add: type_comparable_def type_cmp_def h_compare_cmp_val)
  show ?case
  proof (cases "?n = 0")
    case False
    then show ?thesis using b(2) c'(2) cod cv by (simp add: with_handler_def qs(1) Let_def)
  next
    case True
    have nm: "\<not> (r = R_MaxString \<and> q = R_MaxString)" "comparable_rows rs qs'"
      using Cons.prems(2) by (simp_all add: comparable_rows_def qs(1))
    then have "r \<noteq> R_MaxString" "q \<noteq> R_MaxString"
      using type_cmp_max [OF comp] True stored_not_max by blast+
    then show ?thesis
      using True b(2) c'(2) cod cv Cons.IH [OF qs(3) nm(2) b(3) c'(3)]
      by (simp add: with_handler_def qs(1) Let_def)
  qed
qed (simp add: comparable_rows_def)

section \<open>The comparator of the storage engine\<close>

text \<open>A stored key: the bytes \<open>copy\<close> makes of a row of column values.\<close>

definition stored_key :: "lib \<Rightarrow> DBDataType list \<Rightarrow> byte list \<Rightarrow> bool" where
  "stored_key L types bs \<longleftrightarrow> (\<exists>rs. list_all2 column_ok types rs \<and> row_copy L types rs = Inr bs)"

definition key_cmp :: "lib \<Rightarrow> DBDataType list \<Rightarrow> byte list \<Rightarrow> byte list \<Rightarrow> int" where
  "key_cmp L types a b = (case keyComparator_Compare L types a b of Inr n \<Rightarrow> n | Inl _ \<Rightarrow> 0)"

lemma column_ok_rows:
  assumes "list_all2 column_ok types rs"
  shows "list_all2 bound_column types rs" "list_all2 type_comparable types (map2 stored_column types rs)"
    "list_all2 column_ok types qs \<Longrightarrow> comparable_rows rs qs"
proof -
  show b: "list_all2 bound_column types rs"
    by (rule list_all2_mono [OF assms]) (simp add: column_bound)
  show "list_all2 type_comparable types (map2 stored_column types rs)"
    using b by (induction rule: list_all2_induct) (auto dest: bound_column_comparable)
  show "comparable_rows rs qs" if "list_all2 column_ok types qs"
    using assms that unfolding comparable_rows_def
  proof (induction arbitrary: qs rule: list_all2_induct)
    case (Cons t ts r rs)
    then show ?case by (auto simp: list_all2_Cons1 dest: column_bound)
  qed simp
qed

lemma key_compare_values:
  assumes "list_all2 column_ok types rs" "row_copy L types rs = Inr a"
    and "list_all2 column_ok types qs" "row_copy L types qs = Inr b"
  shows "keyComparator_Compare L types a b =
    Inr (lex_compare type_cmp types (map2 stored_column types rs) (map2 stored_column types qs))"
  using row_compare_copy [OF column_ok_rows(1) [OF assms(1)] column_ok_rows(1) [OF assms(3)]
      column_ok_rows(3) [OF assms(1,3)] assms(2,4), of "[]" "[]"]
  by (simp add: keyComparator_Compare_def)

interpretation key_order: three_way "key_cmp L types" "stored_key L types" for L types
proof unfold_locales
  fix x y z
  show "key_cmp L types x x = 0" if "stored_key L types x"
  proof -
    from that obtain rs where rs: "list_all2 column_ok types rs" "row_copy L types rs = Inr x"
      by (auto simp: stored_key_def)
    show ?thesis
      using key_compare_values [OF rs rs] row_order.cmp_refl [OF column_ok_rows(2) [OF rs(1)]]
      by (simp add: key_cmp_def)
  qed
  show "key_cmp L types y x = - key_cmp L types x y" if "stored_key L types x" "stored_key L types y"
  proof -
    from that obtain rs qs where rs: "list_all2 column_ok types rs" "row_copy L types rs = Inr x"
      and qs: "list_all2 column_ok types qs" "row_copy L types qs = Inr y"
      by (auto simp: stored_key_def)
    show ?thesis
      using key_compare_values [OF rs qs] key_compare_values [OF qs rs]
        row_order.cmp_antisym [OF column_ok_rows(2) [OF rs(1)] column_ok_rows(2) [OF qs(1)]]
      by (simp add: key_cmp_def)
  qed
  show "key_cmp L types x z \<le> 0"
    if keys: "stored_key L types x" "stored_key L types y" "stored_key L types z"
      and le: "key_cmp L types x y \<le> 0" "key_cmp L types y z \<le> 0"
  proof -
    from keys obtain rs qs us where rs: "list_all2 column_ok types rs" "row_copy L types rs = Inr x"
      and qs: "list_all2 column_ok types qs" "row_copy L types qs = Inr y"
      and us: "list_all2 column_ok types us" "row_copy L types us = Inr z"
      by (auto simp: stored_key_def)
    show ?thesis
      using le key_compare_values [OF rs qs] key_compare_values [OF qs us] key_compare_values [OF rs us]
        row_order.cmp_trans [OF column_ok_rows(2) [OF rs(1)] column_ok_rows(2) [OF qs(1)] column_ok_rows(2) [OF us(1)]]
      by (simp add: key_cmp_def)
  qed
qed

section \<open>Properties\<close>

text \<open>
  C24.  A row of column values can be copied, into exactly the announced number of bytes, and
  each column is read back from the copy, whatever bytes follow it.
\<close>

theorem row_roundtrip:
  assumes "list_all2 column_ok types rs"
  shows "\<exists>bs. row_copy L types rs = Inr bs \<and> row_computeSize L types rs = Inr (length bs) \<and>
    (\<forall>rest. row_getResults types (bs @ rest) = Inr (map2 stored_column types rs)) \<and>
    (\<forall>rest i. i < length types \<longrightarrow>
       row_getResult types (bs @ rest) i = Inr (stored_column (types ! i) (rs ! i)))"
proof -
  obtain bs where "row_copy L types rs = Inr bs" "row_computeSize L types rs = Inr (length bs)"
    by (rule row_copy_ok [OF column_ok_rows(1) [OF assms], of L])
  then show ?thesis
    using row_getResults_copy [OF assms] row_getResult_copy [OF assms] by blast
qed

text \<open>A row of the test table: \<open>(int32, varchar)\<close>.\<close>

definition ex_types :: "DBDataType list" where "ex_types = [DT_INT32, DT_STRING]"
definition ex_row :: "int \<Rightarrow> string \<Rightarrow> eresult list" where "ex_row n s = [R_Int n, R_StringView s]"

lemma ex_row_ok: "- (2 ^ 31) \<le> n \<Longrightarrow> n < 2 ^ 31 \<Longrightarrow> length s < 65533 \<Longrightarrow> list_all2 column_ok ex_types (ex_row n s)"
  by (simp add: ex_types_def ex_row_def column_ok_def getHandler_def value_ok_def sized_def
      int_min_def int_max_def)

theorem row_roundtrip_witness:
  "list_all2 column_ok ex_types (ex_row 7 ''test-7'') \<and>
   (\<exists>bs. row_copy ex_lib ex_types (ex_row 7 ''test-7'') = Inr bs \<and> length bs = 12 \<and>
      row_getResult ex_types bs 1 = Inr (R_StringView ''test-7''))"
proof -
  have ok: "list_all2 column_ok ex_types (ex_row 7 ''test-7'')" by (rule ex_row_ok) simp_all
  have size: "row_computeSize ex_lib ex_types (ex_row 7 ''test-7'') = Inr 12"
    by (simp add: ex_types_def ex_row_def with_handler_def getHandler_def h_getSize_def int_size_def
        isMaxString_def getString_def)
  from row_roundtrip [OF ok, of ex_lib] obtain bs where bs: "row_copy ex_lib ex_types (ex_row 7 ''test-7'') = Inr bs"
    "row_computeSize ex_lib ex_types (ex_row 7 ''test-7'') = Inr (length bs)"
    "row_getResult ex_types (bs @ []) 1 = Inr (stored_column (ex_types ! 1) (ex_row 7 ''test-7'' ! 1))"
    by (metis (no_types, opaque_lifting) ex_types_def length_Cons lessI list.size(3) One_nat_def)
  moreover have "stored_column (ex_types ! 1) (ex_row 7 ''test-7'' ! 1) = R_StringView ''test-7''"
    by (simp add: stored_column_def stored_def ex_types_def ex_row_def getHandler_def)
  ultimately show ?thesis using ok size unfolding append_Nil2 by auto
qed

text \<open>
  C23.  Comparing two stored rows on their bytes gives the lexicographic comparison of their
  column values, each by the order of its type.
\<close>

theorem row_compare_is_lexicographic:
  assumes "list_all2 column_ok types rs" "row_copy L types rs = Inr a"
    and "list_all2 column_ok types qs" "row_copy L types qs = Inr b"
  shows "row_compare L types a b =
    Inr (lex_compare type_cmp types (map2 stored_column types rs) (map2 stored_column types qs))"
  using key_compare_values [OF assms] by (simp add: keyComparator_Compare_def)

theorem row_compare_is_lexicographic_witness:
  "\<exists>a b. row_copy ex_lib ex_types (ex_row (-1) ''b'') = Inr a \<and> row_copy ex_lib ex_types (ex_row 3 ''a'') = Inr b \<and>
     row_compare ex_lib ex_types a b = Inr (-1)"
proof -
  have ok: "list_all2 column_ok ex_types (ex_row (-1) ''b'')" "list_all2 column_ok ex_types (ex_row 3 ''a'')"
    by (rule ex_row_ok; simp)+
  obtain a b where "row_copy ex_lib ex_types (ex_row (-1) ''b'') = Inr a" "row_copy ex_lib ex_types (ex_row 3 ''a'') = Inr b"
    using row_copy_ok [OF column_ok_rows(1) [OF ok(1)], of ex_lib] row_copy_ok [OF column_ok_rows(1) [OF ok(2)], of ex_lib]
    by metis
  moreover have "lex_compare type_cmp ex_types (map2 stored_column ex_types (ex_row (-1) ''b''))
      (map2 stored_column ex_types (ex_row 3 ''a'')) = -1"
    by (simp add: ex_types_def ex_row_def stored_column_def stored_def getHandler_def type_cmp_def
        cmp_val_simps handler_int_def int_compare_def)
  ultimately show ?thesis
    using row_compare_is_lexicographic [OF ok(1) _ ok(2), of ex_lib a b] by auto
qed



end
