(* ===== verification/PlanBase.thy ===== *)
theory PlanBase
  imports Config DataRows
begin

text \<open>
  The interface of execution plans (\<^verbatim>\<open>src/execution/ExecutionPlan.h\<close>, \<^verbatim>\<open>BasePlan.h\<close>): the client
  calls \<open>begin\<close>, then \<open>next\<close> until it answers false, reading the current row with \<open>getResult\<close>
  after each true, then \<open>end\<close>.  \<open>row_source\<close> is this protocol as a contract; every operator is
  proved to keep it, with the rows it delivers as a function of the rows below it.
\<close>

datatype PlanType =
    PT_Sort | PT_Projection | PT_GroupBy | PT_Limit | PT_Filter | PT_Const | PT_ReadFile | PT_Insert
  | PT_Delete | PT_Scan | PT_Other

datatype SortOrder = Ascend | Descend | AnyOrder

definition CheckCancellation :: "bool \<Rightarrow> unit res" where
  "CheckCancellation bTerminated = (if bTerminated then Inl (ExecutionException ''canceled'') else Inr ())"

definition ROWKEY :: string where "ROWKEY = ''_rowkey''"

definition isRowKeyNode :: "lib \<Rightarrow> pnode \<Rightarrow> bool" where
  "isRowKeyNode L n = (n_type n = NT_NAME \<and> EqualsIgnoreCase L (n_value n) ROWKEY)"

text \<open>
  \<open>getResult\<close> fills the value of a column of the current row, in the type the caller asks for.
\<close>

type_synonym row = "nat \<Rightarrow> DBDataType \<Rightarrow> eresult res"

section \<open>The virtual functions of a plan\<close>

text \<open>
  What a plan calls on the plan below it, as \<open>ExecutionPlan\<close> declares it.  \<open>'s\<close> is the state
  of that plan with everything it reaches.  \<open>o_explain\<close> returns the lines it appends, \<open>o_getAllColumns\<close>
  the columns.
\<close>

record 's plan_ops =
  o_explain :: "nat \<Rightarrow> 's \<Rightarrow> err + string list \<times> 's"
  o_begin :: "bool \<Rightarrow> 's \<Rightarrow> 's res"
  o_next :: "bool \<Rightarrow> 's \<Rightarrow> err + bool \<times> 's"
  o_end :: "'s \<Rightarrow> 's res"
  o_getResultColumns :: "'s \<Rightarrow> nat res"
  o_getProjectionName :: "'s \<Rightarrow> nat \<Rightarrow> string res"
  o_getResultType :: "'s \<Rightarrow> nat \<Rightarrow> DBDataType res"
  o_addProjection :: "pnode \<Rightarrow> 's \<Rightarrow> err + int \<times> 's"
  o_getAllColumns :: "'s \<Rightarrow> string list res"
  o_ensureSortOrder :: "nat \<Rightarrow> string \<Rightarrow> SortOrder \<Rightarrow> 's \<Rightarrow> err + bool \<times> 's"
  o_getInfoString :: "'s \<Rightarrow> string res"
  o_getResult :: "'s \<Rightarrow> row"

text \<open>What the client can read of the current row: its values and their types.\<close>

type_synonym frame = "row \<times> (nat \<Rightarrow> DBDataType res)"

definition frame_of :: "'s plan_ops \<Rightarrow> 's \<Rightarrow> frame" where
  "frame_of C s = (o_getResult C s, o_getResultType C s)"

section \<open>The contract of a plan\<close>

text \<open>
  \<open>rows s\<close> are the rows still to come in state \<open>s\<close>, \<open>cur s\<close> the current row.  After the last
  row nothing is promised about the state: a plan is not asked again before its next \<open>begin\<close>.
\<close>

locale row_source =
  fixes nx :: "'s \<Rightarrow> err + bool \<times> 's"
    and rows :: "'s \<Rightarrow> 'r list"
    and cur :: "'s \<Rightarrow> 'r"
    and ok :: "'s \<Rightarrow> bool"
  assumes nx_end: "ok s \<Longrightarrow> rows s = [] \<Longrightarrow> \<exists>s'. nx s = Inr (False, s')"
    and nx_row: "ok s \<Longrightarrow> rows s = r # rs \<Longrightarrow> \<exists>s'. nx s = Inr (True, s') \<and> ok s' \<and> rows s' = rs \<and> cur s' = r"

text \<open>The client's loop: call \<open>next\<close> until it answers false and collect the current rows.\<close>

fun drain :: "nat \<Rightarrow> ('s \<Rightarrow> err + bool \<times> 's) \<Rightarrow> ('s \<Rightarrow> 'r) \<Rightarrow> 's \<Rightarrow> err + 'r list \<times> 's" where
  "drain 0 nx cur s = Inl OutOfFuel"
| "drain (Suc fuel) nx cur s =
     bindR (nx s) (\<lambda>(more, s').
       if more then mapR (\<lambda>(rs, s''). (cur s' # rs, s'')) (drain fuel nx cur s') else Inr ([], s'))"

context row_source
begin

lemma drain_rows:
  assumes "ok s" "length (rows s) < fuel"
  shows "\<exists>s'. drain fuel nx cur s = Inr (rows s, s')"
  using assms
proof (induction fuel arbitrary: s)
  case (Suc fuel)
  show ?case
  proof (cases "rows s")
    case Nil
    then show ?thesis using nx_end [OF Suc.prems(1)] by fastforce
  next
    case (Cons r rs)
    with nx_row [OF Suc.prems(1)] obtain s' where s': "nx s = Inr (True, s')" "ok s'" "rows s' = rs" "cur s' = r" by blast
    then have "length (rows s') < fuel" using Suc.prems(2) Cons by simp
    then obtain t where "drain fuel nx cur s' = Inr (rows s', t)" using Suc.IH [OF s'(2)] by blast
    then show ?thesis using s' Cons by simp
  qed
qed simp

lemma nx_cases:
  assumes "ok s"
  obtains (end_of_rows) s' where "rows s = []" "nx s = Inr (False, s')"
  | (row) s' where "rows s = cur s' # rows s'" "nx s = Inr (True, s')" "ok s'"
  using assms nx_end nx_row by (cases "rows s") blast+

lemma nx_row_result: "ok s \<Longrightarrow> nx s = Inr (True, s') \<Longrightarrow> ok s' \<and> rows s = cur s' # rows s'"
  by (erule nx_cases) auto

lemma nx_end_result: "ok s \<Longrightarrow> nx s = Inr (False, s') \<Longrightarrow> rows s = []"
  by (erule nx_cases) auto

end

text \<open>A plan that delivers a list by counting up: the shape of the constant and catalogue plans.\<close>

lemma counting_source:
  assumes "\<And>s. ok s \<Longrightarrow> nx s = Inr (pos s < length (items s), step s)"
    and "\<And>s. ok s \<Longrightarrow> pos s < length (items s) \<Longrightarrow> ok (step s) \<and> pos (step s) = Suc (pos s) \<and> items (step s) = items s"
    and "\<And>s. ok s \<Longrightarrow> pos s < length (items s) \<Longrightarrow> cur (step s) = item (items s ! pos s)"
  shows "row_source nx (\<lambda>s. map item (drop (pos s) (items s))) cur ok"
proof
  fix s
  assume ok: "ok s"
  show "\<exists>s'. nx s = Inr (False, s')" if "map item (drop (pos s) (items s)) = []"
    using assms(1) [OF ok] that by auto
  fix r rs
  assume r: "map item (drop (pos s) (items s)) = r # rs"
  then have lt: "pos s < length (items s)" by (cases "pos s < length (items s)") auto
  then have "drop (pos s) (items s) = items s ! pos s # drop (Suc (pos s)) (items s)"
    by (rule Cons_nth_drop_Suc [symmetric])
  then have "item (items s ! pos s) = r" "map item (drop (Suc (pos s)) (items s)) = rs" using r by auto
  then show "\<exists>s'. nx s = Inr (True, s') \<and> ok s' \<and> map item (drop (pos s') (items s')) = rs \<and> cur s' = r"
    using assms(1) [OF ok] assms(2,3) [OF ok lt] lt by auto
qed

text \<open>
  The same contract for one state: \<open>delivers_to nx cur s rs Q\<close> says that the client's loop sees
  exactly the rows \<open>rs\<close> from state \<open>s\<close> on and ends in a state with \<open>Q\<close>.  It carries over from a
  plan to the plan above it.
\<close>

fun delivers_to :: "('s \<Rightarrow> err + bool \<times> 's) \<Rightarrow> ('s \<Rightarrow> 'r) \<Rightarrow> 's \<Rightarrow> 'r list \<Rightarrow> ('s \<Rightarrow> bool) \<Rightarrow> bool" where
  "delivers_to nx cur s [] Q = (\<exists>s'. nx s = Inr (False, s') \<and> Q s')"
| "delivers_to nx cur s (r # rs) Q = (\<exists>s'. nx s = Inr (True, s') \<and> cur s' = r \<and> delivers_to nx cur s' rs Q)"

abbreviation delivers :: "('s \<Rightarrow> err + bool \<times> 's) \<Rightarrow> ('s \<Rightarrow> 'r) \<Rightarrow> 's \<Rightarrow> 'r list \<Rightarrow> bool" where
  "delivers nx cur s rs \<equiv> delivers_to nx cur s rs (\<lambda>_. True)"

lemma delivers_unique:
  "delivers_to nx cur s rs Q \<Longrightarrow> delivers_to nx cur s rs' Q' \<Longrightarrow> rs = rs'"
proof (induction rs arbitrary: s rs')
  case Nil
  then show ?case by (cases rs') auto
next
  case (Cons r rs)
  then show ?case by (cases rs') auto
qed

lemma delivers_to_mono:
  "delivers_to nx cur s rs Q \<Longrightarrow> (\<And>s'. Q s' \<Longrightarrow> Q' s') \<Longrightarrow> delivers_to nx cur s rs Q'"
  by (induction rs arbitrary: s) auto

lemma delivers_to_start:
  "nx s = nx t \<Longrightarrow> delivers_to nx cur s rs Q \<longleftrightarrow> delivers_to nx cur t rs Q"
  by (cases rs) simp_all

lemma delivers_drain:
  "delivers_to nx cur s rs Q \<Longrightarrow> length rs < fuel \<Longrightarrow> \<exists>s'. drain fuel nx cur s = Inr (rs, s') \<and> Q s'"
proof (induction rs arbitrary: s fuel)
  case Nil
  then show ?case by (cases fuel) auto
next
  case (Cons r rs)
  then obtain n where n: "fuel = Suc n" "length rs < n" by (cases fuel) auto
  from Cons.prems(1) obtain s' where s': "nx s = Inr (True, s')" "cur s' = r" "delivers_to nx cur s' rs Q" by auto
  from Cons.IH [OF s'(3) n(2)] obtain t where "drain n nx cur s' = Inr (rs, t) \<and> Q t" ..
  then show ?case using s' n by simp
qed

text \<open>A column of the rows, or any other reading of them.\<close>

lemma delivers_to_map:
  "delivers_to nx cur s rs Q \<Longrightarrow> delivers_to nx (\<lambda>s. g (cur s)) s (map g rs) Q"
  by (induction rs arbitrary: s) auto

context row_source
begin

lemma delivers_rows: "ok s \<Longrightarrow> delivers nx cur s (rows s)"
proof (induction "rows s" arbitrary: s)
  case Nil
  then have "rows s = []" by simp
  with nx_end Nil.prems show ?case by fastforce
next
  case (Cons r rs)
  then obtain s' where s': "nx s = Inr (True, s')" "ok s'" "rows s' = rs" "cur s' = r" using nx_row by metis
  moreover have "delivers nx cur s' (rows s')" using Cons s' by blast
  ultimately have "delivers nx cur s (r # rs)" by auto
  then show ?case using Cons by simp
qed

end

section \<open>Plans without rows\<close>

text \<open>\<open>LeafPlan\<close>'s defaults, which \<open>EmptyPlan\<close> inherits.\<close>

definition leaf_next :: "bool res" where "leaf_next = Inr False"
definition leaf_getResultColumns :: nat where "leaf_getResultColumns = 0"
definition leaf_getProjectionName :: "nat \<Rightarrow> string" where "leaf_getProjectionName index = []"
definition leaf_getResultType :: "nat \<Rightarrow> DBDataType" where "leaf_getResultType index = DT_UNKNOWN"
definition leaf_addProjection :: "pnode \<Rightarrow> int" where "leaf_addProjection pColumn = -1"
definition leaf_ensureSortOrder :: "nat \<Rightarrow> string \<Rightarrow> SortOrder \<Rightarrow> bool" where
  "leaf_ensureSortOrder iSortIndex sColumn order = False"
definition leaf_getInfoString :: string where "leaf_getInfoString = ''SELECT 0''"


definition empty_ops :: "'s plan_ops" where
  "empty_ops = \<lparr>
     o_explain = (\<lambda>depth s. Inr ([], s)),
     o_begin = (\<lambda>bTerminated s. Inr s),
     o_next = (\<lambda>bTerminated s. mapR (\<lambda>b. (b, s)) leaf_next),
     o_end = (\<lambda>s. Inr s),
     o_getResultColumns = (\<lambda>s. Inr leaf_getResultColumns),
     o_getProjectionName = (\<lambda>s index. Inr (leaf_getProjectionName index)),
     o_getResultType = (\<lambda>s index. Inr (leaf_getResultType index)),
     o_addProjection = (\<lambda>pColumn s. Inr (leaf_addProjection pColumn, s)),
     o_getAllColumns = (\<lambda>s. Inr []),
     o_ensureSortOrder = (\<lambda>iSortIndex sColumn order s. Inr (leaf_ensureSortOrder iSortIndex sColumn order, s)),
     o_getInfoString = (\<lambda>s. Inr leaf_getInfoString),
     o_getResult = (\<lambda>s index type. Inr R_Null)\<rparr>"

section \<open>Columns of a plan\<close>

text \<open>
  What \<open>ExecutionPlan.h\<close> asks of \<open>addProjection\<close>: the same column always gets the same index.
  \<open>col\<close> is the index a plan gives to a column (or the error it raises), \<open>ty\<close> the type at an index.
\<close>

locale column_source =
  fixes C :: "'s plan_ops"
    and ok :: "'s \<Rightarrow> bool"
    and col :: "pnode \<Rightarrow> int res"
    and ty :: "nat \<Rightarrow> DBDataType res"
  assumes addProjection_col: "ok s \<Longrightarrow> \<exists>s'. ok s' \<and> o_addProjection C n s = mapR (\<lambda>i. (i, s')) (col n)"
    and getResultType_ty: "ok s \<Longrightarrow> o_getResultType C s = ty"

end
