(* ===== verification/LeafPlans.thy ===== *)
theory LeafPlans
  imports PlanBase
begin

text \<open>
  The plans that produce rows of their own: \<^verbatim>\<open>src/execution/ConstPlan\<close> (a \<open>VALUES\<close> list),
  \<^verbatim>\<open>ReadFilePlan\<close> (a separated text file), \<^verbatim>\<open>ShowTables\<close> and \<^verbatim>\<open>ShowColumns\<close> (the catalogue).
\<close>

section \<open>ConstPlan\<close>

record const_plan =
  cp_current :: nat
  cp_columns :: "string list"
  cp_rows :: "pnode list"

definition newConstPlan :: const_plan where
  "newConstPlan = \<lparr>cp_current = 0, cp_columns = [], cp_rows = []\<rparr>"

definition const_begin :: "const_plan \<Rightarrow> const_plan" where
  "const_begin p = p\<lparr>cp_current := 0\<rparr>"

definition const_next :: "bool \<Rightarrow> const_plan \<Rightarrow> err + bool \<times> const_plan" where
  "const_next bTerminated p =
     bindR (CheckCancellation bTerminated) (\<lambda>_.
       Inr (cp_current p < length (cp_rows p), p\<lparr>cp_current := cp_current p + 1\<rparr>))"

definition const_getResultType :: "const_plan \<Rightarrow> nat \<Rightarrow> DBDataType res" where
  "const_getResultType p index =
     mapR snd (foldR (\<lambda>(lastType, result) pRow.
         bindR (getChild pRow index) (\<lambda>pValue.
           if pValue = NullNode then Inl (Stuck ''pValue->m_type'')
           else if n_type pValue \<noteq> lastType \<and> lastType \<noteq> NT_NONE
           then Inl (ParseException (''value '' @ n_expr pValue @ '' at column '' @ nat_to_string (index + 1) @
                  '' does not match with previous rows:''))
           else Inr (n_type pValue, getConstResultType pValue)))
       (NT_NONE, DT_UNKNOWN) (cp_rows p))"

definition const_value :: "lib \<Rightarrow> pnode \<Rightarrow> row" where
  "const_value L pRow index type =
     bindR (getChild pRow index) (\<lambda>pValue.
       if pValue = NullNode then Inl (Stuck ''pValue->m_type'')
       else with_handler type (\<lambda>h. h_fromNode L h pValue R_Null))"

definition const_getResult :: "lib \<Rightarrow> const_plan \<Rightarrow> row" where
  "const_getResult L p index type =
     (if 0 < cp_current p \<and> cp_current p \<le> length (cp_rows p)
      then const_value L (cp_rows p ! (cp_current p - 1)) index type
      else Inl (Stuck ''m_rows[m_iCurrent - 1]''))"

definition index_of :: "('a \<Rightarrow> bool) \<Rightarrow> 'a list \<Rightarrow> int" where
  "index_of P xs = (case find (\<lambda>i. P (xs ! i)) [0..<length xs] of None \<Rightarrow> -1 | Some i \<Rightarrow> int i)"

definition const_addProjection :: "const_plan \<Rightarrow> pnode \<Rightarrow> int" where
  "const_addProjection p pNode =
     (if n_type pNode \<noteq> NT_NAME then -1 else index_of (\<lambda>c. c = n_value pNode) (cp_columns p))"

definition const_addRow :: "const_plan \<Rightarrow> pnode \<Rightarrow> const_plan" where
  "const_addRow p pRow =
     p\<lparr>cp_columns := (if cp_rows p = []
          then cp_columns p @ map (\<lambda>i. CHR ''c'' # nat_to_string (i + 1)) [0..<length (n_children pRow)]
          else cp_columns p),
       cp_rows := cp_rows p @ [pRow]\<rparr>"

definition const_explain :: "nat \<Rightarrow> const_plan \<Rightarrow> string list" where
  "const_explain depth p =
     [tabs depth @ ''Const '' @ nat_to_string (length (cp_rows p)) @ '' rows, '' @
      nat_to_string (length (cp_columns p)) @ '' columns'']"

definition const_getInfoString :: "const_plan \<Rightarrow> string" where
  "const_getInfoString p = ''SELECT '' @ nat_to_string (length (cp_rows p))"

section \<open>ReadFilePlan\<close>

text \<open>\<open>rf_file\<close>: the lines not yet read of the open file; a path names its lines in \<open>files\<close>.\<close>

record readfile_plan =
  rf_columns :: "column_info list"
  rf_result :: "eresult list"
  rf_rowCount :: int
  rf_path :: string
  rf_file :: "string list option"
  rf_separator :: char
  rf_ignoreFirstLine :: bool

definition newReadFilePlan :: "string \<Rightarrow> string \<Rightarrow> bool \<Rightarrow> readfile_plan res" where
  "newReadFilePlan sPath separator ignoreFirstLine =
     bindR (case separator of
         [] \<Rightarrow> Inr (CHR '','')
       | [c] \<Rightarrow> if c = CHR 0x22 then Inl (ParseException (''Should not use '' @ [CHR 0x22] @ '' as file separator''))
               else Inr c
       | [_, _] \<Rightarrow> Inl (ParseException ''File separator should be single character'')
       | _ \<Rightarrow> Inl (Stuck ''m_separator is not initialized''))
     (\<lambda>sep. Inr \<lparr>rf_columns = [], rf_result = [], rf_rowCount = 0, rf_path = sPath, rf_file = None,
        rf_separator = sep, rf_ignoreFirstLine = ignoreFirstLine\<rparr>)"

definition readfile_addColumn :: "column_info \<Rightarrow> readfile_plan \<Rightarrow> readfile_plan" where
  "readfile_addColumn c p = p\<lparr>rf_columns := rf_columns p @ [c], rf_result := rf_result p @ [R_Null]\<rparr>"

definition readfile_begin :: "(string \<Rightarrow> string list option) \<Rightarrow> readfile_plan \<Rightarrow> readfile_plan res" where
  "readfile_begin files p =
     (case files (rf_path p) of
        None \<Rightarrow> Inl (ExecutionException (''File '' @ rf_path p @ '' does not exists!''))
      | Some ls \<Rightarrow> Inr (p\<lparr>rf_file := Some (if rf_ignoreFirstLine p then tl ls else ls),
          rf_result := take (length (rf_columns p)) (rf_result p @ replicate (length (rf_columns p)) R_Null)\<rparr>))"

definition setToken :: "lib \<Rightarrow> column_info list \<Rightarrow> nat \<Rightarrow> string \<Rightarrow> eresult list \<Rightarrow> eresult list res" where
  "setToken L columns index token result =
     (if index \<ge> length columns then Inr result
      else let c = columns ! index in
        if c_type c = DT_STRING \<and> c_len c > 0 \<and> length token > c_len c
        then Inl (ExecutionException (''Column '' @ c_name c @ '' value exceed defined length '' @ nat_to_string (c_len c)))
        else with_handler (c_type c) (\<lambda>h. bindR (h_fromString L h token) (\<lambda>r. Inr (result[index := r]))))"

datatype ParseState = OutOfQuote | BeginQuote | InQuote

text \<open>
  The loop over the characters of \<open>m_line\<close>, which is compacted in place: \<open>line\<close> is its current
  contents, a token is the bytes from \<open>beginToken\<close> to \<open>targetIndex\<close>.
\<close>

record token_state =
  tk_state :: ParseState
  tk_targetIndex :: nat
  tk_beginToken :: nat
  tk_tokenIndex :: nat
  tk_line :: string
  tk_result :: "eresult list"

definition tk_token :: "token_state \<Rightarrow> string" where
  "tk_token t = take (tk_targetIndex t - tk_beginToken t) (drop (tk_beginToken t) (tk_line t))"

definition put_char :: "char \<Rightarrow> token_state \<Rightarrow> token_state" where
  "put_char c t = t\<lparr>tk_line := (tk_line t)[tk_targetIndex t := c], tk_targetIndex := tk_targetIndex t + 1\<rparr>"

definition token_step :: "lib \<Rightarrow> column_info list \<Rightarrow> char \<Rightarrow> nat \<Rightarrow> token_state \<Rightarrow> token_state res" where
  "token_step L columns sep i t =
     (let c = tk_line t ! i in
      case tk_state t of
        OutOfQuote \<Rightarrow>
          if c = CHR 0x22 then Inr (t\<lparr>tk_state := BeginQuote\<rparr>)
          else if c = sep then
            bindR (setToken L columns (tk_tokenIndex t) (tk_token t) (tk_result t)) (\<lambda>r.
              Inr (t\<lparr>tk_tokenIndex := tk_tokenIndex t + 1, tk_result := r, tk_beginToken := tk_targetIndex t\<rparr>))
          else Inr (put_char c t)
      | BeginQuote \<Rightarrow>
          if c = CHR 0x22 then Inr (put_char c (t\<lparr>tk_state := OutOfQuote\<rparr>))
          else Inr (put_char c (t\<lparr>tk_state := InQuote\<rparr>))
      | InQuote \<Rightarrow>
          if c = CHR 0x22 then Inr (t\<lparr>tk_state := OutOfQuote\<rparr>)
          else Inr (put_char c t))"

fun token_loop :: "lib \<Rightarrow> column_info list \<Rightarrow> char \<Rightarrow> nat \<Rightarrow> nat \<Rightarrow> token_state \<Rightarrow> token_state res" where
  "token_loop L columns sep i 0 t = Inr t"
| "token_loop L columns sep i (Suc n) t =
     (if tk_tokenIndex t < length columns
      then bindR (token_step L columns sep i t) (\<lambda>t'. token_loop L columns sep (Suc i) n t')
      else Inr t)"

definition parse_line :: "lib \<Rightarrow> column_info list \<Rightarrow> char \<Rightarrow> string \<Rightarrow> eresult list \<Rightarrow> eresult list res" where
  "parse_line L columns sep line result =
     bindR (token_loop L columns sep 0 (length line)
       \<lparr>tk_state = OutOfQuote, tk_targetIndex = 0, tk_beginToken = 0, tk_tokenIndex = 0, tk_line = line,
        tk_result = result\<rparr>) (\<lambda>t.
     bindR (setToken L columns (tk_tokenIndex t) (tk_token t) (tk_result t)) (\<lambda>r.
     foldR (\<lambda>r i. setToken L columns i [] r) r [tk_tokenIndex t + 1..<length columns]))"

definition readfile_next :: "lib \<Rightarrow> bool \<Rightarrow> readfile_plan \<Rightarrow> err + bool \<times> readfile_plan" where
  "readfile_next L bTerminated p =
     (case rf_file p of
        None \<Rightarrow> Inl (Stuck ''*m_file'')
      | Some [] \<Rightarrow> Inr (False, p)
      | Some (line # ls) \<Rightarrow>
          bindR (CheckCancellation bTerminated) (\<lambda>_.
          bindR (parse_line L (rf_columns p) (rf_separator p) line (rf_result p)) (\<lambda>r.
          Inr (True, p\<lparr>rf_file := Some ls, rf_result := r, rf_rowCount := rf_rowCount p + 1\<rparr>))))"

definition readfile_end :: "readfile_plan \<Rightarrow> readfile_plan" where
  "readfile_end p = p\<lparr>rf_file := None\<rparr>"

definition readfile_getResult :: "readfile_plan \<Rightarrow> row" where
  "readfile_getResult p index type =
     (if index < length (rf_result p) then Inr (rf_result p ! index) else Inl (Stuck ''m_result[index]''))"

definition readfile_getResultType :: "readfile_plan \<Rightarrow> nat \<Rightarrow> DBDataType res" where
  "readfile_getResultType p index =
     (if index < length (rf_columns p) then Inr (c_type (rf_columns p ! index)) else Inl (Stuck ''m_columns[index]''))"

definition readfile_addProjection :: "readfile_plan \<Rightarrow> pnode \<Rightarrow> int" where
  "readfile_addProjection p pNode =
     (if n_type pNode \<noteq> NT_NAME then -1 else index_of (\<lambda>c. c_name c = n_value pNode) (rf_columns p))"

definition readfile_getAllColumns :: "readfile_plan \<Rightarrow> string list" where
  "readfile_getAllColumns p = map c_name (rf_columns p)"

definition readfile_explain :: "nat \<Rightarrow> readfile_plan \<Rightarrow> string list" where
  "readfile_explain depth p = [tabs depth @ ''ReadFile '' @ rf_path p @ '', separator'' @ [rf_separator p]]"

definition readfile_getInfoString :: "readfile_plan \<Rightarrow> string" where
  "readfile_getInfoString p = ''SELECT '' @ int_to_string (rf_rowCount p)"

section \<open>ShowTables\<close>

record show_tables =
  sht_index :: nat
  sht_tables :: "table_info list"

definition newShowTables :: show_tables where
  "newShowTables = \<lparr>sht_index = 0, sht_tables = []\<rparr>"

definition showtables_begin :: "meta_config \<Rightarrow> show_tables \<Rightarrow> show_tables" where
  "showtables_begin M p = p\<lparr>sht_index := 0, sht_tables := getTables M\<rparr>"

definition showtables_next :: "bool \<Rightarrow> show_tables \<Rightarrow> err + bool \<times> show_tables" where
  "showtables_next bTerminated p =
     bindR (CheckCancellation bTerminated) (\<lambda>_.
       Inr (sht_index p + 1 \<le> length (sht_tables p), p\<lparr>sht_index := sht_index p + 1\<rparr>))"

definition showtables_value :: "table_info \<Rightarrow> row" where
  "showtables_value T index type =
     (if index = 0 then Inr (R_StringView (t_name T))
      else if index = 1 then
        (if hasAttribute T ''info'' then mapR R_StringView (getAttribute T ''info'') else Inr (R_StringView []))
      else Inr R_Null)"

definition showtables_getResult :: "show_tables \<Rightarrow> row" where
  "showtables_getResult p index type =
     (if 0 < sht_index p \<and> sht_index p \<le> length (sht_tables p)
      then showtables_value (sht_tables p ! (sht_index p - 1)) index type
      else Inl (Stuck ''m_tables[m_iIndex - 1]''))"

definition showtables_addProjection :: "lib \<Rightarrow> pnode \<Rightarrow> int" where
  "showtables_addProjection L pNode =
     (if n_type pNode \<noteq> NT_NAME then -1
      else if EqualsIgnoreCase L (n_value pNode) ''TableName'' then 0
      else if EqualsIgnoreCase L (n_value pNode) ''Info'' then 1
      else -1)"

definition showtables_getProjectionName :: "nat \<Rightarrow> string" where
  "showtables_getProjectionName index = (if index = 0 then ''TableName'' else ''Info'')"

definition showtables_getAllColumns :: "string list" where
  "showtables_getAllColumns = [''TableName'', ''Info'']"

definition showtables_getInfoString :: "meta_config \<Rightarrow> string" where
  "showtables_getInfoString M = ''SELECT '' @ nat_to_string (length (mc_tableMap M))"

section \<open>ShowColumns\<close>

record show_columns =
  shc_index :: nat
  shc_entry :: table_info

definition newShowColumns :: "table_info \<Rightarrow> show_columns" where
  "newShowColumns T = \<lparr>shc_index = 0, shc_entry = T\<rparr>"

definition ShowColumns_names :: "string list" where
  "ShowColumns_names = [''Field'', ''Type'', ''KeyPosition'', ''Precision'']"

definition showcolumns_begin :: "show_columns \<Rightarrow> show_columns" where
  "showcolumns_begin p = p\<lparr>shc_index := 0\<rparr>"

definition showcolumns_next :: "bool \<Rightarrow> show_columns \<Rightarrow> err + bool \<times> show_columns" where
  "showcolumns_next bTerminated p =
     bindR (CheckCancellation bTerminated) (\<lambda>_.
       Inr (shc_index p + 1 \<le> getColumnCount (shc_entry p), p\<lparr>shc_index := shc_index p + 1\<rparr>))"

definition showcolumns_value :: "meta_config \<Rightarrow> column_info \<Rightarrow> row" where
  "showcolumns_value M c index type =
     (if index = 0 then Inr (R_StringView (c_name c))
      else if index = 1 then Inr (R_StringView (typeToString M (c_type c)))
      else if index = 2 then Inr (R_Int (if c_keyIndex c < 0 then -1 else c_keyIndex c))
      else if index = 3 then Inr (R_Int (if c_len c = 0 then -1 else int (c_len c)))
      else Inr R_Null)"

definition showcolumns_getResult :: "meta_config \<Rightarrow> show_columns \<Rightarrow> row" where
  "showcolumns_getResult M p index type =
     (if 0 < shc_index p then bindR (getColumn (shc_entry p) (shc_index p - 1)) (\<lambda>c. showcolumns_value M c index type)
      else Inl (Stuck ''getColumn(m_iIndex - 1)''))"

definition showcolumns_getResultType :: "nat \<Rightarrow> DBDataType" where
  "showcolumns_getResultType index = (if index = 0 \<or> index = 1 then DT_STRING else DT_INT64)"

definition showcolumns_addProjection :: "lib \<Rightarrow> pnode \<Rightarrow> int" where
  "showcolumns_addProjection L pNode =
     (if n_type pNode \<noteq> NT_NAME then -1
      else index_of (\<lambda>c. EqualsIgnoreCase L c (n_value pNode)) ShowColumns_names)"

definition showcolumns_getProjectionName :: "nat \<Rightarrow> string res" where
  "showcolumns_getProjectionName index =
     (if index < 4 then Inr (ShowColumns_names ! index) else Inl (Stuck ''Columns[index]''))"

definition showcolumns_getInfoString :: "show_columns \<Rightarrow> string" where
  "showcolumns_getInfoString p = ''SELECT '' @ nat_to_string (getColumnCount (shc_entry p))"

section \<open>Virtual functions\<close>

definition const_ops :: "lib \<Rightarrow> const_plan plan_ops" where
  "const_ops L = empty_ops\<lparr>
     o_explain := (\<lambda>depth p. Inr (const_explain depth p, p)),
     o_begin := (\<lambda>bTerminated p. if cp_rows p = [] then Inl (Stuck ''!m_rows.empty()'') else Inr (const_begin p)),
     o_next := const_next,
     o_getResultColumns := (\<lambda>p. Inr (length (cp_columns p))),
     o_getProjectionName := (\<lambda>p index. if index < length (cp_columns p) then Inr (cp_columns p ! index)
                              else Inl (Stuck ''m_columns[index]'')),
     o_getResultType := const_getResultType,
     o_addProjection := (\<lambda>pNode p. Inr (const_addProjection p pNode, p)),
     o_getAllColumns := (\<lambda>p. Inr (cp_columns p)),
     o_getInfoString := (\<lambda>p. Inr (const_getInfoString p)),
     o_getResult := const_getResult L\<rparr>"

definition readfile_ops :: "lib \<Rightarrow> (string \<Rightarrow> string list option) \<Rightarrow> readfile_plan plan_ops" where
  "readfile_ops L files = empty_ops\<lparr>
     o_explain := (\<lambda>depth p. Inr (readfile_explain depth p, p)),
     o_begin := (\<lambda>bTerminated. readfile_begin files),
     o_next := readfile_next L,
     o_end := (\<lambda>p. Inr (readfile_end p)),
     o_getResultColumns := (\<lambda>p. Inr (length (rf_columns p))),
     o_getProjectionName := (\<lambda>p index. if index < length (rf_columns p) then Inr (c_name (rf_columns p ! index))
                              else Inl (Stuck ''m_columns[index]'')),
     o_getResultType := readfile_getResultType,
     o_addProjection := (\<lambda>pNode p. Inr (readfile_addProjection p pNode, p)),
     o_getAllColumns := (\<lambda>p. Inr (readfile_getAllColumns p)),
     o_getInfoString := (\<lambda>p. Inr (readfile_getInfoString p)),
     o_getResult := readfile_getResult\<rparr>"

definition showtables_ops :: "lib \<Rightarrow> meta_config \<Rightarrow> show_tables plan_ops" where
  "showtables_ops L M = empty_ops\<lparr>
     o_explain := (\<lambda>depth p. Inr ([tabs depth @ ''ShowTables''], p)),
     o_begin := (\<lambda>bTerminated p. Inr (showtables_begin M p)),
     o_next := showtables_next,
     o_getResultColumns := (\<lambda>p. Inr 2),
     o_getProjectionName := (\<lambda>p index. Inr (showtables_getProjectionName index)),
     o_getResultType := (\<lambda>p index. Inr DT_STRING),
     o_addProjection := (\<lambda>pNode p. Inr (showtables_addProjection L pNode, p)),
     o_getAllColumns := (\<lambda>p. Inr showtables_getAllColumns),
     o_getInfoString := (\<lambda>p. Inr (showtables_getInfoString M)),
     o_getResult := showtables_getResult\<rparr>"

definition showcolumns_ops :: "lib \<Rightarrow> meta_config \<Rightarrow> show_columns plan_ops" where
  "showcolumns_ops L M = empty_ops\<lparr>
     o_explain := (\<lambda>depth p. Inr ([tabs depth @ ''ShowColumns''], p)),
     o_begin := (\<lambda>bTerminated p. Inr (showcolumns_begin p)),
     o_next := showcolumns_next,
     o_getResultColumns := (\<lambda>p. Inr 4),
     o_getProjectionName := (\<lambda>p. showcolumns_getProjectionName),
     o_getResultType := (\<lambda>p index. Inr (showcolumns_getResultType index)),
     o_addProjection := (\<lambda>pNode p. Inr (showcolumns_addProjection L pNode, p)),
     o_getAllColumns := (\<lambda>p. Inr ShowColumns_names),
     o_getInfoString := (\<lambda>p. Inr (showcolumns_getInfoString p)),
     o_getResult := showcolumns_getResult M\<rparr>"

section \<open>The plans keep the contract\<close>

interpretation const_source: row_source "const_next False"
    "\<lambda>p. map (const_value L) (drop (cp_current p) (cp_rows p))" "const_getResult L" "\<lambda>p. True" for L
  by (rule counting_source [where step = "\<lambda>p. p\<lparr>cp_current := cp_current p + 1\<rparr>"])
    (auto simp: const_next_def CheckCancellation_def const_getResult_def fun_eq_iff)

interpretation showtables_source: row_source "showtables_next False"
    "\<lambda>p. map showtables_value (drop (sht_index p) (sht_tables p))" showtables_getResult "\<lambda>p. True"
  by (rule counting_source [where step = "\<lambda>p. p\<lparr>sht_index := sht_index p + 1\<rparr>"])
    (auto simp: showtables_next_def CheckCancellation_def showtables_getResult_def fun_eq_iff)

interpretation showcolumns_source: row_source "showcolumns_next False"
    "\<lambda>p. map (showcolumns_value M) (drop (shc_index p) (t_columns (shc_entry p)))" "showcolumns_getResult M" "\<lambda>p. True" for M
  by (rule counting_source [where step = "\<lambda>p. p\<lparr>shc_index := shc_index p + 1\<rparr>"])
    (auto simp: showcolumns_next_def CheckCancellation_def showcolumns_getResult_def getColumnCount_def getColumn_def fun_eq_iff)

interpretation const_columns: column_source "const_ops L" "\<lambda>p. cp_columns p = cols \<and> cp_rows p = rows"
    "\<lambda>n. Inr (if n_type n \<noteq> NT_NAME then -1 else index_of (\<lambda>c. c = n_value n) cols)"
    "const_getResultType \<lparr>cp_current = 0, cp_columns = cols, cp_rows = rows\<rparr>" for L cols rows
  by unfold_locales (auto simp: const_ops_def empty_ops_def const_addProjection_def const_getResultType_def fun_eq_iff)

interpretation readfile_columns: column_source "readfile_ops L files" "\<lambda>p. rf_columns p = cols"
    "\<lambda>n. Inr (if n_type n \<noteq> NT_NAME then -1 else index_of (\<lambda>c. c_name c = n_value n) cols)"
    "\<lambda>i. if i < length cols then Inr (c_type (cols ! i)) else Inl (Stuck ''m_columns[index]'')" for L files cols
  by unfold_locales (auto simp: readfile_ops_def empty_ops_def readfile_addProjection_def readfile_getResultType_def fun_eq_iff)

section \<open>Splitting a line into fields\<close>

text \<open>
  What the loop in place computes: \<open>csv sep st n tok s\<close> are the fields of \<open>s\<close> when \<open>tok\<close> has been
  read of the current field in state \<open>st\<close> and \<open>n\<close> more fields are wanted.
\<close>

fun csv :: "char \<Rightarrow> ParseState \<Rightarrow> nat \<Rightarrow> string \<Rightarrow> string \<Rightarrow> string list" where
  "csv sep st 0 tok s = [tok]"
| "csv sep st (Suc n) tok [] = [tok]"
| "csv sep OutOfQuote (Suc n) tok (c # s) =
     (if c = CHR 0x22 then csv sep BeginQuote (Suc n) tok s
      else if c = sep then tok # csv sep OutOfQuote n [] s
      else csv sep OutOfQuote (Suc n) (tok @ [c]) s)"
| "csv sep BeginQuote (Suc n) tok (c # s) =
     csv sep (if c = CHR 0x22 then OutOfQuote else InQuote) (Suc n) (tok @ [c]) s"
| "csv sep InQuote (Suc n) tok (c # s) =
     (if c = CHR 0x22 then csv sep OutOfQuote (Suc n) tok s else csv sep InQuote (Suc n) (tok @ [c]) s)"

fun set_fields :: "lib \<Rightarrow> column_info list \<Rightarrow> nat \<Rightarrow> string list \<Rightarrow> eresult list \<Rightarrow> eresult list res" where
  "set_fields L columns i [] r = Inr r"
| "set_fields L columns i (f # fs) r = bindR (setToken L columns i f r) (set_fields L columns (Suc i) fs)"

lemma set_fields_one [simp]: "bindR (bindR m (set_fields L columns i [])) g = bindR m g"
  by (cases m) simp_all

text \<open>The invariant of the loop: the unread part of the line is intact, the token precedes it.\<close>

definition token_inv :: "nat \<Rightarrow> string \<Rightarrow> token_state \<Rightarrow> bool" where
  "token_inv i s t \<longleftrightarrow> tk_beginToken t \<le> tk_targetIndex t \<and> tk_targetIndex t \<le> i \<and> i \<le> length (tk_line t) \<and>
     drop i (tk_line t) = s"

lemma token_inv_next:
  assumes "token_inv i (c # s) t"
  shows "token_inv (Suc i) s t" "tk_line t ! i = c" "i < length (tk_line t)"
proof -
  have d: "drop i (tk_line t) = c # s" using assms by (simp add: token_inv_def)
  show i: "i < length (tk_line t)" using d by (cases "i < length (tk_line t)") auto
  from Cons_nth_drop_Suc [OF i] d show "tk_line t ! i = c" by simp
  from Cons_nth_drop_Suc [OF i] d have "drop (Suc i) (tk_line t) = s" by simp
  then show "token_inv (Suc i) s t" using assms i by (simp add: token_inv_def)
qed

lemma token_inv_put:
  assumes "token_inv i (c # s) t"
  shows "token_inv (Suc i) s (put_char d t)" "tk_token (put_char d t) = tk_token t @ [d]"
proof -
  note nx = token_inv_next [OF assms]
  have i: "tk_beginToken t \<le> tk_targetIndex t" "tk_targetIndex t \<le> i" "i < length (tk_line t)"
    "drop (Suc i) (tk_line t) = s"
    using assms nx by (auto simp: token_inv_def)
  then show "token_inv (Suc i) s (put_char d t)" using i by (simp add: token_inv_def put_char_def)
  let ?b = "tk_beginToken t" and ?g = "tk_targetIndex t" and ?l = "tk_line t"
  have len: "length (take (?g - ?b) (drop ?b ?l)) = ?g - ?b" using i by simp
  have "take (Suc ?g - ?b) (drop ?b (?l[?g := d])) = take (?g - ?b) (drop ?b ?l) @ [d]"
    using i by (simp add: Suc_diff_le drop_update_swap take_Suc_conv_app_nth)
  then show "tk_token (put_char d t) = tk_token t @ [d]" by (simp add: tk_token_def put_char_def)
qed

lemma token_loop_csv:
  assumes "token_inv i s t" "tk_tokenIndex t \<le> length columns"
  shows "bindR (token_loop L columns sep i (length s) t) (\<lambda>t.
      bindR (setToken L columns (tk_tokenIndex t) (tk_token t) (tk_result t)) (\<lambda>r.
        foldR (\<lambda>r i. setToken L columns i [] r) r [tk_tokenIndex t + 1..<length columns])) =
    (let flds = csv sep (tk_state t) (length columns - tk_tokenIndex t) (tk_token t) s in
     bindR (set_fields L columns (tk_tokenIndex t) flds (tk_result t)) (\<lambda>r.
       foldR (\<lambda>r i. setToken L columns i [] r) r [tk_tokenIndex t + length flds..<length columns]))"
  using assms
proof (induction s arbitrary: i t)
  case Nil
  then show ?case by (cases "length columns - tk_tokenIndex t") (simp_all add: Let_def)
next
  case (Cons c s)
  show ?case
  proof (cases "tk_tokenIndex t < length columns")
    case False
    then have "length columns - tk_tokenIndex t = 0" by simp
    then show ?thesis using False by (simp add: Let_def)
  next
    case True
    then obtain n where n: "length columns - tk_tokenIndex t = Suc n" by (metis Suc_diff_Suc)
    note nx = token_inv_next [OF Cons.prems(1)]
    have put: "token_inv (Suc i) s (put_char d (t\<lparr>tk_state := q\<rparr>))" "tk_token (put_char d (t\<lparr>tk_state := q\<rparr>)) = tk_token t @ [d]" for d q
      using token_inv_put [of i c s "t\<lparr>tk_state := q\<rparr>" d] Cons.prems(1) by (simp_all add: token_inv_def tk_token_def)
    have st: "put_char d t = put_char d (t\<lparr>tk_state := tk_state t\<rparr>)" for d by simp
    have keep: "tk_tokenIndex (put_char d (t\<lparr>tk_state := q\<rparr>)) = tk_tokenIndex t"
      "tk_result (put_char d (t\<lparr>tk_state := q\<rparr>)) = tk_result t" "tk_state (put_char d (t\<lparr>tk_state := q\<rparr>)) = q" for d q
      by (simp_all add: put_char_def)
    have char: "token_step L columns sep i t = Inr (put_char c (t\<lparr>tk_state := q\<rparr>)) \<Longrightarrow>
        csv sep (tk_state t) (Suc n) (tk_token t) (c # s) = csv sep q (Suc n) (tk_token t @ [c]) s \<Longrightarrow> ?thesis" for q
      using Cons.IH [OF put(1) [of c q]] True n by (simp add: keep put(2))
    have skip: "token_step L columns sep i t = Inr (t\<lparr>tk_state := q\<rparr>) \<Longrightarrow>
        csv sep (tk_state t) (Suc n) (tk_token t) (c # s) = csv sep q (Suc n) (tk_token t) s \<Longrightarrow> ?thesis" for q
      using Cons.IH [of "Suc i" "t\<lparr>tk_state := q\<rparr>"] True n nx by (simp add: token_inv_def tk_token_def)
    show ?thesis
    proof (cases "tk_state t")
      case OutOfQuote
      consider "c = CHR 0x22" | "c \<noteq> CHR 0x22" "c = sep" | "c \<noteq> CHR 0x22" "c \<noteq> sep" by blast
      then show ?thesis
      proof cases
        case 1
        then show ?thesis using OutOfQuote nx by (intro skip [of BeginQuote]) (simp_all add: token_step_def)
      next
        case 2
        show ?thesis
        proof (cases "setToken L columns (tk_tokenIndex t) (tk_token t) (tk_result t)")
          case (Inl e)
          then show ?thesis using 2 OutOfQuote nx True n by (simp add: token_step_def)
        next
          case (Inr r)
          let ?t = "t\<lparr>tk_tokenIndex := tk_tokenIndex t + 1, tk_result := r, tk_beginToken := tk_targetIndex t\<rparr>"
          have "token_inv (Suc i) s ?t" using nx(1) by (auto simp: token_inv_def)
          note ih = Cons.IH [OF this]
          have "length columns - Suc (tk_tokenIndex t) = n" using n by simp
          with ih have "bindR (token_loop L columns sep (Suc i) (length s) ?t) (\<lambda>t.
              bindR (setToken L columns (tk_tokenIndex t) (tk_token t) (tk_result t)) (\<lambda>r.
                foldR (\<lambda>r i. setToken L columns i [] r) r [tk_tokenIndex t + 1..<length columns])) =
            (let flds = csv sep OutOfQuote n [] s in
             bindR (set_fields L columns (Suc (tk_tokenIndex t)) flds r) (\<lambda>r.
               foldR (\<lambda>r i. setToken L columns i [] r) r [Suc (tk_tokenIndex t) + length flds..<length columns]))"
            using True OutOfQuote by (simp add: tk_token_def)
          then show ?thesis using 2 OutOfQuote nx True n Inr by (simp add: token_step_def Let_def)
        qed
      next
        case 3
        then show ?thesis using OutOfQuote nx st [of c] by (intro char [of OutOfQuote]) (simp_all add: token_step_def)
      qed
    next
      case BeginQuote
      show ?thesis
      proof (cases "c = CHR 0x22")
        case True
        then show ?thesis using BeginQuote nx by (intro char [of OutOfQuote]) (simp_all add: token_step_def)
      next
        case False
        then show ?thesis using BeginQuote nx by (intro char [of InQuote]) (simp_all add: token_step_def)
      qed
    next
      case InQuote
      show ?thesis
      proof (cases "c = CHR 0x22")
        case True
        then show ?thesis using InQuote nx by (intro skip [of OutOfQuote]) (simp_all add: token_step_def)
      next
        case False
        then show ?thesis using InQuote nx st [of c] by (intro char [of InQuote]) (simp_all add: token_step_def)
      qed
    qed
  qed
qed


definition line_fields :: "char \<Rightarrow> nat \<Rightarrow> string \<Rightarrow> string list" where
  "line_fields sep n s = (let flds = csv sep OutOfQuote n [] s in flds @ replicate (n - length flds) [])"

lemma csv_length: "length (csv sep st n tok s) \<le> Suc n" "csv sep st n tok s \<noteq> []"
  by (induction sep st n tok s rule: csv.induct) auto

lemma set_fields_append:
  "set_fields L columns i (fs @ gs) r = bindR (set_fields L columns i fs r) (set_fields L columns (i + length fs) gs)"
proof (induction fs arbitrary: i r)
  case (Cons f fs)
  then show ?case by (cases "setToken L columns i f r") simp_all
qed simp

lemma set_fields_replicate_aux:
  "foldR (\<lambda>r i. setToken L columns i [] r) r [i..<i + n] = set_fields L columns i (replicate n []) r"
proof (induction n arbitrary: i r)
  case (Suc n)
  have "[i..<i + Suc n] = i # [Suc i..<Suc i + n]" using upt_conv_Cons [of i "i + Suc n"] by simp
  moreover have "foldR (\<lambda>r i. setToken L columns i [] r) r [Suc i..<Suc i + n] = set_fields L columns (Suc i) (replicate n []) r" for r
    by (rule Suc)
  ultimately show ?case by (cases "setToken L columns i [] r") (simp_all del: upt_Suc)
qed simp

lemma set_fields_replicate:
  "foldR (\<lambda>r i. setToken L columns i [] r) r [k..<m] = set_fields L columns k (replicate (m - k) []) r"
proof (cases "k \<le> m")
  case True
  then show ?thesis using set_fields_replicate_aux [of L columns r k "m - k"] by simp
qed simp

text \<open>
  The tokenizer of \<open>ReadFilePlan\<close>, which compacts the line in place while it scans it, sets
  the columns to exactly the fields that the functional description \<open>csv\<close> of the format yields,
  and to the empty text where the line has too few fields.
\<close>

lemma parse_line_csv:
  "parse_line L columns sep line result = set_fields L columns 0 (line_fields sep (length columns) line) result"
proof -
  let ?t = "\<lparr>tk_state = OutOfQuote, tk_targetIndex = 0, tk_beginToken = 0, tk_tokenIndex = 0, tk_line = line,
        tk_result = result\<rparr>"
  have "token_inv 0 line ?t" by (simp add: token_inv_def)
  then show ?thesis using token_loop_csv [of 0 line ?t columns L sep]
    by (simp add: set_fields_replicate parse_line_def line_fields_def Let_def set_fields_append tk_token_def)
qed


section \<open>Reading back a quoted line\<close>

text \<open>The writer of the format: a field is quoted unless it is empty.\<close>

definition csv_quote :: "string \<Rightarrow> string" where
  "csv_quote f = (if f = [] then [] else CHR 0x22 # f @ [CHR 0x22])"

fun csv_line :: "char \<Rightarrow> string list \<Rightarrow> string" where
  "csv_line sep [] = []"
| "csv_line sep [f] = csv_quote f"
| "csv_line sep (f # g # fs) = csv_quote f @ sep # csv_line sep (g # fs)"

lemma csv_in_quote:
  "CHR 0x22 \<notin> set f \<Longrightarrow> csv sep InQuote (Suc n) tok (f @ CHR 0x22 # s) = csv sep OutOfQuote (Suc n) (tok @ f) s"
  by (induction f arbitrary: tok) auto

lemma csv_quoted:
  assumes "CHR 0x22 \<notin> set f"
  shows "csv sep OutOfQuote (Suc n) [] (csv_quote f @ s) = csv sep OutOfQuote (Suc n) f s"
proof (cases f)
  case (Cons c f')
  then show ?thesis using assms csv_in_quote [of f' sep n "[c]" s] by (auto simp: csv_quote_def)
qed (simp add: csv_quote_def)

lemma csv_line_fields:
  assumes "sep \<noteq> CHR 0x22" "\<forall>f\<in>set fs. CHR 0x22 \<notin> set f" "fs \<noteq> []"
  shows "csv sep OutOfQuote (length fs) [] (csv_line sep fs) = fs"
  using assms
proof (induction sep fs rule: csv_line.induct)
  case (2 sep f)
  then show ?case using csv_quoted [of f sep 0 "[]"] by simp
next
  case (3 sep f g fs)
  then show ?case using csv_quoted [of f sep "length (g # fs)" "sep # csv_line sep (g # fs)"] by simp
qed simp

text \<open>
  C31.  A line that quotes its fields is read back: when the fields hold no quote character and the
  separator is not one, the row that \<open>next\<close> delivers has every column set from its own field -
  separators inside the quotes included.
\<close>

theorem quoted_line_roundtrip:
  assumes "rf_separator p \<noteq> CHR 0x22" "\<forall>f\<in>set fs. CHR 0x22 \<notin> set f"
    and "fs \<noteq> []" "length fs = length (rf_columns p)"
    and "rf_file p = Some (csv_line (rf_separator p) fs # ls)"
  shows "readfile_next L False p =
    mapR (\<lambda>r. (True, p\<lparr>rf_file := Some ls, rf_result := r, rf_rowCount := rf_rowCount p + 1\<rparr>))
      (set_fields L (rf_columns p) 0 fs (rf_result p))"
proof -
  have "line_fields (rf_separator p) (length fs) (csv_line (rf_separator p) fs) = fs"
    using csv_line_fields [of "rf_separator p" fs] assms by (simp add: line_fields_def)
  then have "parse_line L (rf_columns p) (rf_separator p) (csv_line (rf_separator p) fs) (rf_result p) =
      set_fields L (rf_columns p) 0 fs (rf_result p)"
    using assms by (simp add: parse_line_csv)
  then show ?thesis using assms
    by (cases "set_fields L (rf_columns p) 0 fs (rf_result p)") (simp_all add: readfile_next_def CheckCancellation_def)
qed

definition ex_reader :: readfile_plan where
  "ex_reader = \<lparr>rf_columns = [newColumnInfo ''id'' DT_INT32, newColumnInfo ''name'' DT_STRING],
     rf_result = [R_Null, R_Null], rf_rowCount = 0, rf_path = ''t.csv'',
     rf_file = Some [csv_line (CHR '','') [''7'', ''a,b'']], rf_separator = CHR '','', rf_ignoreFirstLine = False\<rparr>"


theorem quoted_line_roundtrip_witness:
  "readfile_next ex_lib False ex_reader = Inr (True, ex_reader\<lparr>rf_file := Some [],
     rf_result := [R_Int 7, R_StringView ''a,b''], rf_rowCount := 1\<rparr>)"
proof -
  have "readfile_next ex_lib False ex_reader =
      mapR (\<lambda>r. (True, ex_reader\<lparr>rf_file := Some [], rf_result := r, rf_rowCount := rf_rowCount ex_reader + 1\<rparr>))
        (set_fields ex_lib (rf_columns ex_reader) 0 [''7'', ''a,b''] (rf_result ex_reader))"
    by (rule quoted_line_roundtrip) (simp_all add: ex_reader_def)
  also have "set_fields ex_lib (rf_columns ex_reader) 0 [''7'', ''a,b''] (rf_result ex_reader) = Inr [R_Int 7, R_StringView ''a,b'']"
    by (simp add: ex_reader_def newColumnInfo_def setToken_def with_handler_def getHandler_def h_fromString_def
        stringToInt_def checkInt_def int_min_def int_max_def int64_range_def ex_lib_def ccode_def)
  finally show ?thesis by (simp add: ex_reader_def)
qed


end
