(* ===== verification/RowPlans.thy ===== *)
theory RowPlans
  imports LeafPlans
begin

text \<open>
  The plans that pass on rows of one plan below them: \<^verbatim>\<open>src/execution/FilterPlan\<close>,
  \<^verbatim>\<open>LimitPlan\<close>, \<^verbatim>\<open>ProjectionPlan\<close> and \<^verbatim>\<open>ExplainPlan\<close>.  The operations take the virtual functions
  \<open>C\<close> of the plan below and work on the pair of the plan's own record and the state below.
\<close>

section \<open>FilterPlan\<close>

record predicate_info =
  pi_expr :: string
  pi_op :: Operation
  pi_leftIndex :: int
  pi_rightIndex :: int
  pi_leftConst :: eresult
  pi_rightConst :: eresult

record filter_plan =
  fl_current :: nat
  fl_predicatesInOr :: "predicate_info list list"

definition newFilterPlan :: filter_plan where
  "newFilterPlan = \<lparr>fl_current = 0, fl_predicatesInOr = []\<rparr>"

definition filter_begin :: "'s plan_ops \<Rightarrow> bool \<Rightarrow> filter_plan \<times> 's \<Rightarrow> (filter_plan \<times> 's) res" where
  "filter_begin C bTerminated = (\<lambda>(f, s). mapR (\<lambda>s'. (f\<lparr>fl_current := 0\<rparr>, s')) (o_begin C bTerminated s))"

definition filter_getInfoString :: "filter_plan \<Rightarrow> string" where
  "filter_getInfoString f = ''SELECT '' @ nat_to_string (fl_current f)"

text \<open>\<open>result1.getString().find(result2.getString()) != npos\<close>.\<close>

definition str_contains :: "string \<Rightarrow> string \<Rightarrow> bool" where
  "str_contains s t = list_ex (\<lambda>i. take (length t) (drop i s) = t) [0..<Suc (length s)]"

definition info_operand :: "frame \<Rightarrow> int \<Rightarrow> eresult \<Rightarrow> DBDataType \<Rightarrow> err + eresult \<times> DBDataType" where
  "info_operand fr index c type =
     (if index \<ge> 0
      then bindR (snd fr (nat index)) (\<lambda>t. mapR (\<lambda>r. (r, t)) (fst fr (nat index) t))
      else Inr (c, type))"

definition compare_holds :: "Operation \<Rightarrow> int \<Rightarrow> bool option" where
  "compare_holds op n = (case op of
       COMP_EQ \<Rightarrow> Some (n = 0)
     | COMP_NE \<Rightarrow> Some (n \<noteq> 0)
     | COMP_LE \<Rightarrow> Some (n \<le> 0)
     | COMP_LT \<Rightarrow> Some (n < 0)
     | COMP_GT \<Rightarrow> Some (n > 0)
     | COMP_GE \<Rightarrow> Some (n \<ge> 0)
     | _ \<Rightarrow> None)"

definition filter_evaluate :: "lib \<Rightarrow> frame \<Rightarrow> predicate_info \<Rightarrow> bool res" where
  "filter_evaluate L fr info =
     bindR (info_operand fr (pi_rightIndex info) (pi_rightConst info) DT_UNKNOWN) (\<lambda>(result2, type2).
     bindR (info_operand fr (pi_leftIndex info) (pi_leftConst info) type2) (\<lambda>(result1, type).
     if type = DT_UNKNOWN then Inl (Stuck ''type != UNKNOWN'')
     else if isNull result1 \<or> isNull result2 then Inl (Stuck ''!result.isNull()'')
     else if pi_op info = COMP_LIKE then
       bindR (getString L result1) (\<lambda>s1. bindR (getString L result2) (\<lambda>s2. Inr (str_contains s1 s2)))
     else bindR (r_compare L result1 result2 type) (\<lambda>n.
       case compare_holds (pi_op info) n of
         Some b \<Rightarrow> Inr b
       | None \<Rightarrow> Inl (ParseException (''Unsupported operation '' @ pi_expr info)))))"

fun match_and :: "lib \<Rightarrow> frame \<Rightarrow> predicate_info list \<Rightarrow> bool res" where
  "match_and L fr [] = Inr True"
| "match_and L fr (info # infos) =
     bindR (filter_evaluate L fr info) (\<lambda>b. if b then match_and L fr infos else Inr False)"

fun match_or :: "lib \<Rightarrow> frame \<Rightarrow> predicate_info list list \<Rightarrow> bool res" where
  "match_or L fr [] = Inr False"
| "match_or L fr (pAnd # pAnds) =
     bindR (match_and L fr pAnd) (\<lambda>b. if b then Inr True else match_or L fr pAnds)"

text \<open>One unit of fuel per row of the plan below.\<close>

fun filter_next :: "nat \<Rightarrow> lib \<Rightarrow> 's plan_ops \<Rightarrow> bool \<Rightarrow> filter_plan \<times> 's \<Rightarrow> err + bool \<times> filter_plan \<times> 's" where
  "filter_next 0 L C bTerminated (f, s) = Inl OutOfFuel"
| "filter_next (Suc fuel) L C bTerminated (f, s) =
     bindR (o_next C bTerminated s) (\<lambda>(more, s').
       if \<not> more then Inr (False, f, s')
       else bindR (match_or L (frame_of C s') (fl_predicatesInOr f)) (\<lambda>b.
         if b then Inr (True, f\<lparr>fl_current := fl_current f + 1\<rparr>, s')
         else filter_next fuel L C bTerminated (f, s')))"

text \<open>The constant on one side of a comparison, converted to the type of the column on the other.\<close>

definition info_const :: "lib \<Rightarrow> 's plan_ops \<Rightarrow> 's \<Rightarrow> string \<Rightarrow> pnode \<Rightarrow> int \<Rightarrow> int \<Rightarrow> eresult res" where
  "info_const L C s expr node index other =
     (if index \<ge> 0 then Inr R_Null
      else if isConst node then
        bindR (o_getResultType C s (nat other)) (\<lambda>type. with_handler type (\<lambda>h. h_fromNode L h node R_Null))
      else Inl (ParseException (''Unsupported predicate '' @ expr)))"

definition addComparison ::
  "lib \<Rightarrow> 's plan_ops \<Rightarrow> pnode \<Rightarrow> predicate_info list \<times> 's \<Rightarrow> (predicate_info list \<times> 's) res" where
  "addComparison L C pPredicate = (\<lambda>(andList, s).
     bindR (getChild pPredicate 0) (\<lambda>pLeft.
     bindR (getChild pPredicate 1) (\<lambda>pRight.
     if pLeft = NullNode \<or> pRight = NullNode then Inl (Stuck ''pLeft->m_type'')
     else bindR (o_addProjection C pLeft s) (\<lambda>(l, s1).
     bindR (o_addProjection C pRight s1) (\<lambda>(r, s2).
     if l < 0 \<and> r < 0 then Inl (ParseException (''Unrecognized predicate '' @ n_expr pPredicate))
     else bindR (info_const L C s2 (n_expr pPredicate) pLeft l r) (\<lambda>lc.
     bindR (info_const L C s2 (n_expr pPredicate) pRight r l) (\<lambda>rc.
     Inr (andList @ [\<lparr>pi_expr = n_expr pPredicate, pi_op = n_op pPredicate, pi_leftIndex = l,
            pi_rightIndex = r, pi_leftConst = lc, pi_rightConst = rc\<rparr>], s2))))))))"

fun doAddPredicate ::
  "lib \<Rightarrow> 's plan_ops \<Rightarrow> string list option \<Rightarrow> pnode \<Rightarrow> predicate_info list \<times> 's \<Rightarrow> (predicate_info list \<times> 's) res" where
  "doAddPredicate L C pIgnore NullNode st = Inl (Stuck ''pPredicate'')"
| "doAddPredicate L C pIgnore (PNode a t op e v cs) st =
     (if t \<noteq> NT_OP then Inl (ParseException (''Unsupported predicate '' @ e))
      else if op = OP_AND then foldR (\<lambda>st c. doAddPredicate L C pIgnore c st) st cs
      else if op = OP_OR then Inl (Stuck ''op != Operation::OR'')
      else if length cs \<noteq> 2 then Inl (ParseException (''Unsupported predicate '' @ e))
      else if (case pIgnore of Some es \<Rightarrow> e \<in> set es | None \<Rightarrow> False) then Inr st
      else addComparison L C (PNode a t op e v cs) st)"

definition addPredicate ::
  "lib \<Rightarrow> 's plan_ops \<Rightarrow> pnode \<Rightarrow> string list option \<Rightarrow> filter_plan \<times> 's \<Rightarrow> err + bool \<times> filter_plan \<times> 's" where
  "addPredicate L C pPredicate pIgnore = (\<lambda>(f, s).
     bindR (doAddPredicate L C pIgnore pPredicate ([], s)) (\<lambda>(pAnd, s').
       Inr (pAnd \<noteq> [], f\<lparr>fl_predicatesInOr := fl_predicatesInOr f @ [pAnd]\<rparr>, s')))"

definition filter_setPredicate :: "lib \<Rightarrow> 's plan_ops \<Rightarrow> pnode \<Rightarrow> filter_plan \<times> 's \<Rightarrow> (filter_plan \<times> 's) res" where
  "filter_setPredicate L C pNode = (\<lambda>(f, s).
     (let st = (f\<lparr>fl_predicatesInOr := []\<rparr>, s) in
      if pNode = NullNode then Inr st
      else if n_op pNode = OP_OR then
        foldR (\<lambda>st pChild.
          if n_op pChild = OP_OR then Inl (Stuck ''pChild->getOp() != Operation::OR'')
          else mapR snd (addPredicate L C pChild None st)) st (n_children pNode)
      else mapR snd (addPredicate L C pNode None st)))"

definition filter_explain :: "'s plan_ops \<Rightarrow> nat \<Rightarrow> filter_plan \<times> 's \<Rightarrow> err + string list \<times> filter_plan \<times> 's" where
  "filter_explain C depth = (\<lambda>(f, s).
     if fl_predicatesInOr f = [] then Inl (Stuck ''!m_predicatesInOr.empty()'')
     else let orList = map (\<lambda>pAnd. ''('' @ str_join '' and '' (map pi_expr pAnd) @ '')'') (fl_predicatesInOr f) in
       bindR (o_explain C (depth + 1) s) (\<lambda>(rows, s').
         Inr ((tabs depth @ ''Filter'' @ str_join '' or '' orList) # rows, f, s')))"

section \<open>LimitPlan\<close>

text \<open>The counters are \<open>uint64_t\<close>.\<close>

record limit_plan =
  lm_limit :: "64 word"
  lm_offset :: "64 word"
  lm_current :: "64 word"

definition newLimitPlan :: limit_plan where
  "newLimitPlan = \<lparr>lm_limit = 0, lm_offset = 0, lm_current = 0\<rparr>"

definition setLimit :: "int \<Rightarrow> int \<Rightarrow> limit_plan \<Rightarrow> limit_plan" where
  "setLimit iLimit iOffset p = p\<lparr>lm_limit := word_of_int iLimit, lm_offset := word_of_int iOffset\<rparr>"

definition limit_begin :: "'s plan_ops \<Rightarrow> bool \<Rightarrow> limit_plan \<times> 's \<Rightarrow> (limit_plan \<times> 's) res" where
  "limit_begin C bTerminated = (\<lambda>(p, s). mapR (\<lambda>s'. (p\<lparr>lm_current := 0\<rparr>, s')) (o_begin C bTerminated s))"

text \<open>The rows skipped up to the offset; the result tells whether there were enough.\<close>

fun limit_skip :: "nat \<Rightarrow> 's plan_ops \<Rightarrow> bool \<Rightarrow> limit_plan \<times> 's \<Rightarrow> err + bool \<times> limit_plan \<times> 's" where
  "limit_skip 0 C bTerminated (p, s) = Inl OutOfFuel"
| "limit_skip (Suc fuel) C bTerminated (p, s) =
     (if lm_current p < lm_offset p then
        bindR (o_next C bTerminated s) (\<lambda>(more, s').
          if \<not> more then Inr (False, p, s')
          else limit_skip fuel C bTerminated (p\<lparr>lm_current := lm_current p + 1\<rparr>, s'))
      else Inr (True, p, s))"

definition limit_next :: "nat \<Rightarrow> 's plan_ops \<Rightarrow> bool \<Rightarrow> limit_plan \<times> 's \<Rightarrow> err + bool \<times> limit_plan \<times> 's" where
  "limit_next fuel C bTerminated ps =
     bindR (limit_skip fuel C bTerminated ps) (\<lambda>(enough, p, s).
       if \<not> enough then Inr (False, p, s)
       else bindR (o_next C bTerminated s) (\<lambda>(more, s').
         if \<not> more then Inr (False, p, s')
         else Inr (lm_current p < lm_limit p + lm_offset p, p\<lparr>lm_current := lm_current p + 1\<rparr>, s')))"

definition limit_getInfoString :: "limit_plan \<Rightarrow> string" where
  "limit_getInfoString p = ''SELECT '' @ nat_to_string (unat (lm_current p - lm_offset p))"

definition limit_explain :: "'s plan_ops \<Rightarrow> nat \<Rightarrow> limit_plan \<times> 's \<Rightarrow> err + string list \<times> limit_plan \<times> 's" where
  "limit_explain C depth = (\<lambda>(p, s).
     bindR (o_explain C (depth + 1) s) (\<lambda>(rows, s').
       Inr ((tabs depth @ ''Limit '' @ nat_to_string (unat (lm_limit p)) @ '', '' @
               nat_to_string (unat (lm_offset p))) # rows, p, s')))"

section \<open>ProjectionPlan\<close>

record proj_info =
  pj_subIndex :: int
  pj_name :: string
  pj_raw :: string
  pj_node :: pnode

record projection_plan =
  pp_proj :: "proj_info list"
  pp_map :: "(string \<times> nat) list"

definition newProjectionPlan :: projection_plan where
  "newProjectionPlan = \<lparr>pp_proj = [], pp_map = []\<rparr>"

definition project ::
  "'s plan_ops \<Rightarrow> pnode \<Rightarrow> string \<Rightarrow> projection_plan \<times> 's \<Rightarrow> err + bool \<times> projection_plan \<times> 's" where
  "project C pNode sName = (\<lambda>(p, s).
     (let push = (\<lambda>sub s. Inr (True, p\<lparr>pp_map := smap_put sName (length (pp_proj p)) (pp_map p),
            pp_proj := pp_proj p @ [\<lparr>pj_subIndex = sub, pj_name = sName, pj_raw = n_expr pNode, pj_node = pNode\<rparr>]\<rparr>, s)) in
      if pNode = NullNode then Inl (Stuck ''pNode->isConst()'')
      else if \<not> isConst pNode then
        bindR (o_addProjection C pNode s) (\<lambda>(i, s'). if i < 0 then Inr (False, p, s') else push i s')
      else if n_type pNode = NT_PARAM then Inr (False, p, s)
      else push (-1) s))"

text \<open>The loop of \<open>addGroupBy\<close>, over the \<open>GroupByPlan\<close> put below; it stops at the first failure.\<close>

fun regroup ::
  "'s plan_ops \<Rightarrow> proj_info list \<Rightarrow> 's \<Rightarrow> err + bool \<times> proj_info list \<times> 's" where
  "regroup C [] s = Inr (True, [], s)"
| "regroup C (proj # projs) s =
     bindR (o_addProjection C (pj_node proj) s) (\<lambda>(i, s').
       if i < 0 then Inr (False, proj\<lparr>pj_subIndex := i\<rparr> # projs, s')
       else mapR (\<lambda>(ok, projs', s''). (ok, proj\<lparr>pj_subIndex := i\<rparr> # projs', s'')) (regroup C projs s'))"

definition projection_getAllColumns :: "projection_plan \<Rightarrow> string list" where
  "projection_getAllColumns p = map pj_name (pp_proj p)"

definition projection_addProjection :: "projection_plan \<Rightarrow> pnode \<Rightarrow> int" where
  "projection_addProjection p pNode = (case map_of (pp_map p) (n_value pNode) of None \<Rightarrow> -1 | Some i \<Rightarrow> int i)"

definition projection_ensureSortOrder ::
  "'s plan_ops \<Rightarrow> nat \<Rightarrow> string \<Rightarrow> SortOrder \<Rightarrow> projection_plan \<times> 's \<Rightarrow> err + bool \<times> projection_plan \<times> 's" where
  "projection_ensureSortOrder C iSortIndex sColumn order = (\<lambda>(p, s).
     (case map_of (pp_map p) sColumn of
        None \<Rightarrow> Inr (False, p, s)
      | Some i \<Rightarrow> if i < length (pp_proj p)
          then mapR (\<lambda>(b, s'). (b, p, s')) (o_ensureSortOrder C iSortIndex (pj_raw (pp_proj p ! i)) order s)
          else Inl (Stuck ''m_proj[iIndex]'')))"

definition projection_getProjectionName :: "projection_plan \<Rightarrow> nat \<Rightarrow> string res" where
  "projection_getProjectionName p index =
     (if index < length (pp_proj p) then Inr (pj_name (pp_proj p ! index)) else Inl (Stuck ''m_proj[index]''))"

definition proj_type :: "frame \<Rightarrow> proj_info \<Rightarrow> DBDataType res" where
  "proj_type fr proj =
     (if pj_subIndex proj < 0 then Inr (getConstResultType (pj_node proj))
      else bindR (snd fr (nat (pj_subIndex proj))) (\<lambda>type.
        if type = DT_UNKNOWN then Inl (Stuck ''type != DBDataType::UNKNOWN'') else Inr type))"

definition projection_getResultType :: "'s plan_ops \<Rightarrow> projection_plan \<times> 's \<Rightarrow> nat \<Rightarrow> DBDataType res" where
  "projection_getResultType C = (\<lambda>(p, s) index.
     if index < length (pp_proj p) then proj_type (frame_of C s) (pp_proj p ! index)
     else Inl (Stuck ''m_proj[index]''))"

definition proj_value :: "lib \<Rightarrow> frame \<Rightarrow> proj_info \<Rightarrow> DBDataType \<Rightarrow> eresult res" where
  "proj_value L fr proj type =
     (if pj_subIndex proj < 0 then with_handler type (\<lambda>h. h_fromNode L h (pj_node proj) R_Null)
      else fst fr (nat (pj_subIndex proj)) type)"

definition projection_getResult :: "lib \<Rightarrow> 's plan_ops \<Rightarrow> projection_plan \<times> 's \<Rightarrow> row" where
  "projection_getResult L C = (\<lambda>(p, s) index type.
     if index < length (pp_proj p) then proj_value L (frame_of C s) (pp_proj p ! index) type
     else Inl (Stuck ''m_proj[index]''))"

definition projection_explain ::
  "'s plan_ops \<Rightarrow> nat \<Rightarrow> projection_plan \<times> 's \<Rightarrow> err + string list \<times> projection_plan \<times> 's" where
  "projection_explain C depth = (\<lambda>(p, s).
     bindR (o_explain C (depth + 1) s) (\<lambda>(rows, s').
       Inr ((tabs depth @ ''Projection '' @ concat (map (\<lambda>proj. pj_name proj @ '', '') (pp_proj p))) # rows, p, s')))"

section \<open>ExplainPlan\<close>

record explain_plan =
  xp_rows :: "string list"
  xp_currentRow :: nat

definition newExplainPlan :: explain_plan where
  "newExplainPlan = \<lparr>xp_rows = [], xp_currentRow = 0\<rparr>"

definition explain_begin :: "'s plan_ops \<Rightarrow> explain_plan \<times> 's \<Rightarrow> (explain_plan \<times> 's) res" where
  "explain_begin C = (\<lambda>(p, s). mapR (\<lambda>(rows, s'). (\<lparr>xp_rows = rows, xp_currentRow = 0\<rparr>, s')) (o_explain C 0 s))"

definition explain_next :: "explain_plan \<times> 's \<Rightarrow> err + bool \<times> explain_plan \<times> 's" where
  "explain_next = (\<lambda>(p, s).
     Inr (xp_currentRow p + 1 \<le> length (xp_rows p), p\<lparr>xp_currentRow := xp_currentRow p + 1\<rparr>, s))"

definition explain_getResult :: "explain_plan \<Rightarrow> row" where
  "explain_getResult p index type =
     (if 0 < xp_currentRow p \<and> xp_currentRow p \<le> length (xp_rows p)
      then Inr (R_StringView (xp_rows p ! (xp_currentRow p - 1)))
      else Inl (Stuck ''m_rows[m_iCurrentRow - 1]''))"

definition explain_getInfoString :: "explain_plan \<Rightarrow> string" where
  "explain_getInfoString p = ''EXPLAIN '' @ nat_to_string (length (xp_rows p))"


section \<open>Virtual functions\<close>

text \<open>\<open>SingleChildPlan\<close>: every function goes to the plan below.\<close>

definition single_ops :: "'s plan_ops \<Rightarrow> ('p \<times> 's) plan_ops" where
  "single_ops C = \<lparr>
     o_explain = (\<lambda>depth (p, s). mapR (\<lambda>(rows, s'). (rows, p, s')) (o_explain C (depth + 1) s)),
     o_begin = (\<lambda>bTerminated (p, s). mapR (Pair p) (o_begin C bTerminated s)),
     o_next = (\<lambda>bTerminated (p, s). mapR (\<lambda>(more, s'). (more, p, s')) (o_next C bTerminated s)),
     o_end = (\<lambda>(p, s). mapR (Pair p) (o_end C s)),
     o_getResultColumns = (\<lambda>(p, s). o_getResultColumns C s),
     o_getProjectionName = (\<lambda>(p, s). o_getProjectionName C s),
     o_getResultType = (\<lambda>(p, s). o_getResultType C s),
     o_addProjection = (\<lambda>pColumn (p, s). mapR (\<lambda>(i, s'). (i, p, s')) (o_addProjection C pColumn s)),
     o_getAllColumns = (\<lambda>(p, s). o_getAllColumns C s),
     o_ensureSortOrder = (\<lambda>iSortIndex sColumn order (p, s).
       mapR (\<lambda>(b, s'). (b, p, s')) (o_ensureSortOrder C iSortIndex sColumn order s)),
     o_getInfoString = (\<lambda>(p, s). o_getInfoString C s),
     o_getResult = (\<lambda>(p, s). o_getResult C s)\<rparr>"

definition filter_ops :: "nat \<Rightarrow> lib \<Rightarrow> 's plan_ops \<Rightarrow> (filter_plan \<times> 's) plan_ops" where
  "filter_ops fuel L C = (single_ops C)\<lparr>
     o_explain := filter_explain C,
     o_begin := filter_begin C,
     o_next := filter_next fuel L C,
     o_getInfoString := (\<lambda>(f, s). Inr (filter_getInfoString f))\<rparr>"

definition limit_ops :: "nat \<Rightarrow> 's plan_ops \<Rightarrow> (limit_plan \<times> 's) plan_ops" where
  "limit_ops fuel C = (single_ops C)\<lparr>
     o_explain := limit_explain C,
     o_begin := limit_begin C,
     o_next := limit_next fuel C,
     o_getInfoString := (\<lambda>(p, s). Inr (limit_getInfoString p))\<rparr>"

definition projection_ops :: "lib \<Rightarrow> 's plan_ops \<Rightarrow> (projection_plan \<times> 's) plan_ops" where
  "projection_ops L C = (single_ops C)\<lparr>
     o_explain := projection_explain C,
     o_getResultColumns := (\<lambda>(p, s). Inr (length (pp_proj p))),
     o_getProjectionName := (\<lambda>(p, s). projection_getProjectionName p),
     o_getResultType := projection_getResultType C,
     o_addProjection := (\<lambda>pNode (p, s). Inr (projection_addProjection p pNode, p, s)),
     o_getAllColumns := (\<lambda>(p, s). Inr (projection_getAllColumns p)),
     o_ensureSortOrder := projection_ensureSortOrder C,
     o_getResult := projection_getResult L C\<rparr>"

definition explain_ops :: "'s plan_ops \<Rightarrow> (explain_plan \<times> 's) plan_ops" where
  "explain_ops C = (single_ops C)\<lparr>
     o_explain := (\<lambda>depth ps. Inr ([], ps)),
     o_begin := (\<lambda>bTerminated. explain_begin C),
     o_next := (\<lambda>bTerminated. explain_next),
     o_end := (\<lambda>ps. Inr ps),
     o_getResultColumns := (\<lambda>ps. Inr 1),
     o_getProjectionName := (\<lambda>ps index. Inr ''explain''),
     o_getResultType := (\<lambda>ps index. Inr DT_STRING),
     o_getAllColumns := (\<lambda>ps. Inr [''explain'']),
     o_getInfoString := (\<lambda>(p, s). Inr (explain_getInfoString p)),
     o_getResult := (\<lambda>(p, s). explain_getResult p)\<rparr>"

lemma frame_of_single:
  "frame_of (filter_ops fuel L C) (f, s) = frame_of C s"
  "frame_of (limit_ops fuel C) (p, s) = frame_of C s"
  by (simp_all add: frame_of_def filter_ops_def limit_ops_def single_ops_def)

text \<open>The projected row: each column is a constant or a column of the row below.\<close>

definition project_frame :: "lib \<Rightarrow> proj_info list \<Rightarrow> frame \<Rightarrow> frame" where
  "project_frame L projs fr =
     (\<lambda>index type. if index < length projs then proj_value L fr (projs ! index) type else Inl (Stuck ''m_proj[index]''),
      \<lambda>index. if index < length projs then proj_type fr (projs ! index) else Inl (Stuck ''m_proj[index]''))"

lemma frame_of_projection:
  "frame_of (projection_ops L C) (p, s) = project_frame L (pp_proj p) (frame_of C s)"
  by (simp add: frame_of_def project_frame_def projection_ops_def single_ops_def projection_getResult_def
      projection_getResultType_def cong: if_cong)

lemma projection_delivers:
  assumes "delivers_to (o_next C t) (frame_of C) s rs Q"
  shows "delivers_to (o_next (projection_ops L C) t) (frame_of (projection_ops L C)) (p, s)
    (map (project_frame L (pp_proj p)) rs) (\<lambda>(p', s'). p' = p \<and> Q s')"
  using assms
proof (induction rs arbitrary: s)
  case Nil
  then show ?case by (auto simp: projection_ops_def single_ops_def)
next
  case (Cons r rs)
  then obtain s' where s': "o_next C t s = Inr (True, s')" "frame_of C s' = r" "delivers_to (o_next C t) (frame_of C) s' rs Q"
    by auto
  from Cons.IH [OF s'(3)] s'(1,2) show ?case
    by (auto simp: frame_of_projection) (auto simp: projection_ops_def single_ops_def)
qed

section \<open>Filtering\<close>

definition accepts :: "lib \<Rightarrow> predicate_info list list \<Rightarrow> frame \<Rightarrow> bool" where
  "accepts L pOr fr = (match_or L fr pOr = Inr True)"

text \<open>The predicate can be evaluated on every row.\<close>

definition decides :: "lib \<Rightarrow> predicate_info list list \<Rightarrow> frame list \<Rightarrow> bool" where
  "decides L pOr rs = list_all (\<lambda>fr. match_or L fr pOr \<in> {Inr True, Inr False}) rs"

lemma match_and_true: "match_and L fr infos = Inr True \<longleftrightarrow> list_all (\<lambda>i. filter_evaluate L fr i = Inr True) infos"
  by (induction infos) (auto simp: bindR_eq_Inr split: if_splits)

lemma match_or_evaluable:
  assumes "\<forall>pAnd\<in>set pOr. \<forall>i\<in>set pAnd. \<exists>b. filter_evaluate L fr i = Inr b"
  shows "match_or L fr pOr = Inr (list_ex (\<lambda>pAnd. list_all (\<lambda>i. filter_evaluate L fr i = Inr True) pAnd) pOr)"
  using assms
proof (induction pOr)
  case (Cons pAnd pOr)
  have "match_and L fr infos = Inr (list_all (\<lambda>i. filter_evaluate L fr i = Inr True) infos)"
    if "\<forall>i\<in>set infos. \<exists>b. filter_evaluate L fr i = Inr b" for infos
    using that by (induction infos) auto
  then show ?case using Cons by simp
qed simp

lemma filter_delivers:
  assumes "delivers_to (o_next C t) (frame_of C) s rs Q" "decides L (fl_predicatesInOr f) rs" "length rs < fuel"
  shows "delivers_to (filter_next fuel L C t) (\<lambda>(f, s). frame_of C s) (f, s)
      (filter (accepts L (fl_predicatesInOr f)) rs)
      (\<lambda>(f', s'). Q s' \<and> f' = f\<lparr>fl_current := fl_current f + length (filter (accepts L (fl_predicatesInOr f)) rs)\<rparr>)"
proof -
  have step: "if filter (accepts L (fl_predicatesInOr f)) rs = []
      then \<exists>s'. filter_next fuel L C t (f, s) = Inr (False, f, s') \<and> Q s'
      else \<exists>r qs s'. filter (accepts L (fl_predicatesInOr f)) rs = r # filter (accepts L (fl_predicatesInOr f)) qs \<and>
        filter_next fuel L C t (f, s) = Inr (True, f\<lparr>fl_current := fl_current f + 1\<rparr>, s') \<and> frame_of C s' = r \<and>
        delivers_to (o_next C t) (frame_of C) s' qs Q \<and> length qs < length rs \<and> set qs \<subseteq> set rs"
    if "delivers_to (o_next C t) (frame_of C) s rs Q" "decides L (fl_predicatesInOr f) rs" "length rs < fuel" for f s rs fuel
    using that
  proof (induction rs arbitrary: s fuel)
    case Nil
    then show ?case by (cases fuel) auto
  next
    case (Cons r rs)
    then obtain n s' where n: "fuel = Suc n" and s': "o_next C t s = Inr (True, s')" "frame_of C s' = r"
      "delivers_to (o_next C t) (frame_of C) s' rs Q" by (cases fuel) auto
    show ?case
    proof (cases "accepts L (fl_predicatesInOr f) r")
      case True
      then have "filter_next fuel L C t (f, s) = Inr (True, f\<lparr>fl_current := fl_current f + 1\<rparr>, s')"
        using s' n by (simp add: accepts_def)
      then show ?thesis using True s' by auto
    next
      case False
      then have m: "match_or L r (fl_predicatesInOr f) = Inr False"
        using Cons.prems(2) by (auto simp: decides_def accepts_def)
      have *: "filter_next fuel L C t (f, s) = filter_next n L C t (f, s')" using m s' n by simp
      moreover have "decides L (fl_predicatesInOr f) rs" "length rs < n" using Cons.prems n by (simp_all add: decides_def)
      note ih = Cons.IH [OF s'(3) this]
      ultimately show ?thesis
      proof (cases "filter (accepts L (fl_predicatesInOr f)) rs = []")
        case True
        then show ?thesis using ih False * by simp
      next
        case rows: False
        with ih obtain r' qs t' where
          "filter (accepts L (fl_predicatesInOr f)) rs = r' # filter (accepts L (fl_predicatesInOr f)) qs"
          "filter_next n L C t (f, s') = Inr (True, f\<lparr>fl_current := fl_current f + 1\<rparr>, t')" "frame_of C t' = r'"
          "delivers_to (o_next C t) (frame_of C) t' qs Q" "length qs < length rs" "set qs \<subseteq> set rs" by auto
        then show ?thesis using False rows * by (simp, intro exI [of _ "fst r'"] exI [of _ "snd r'"] exI [of _ qs]) auto
      qed
    qed
  qed
  from assms show ?thesis
  proof (induction "length rs" arbitrary: rs f s rule: less_induct)
    case less
    note st = step [OF less.prems]
    show ?case
    proof (cases "filter (accepts L (fl_predicatesInOr f)) rs = []")
      case True
      then show ?thesis using st by auto
    next
      case False
      with st obtain r qs s' where q: "filter (accepts L (fl_predicatesInOr f)) rs = r # filter (accepts L (fl_predicatesInOr f)) qs"
        "filter_next fuel L C t (f, s) = Inr (True, f\<lparr>fl_current := fl_current f + 1\<rparr>, s')" "frame_of C s' = r"
        "delivers_to (o_next C t) (frame_of C) s' qs Q" "length qs < length rs" "set qs \<subseteq> set rs" by auto
      let ?f = "f\<lparr>fl_current := fl_current f + 1\<rparr>"
      have "decides L (fl_predicatesInOr ?f) qs" using less.prems(2) q(6) by (auto simp: decides_def list_all_iff)
      from less.hyps [OF q(5,4) this] less.prems(3) q show ?thesis by (simp add: ac_simps)
    qed
  qed
qed

section \<open>Limiting\<close>

lemma unat_of_nat64: "n < 2 ^ 64 \<Longrightarrow> unat (of_nat n :: 64 word) = n"
  by (simp add: unat_of_nat)

lemma of_nat_less_word: "k < unat w \<Longrightarrow> (of_nat k :: 64 word) < w"
  by (metis le_unat_uoi less_or_eq_imp_le word_less_nat_alt)

lemma limit_skip_delivers:
  assumes "delivers_to (o_next C t) cur s rs Q" "lm_current p = of_nat k" "k + d = unat (lm_offset p)" "d < fuel"
  shows "\<exists>s'. if d \<le> length rs
      then limit_skip fuel C t (p, s) = Inr (True, p\<lparr>lm_current := lm_offset p\<rparr>, s') \<and>
        delivers_to (o_next C t) cur s' (drop d rs) Q
      else limit_skip fuel C t (p, s) = Inr (False, p\<lparr>lm_current := of_nat (k + length rs)\<rparr>, s') \<and> Q s'"
  using assms
proof (induction d arbitrary: s p rs k fuel)
  case 0
  then obtain n where n: "fuel = Suc n" by (cases fuel) auto
  from 0 have "lm_current p = lm_offset p" by simp
  then show ?case using 0 n by auto
next
  case (Suc d)
  then obtain n where n: "fuel = Suc n" "d < n" by (cases fuel) auto
  have lt: "lm_current p < lm_offset p" using Suc.prems(2,3) of_nat_less_word [of k "lm_offset p"] by simp
  show ?case
  proof (cases rs)
    case Nil
    with Suc.prems(1) obtain s' where "o_next C t s = Inr (False, s')" "Q s'" by auto
    moreover have "p\<lparr>lm_current := of_nat k\<rparr> = p" using Suc.prems(2) by simp
    ultimately show ?thesis using lt n Nil by simp
  next
    case (Cons r rs')
    with Suc.prems(1) obtain s' where s': "o_next C t s = Inr (True, s')" "delivers_to (o_next C t) cur s' rs' Q" by auto
    let ?p = "p\<lparr>lm_current := lm_current p + 1\<rparr>"
    have "lm_current ?p = of_nat (Suc k)" "Suc k + d = unat (lm_offset ?p)" using Suc.prems(2,3) by simp_all
    from Suc.IH [OF s'(2) this n(2)] obtain t' where "if d \<le> length rs'
        then limit_skip n C t (?p, s') = Inr (True, ?p\<lparr>lm_current := lm_offset ?p\<rparr>, t') \<and>
          delivers_to (o_next C t) cur t' (drop d rs') Q
        else limit_skip n C t (?p, s') = Inr (False, ?p\<lparr>lm_current := of_nat (Suc k + length rs')\<rparr>, t') \<and> Q t'" ..
    moreover have "limit_skip fuel C t (p, s) = limit_skip n C t (?p, s')" using s' lt n by simp
    ultimately show ?thesis using Cons by (intro exI [of _ t']) (simp split: if_splits)
  qed
qed

text \<open>Past the offset the plan counts on, also for the row after the last it delivers.\<close>

lemma limit_take_delivers:
  assumes "delivers_to (o_next C t) cur s rs Q" "lm_current p = of_nat (unat (lm_offset p) + k)" "0 < fuel"
    and "unat (lm_offset p) + length rs + k < 2 ^ 64" "k \<le> unat (lm_limit p)"
    and "unat (lm_limit p) + unat (lm_offset p) < 2 ^ 64"
  shows "delivers_to (limit_next fuel C t) (\<lambda>(p, s). cur s) (p, s) (take (unat (lm_limit p) - k) rs)
    (\<lambda>(p', s'). p' = p\<lparr>lm_current := of_nat (unat (lm_offset p) + min (k + length rs) (unat (lm_limit p) + 1))\<rparr>)"
  using assms
proof (induction rs arbitrary: s p k)
  case Nil
  from Nil.prems(3) obtain n where n: "fuel = Suc n" by (cases fuel) auto
  have "unat (lm_current p) = unat (lm_offset p) + k"
    unfolding Nil.prems(2) by (rule unat_of_nat64) (use Nil.prems(4) in simp)
  then have ge: "\<not> lm_current p < lm_offset p" by (simp add: word_less_nat_alt)
  from Nil.prems(1) obtain s' where "o_next C t s = Inr (False, s')" by auto
  moreover have "p\<lparr>lm_current := of_nat (unat (lm_offset p) + k)\<rparr> = p" using Nil.prems(2) by simp
  ultimately show ?case using Nil.prems n ge by (simp add: limit_next_def min_def)
next
  case (Cons r rs)
  from Cons.prems(3) obtain n where n: "fuel = Suc n" by (cases fuel) auto
  have u: "unat (lm_current p) = unat (lm_offset p) + k"
    unfolding Cons.prems(2) by (rule unat_of_nat64) (use Cons.prems(4) in simp)
  have ge: "\<not> lm_current p < lm_offset p" using u by (simp add: word_less_nat_alt)
  have sum: "unat (lm_limit p + lm_offset p) = unat (lm_limit p) + unat (lm_offset p)"
    using Cons.prems(6) unat_add_lem [of "lm_limit p" "lm_offset p"] by simp
  from Cons.prems(1) obtain s' where s': "o_next C t s = Inr (True, s')" "cur s' = r" "delivers_to (o_next C t) cur s' rs Q" by auto
  let ?p = "p\<lparr>lm_current := lm_current p + 1\<rparr>"
  have nx: "limit_next fuel C t (p, s) = Inr (lm_current p < lm_limit p + lm_offset p, ?p, s')"
    using n ge s' by (simp add: limit_next_def)
  have lt: "lm_current p < lm_limit p + lm_offset p \<longleftrightarrow> k < unat (lm_limit p)"
    by (simp add: word_less_nat_alt u sum)
  show ?case
  proof (cases "k < unat (lm_limit p)")
    case False
    then have "k = unat (lm_limit p)" using Cons.prems(5) by simp
    then show ?thesis using nx lt Cons.prems(2) by (simp add: ac_simps)
  next
    case True
    have "lm_current ?p = of_nat (unat (lm_offset ?p) + Suc k)" using Cons.prems(2) by (simp add: ac_simps)
    note ih = Cons.IH [OF s'(3) this Cons.prems(3)]
    have m: "unat (lm_limit p) - k = Suc (unat (lm_limit p) - Suc k)" using True by simp
    have e: "k + length (r # rs) = Suc k + length rs" by simp
    have lo: "lm_offset ?p = lm_offset p" "lm_limit ?p = lm_limit p" "?p\<lparr>lm_current := c\<rparr> = p\<lparr>lm_current := c\<rparr>" for c
      by simp_all
    have "delivers_to (limit_next fuel C t) (\<lambda>(p, s). cur s) (?p, s') (take (unat (lm_limit p) - Suc k) rs)
        (\<lambda>(p', s'). p' = p\<lparr>lm_current := of_nat (unat (lm_offset p) + min (k + length (r # rs)) (unat (lm_limit p) + 1))\<rparr>)"
      unfolding e by (rule ih [unfolded lo]) (use True Cons.prems in simp_all)
    then show ?thesis unfolding m take_Suc_Cons delivers_to.simps using nx lt True s'(2) by auto
  qed
qed

lemma limit_delivers:
  assumes "delivers_to (o_next C t) cur s rs Q" "lm_current p = 0" "unat (lm_offset p) < fuel"
    and "unat (lm_limit p) + unat (lm_offset p) < 2 ^ 64" "length rs < 2 ^ 64"
  shows "delivers_to (limit_next fuel C t) (\<lambda>(p, s). cur s) (p, s) (take (unat (lm_limit p)) (drop (unat (lm_offset p)) rs))
    (\<lambda>(p', s'). p' = p\<lparr>lm_current := of_nat (min (length rs) (unat (lm_offset p) + unat (lm_limit p) + 1))\<rparr>)"
proof -
  let ?o = "unat (lm_offset p)"
  have "lm_current p = of_nat 0" using assms(2) by simp
  from limit_skip_delivers [OF assms(1) this, of ?o fuel] assms(3) obtain s' where s': "if ?o \<le> length rs
      then limit_skip fuel C t (p, s) = Inr (True, p\<lparr>lm_current := lm_offset p\<rparr>, s') \<and>
        delivers_to (o_next C t) cur s' (drop ?o rs) Q
      else limit_skip fuel C t (p, s) = Inr (False, p\<lparr>lm_current := of_nat (0 + length rs)\<rparr>, s') \<and> Q s'" by auto
  show ?thesis
  proof (cases "?o \<le> length rs")
    case False
    then show ?thesis using s' by (simp add: limit_next_def)
  next
    case True
    let ?p = "p\<lparr>lm_current := lm_offset p\<rparr>"
    have skipped: "limit_skip fuel C t (p, s) = limit_skip fuel C t (?p, s')"
      using True s' assms(3) by (cases fuel) simp_all
    have eq: "limit_next fuel C t (p, s) = limit_next fuel C t (?p, s')" by (simp only: limit_next_def skipped)
    have "delivers_to (limit_next fuel C t) (\<lambda>(p, s). cur s) (?p, s') (take (unat (lm_limit ?p) - 0) (drop ?o rs))
        (\<lambda>(p', s''). p' = ?p\<lparr>lm_current := of_nat (unat (lm_offset ?p) + min (0 + length (drop ?o rs)) (unat (lm_limit ?p) + 1))\<rparr>)"
      by (rule limit_take_delivers [of _ _ _ _ _ Q]) (use True s' assms in simp_all)
    moreover have lo: "lm_offset ?p = lm_offset p" "lm_limit ?p = lm_limit p" "?p\<lparr>lm_current := c\<rparr> = p\<lparr>lm_current := c\<rparr>" for c
      by simp_all
    have "?o + min (0 + length (drop ?o rs)) (unat (lm_limit p) + 1) =
        min (length rs) (?o + unat (lm_limit p) + 1)" using True by simp
    ultimately show ?thesis by (simp only: lo delivers_to_start [of "limit_next fuel C t", OF eq] diff_zero)
  qed
qed


section \<open>The predicate of a filter\<close>

text \<open>What a comparison becomes when the columns have fixed indices and types.\<close>

definition pure_const :: "lib \<Rightarrow> (nat \<Rightarrow> DBDataType res) \<Rightarrow> string \<Rightarrow> pnode \<Rightarrow> int \<Rightarrow> int \<Rightarrow> eresult res" where
  "pure_const L ty expr node index other =
     (if index \<ge> 0 then Inr R_Null
      else if isConst node then bindR (ty (nat other)) (\<lambda>type. with_handler type (\<lambda>h. h_fromNode L h node R_Null))
      else Inl (ParseException (''Unsupported predicate '' @ expr)))"

definition comparison_info ::
  "lib \<Rightarrow> (pnode \<Rightarrow> int res) \<Rightarrow> (nat \<Rightarrow> DBDataType res) \<Rightarrow> pnode \<Rightarrow> predicate_info res" where
  "comparison_info L col ty p =
     bindR (getChild p 0) (\<lambda>pLeft. bindR (getChild p 1) (\<lambda>pRight.
     if pLeft = NullNode \<or> pRight = NullNode then Inl (Stuck ''pLeft->m_type'')
     else bindR (col pLeft) (\<lambda>l. bindR (col pRight) (\<lambda>r.
       if l < 0 \<and> r < 0 then Inl (ParseException (''Unrecognized predicate '' @ n_expr p))
       else bindR (pure_const L ty (n_expr p) pLeft l r) (\<lambda>lc. bindR (pure_const L ty (n_expr p) pRight r l) (\<lambda>rc.
       Inr \<lparr>pi_expr = n_expr p, pi_op = n_op p, pi_leftIndex = l, pi_rightIndex = r,
            pi_leftConst = lc, pi_rightConst = rc\<rparr>))))))"

text \<open>
  The truth of a predicate on a row: comparisons as \<open>filter_evaluate\<close> sees them, \<open>AND\<close> and \<open>OR\<close> as
  they read.
\<close>

fun predicate_true :: "lib \<Rightarrow> (pnode \<Rightarrow> int res) \<Rightarrow> (nat \<Rightarrow> DBDataType res) \<Rightarrow> frame \<Rightarrow> pnode \<Rightarrow> bool" where
  "predicate_true L col ty fr NullNode = True"
| "predicate_true L col ty fr (PNode a t op e v cs) =
     (if op = OP_AND then list_all (predicate_true L col ty fr) cs
      else if op = OP_OR then list_ex (predicate_true L col ty fr) cs
      else (case comparison_info L col ty (PNode a t op e v cs) of
          Inl err \<Rightarrow> False
        | Inr info \<Rightarrow> filter_evaluate L fr info = Inr True))"

text \<open>The conjunction of some comparisons is the conjunction of some predicates, on every row.\<close>

definition same_truth ::
  "lib \<Rightarrow> (pnode \<Rightarrow> int res) \<Rightarrow> (nat \<Rightarrow> DBDataType res) \<Rightarrow> predicate_info list \<Rightarrow> pnode list \<Rightarrow> bool" where
  "same_truth L col ty infos ps \<longleftrightarrow> (\<forall>fr. list_all (\<lambda>i. filter_evaluate L fr i = Inr True) infos \<longleftrightarrow>
     list_all (predicate_true L col ty fr) ps)"

lemma same_truth_append:
  "same_truth L col ty is1 ps1 \<Longrightarrow> same_truth L col ty is2 ps2 \<Longrightarrow> same_truth L col ty (is1 @ is2) (ps1 @ ps2)"
  by (simp add: same_truth_def)

lemma same_truth_or:
  "list_all2 (\<lambda>infos p. same_truth L col ty infos [p]) pOr ps \<Longrightarrow>
    list_ex (list_all (\<lambda>i. filter_evaluate L fr i = Inr True)) pOr \<longleftrightarrow> list_ex (predicate_true L col ty fr) ps"
  by (induction rule: list_all2_induct) (auto simp: same_truth_def simp del: split_paired_All)

context column_source
begin

lemma info_const_pure: "ok s \<Longrightarrow> info_const L C s expr node index other = pure_const L ty expr node index other"
  by (simp add: info_const_def pure_const_def getResultType_ty)

lemma addComparison_pure:
  assumes "ok s"
  shows "\<exists>s'. ok s' \<and> addComparison L C p (infos, s) = mapR (\<lambda>i. (infos @ [i], s')) (comparison_info L col ty p)"
proof -
  show ?thesis
  proof (cases "getChild p 0")
    case (Inl e)
    then show ?thesis using assms by (auto simp: addComparison_def comparison_info_def)
  next
    case l: (Inr pLeft)
    show ?thesis
    proof (cases "getChild p 1")
      case (Inl e)
      then show ?thesis using assms l by (auto simp: addComparison_def comparison_info_def)
    next
      case r: (Inr pRight)
      obtain s1 where s1: "ok s1" "o_addProjection C pLeft s = mapR (\<lambda>i. (i, s1)) (col pLeft)"
        using addProjection_col [OF assms] by blast
      obtain s2 where s2: "ok s2" "o_addProjection C pRight s1 = mapR (\<lambda>i. (i, s2)) (col pRight)"
        using addProjection_col [OF s1(1)] by blast
      show ?thesis
      proof (rule exI [of _ s2], rule conjI [OF s2(1)])
        show "addComparison L C p (infos, s) = mapR (\<lambda>i. (infos @ [i], s2)) (comparison_info L col ty p)"
          using l r s1(2) s2(2)
          by (cases "col pLeft"; cases "col pRight")
            (simp_all add: addComparison_def comparison_info_def info_const_pure [OF s2(1)] bindR_def mapR_def split: sum.splits)
      qed
    qed
  qed
qed

text \<open>The comparisons of an \<open>AND\<close> become a list whose conjunction is the truth of the node.\<close>

lemma doAddPredicate_pure:
  assumes "ok s" "doAddPredicate L C None p (infos, s) = Inr (infos', s')"
  shows "ok s' \<and> (\<exists>new. infos' = infos @ new \<and> same_truth L col ty new [p])"
  using assms
proof (induction p arbitrary: infos s infos' s')
  case NullNode
  then show ?case by simp
next
  case (PNode a t op e v cs)
  show ?case
  proof (cases "op = OP_AND")
    case True
    then have "foldR (\<lambda>st c. doAddPredicate L C None c st) (infos, s) cs = Inr (infos', s')"
      using PNode.prems by (simp split: if_splits)
    with PNode.IH PNode.prems(1) have "ok s' \<and> (\<exists>new. infos' = infos @ new \<and> same_truth L col ty new cs)"
    proof (induction cs arbitrary: infos s)
      case Nil
      then show ?case by (simp add: same_truth_def)
    next
      case (Cons c cs)
      from Cons.prems(3) obtain is1 s1 where 1: "doAddPredicate L C None c (infos, s) = Inr (is1, s1)"
        "foldR (\<lambda>st c. doAddPredicate L C None c st) (is1, s1) cs = Inr (infos', s')" by auto
      have "ok s1 \<and> (\<exists>new. is1 = infos @ new \<and> same_truth L col ty new [c])"
        by (rule Cons.prems(1) [OF _ Cons.prems(2) 1(1)]) simp
      then obtain new1 where n1: "ok s1" "is1 = infos @ new1" "same_truth L col ty new1 [c]" by blast
      have "ok s' \<and> (\<exists>new. infos' = is1 @ new \<and> same_truth L col ty new cs)"
        by (rule Cons.IH [OF _ n1(1) 1(2)], rule Cons.prems(1)) simp_all
      then obtain new2 where "ok s'" "infos' = is1 @ new2" "same_truth L col ty new2 cs" by blast
      then show ?case using n1 same_truth_append [OF n1(3)] by (intro conjI exI [of _ "new1 @ new2"]) fastforce+
    qed
    then show ?thesis using True by (simp add: same_truth_def)
  next
    case False
    then have "t = NT_OP" "op \<noteq> OP_OR" "addComparison L C (PNode a t op e v cs) (infos, s) = Inr (infos', s')"
      using PNode.prems by (auto split: if_splits)
    moreover obtain s1 where "ok s1" "addComparison L C (PNode a t op e v cs) (infos, s) =
        mapR (\<lambda>i. (infos @ [i], s1)) (comparison_info L col ty (PNode a t op e v cs))"
      using addComparison_pure [OF PNode.prems(1)] by blast
    ultimately show ?thesis using False
      by (cases "comparison_info L col ty (PNode a t op e v cs)") (auto simp: same_truth_def)
  qed
qed

lemma addPredicate_pure:
  assumes "ok s" "addPredicate L C p None (f, s) = Inr (b, f', s')"
  shows "ok s' \<and> (\<exists>new. f' = f\<lparr>fl_predicatesInOr := fl_predicatesInOr f @ [new]\<rparr> \<and> same_truth L col ty new [p])"
  using assms doAddPredicate_pure [OF assms(1), of L p "[]"] by (fastforce simp: addPredicate_def)

lemma setPredicate_pure:
  assumes "ok s" "filter_setPredicate L C p (f, s) = Inr (f', s')" "p \<noteq> NullNode"
  shows "ok s' \<and> list_all2 (\<lambda>infos q. same_truth L col ty infos [q]) (fl_predicatesInOr f')
    (if n_op p = OP_OR then n_children p else [p])"
proof (cases "n_op p = OP_OR")
  case False
  then obtain b where "addPredicate L C p None (f\<lparr>fl_predicatesInOr := []\<rparr>, s) = Inr (b, f', s')"
    using assms by (auto simp: filter_setPredicate_def)
  from addPredicate_pure [OF assms(1) this] False show ?thesis by auto
next
  case True
  let ?step = "\<lambda>st c. if n_op c = OP_OR then Inl (Stuck ''pChild->getOp() != Operation::OR'')
      else mapR snd (addPredicate L C c None st)"
  have "foldR ?step (f0, s) cs = Inr (f', s') \<Longrightarrow> ok s \<Longrightarrow>
      ok s' \<and> (\<exists>new. fl_predicatesInOr f' = fl_predicatesInOr f0 @ new \<and>
        list_all2 (\<lambda>infos q. same_truth L col ty infos [q]) new cs)" for f0 cs
  proof (induction cs arbitrary: f0 s)
    case (Cons c cs)
    from Cons.prems(1) obtain b f1 s1 where 1: "addPredicate L C c None (f0, s) = Inr (b, f1, s1)"
      "foldR ?step (f1, s1) cs = Inr (f', s')" by (auto split: if_splits)
    from addPredicate_pure [OF Cons.prems(2) 1(1)] obtain new where n1: "ok s1"
      "f1 = f0\<lparr>fl_predicatesInOr := fl_predicatesInOr f0 @ [new]\<rparr>" "same_truth L col ty new [c]" by blast
    from Cons.IH [OF 1(2) n1(1)] obtain news where "ok s'" "fl_predicatesInOr f' = fl_predicatesInOr f1 @ news"
      "list_all2 (\<lambda>infos q. same_truth L col ty infos [q]) news cs" by blast
    then show ?case using n1 by (intro conjI exI [of _ "new # news"]) simp_all
  qed simp
  from this [of "f\<lparr>fl_predicatesInOr := []\<rparr>" "n_children p"] assms True show ?thesis
    by (simp add: filter_setPredicate_def)
qed

text \<open>A row passes exactly when the predicate is true on it, if the comparisons can be evaluated.\<close>

lemma setPredicate_accepts:
  assumes "ok s" "filter_setPredicate L C p (f, s) = Inr (f', s')" "p \<noteq> NullNode"
    and "match_or L fr (fl_predicatesInOr f') \<in> {Inr True, Inr False}"
  shows "accepts L (fl_predicatesInOr f') fr \<longleftrightarrow> predicate_true L col ty fr p"
proof -
  have "list_ex (list_all (\<lambda>i. filter_evaluate L fr i = Inr True)) (fl_predicatesInOr f') \<longleftrightarrow>
      list_ex (predicate_true L col ty fr) (if n_op p = OP_OR then n_children p else [p])"
    using setPredicate_pure [OF assms(1-3)] same_truth_or by blast
  moreover have "list_ex (predicate_true L col ty fr) (if n_op p = OP_OR then n_children p else [p]) \<longleftrightarrow>
      predicate_true L col ty fr p" using assms(3) by (cases p) auto
  moreover have "accepts L pOr fr \<longleftrightarrow> list_ex (list_all (\<lambda>i. filter_evaluate L fr i = Inr True)) pOr"
    if "match_or L fr pOr \<in> {Inr True, Inr False}" for pOr
    using that
  proof (induction pOr)
    case (Cons pAnd pOr)
    then show ?case using match_and_true [of L fr pAnd]
      by (cases "match_and L fr pAnd") (auto simp: accepts_def split: if_splits)
  qed (simp add: accepts_def)
  ultimately show ?thesis using assms(4) by blast
qed

end

section \<open>Properties\<close>


text \<open>A \<open>VALUES\<close> list with the rows 1, 2 and 3, and the predicate \<open>c1 > 1\<close>.\<close>

definition ex_int :: "string \<Rightarrow> pnode" where
  "ex_int v = PNode 0 NT_INT OP_NONE v v []"

definition ex_values :: const_plan where
  "ex_values = \<lparr>cp_current = 0, cp_columns = [''c1''],
     cp_rows = map (\<lambda>v. PNode 0 NT_LIST OP_NONE v v [ex_int v]) [''1'', ''2'', ''3'']\<rparr>"

definition ex_c1_gt_1 :: pnode where
  "ex_c1_gt_1 = PNode 1 NT_OP COMP_GT ''c1>1'' [] [PNode 2 NT_NAME OP_NONE ''c1'' ''c1'' [], ex_int ''1'']"

definition ex_frames :: "frame list" where
  "ex_frames = map (\<lambda>r. (const_value ex_lib r, const_getResultType ex_values)) (cp_rows ex_values)"

lemma ex_values_delivers: "delivers (o_next (const_ops ex_lib) False) (frame_of (const_ops ex_lib)) ex_values ex_frames"
  by (simp add: ex_frames_def ex_values_def const_ops_def empty_ops_def frame_of_def const_next_def CheckCancellation_def
      const_getResult_def fun_eq_iff const_getResultType_def)

lemmas const_eval = ex_values_def ex_int_def const_value_def getChild_def with_handler_def getHandler_def h_fromNode_def
  int_fromNode_def stringToInt_def checkInt_def int_min_def int_max_def int64_range_def ex_lib_def ccode_def
  const_getResultType_def getConstResultType_def

lemma ex_values_row:
  "r \<in> set ex_frames \<Longrightarrow> snd r 0 = Inr DT_INT64"
  "map (\<lambda>fr. fst fr 0 DT_INT64) ex_frames = [Inr (R_Int 1), Inr (R_Int 2), Inr (R_Int 3)]"
  by (auto simp: ex_frames_def const_eval)


text \<open>
  C15.  \<open>LIMIT n OFFSET m\<close> delivers the rows of the plan below after the first \<open>m\<close>, and of them
  the first \<open>n\<close>.
\<close>

theorem limit_takes_rows:
  assumes "o_begin C t s0 = Inr s" "delivers (o_next C t) (frame_of C) s rs" "unat (lm_offset p) < fuel"
    and "unat (lm_limit p) + unat (lm_offset p) < 2 ^ 64" "length rs < 2 ^ 64"
  shows "\<exists>p'. o_begin (limit_ops fuel C) t (p, s0) = Inr (p', s) \<and>
    delivers (o_next (limit_ops fuel C) t) (frame_of (limit_ops fuel C)) (p', s)
      (take (unat (lm_limit p)) (drop (unat (lm_offset p)) rs))"
proof -
  have fr: "frame_of (limit_ops fuel C) = (\<lambda>(p, s). frame_of C s)" by (auto simp: fun_eq_iff frame_of_single)
  let ?p = "p\<lparr>lm_current := 0\<rparr>"
  have "delivers_to (limit_next fuel C t) (\<lambda>(p, s). frame_of C s) (?p, s)
      (take (unat (lm_limit ?p)) (drop (unat (lm_offset ?p)) rs))
      (\<lambda>(p', s'). p' = ?p\<lparr>lm_current := of_nat (min (length rs) (unat (lm_offset ?p) + unat (lm_limit ?p) + 1))\<rparr>)"
    by (rule limit_delivers [OF assms(2)]) (use assms in simp_all)
  then have "delivers (o_next (limit_ops fuel C) t) (frame_of (limit_ops fuel C)) (?p, s)
      (take (unat (lm_limit p)) (drop (unat (lm_offset p)) rs))"
    unfolding fr by (simp add: limit_ops_def) (erule delivers_to_mono, simp)
  then show ?thesis using assms(1) by (auto simp: limit_ops_def single_ops_def limit_begin_def)
qed

definition ex_limit :: limit_plan where
  "ex_limit = setLimit 1 1 newLimitPlan"

theorem limit_takes_rows_witness:
  "\<exists>p'. o_begin (limit_ops 5 (const_ops ex_lib)) False (ex_limit, ex_values) = Inr (p', ex_values) \<and>
     delivers (o_next (limit_ops 5 (const_ops ex_lib)) False) (frame_of (limit_ops 5 (const_ops ex_lib))) (p', ex_values)
       [ex_frames ! 1]"
proof -
  have "take (unat (lm_limit ex_limit)) (drop (unat (lm_offset ex_limit)) ex_frames) = [ex_frames ! 1]"
    by (simp add: ex_limit_def setLimit_def ex_frames_def ex_values_def)
  moreover have "\<exists>p'. o_begin (limit_ops 5 (const_ops ex_lib)) False (ex_limit, ex_values) = Inr (p', ex_values) \<and>
     delivers (o_next (limit_ops 5 (const_ops ex_lib)) False) (frame_of (limit_ops 5 (const_ops ex_lib))) (p', ex_values)
       (take (unat (lm_limit ex_limit)) (drop (unat (lm_offset ex_limit)) ex_frames))"
    by (rule limit_takes_rows [OF _ ex_values_delivers])
      (simp_all add: const_ops_def empty_ops_def const_begin_def ex_values_def ex_limit_def setLimit_def ex_frames_def)
  ultimately show ?thesis by simp
qed

text \<open>
  C38.  When the plan below has more rows than \<open>LIMIT\<close> and \<open>OFFSET\<close> take, the information string of
  the statement reports one row more than were delivered.
\<close>

theorem limit_info_overcounts:
  assumes "o_begin C t s0 = Inr s" "delivers (o_next C t) (frame_of C) s rs" "unat (lm_offset p) < fuel"
    and "unat (lm_offset p) + unat (lm_limit p) < length rs" "length rs < 2 ^ 64" "unat (lm_limit p) < n"
  shows "\<exists>p' out p'' s''. o_begin (limit_ops fuel C) t (p, s0) = Inr (p', s) \<and>
    drain n (o_next (limit_ops fuel C) t) (frame_of (limit_ops fuel C)) (p', s) = Inr (out, p'', s'') \<and>
    length out = unat (lm_limit p) \<and>
    o_getInfoString (limit_ops fuel C) (p'', s'') = Inr (''SELECT '' @ nat_to_string (length out + 1))"
proof -
  let ?p = "p\<lparr>lm_current := 0\<rparr>" and ?out = "take (unat (lm_limit p)) (drop (unat (lm_offset p)) rs)"
  have fr: "frame_of (limit_ops fuel C) = (\<lambda>(p, s). frame_of C s)" by (auto simp: fun_eq_iff frame_of_single)
  have len: "length ?out = unat (lm_limit p)" using assms(4) by simp
  have "delivers_to (limit_next fuel C t) (\<lambda>(p, s). frame_of C s) (?p, s)
      (take (unat (lm_limit ?p)) (drop (unat (lm_offset ?p)) rs))
      (\<lambda>(p', s'). p' = ?p\<lparr>lm_current := of_nat (min (length rs) (unat (lm_offset ?p) + unat (lm_limit ?p) + 1))\<rparr>)"
    by (rule limit_delivers [OF assms(2)]) (use assms in simp_all)
  from delivers_drain [OF this, of n] assms(6) len obtain p'' s'' where
    dr: "drain n (limit_next fuel C t) (\<lambda>(p, s). frame_of C s) (?p, s) = Inr (?out, p'', s'')"
    and p'': "p'' = p\<lparr>lm_current := of_nat (min (length rs) (unat (lm_offset p) + unat (lm_limit p) + 1))\<rparr>" by auto
  have "min (length rs) (unat (lm_offset p) + unat (lm_limit p) + 1) = unat (lm_offset p) + (unat (lm_limit p) + 1)"
    using assms(4) by simp
  then have "lm_current p'' - lm_offset p'' = of_nat (unat (lm_limit p) + 1)" by (simp add: p'')
  moreover have "unat (of_nat (unat (lm_limit p) + 1) :: 64 word) = unat (lm_limit p) + 1"
    by (rule unat_of_nat64) (use assms(4,5) in simp)
  ultimately have "limit_getInfoString p'' = ''SELECT '' @ nat_to_string (length ?out + 1)"
    unfolding limit_getInfoString_def len by simp
  moreover have "o_next (limit_ops fuel C) t = limit_next fuel C t" by (simp add: limit_ops_def)
  ultimately show ?thesis using assms(1) dr len unfolding fr
    by (intro exI [of _ ?p] exI [of _ ?out] exI [of _ p''] exI [of _ s''])
      (simp add: limit_ops_def single_ops_def limit_begin_def)
qed

theorem limit_info_overcounts_witness:
  "\<exists>p' out p'' s''. o_begin (limit_ops 5 (const_ops ex_lib)) False (ex_limit, ex_values) = Inr (p', ex_values) \<and>
    drain 5 (o_next (limit_ops 5 (const_ops ex_lib)) False) (frame_of (limit_ops 5 (const_ops ex_lib))) (p', ex_values) =
      Inr (out, p'', s'') \<and> length out = 1 \<and>
    o_getInfoString (limit_ops 5 (const_ops ex_lib)) (p'', s'') = Inr (''SELECT '' @ nat_to_string (length out + 1))"
proof -
  have l: "unat (lm_limit ex_limit) = 1" by (simp add: ex_limit_def setLimit_def)
  have "\<exists>p' out p'' s''. o_begin (limit_ops 5 (const_ops ex_lib)) False (ex_limit, ex_values) = Inr (p', ex_values) \<and>
    drain 5 (o_next (limit_ops 5 (const_ops ex_lib)) False) (frame_of (limit_ops 5 (const_ops ex_lib))) (p', ex_values) =
      Inr (out, p'', s'') \<and> length out = unat (lm_limit ex_limit) \<and>
    o_getInfoString (limit_ops 5 (const_ops ex_lib)) (p'', s'') = Inr (''SELECT '' @ nat_to_string (length out + 1))"
    by (rule limit_info_overcounts [OF _ ex_values_delivers])
      (simp_all add: const_ops_def empty_ops_def const_begin_def ex_values_def ex_limit_def setLimit_def ex_frames_def)
  then show ?thesis unfolding l .
qed

end
