(* ===== verification/GroupPlans.thy ===== *)
theory GroupPlans
  imports RowPlans
begin

text \<open>
  \<^verbatim>\<open>src/execution/GroupByPlan\<close>, which folds each run of rows with equal group columns into one
  row, and \<^verbatim>\<open>UnionAllPlan\<close>, which appends the rows of several plans.
\<close>

section \<open>GroupByPlan\<close>

datatype FuncType = FN_FIRST | FN_SUM | FN_AVG | FN_COUNT | FN_MAX | FN_MIN

record aggr_func =
  af_func :: FuncType
  af_name :: string
  af_index :: nat
  af_count :: nat
  af_value :: eresult

record groupby_plan =
  gb_proj :: "aggr_func list"
  gb_groupby :: "nat list"
  gb_rows :: nat
  gb_hasMore :: bool
  gb_last :: "eresult list"
  gb_type :: "DBDataType list"

definition newGroupByPlan :: groupby_plan where
  "newGroupByPlan = \<lparr>gb_proj = [], gb_groupby = [], gb_rows = 0, gb_hasMore = False, gb_last = [], gb_type = []\<rparr>"

text \<open>\<open>m_typeMap\<close>, filled by the constructor.\<close>

definition gb_typeMap :: "(string \<times> FuncType) list" where
  "gb_typeMap = [(''avg'', FN_AVG), (''count'', FN_COUNT), (''max'', FN_MAX), (''min'', FN_MIN), (''sum'', FN_SUM)]"

definition groupby_explain :: "'s plan_ops \<Rightarrow> nat \<Rightarrow> groupby_plan \<times> 's \<Rightarrow> err + string list \<times> groupby_plan \<times> 's" where
  "groupby_explain C depth = (\<lambda>(g, s).
     bindR (traverseR (o_getProjectionName C s) (gb_groupby g)) (\<lambda>groupColumns.
     bindR (o_explain C (depth + 1) s) (\<lambda>(rows, s').
       Inr ((tabs depth @ ''GroupBy('' @ str_join '','' groupColumns @ '') Project('' @
              str_join '','' (map af_name (gb_proj g)) @ '')'') # rows, g, s'))))"

definition groupby_getInfoString :: "groupby_plan \<Rightarrow> string" where
  "groupby_getInfoString g = ''SELECT '' @ nat_to_string (gb_rows g)"

definition groupby_getResultType :: "'s plan_ops \<Rightarrow> groupby_plan \<times> 's \<Rightarrow> nat \<Rightarrow> DBDataType res" where
  "groupby_getResultType C = (\<lambda>(g, s) index.
     if index < length (gb_proj g) then
       (case af_func (gb_proj g ! index) of
          FN_AVG \<Rightarrow> Inr DT_DOUBLE
        | FN_COUNT \<Rightarrow> Inr DT_INT64
        | _ \<Rightarrow> o_getResultType C s (af_index (gb_proj g ! index)))
     else Inl (Stuck ''m_proj[index]''))"

definition aggr_result :: "lib \<Rightarrow> aggr_func \<Rightarrow> DBDataType \<Rightarrow> eresult res" where
  "aggr_result L func type =
     (case af_func func of
        FN_COUNT \<Rightarrow> Inr (R_Int (int (af_count func)))
      | FN_AVG \<Rightarrow> r_div L (af_value func) (af_count func) type
      | _ \<Rightarrow> Inr (af_value func))"

definition groupby_getResult :: "lib \<Rightarrow> groupby_plan \<Rightarrow> row" where
  "groupby_getResult L g index type =
     (if index < length (gb_proj g) then aggr_result L (gb_proj g ! index) type
      else Inl (Stuck ''m_proj[index]''))"

definition groupby_addProjection :: "'s plan_ops \<Rightarrow> pnode \<Rightarrow> groupby_plan \<times> 's \<Rightarrow> err + int \<times> groupby_plan \<times> 's" where
  "groupby_addProjection C pNode = (\<lambda>(g, s).
     (let push = (\<lambda>func name i s'. Inr (int (length (gb_proj g)),
            g\<lparr>gb_proj := gb_proj g @ [\<lparr>af_func = func, af_name = name, af_index = nat i, af_count = 0, af_value = R_Null\<rparr>]\<rparr>, s')) in
      if n_type pNode = NT_NAME then
        bindR (o_addProjection C pNode s) (\<lambda>(i, s').
          if i \<ge> 0 then push FN_FIRST (n_value pNode) i s'
          else Inl (ParseException (''Unrecognized projection column '' @ n_expr pNode)))
      else if n_type pNode = NT_FUNC then
        (case map_of gb_typeMap (n_value pNode) of
           None \<Rightarrow> Inl (ParseException (''Unknown function '' @ n_expr pNode))
         | Some func \<Rightarrow>
             (case n_children pNode of
                [c] \<Rightarrow> if c = NullNode then Inl (Stuck ''getChild(0)'') else
                  bindR (o_addProjection C c s) (\<lambda>(i, s').
                    if i \<ge> 0 then push func (n_expr pNode) i s'
                    else Inl (ParseException (''Unrecognized projection column '' @ n_expr c)))
              | _ \<Rightarrow> Inl (Stuck ''children() == 1'')))
      else Inr (-1, g, s)))"

definition addGroupByColumn :: "'s plan_ops \<Rightarrow> pnode \<Rightarrow> groupby_plan \<times> 's \<Rightarrow> (groupby_plan \<times> 's) res" where
  "addGroupByColumn C pNode = (\<lambda>(g, s).
     bindR (o_addProjection C pNode s) (\<lambda>(i, s').
       if i < 0 then Inl (ParseException (''Unrecognized sort column '' @ n_expr pNode))
       else Inr (g\<lparr>gb_groupby := gb_groupby g @ [nat i]\<rparr>, s')))"

text \<open>The type and the value of a group column in the current row.\<close>

definition group_value :: "frame \<Rightarrow> nat \<Rightarrow> err + DBDataType \<times> eresult" where
  "group_value fr i = bindR (snd fr i) (\<lambda>type. mapR (\<lambda>r. (type, r_cache r)) (fst fr i type))"

definition groupby_begin :: "'s plan_ops \<Rightarrow> bool \<Rightarrow> groupby_plan \<times> 's \<Rightarrow> (groupby_plan \<times> 's) res" where
  "groupby_begin C bTerminated = (\<lambda>(g, s).
     bindR (o_begin C bTerminated s) (\<lambda>s1.
     bindR (o_next C bTerminated s1) (\<lambda>(more, s2).
     let g1 = g\<lparr>gb_rows := 0, gb_last := [], gb_type := [], gb_hasMore := more\<rparr> in
     if \<not> more then Inr (g1, s2)
     else bindR (traverseR (group_value (frame_of C s2)) (gb_groupby g)) (\<lambda>tvs.
       Inr (g1\<lparr>gb_last := map snd tvs, gb_type := map fst tvs\<rparr>, s2)))))"

text \<open>The first row of a group, and each further one.\<close>

definition aggr_start :: "frame \<Rightarrow> aggr_func \<Rightarrow> aggr_func res" where
  "aggr_start fr proj =
     bindR (snd fr (af_index proj)) (\<lambda>type.
     mapR (\<lambda>r. proj\<lparr>af_value := r_cache r, af_count := 1\<rparr>) (fst fr (af_index proj) type))"

definition aggr_add :: "lib \<Rightarrow> frame \<Rightarrow> aggr_func \<Rightarrow> aggr_func res" where
  "aggr_add L fr proj0 =
     (let proj = proj0\<lparr>af_count := af_count proj0 + 1\<rparr> in
      if af_func proj = FN_FIRST \<or> af_func proj = FN_COUNT then Inr proj
      else bindR (snd fr (af_index proj)) (\<lambda>type. bindR (fst fr (af_index proj) type) (\<lambda>info.
        if af_func proj = FN_MIN \<or> af_func proj = FN_MAX then
          bindR (r_compare L info (af_value proj) type) (\<lambda>n.
            Inr (if n < 0 \<and> af_func proj = FN_MIN \<or> n > 0 \<and> af_func proj = FN_MAX
                 then proj\<lparr>af_value := r_cache info\<rparr> else proj))
        else mapR (\<lambda>v. proj\<lparr>af_value := v\<rparr>) (r_add L (af_value proj) info type))))"

text \<open>
  The comparison with the group columns seen last: every changed column is replaced, and the
  result tells whether there was one.
\<close>

fun group_changed ::
  "lib \<Rightarrow> frame \<Rightarrow> nat list \<Rightarrow> DBDataType list \<Rightarrow> eresult list \<Rightarrow> err + bool \<times> eresult list" where
  "group_changed L fr (i # is) (type # types) (l # ls) =
     bindR (fst fr i type) (\<lambda>result. bindR (r_compare L result l type) (\<lambda>n.
     mapR (\<lambda>(changed, ls'). (n \<noteq> 0 \<or> changed, (if n \<noteq> 0 then r_cache result else l) # ls'))
       (group_changed L fr is types ls)))"
| "group_changed L fr _ _ [] = Inr (False, [])"
| "group_changed L fr _ _ (l # ls) = Inl (Stuck ''m_groupby[i]'')"

text \<open>The loop over the rows of a group, one unit of fuel per row.\<close>

fun group_loop ::
  "nat \<Rightarrow> lib \<Rightarrow> 's plan_ops \<Rightarrow> bool \<Rightarrow> groupby_plan \<times> 's \<Rightarrow> (groupby_plan \<times> 's) res" where
  "group_loop 0 L C bTerminated gs = Inl OutOfFuel"
| "group_loop (Suc fuel) L C bTerminated (g, s) =
     bindR (o_next C bTerminated s) (\<lambda>(more, s').
       let g1 = g\<lparr>gb_hasMore := more\<rparr> in
       if \<not> more then Inr (g1, s')
       else bindR (group_changed L (frame_of C s') (gb_groupby g) (gb_type g) (gb_last g)) (\<lambda>(changed, ls).
         if changed then Inr (g1\<lparr>gb_last := ls\<rparr>, s')
         else bindR (traverseR (aggr_add L (frame_of C s')) (gb_proj g)) (\<lambda>projs.
           group_loop fuel L C bTerminated (g1\<lparr>gb_last := ls, gb_proj := projs\<rparr>, s'))))"

definition groupby_next ::
  "nat \<Rightarrow> lib \<Rightarrow> 's plan_ops \<Rightarrow> bool \<Rightarrow> groupby_plan \<times> 's \<Rightarrow> err + bool \<times> groupby_plan \<times> 's" where
  "groupby_next fuel L C bTerminated = (\<lambda>(g, s).
     if \<not> gb_hasMore g then Inr (False, g, s)
     else bindR (traverseR (aggr_start (frame_of C s)) (gb_proj g)) (\<lambda>projs.
       bindR (group_loop fuel L C bTerminated (g\<lparr>gb_proj := projs\<rparr>, s)) (\<lambda>(g', s').
       Inr (True, g'\<lparr>gb_rows := gb_rows g' + 1\<rparr>, s'))))"

definition groupby_ops :: "nat \<Rightarrow> lib \<Rightarrow> 's plan_ops \<Rightarrow> (groupby_plan \<times> 's) plan_ops" where
  "groupby_ops fuel L C = (single_ops C)\<lparr>
     o_explain := groupby_explain C,
     o_begin := groupby_begin C,
     o_next := groupby_next fuel L C,
     o_getResultColumns := (\<lambda>(g, s). Inr (length (gb_proj g))),
     o_getProjectionName := (\<lambda>(g, s) index. if index < length (gb_proj g) then Inr (af_name (gb_proj g ! index))
                              else Inl (Stuck ''m_proj[index]'')),
     o_getResultType := groupby_getResultType C,
     o_addProjection := groupby_addProjection C,
     o_getAllColumns := (\<lambda>(g, s). Inr (map af_name (gb_proj g))),
     o_getInfoString := (\<lambda>(g, s). Inr (groupby_getInfoString g)),
     o_getResult := (\<lambda>(g, s). groupby_getResult L g)\<rparr>"

section \<open>UnionAllPlan\<close>

text \<open>The plans below share what lies beyond them: \<open>'w\<close>.\<close>

record 'p union_plan =
  un_plans :: "'p list"
  un_currentRow :: nat
  un_currentIndex :: nat
  un_hasOrder :: bool
  un_order :: SortOrder

definition newUnionAllPlan :: "bool \<Rightarrow> 'p union_plan" where
  "newUnionAllPlan hasOrder = \<lparr>un_plans = [], un_currentRow = 0, un_currentIndex = 0, un_hasOrder = hasOrder,
     un_order = AnyOrder\<rparr>"

definition addChildPlan :: "'p \<Rightarrow> 'p union_plan \<Rightarrow> 'p union_plan" where
  "addChildPlan pPlan u = u\<lparr>un_plans := un_plans u @ [pPlan]\<rparr>"

text \<open>A call on the plan at a position.\<close>

definition at_child ::
  "nat \<Rightarrow> ('p \<times> 'w \<Rightarrow> err + 'a \<times> 'p \<times> 'w) \<Rightarrow> 'p union_plan \<times> 'w \<Rightarrow> err + 'a \<times> 'p union_plan \<times> 'w" where
  "at_child i f = (\<lambda>(u, w).
     if i < length (un_plans u)
     then mapR (\<lambda>(a, p, w'). (a, u\<lparr>un_plans := (un_plans u)[i := p]\<rparr>, w')) (f (un_plans u ! i, w))
     else Inl (Stuck ''m_plans[i]''))"

definition union_first :: "('p \<times> 'w \<Rightarrow> 'a res) \<Rightarrow> 'p union_plan \<times> 'w \<Rightarrow> 'a res" where
  "union_first f = (\<lambda>(u, w). case un_plans u of [] \<Rightarrow> Inl (Stuck ''m_plans[0]'') | p # ps \<Rightarrow> f (p, w))"

definition unit_result :: "'s res \<Rightarrow> err + unit \<times> 's" where
  "unit_result = mapR (Pair ())"

definition union_begin :: "('p \<times> 'w) plan_ops \<Rightarrow> bool \<Rightarrow> 'p union_plan \<times> 'w \<Rightarrow> ('p union_plan \<times> 'w) res" where
  "union_begin C bTerminated = (\<lambda>(u, w).
     let u1 = (if un_order u = Descend then u\<lparr>un_plans := rev (un_plans u)\<rparr> else u) in
     mapR (\<lambda>(_, u2, w'). (u2\<lparr>un_currentRow := 0, un_currentIndex := 0\<rparr>, w'))
       (at_child 0 (\<lambda>s. unit_result (o_begin C bTerminated s)) (u1, w)))"

text \<open>The loop ends with the last plan: one unit of fuel per plan.\<close>

fun union_loop :: "nat \<Rightarrow> ('p \<times> 'w) plan_ops \<Rightarrow> bool \<Rightarrow> 'p union_plan \<times> 'w \<Rightarrow> err + bool \<times> 'p union_plan \<times> 'w" where
  "union_loop 0 C bTerminated uw = Inl OutOfFuel"
| "union_loop (Suc fuel) C bTerminated uw =
     bindR (at_child (un_currentIndex (fst uw)) (o_next C bTerminated) uw) (\<lambda>(more, u, w).
       if more then Inr (True, u, w)
       else let u1 = u\<lparr>un_currentIndex := un_currentIndex u + 1\<rparr> in
         if un_currentIndex u1 \<ge> length (un_plans u1) then Inr (False, u1, w)
         else bindR (at_child (un_currentIndex u1) (\<lambda>s. unit_result (o_begin C bTerminated s)) (u1, w)) (\<lambda>(_, uw').
           union_loop fuel C bTerminated uw'))"

definition union_next :: "('p \<times> 'w) plan_ops \<Rightarrow> bool \<Rightarrow> 'p union_plan \<times> 'w \<Rightarrow> err + bool \<times> 'p union_plan \<times> 'w" where
  "union_next C bTerminated = (\<lambda>(u, w).
     if un_currentIndex u \<ge> length (un_plans u) then Inr (False, u, w)
     else bindR (union_loop (length (un_plans u) - un_currentIndex u) C bTerminated (u, w)) (\<lambda>(more, u', w').
       if more then Inr (True, u'\<lparr>un_currentRow := un_currentRow u' + 1\<rparr>, w') else Inr (False, u', w')))"

definition union_end :: "('p \<times> 'w) plan_ops \<Rightarrow> 'p union_plan \<times> 'w \<Rightarrow> ('p union_plan \<times> 'w) res" where
  "union_end C = (\<lambda>(u, w).
     foldR (\<lambda>uw i. mapR snd (at_child i (\<lambda>s. unit_result (o_end C s)) uw)) (u, w) [0..<length (un_plans u)])"

text \<open>The loop of \<open>addProjection\<close>: \<open>lastProj\<close> is the index the plans so far agree on, or -1.\<close>

fun union_addProjection_loop ::
  "('p \<times> 'w) plan_ops \<Rightarrow> pnode \<Rightarrow> nat list \<Rightarrow> int \<Rightarrow> 'p union_plan \<times> 'w \<Rightarrow> err + int \<times> 'p union_plan \<times> 'w" where
  "union_addProjection_loop C pColumn [] lastProj uw = Inr (lastProj, uw)"
| "union_addProjection_loop C pColumn (i # is) lastProj uw =
     bindR (at_child i (o_addProjection C pColumn) uw) (\<lambda>(proj, uw').
       if proj < 0 then Inr (-1, uw')
       else if lastProj \<ge> 0 \<and> proj \<noteq> lastProj
       then Inl (ParseException (''projection conflict for '' @ n_expr pColumn))
       else union_addProjection_loop C pColumn is proj uw')"

definition union_addProjection ::
  "('p \<times> 'w) plan_ops \<Rightarrow> pnode \<Rightarrow> 'p union_plan \<times> 'w \<Rightarrow> err + int \<times> 'p union_plan \<times> 'w" where
  "union_addProjection C pColumn uw =
     (if un_plans (fst uw) = [] then Inl (Stuck ''!m_plans.empty()'')
      else union_addProjection_loop C pColumn [0..<length (un_plans (fst uw))] (-1) uw)"

definition union_getResultType :: "('p \<times> 'w) plan_ops \<Rightarrow> 'p union_plan \<times> 'w \<Rightarrow> nat \<Rightarrow> DBDataType res" where
  "union_getResultType C uw index =
     mapR (\<lambda>type. case type of DT_INT16 \<Rightarrow> DT_INT64 | DT_INT32 \<Rightarrow> DT_INT64 | DT_INT64 \<Rightarrow> DT_INT64 | _ \<Rightarrow> type)
       (union_first (\<lambda>s. o_getResultType C s index) uw)"

definition union_getInfoString :: "'p union_plan \<Rightarrow> string" where
  "union_getInfoString u = ''SELECT '' @ nat_to_string (un_currentRow u)"

definition union_getResult :: "('p \<times> 'w) plan_ops \<Rightarrow> 'p union_plan \<times> 'w \<Rightarrow> row" where
  "union_getResult C = (\<lambda>(u, w) index type.
     if un_currentIndex u < length (un_plans u) then o_getResult C (un_plans u ! un_currentIndex u, w) index type
     else Inl (Stuck ''m_plans[m_iCurrentIndex]''))"

fun union_sort_loop ::
  "('p \<times> 'w) plan_ops \<Rightarrow> nat \<Rightarrow> string \<Rightarrow> SortOrder \<Rightarrow> nat list \<Rightarrow> 'p union_plan \<times> 'w \<Rightarrow> err + bool \<times> 'p union_plan \<times> 'w" where
  "union_sort_loop C iSortIndex sColumn order [] uw = Inr (True, uw)"
| "union_sort_loop C iSortIndex sColumn order (i # is) uw =
     bindR (at_child i (o_ensureSortOrder C iSortIndex sColumn order) uw) (\<lambda>(b, uw').
       if b then union_sort_loop C iSortIndex sColumn order is uw' else Inr (False, uw'))"

definition union_ensureSortOrder ::
  "('p \<times> 'w) plan_ops \<Rightarrow> nat \<Rightarrow> string \<Rightarrow> SortOrder \<Rightarrow> 'p union_plan \<times> 'w \<Rightarrow> err + bool \<times> 'p union_plan \<times> 'w" where
  "union_ensureSortOrder C iSortIndex sColumn order uw =
     (if \<not> un_hasOrder (fst uw) then Inr (False, uw)
      else bindR (union_sort_loop C iSortIndex sColumn order [0..<length (un_plans (fst uw))] uw) (\<lambda>(b, u, w).
        Inr (b, if b then u\<lparr>un_order := order\<rparr> else u, w)))"

definition union_explain ::
  "('p \<times> 'w) plan_ops \<Rightarrow> nat \<Rightarrow> 'p union_plan \<times> 'w \<Rightarrow> err + string list \<times> 'p union_plan \<times> 'w" where
  "union_explain C depth uw =
     foldR (\<lambda>(rows, uw) i. mapR (\<lambda>(rs, uw'). (rows @ rs, uw')) (at_child i (o_explain C (1 + depth)) uw))
       ([tabs depth @ ''UnionAll''], uw) [0..<length (un_plans (fst uw))]"

definition union_ops :: "('p \<times> 'w) plan_ops \<Rightarrow> ('p union_plan \<times> 'w) plan_ops" where
  "union_ops C = \<lparr>
     o_explain = union_explain C,
     o_begin = union_begin C,
     o_next = union_next C,
     o_end = union_end C,
     o_getResultColumns = union_first (o_getResultColumns C),
     o_getProjectionName = (\<lambda>uw index. union_first (\<lambda>s. o_getProjectionName C s index) uw),
     o_getResultType = union_getResultType C,
     o_addProjection = union_addProjection C,
     o_getAllColumns = union_first (o_getAllColumns C),
     o_ensureSortOrder = union_ensureSortOrder C,
     o_getInfoString = (\<lambda>(u, w). Inr (union_getInfoString u)),
     o_getResult = union_getResult C\<rparr>"

section \<open>The rows of a union\<close>

text \<open>Every plan delivers its rows when it is begun where the plan before it has ended.\<close>

fun child_rows ::
  "('p \<times> 'w) plan_ops \<Rightarrow> bool \<Rightarrow> 'p list \<Rightarrow> 'w \<Rightarrow> row list list \<Rightarrow> bool" where
  "child_rows C t [] w rss = (rss = [])"
| "child_rows C t (p # ps) w [] = False"
| "child_rows C t (p # ps) w (rs # rss) =
     (\<exists>s w1. o_begin C t (p, w) = Inr s \<and> delivers_to (o_next C t) (o_getResult C) s rs (\<lambda>s'. snd s' = w1) \<and>
        child_rows C t ps w1 rss)"

lemma union_child_row:
  assumes "un_currentIndex u < length (un_plans u)" "o_next C t (un_plans u ! un_currentIndex u, w) = Inr (True, p, w')"
  shows "union_next C t (u, w) =
    Inr (True, u\<lparr>un_plans := (un_plans u)[un_currentIndex u := p], un_currentRow := un_currentRow u + 1\<rparr>, w')"
proof -
  obtain n where "length (un_plans u) - un_currentIndex u = Suc n" using assms(1) by (metis Suc_diff_Suc)
  then show ?thesis using assms by (simp add: union_next_def at_child_def)
qed

lemma union_last_end:
  assumes "Suc (un_currentIndex u) = length (un_plans u)" "o_next C t (un_plans u ! un_currentIndex u, w) = Inr (False, p, w')"
  shows "\<exists>u'. union_next C t (u, w) = Inr (False, u', w') \<and> un_currentRow u' = un_currentRow u"
proof -
  have "length (un_plans u) - un_currentIndex u = Suc 0" using assms(1) by simp
  then show ?thesis using assms by (simp add: union_next_def at_child_def Let_def)
qed

lemma union_child_end:
  assumes "Suc (un_currentIndex u) < length (un_plans u)" "o_next C t (un_plans u ! un_currentIndex u, w) = Inr (False, p, w1)"
    and "o_begin C t (un_plans u ! Suc (un_currentIndex u), w1) = Inr (q, w2)"
  shows "union_next C t (u, w) = union_next C t
    (u\<lparr>un_currentIndex := Suc (un_currentIndex u),
       un_plans := (un_plans u)[un_currentIndex u := p, Suc (un_currentIndex u) := q]\<rparr>, w2)"
proof -
  obtain n where "length (un_plans u) - un_currentIndex u = Suc n" "length (un_plans u) - Suc (un_currentIndex u) = n"
    using assms(1) by (metis Suc_diff_Suc Suc_lessD)
  then show ?thesis using assms by (simp add: union_next_def at_child_def Let_def unit_result_def)
qed

lemma union_delivers:
  assumes "un_currentIndex u < length (un_plans u)"
    and "delivers_to (o_next C t) (o_getResult C) (un_plans u ! un_currentIndex u, w) rs (\<lambda>s'. snd s' = w1)"
    and "child_rows C t (drop (Suc (un_currentIndex u)) (un_plans u)) w1 rss"
  shows "delivers_to (union_next C t) (union_getResult C) (u, w) (rs @ concat rss)
    (\<lambda>(u', w'). un_currentRow u' = un_currentRow u + length (rs @ concat rss))"
  using assms
proof (induction rss arbitrary: u w rs w1)
  case Nil
  from Nil.prems(1,3) have last: "Suc (un_currentIndex u) = length (un_plans u)"
    by (cases "drop (Suc (un_currentIndex u)) (un_plans u)") auto
  from Nil.prems(2) last show ?case
  proof (induction rs arbitrary: u w)
    case Nil
    then show ?case using union_last_end [of u C t w] by fastforce
  next
    case (Cons r rs)
    then obtain p w' where n: "o_next C t (un_plans u ! un_currentIndex u, w) = Inr (True, p, w')"
      "o_getResult C (p, w') = r" "delivers_to (o_next C t) (o_getResult C) (p, w') rs (\<lambda>s'. snd s' = w1)" by auto
    let ?u = "u\<lparr>un_plans := (un_plans u)[un_currentIndex u := p], un_currentRow := un_currentRow u + 1\<rparr>"
    have "union_next C t (u, w) = Inr (True, ?u, w')" using union_child_row [OF _ n(1)] Cons.prems(2) by simp
    moreover have "union_getResult C (?u, w') = r" using n(2) Cons.prems(2) by (simp add: union_getResult_def fun_eq_iff)
    moreover have "delivers_to (union_next C t) (union_getResult C) (?u, w') (rs @ concat [])
        (\<lambda>(u', w'). un_currentRow u' = un_currentRow ?u + length (rs @ concat []))"
      by (rule Cons.IH) (use n(3) Cons.prems(2) in simp_all)
    ultimately show ?case by simp
  qed
next
  case (Cons rs2 rss)
  from Cons.prems(3) obtain p2 ps where ps: "drop (Suc (un_currentIndex u)) (un_plans u) = p2 # ps"
    by (cases "drop (Suc (un_currentIndex u)) (un_plans u)") auto
  then have lt: "Suc (un_currentIndex u) < length (un_plans u)"
    by (metis drop_all linorder_not_less list.distinct(1))
  from Cons.prems(2) lt ps show ?case
  proof (induction rs arbitrary: u w)
    case Nil
    then obtain p w1' where n: "o_next C t (un_plans u ! un_currentIndex u, w) = Inr (False, p, w1')" "w1' = w1" by auto
    have p2: "un_plans u ! Suc (un_currentIndex u) = p2" "drop (Suc (Suc (un_currentIndex u))) (un_plans u) = ps"
      using Cons_nth_drop_Suc [OF Nil.prems(2)] Nil.prems(3) by simp_all
    from Cons.prems(3) ps obtain q w2 w3 where b: "o_begin C t (p2, w1) = Inr (q, w2)"
      "delivers_to (o_next C t) (o_getResult C) (q, w2) rs2 (\<lambda>s'. snd s' = w3)" "child_rows C t ps w3 rss" by auto
    let ?u = "u\<lparr>un_currentIndex := Suc (un_currentIndex u),
       un_plans := (un_plans u)[un_currentIndex u := p, Suc (un_currentIndex u) := q]\<rparr>"
    have eq: "union_next C t (u, w) = union_next C t (?u, w2)"
      by (rule union_child_end [OF Nil.prems(2)]) (use n b(1) p2(1) in simp_all)
    have "delivers_to (union_next C t) (union_getResult C) (?u, w2) (rs2 @ concat rss)
        (\<lambda>(u', w'). un_currentRow u' = un_currentRow ?u + length (rs2 @ concat rss))"
      by (rule Cons.IH) (use Nil.prems(2) b p2(2) in simp_all)
    then show ?case unfolding delivers_to_start [of "union_next C t", OF eq] by simp
  next
    case (Cons r rs)
    then obtain p w' where n: "o_next C t (un_plans u ! un_currentIndex u, w) = Inr (True, p, w')"
      "o_getResult C (p, w') = r" "delivers_to (o_next C t) (o_getResult C) (p, w') rs (\<lambda>s'. snd s' = w1)" by auto
    let ?u = "u\<lparr>un_plans := (un_plans u)[un_currentIndex u := p], un_currentRow := un_currentRow u + 1\<rparr>"
    have "union_next C t (u, w) = Inr (True, ?u, w')" using union_child_row [OF _ n(1)] Cons.prems(2) by simp
    moreover have "union_getResult C (?u, w') = r" using n(2) Cons.prems(2) by (simp add: union_getResult_def fun_eq_iff)
    moreover have "delivers_to (union_next C t) (union_getResult C) (?u, w') (rs @ concat (rs2 # rss))
        (\<lambda>(u', w'). un_currentRow u' = un_currentRow ?u + length (rs @ concat (rs2 # rss)))"
      by (rule Cons.IH) (use n(3) Cons.prems(2,3) in simp_all)
    ultimately show ?case by simp
  qed
qed

text \<open>
  C14.  A union delivers the rows of its plans one plan after the other - in reverse order of the
  plans when a descending order was asked of it - and reports their number.
\<close>

theorem union_appends_rows:
  assumes "un_plans u \<noteq> []"
    and "child_rows C t (if un_order u = Descend then rev (un_plans u) else un_plans u) w rss"
  shows "\<exists>u' w'. o_begin (union_ops C) t (u, w) = Inr (u', w') \<and>
    delivers_to (o_next (union_ops C) t) (o_getResult (union_ops C)) (u', w') (concat rss)
      (\<lambda>uw. o_getInfoString (union_ops C) uw = Inr (''SELECT '' @ nat_to_string (length (concat rss))))"
proof -
  define u1 where "u1 = (if un_order u = Descend then u\<lparr>un_plans := rev (un_plans u)\<rparr> else u)"
  have plans: "un_plans u1 = (if un_order u = Descend then rev (un_plans u) else un_plans u)" by (simp add: u1_def)
  then have "un_plans u1 \<noteq> []" using assms(1) by simp
  then obtain p ps where ps: "un_plans u1 = p # ps" by (meson list.exhaust)
  have "child_rows C t (p # ps) w rss" using assms(2) ps plans by metis
  then obtain rs rss' q w2 w1 where b: "rss = rs # rss'" "o_begin C t (p, w) = Inr (q, w2)"
    "delivers_to (o_next C t) (o_getResult C) (q, w2) rs (\<lambda>s'. snd s' = w1)" "child_rows C t ps w1 rss'"
    by (cases rss) auto
  let ?u = "u1\<lparr>un_plans := q # ps, un_currentRow := 0, un_currentIndex := 0\<rparr>"
  have "o_begin (union_ops C) t (u, w) = Inr (?u, w2)"
    using b(2) ps by (simp add: union_ops_def union_begin_def at_child_def unit_result_def Let_def flip: u1_def)
  moreover have "delivers_to (union_next C t) (union_getResult C) (?u, w2) (rs @ concat rss')
      (\<lambda>(u', w'). un_currentRow u' = un_currentRow ?u + length (rs @ concat rss'))"
    by (rule union_delivers) (use b in simp_all)
  then have "delivers_to (o_next (union_ops C) t) (o_getResult (union_ops C)) (?u, w2) (concat rss)
      (\<lambda>uw. o_getInfoString (union_ops C) uw = Inr (''SELECT '' @ nat_to_string (length (concat rss))))"
    using b(1) by (simp add: union_ops_def) (erule delivers_to_mono, auto simp: union_getInfoString_def)
  ultimately show ?thesis by blast
qed

text \<open>A plan that reaches nothing beyond itself, beside a state \<open>'w\<close> it leaves alone.\<close>

definition lift_leaf :: "'p plan_ops \<Rightarrow> ('p \<times> 'w) plan_ops" where
  "lift_leaf P = \<lparr>
     o_explain = (\<lambda>depth (p, w). mapR (\<lambda>(rows, p'). (rows, p', w)) (o_explain P depth p)),
     o_begin = (\<lambda>bTerminated (p, w). mapR (\<lambda>p'. (p', w)) (o_begin P bTerminated p)),
     o_next = (\<lambda>bTerminated (p, w). mapR (\<lambda>(more, p'). (more, p', w)) (o_next P bTerminated p)),
     o_end = (\<lambda>(p, w). mapR (\<lambda>p'. (p', w)) (o_end P p)),
     o_getResultColumns = (\<lambda>(p, w). o_getResultColumns P p),
     o_getProjectionName = (\<lambda>(p, w). o_getProjectionName P p),
     o_getResultType = (\<lambda>(p, w). o_getResultType P p),
     o_addProjection = (\<lambda>pColumn (p, w). mapR (\<lambda>(i, p'). (i, p', w)) (o_addProjection P pColumn p)),
     o_getAllColumns = (\<lambda>(p, w). o_getAllColumns P p),
     o_ensureSortOrder = (\<lambda>iSortIndex sColumn order (p, w).
       mapR (\<lambda>(b, p'). (b, p', w)) (o_ensureSortOrder P iSortIndex sColumn order p)),
     o_getInfoString = (\<lambda>(p, w). o_getInfoString P p),
     o_getResult = (\<lambda>(p, w). o_getResult P p)\<rparr>"

lemma frame_of_lift_leaf: "frame_of (lift_leaf P) (p, w) = frame_of P p"
  by (simp add: frame_of_def lift_leaf_def)

lemma lift_leaf_delivers:
  "delivers_to (o_next P t) cur p rs Q \<Longrightarrow>
    delivers_to (o_next (lift_leaf P) t) (\<lambda>(p, w). cur p) (p, w) rs (\<lambda>(p', w'). Q p' \<and> w' = w)"
  by (induction rs arbitrary: p) (fastforce simp: lift_leaf_def)+

theorem union_appends_rows_witness:
  "\<exists>u'. o_begin (union_ops (lift_leaf (const_ops ex_lib))) False
      (newUnionAllPlan True\<lparr>un_plans := [ex_values, ex_values]\<rparr>, ()) = Inr (u', ()) \<and>
    delivers_to (o_next (union_ops (lift_leaf (const_ops ex_lib))) False)
      (o_getResult (union_ops (lift_leaf (const_ops ex_lib)))) (u', ()) (map fst ex_frames @ map fst ex_frames)
      (\<lambda>uw. o_getInfoString (union_ops (lift_leaf (const_ops ex_lib))) uw = Inr (''SELECT '' @ nat_to_string 6))"
proof -
  let ?C = "lift_leaf (const_ops ex_lib) :: (const_plan \<times> unit) plan_ops"
  let ?u = "newUnionAllPlan True\<lparr>un_plans := [ex_values, ex_values]\<rparr>"
  have cur: "(\<lambda>(p, w). fst (frame_of (const_ops ex_lib) p)) = o_getResult ?C"
    by (auto simp: lift_leaf_def frame_of_def)
  have d: "delivers_to (o_next ?C False) (o_getResult ?C) (ex_values, ()) (map fst ex_frames) (\<lambda>s'. snd s' = ())"
    using lift_leaf_delivers [OF delivers_to_map [OF ex_values_delivers, of fst], of "()"] unfolding cur
    by (rule delivers_to_mono) simp
  have b: "o_begin ?C False (ex_values, ()) = Inr (ex_values, ())"
    by (simp add: lift_leaf_def const_ops_def empty_ops_def const_begin_def ex_values_def)
  have six: "length (concat [map fst ex_frames, map fst ex_frames]) = 6" by (simp add: ex_frames_def ex_values_def)
  have "child_rows ?C False (if un_order ?u = Descend then rev (un_plans ?u) else un_plans ?u) ()
      [map fst ex_frames, map fst ex_frames]"
    using b d by (simp add: newUnionAllPlan_def)
  from union_appends_rows [OF _ this] show ?thesis unfolding six by (simp add: newUnionAllPlan_def)
qed

section \<open>The rows of a grouping\<close>

definition col_value :: "(nat \<Rightarrow> DBDataType res) \<Rightarrow> frame \<Rightarrow> nat \<Rightarrow> eresult" where
  "col_value ty fr i = (case ty i of Inl _ \<Rightarrow> R_Null | Inr t \<Rightarrow> (case fst fr i t of Inl _ \<Rightarrow> R_Null | Inr v \<Rightarrow> v))"

definition col_cmp :: "(nat \<Rightarrow> DBDataType res) \<Rightarrow> nat \<Rightarrow> eresult \<Rightarrow> eresult \<Rightarrow> int" where
  "col_cmp ty i a b = (case ty i of Inl _ \<Rightarrow> 0 | Inr t \<Rightarrow> (case getHandler t of None \<Rightarrow> 0 | Some h \<Rightarrow> cmp_val h a b))"

definition col_comparable :: "(nat \<Rightarrow> DBDataType res) \<Rightarrow> nat \<Rightarrow> eresult \<Rightarrow> bool" where
  "col_comparable ty i v = (case ty i of Inl _ \<Rightarrow> False | Inr t \<Rightarrow> (case getHandler t of None \<Rightarrow> False | Some h \<Rightarrow> comparable h v))"

text \<open>The group columns of a row can be read and compared (no NaN).\<close>

definition groupable :: "(nat \<Rightarrow> DBDataType res) \<Rightarrow> nat list \<Rightarrow> frame \<Rightarrow> bool" where
  "groupable ty is fr = (snd fr = ty \<and> (\<forall>i \<in> set is. \<exists>t v. ty i = Inr t \<and> fst fr i t = Inr v \<and> col_comparable ty i v))"

definition same_group :: "(nat \<Rightarrow> DBDataType res) \<Rightarrow> nat list \<Rightarrow> frame \<Rightarrow> frame \<Rightarrow> bool" where
  "same_group ty is r r' = list_all (\<lambda>i. col_cmp ty i (col_value ty r i) (col_value ty r' i) = 0) is"

text \<open>The maximal runs of rows that are in the same group as the first of the run.\<close>

function runs :: "('a \<Rightarrow> 'a \<Rightarrow> bool) \<Rightarrow> 'a list \<Rightarrow> 'a list list" where
  "runs same [] = []"
| "runs same (r # rs) = (r # takeWhile (same r) rs) # runs same (dropWhile (same r) rs)"
  by pat_completeness auto
termination
  by (relation "measure (\<lambda>(same, rs). length rs)") (auto simp: le_imp_less_Suc length_dropWhile_le)

lemma concat_runs [simp]: "concat (runs same rs) = rs"
  by (induction same rs rule: runs.induct) auto

text \<open>The aggregate functions of a run: started on its first row, then fed the others.\<close>

definition aggregate :: "lib \<Rightarrow> aggr_func list \<Rightarrow> frame list \<Rightarrow> aggr_func list res" where
  "aggregate L projs run =
     bindR (traverseR (aggr_start (hd run)) projs) (\<lambda>ps. foldR (\<lambda>ps fr. traverseR (aggr_add L fr) ps) ps (tl run))"

definition aggr_row :: "lib \<Rightarrow> aggr_func list \<Rightarrow> row" where
  "aggr_row L projs index type =
     (if index < length projs then aggr_result L (projs ! index) type else Inl (Stuck ''m_proj[index]''))"

lemma groupby_getResult_row: "groupby_getResult L g = aggr_row L (gb_proj g)"
  by (simp add: groupby_getResult_def aggr_row_def fun_eq_iff)

lemma col_cmp_three_way: "three_way (col_cmp ty i) (col_comparable ty i)"
proof (cases "\<exists>t h. ty i = Inr t \<and> getHandler t = Some h")
  case True
  then obtain t h where "ty i = Inr t" "getHandler t = Some h" by blast
  then have "col_cmp ty i = cmp_val h" "col_comparable ty i = comparable h"
    by (simp_all add: col_cmp_def col_comparable_def fun_eq_iff)
  then show ?thesis by (simp add: three_way_handler)
next
  case False
  then have "\<not> col_comparable ty i v" for v by (auto simp: col_comparable_def split: sum.splits option.splits)
  then show ?thesis by unfold_locales simp_all
qed

interpretation col_order: three_way "col_cmp ty i" "col_comparable ty i" for ty i
  by (rule col_cmp_three_way)

text \<open>A value and its cached copy compare alike.\<close>

lemma comparable_cache [simp]: "col_comparable ty i (r_cache v) = col_comparable ty i v"
  by (auto simp: col_comparable_def comparable_def r_cache_def split: sum.splits option.splits handler.splits eresult.splits)

lemma cmp_cache [simp]: "col_cmp ty i a (r_cache v) = col_cmp ty i a v"
proof -
  have "h_compare L h a (r_cache v) = h_compare L h a v" for L h
    by (cases v; cases h) (simp_all add: r_cache_def h_compare_def string_compare_def isMaxString_def getString_def
        getInt_def getDouble_def r_toString_def)
  then have "cmp_val h a (r_cache v) = cmp_val h a v" for h by (simp add: cmp_val_def)
  then show ?thesis by (simp add: col_cmp_def split: sum.splits option.splits)
qed

text \<open>The group columns kept by the plan stand for those of the first row \<open>r0\<close> of the group.\<close>

definition group_inv :: "(nat \<Rightarrow> DBDataType res) \<Rightarrow> nat list \<Rightarrow> frame \<Rightarrow> DBDataType list \<Rightarrow> eresult list \<Rightarrow> bool" where
  "group_inv ty is r0 types ls \<longleftrightarrow>
     list_all2 (\<lambda>i t. ty i = Inr t) is types \<and>
     list_all2 (\<lambda>i l. col_comparable ty i l \<and> col_cmp ty i (col_value ty r0 i) l = 0) is ls"

lemma groupable_Cons:
  "groupable ty (i # is) fr \<longleftrightarrow> groupable ty is fr \<and>
     (\<exists>t v. ty i = Inr t \<and> fst fr i t = Inr v \<and> col_value ty fr i = v \<and> col_comparable ty i v)"
  by (auto simp: groupable_def col_value_def)

lemma group_value_start:
  assumes "groupable ty is fr"
  shows "\<exists>tvs. traverseR (group_value fr) is = Inr tvs \<and> group_inv ty is fr (map fst tvs) (map snd tvs)"
  using assms
proof (induction "is")
  case Nil
  then show ?case by (simp add: group_inv_def)
next
  case (Cons i "is")
  from Cons.prems obtain t v where v: "ty i = Inr t" "fst fr i t = Inr v" "col_value ty fr i = v" "col_comparable ty i v"
    and g: "groupable ty is fr" by (auto simp: groupable_Cons)
  from Cons.IH [OF g] obtain tvs where tvs: "traverseR (group_value fr) is = Inr tvs" "group_inv ty is fr (map fst tvs) (map snd tvs)"
    by blast
  have "group_value fr i = Inr (t, r_cache v)" using v g by (simp add: group_value_def groupable_def)
  then show ?case using v tvs col_order.cmp_refl [of ty i v] by (simp add: group_inv_def)
qed

lemma group_changed_step:
  assumes "group_inv ty is r0 types ls" "groupable ty is r0" "groupable ty is fr"
  shows "\<exists>ls'. group_changed L fr is types ls = Inr (\<not> same_group ty is r0 fr, ls') \<and>
    group_inv ty is fr types ls' \<and> (same_group ty is r0 fr \<longrightarrow> ls' = ls)"
  using assms
proof (induction "is" arbitrary: types ls)
  case Nil
  then show ?case by (simp add: group_inv_def same_group_def)
next
  case (Cons i "is")
  then obtain t types' l ls' where tl: "types = t # types'" "ls = l # ls'" "ty i = Inr t" "group_inv ty is r0 types' ls'"
    "col_comparable ty i l" "col_cmp ty i (col_value ty r0 i) l = 0"
    by (auto simp: group_inv_def list_all2_Cons1)
  from Cons.prems(2,3) tl(3) obtain v0 v where v: "col_value ty r0 i = v0" "col_comparable ty i v0"
    "fst fr i t = Inr v" "col_value ty fr i = v" "col_comparable ty i v" and g: "groupable ty is r0" "groupable ty is fr"
    by (auto simp: groupable_Cons)
  from Cons.IH [OF tl(4) g] obtain ls2 where ih: "group_changed L fr is types' ls' = Inr (\<not> same_group ty is r0 fr, ls2)"
    "group_inv ty is fr types' ls2" "same_group ty is r0 fr \<longrightarrow> ls2 = ls'" by blast
  from tl(3) v(5) obtain h where h: "getHandler t = Some h" "comparable h v"
    by (auto simp: col_comparable_def split: option.splits)
  have l: "comparable h l" using tl(3,5) h(1) by (simp add: col_comparable_def)
  define c where "c = col_cmp ty i v l"
  have cmp: "r_compare L v l t = Inr c"
    using h l tl(3) by (simp add: r_compare_def with_handler_def h_compare_cmp_val col_cmp_def c_def)
  have same: "c = 0 \<longleftrightarrow> col_cmp ty i v0 v = 0"
  proof -
    have "sgn (col_cmp ty i v0 v) = sgn (col_cmp ty i l v)"
      by (rule col_order.cmp_eq_left) (use tl(5,6) v in simp_all)
    moreover have "c = - col_cmp ty i l v" unfolding c_def by (rule col_order.cmp_antisym) (use tl(5) v in simp_all)
    ultimately show ?thesis by (metis neg_equal_0_iff_equal sgn_0_0)
  qed
  let ?ls = "(if c \<noteq> 0 then r_cache v else l) # ls2"
  have "group_changed L fr (i # is) types ls = Inr (\<not> same_group ty (i # is) r0 fr, ?ls)"
    using cmp same ih(1) v(1,3,4) tl(1,2) by (simp add: same_group_def)
  moreover have "col_comparable ty i (hd ?ls) \<and> col_cmp ty i v (hd ?ls) = 0"
    using col_order.cmp_refl [OF v(5)] v(5) tl(5) by (simp add: c_def)
  then have "group_inv ty (i # is) fr types ?ls"
    using ih(2) unfolding group_inv_def tl(1) v(4) list_all2_Cons list.sel using tl(3) v(4) by blast
  moreover have "same_group ty (i # is) r0 fr \<longrightarrow> ?ls = ls"
    using same ih(3) v(1,4) tl(2) by (simp add: same_group_def)
  ultimately show ?case by blast
qed

text \<open>The static part of an aggregate function, all that its start depends on.\<close>

definition aggr_static :: "aggr_func \<Rightarrow> FuncType \<times> string \<times> nat" where
  "aggr_static p = (af_func p, af_name p, af_index p)"

lemma aggr_start_static: "aggr_static p = aggr_static q \<Longrightarrow> aggr_start fr p = aggr_start fr q"
  by (cases p; cases q) (simp add: aggr_start_def aggr_static_def)

lemma aggregate_static:
  "map aggr_static ps = map aggr_static qs \<Longrightarrow> aggregate L ps run = aggregate L qs run"
proof -
  assume "map aggr_static ps = map aggr_static qs"
  then have "traverseR (aggr_start (hd run)) ps = traverseR (aggr_start (hd run)) qs"
  proof (induction ps arbitrary: qs)
    case (Cons p ps)
    then obtain q qs' where qs: "qs = q # qs'" "aggr_static p = aggr_static q" "map aggr_static ps = map aggr_static qs'" by auto
    from aggr_start_static [OF qs(2)] Cons.IH [OF qs(3)] show ?case by (simp add: qs(1))
  qed simp
  then show ?thesis by (simp add: aggregate_def)
qed

lemma aggr_add_static: "aggr_add L fr p = Inr q \<Longrightarrow> aggr_static q = aggr_static p"
  by (auto simp: aggr_add_def aggr_static_def Let_def split: if_splits)

lemma traverse_static:
  "traverseR f ps = Inr qs \<Longrightarrow> (\<And>p q. f p = Inr q \<Longrightarrow> aggr_static q = aggr_static p) \<Longrightarrow> map aggr_static qs = map aggr_static ps"
  by (induction ps arbitrary: qs) auto

lemma group_loop_run:
  assumes "delivers_to (o_next C t) (frame_of C) s rs Q" "length rs < fuel"
    and "group_inv ty (gb_groupby g) r0 (gb_type g) (gb_last g)" "list_all (groupable ty (gb_groupby g)) (r0 # rs)"
    and "foldR (\<lambda>ps fr. traverseR (aggr_add L fr) ps) (gb_proj g) (takeWhile (same_group ty (gb_groupby g) r0) rs) = Inr ps"
  shows "\<exists>more ls s'. group_loop fuel L C t (g, s) = Inr (g\<lparr>gb_proj := ps, gb_hasMore := more, gb_last := ls\<rparr>, s') \<and>
    (case dropWhile (same_group ty (gb_groupby g) r0) rs of
       [] \<Rightarrow> \<not> more \<and> Q s'
     | r1 # rs1 \<Rightarrow> more \<and> frame_of C s' = r1 \<and> delivers_to (o_next C t) (frame_of C) s' rs1 Q \<and>
         group_inv ty (gb_groupby g) r1 (gb_type g) ls)"
  using assms
proof (induction rs arbitrary: s g fuel)
  case Nil
  then obtain n where "fuel = Suc n" by (cases fuel) auto
  moreover from Nil.prems(1) obtain s' where "o_next C t s = Inr (False, s')" "Q s'" by auto
  moreover have "g\<lparr>gb_hasMore := False\<rparr> = g\<lparr>gb_proj := ps, gb_hasMore := False, gb_last := gb_last g\<rparr>"
    using Nil.prems(5) by simp
  ultimately show ?case by (intro exI [of _ False] exI [of _ "gb_last g"] exI [of _ s']) simp
next
  case (Cons r rs)
  then obtain n where n: "fuel = Suc n" "length rs < n" by (cases fuel) auto
  from Cons.prems(1) obtain s' where s': "o_next C t s = Inr (True, s')" "frame_of C s' = r"
    "delivers_to (o_next C t) (frame_of C) s' rs Q" by auto
  from group_changed_step [OF Cons.prems(3), of r] Cons.prems(4) obtain ls where
    ls: "group_changed L r (gb_groupby g) (gb_type g) (gb_last g) = Inr (\<not> same_group ty (gb_groupby g) r0 r, ls)"
      "group_inv ty (gb_groupby g) r (gb_type g) ls" "same_group ty (gb_groupby g) r0 r \<longrightarrow> ls = gb_last g" by auto
  show ?case
  proof (cases "same_group ty (gb_groupby g) r0 r")
    case False
    have "g\<lparr>gb_hasMore := True, gb_last := ls\<rparr> = g\<lparr>gb_proj := ps, gb_hasMore := True, gb_last := ls\<rparr>"
      using Cons.prems(5) False by simp
    then have "group_loop fuel L C t (g, s) = Inr (g\<lparr>gb_proj := ps, gb_hasMore := True, gb_last := ls\<rparr>, s')"
      using s'(1,2) ls(1) n(1) False by (simp add: Let_def)
    then show ?thesis using s'(2,3) ls(2) False
      by (intro exI [of _ True] exI [of _ ls] exI [of _ s']) simp
  next
    case True
    with Cons.prems(5) obtain qs where qs: "traverseR (aggr_add L r) (gb_proj g) = Inr qs"
      "foldR (\<lambda>ps fr. traverseR (aggr_add L fr) ps) qs (takeWhile (same_group ty (gb_groupby g) r0) rs) = Inr ps" by auto
    let ?g = "g\<lparr>gb_hasMore := True, gb_last := gb_last g, gb_proj := qs\<rparr>"
    have step: "group_loop fuel L C t (g, s) = group_loop n L C t (?g, s')"
      using s'(1,2) ls(1,3) n(1) True qs(1) by (simp add: Let_def)
    have "\<exists>more ls s''. group_loop n L C t (?g, s') = Inr (?g\<lparr>gb_proj := ps, gb_hasMore := more, gb_last := ls\<rparr>, s'') \<and>
      (case dropWhile (same_group ty (gb_groupby ?g) r0) rs of
         [] \<Rightarrow> \<not> more \<and> Q s''
       | r1 # rs1 \<Rightarrow> more \<and> frame_of C s'' = r1 \<and> delivers_to (o_next C t) (frame_of C) s'' rs1 Q \<and>
           group_inv ty (gb_groupby ?g) r1 (gb_type ?g) ls)"
      by (rule Cons.IH [OF s'(3) n(2)]) (use Cons.prems(3,4) qs(2) in simp_all)
    moreover have "?g\<lparr>gb_proj := ps, gb_hasMore := more, gb_last := l\<rparr> = g\<lparr>gb_proj := ps, gb_hasMore := more, gb_last := l\<rparr>"
      "gb_groupby ?g = gb_groupby g" "gb_type ?g = gb_type g" for more l by simp_all
    moreover have "dropWhile (same_group ty (gb_groupby g) r0) (r # rs) = dropWhile (same_group ty (gb_groupby g) r0) rs"
      using True by simp
    ultimately show ?thesis unfolding step by (simp only:)
  qed
qed

lemma groupby_delivers:
  assumes "delivers_to (o_next C t) (frame_of C) s rs Q" "length rs < fuel" "frame_of C s = r0" "gb_hasMore g"
    and "group_inv ty (gb_groupby g) r0 (gb_type g) (gb_last g)" "list_all (groupable ty (gb_groupby g)) (r0 # rs)"
    and "list_all (\<lambda>run. aggregate L (gb_proj g) run = Inr (ag run)) (runs (same_group ty (gb_groupby g)) (r0 # rs))"
  shows "delivers_to (groupby_next fuel L C t) (\<lambda>(g, s). gb_proj g) (g, s)
    (map ag (runs (same_group ty (gb_groupby g)) (r0 # rs)))
    (\<lambda>(g', s'). gb_rows g' = gb_rows g + length (runs (same_group ty (gb_groupby g)) (r0 # rs)))"
  using assms
proof (induction "length rs" arbitrary: rs s g r0 rule: less_induct)
  case less
  let ?same = "same_group ty (gb_groupby g)"
  from less.prems(7) have ag: "aggregate L (gb_proj g) (r0 # takeWhile (?same r0) rs) = Inr (ag (r0 # takeWhile (?same r0) rs))" by simp
  then obtain ps0 where ps0: "traverseR (aggr_start r0) (gb_proj g) = Inr ps0"
    "foldR (\<lambda>ps fr. traverseR (aggr_add L fr) ps) ps0 (takeWhile (?same r0) rs) = Inr (ag (r0 # takeWhile (?same r0) rs))"
    by (auto simp: aggregate_def)
  let ?ps = "ag (r0 # takeWhile (?same r0) rs)" and ?g0 = "g\<lparr>gb_proj := ps0\<rparr>"
  have "\<exists>more ls s'. group_loop fuel L C t (?g0, s) = Inr (?g0\<lparr>gb_proj := ?ps, gb_hasMore := more, gb_last := ls\<rparr>, s') \<and>
    (case dropWhile (same_group ty (gb_groupby ?g0) r0) rs of
       [] \<Rightarrow> \<not> more \<and> Q s'
     | r1 # rs1 \<Rightarrow> more \<and> frame_of C s' = r1 \<and> delivers_to (o_next C t) (frame_of C) s' rs1 Q \<and>
         group_inv ty (gb_groupby ?g0) r1 (gb_type ?g0) ls)"
    by (rule group_loop_run [OF less.prems(1,2)]) (use less.prems ps0(2) in simp_all)
  moreover have "?g0\<lparr>gb_proj := ?ps, gb_hasMore := more, gb_last := ls\<rparr> = g\<lparr>gb_proj := ?ps, gb_hasMore := more, gb_last := ls\<rparr>"
    "gb_groupby ?g0 = gb_groupby g" "gb_type ?g0 = gb_type g" for more ls by simp_all
  ultimately obtain more ls s' where lp: "group_loop fuel L C t (?g0, s) = Inr (g\<lparr>gb_proj := ?ps, gb_hasMore := more, gb_last := ls\<rparr>, s')"
    and rest: "case dropWhile (?same r0) rs of
       [] \<Rightarrow> \<not> more \<and> Q s'
     | r1 # rs1 \<Rightarrow> more \<and> frame_of C s' = r1 \<and> delivers_to (o_next C t) (frame_of C) s' rs1 Q \<and>
         group_inv ty (gb_groupby g) r1 (gb_type g) ls" by (simp only:) blast
  let ?g1 = "g\<lparr>gb_proj := ?ps, gb_hasMore := more, gb_last := ls, gb_rows := gb_rows g + 1\<rparr>"
  have nx: "groupby_next fuel L C t (g, s) = Inr (True, ?g1, s')"
    using less.prems(3,4) ps0(1) lp by (simp add: groupby_next_def)
  show ?case
  proof (cases "dropWhile (?same r0) rs")
    case Nil
    then have "\<not> more" using rest unfolding Nil by simp
    then have "groupby_next fuel L C t (?g1, s') = Inr (False, ?g1, s')" by (simp add: groupby_next_def)
    moreover have "runs ?same (dropWhile (?same r0) rs) = []" unfolding Nil by simp
    ultimately show ?thesis using nx by simp
  next
    case (Cons r1 rs1)
    have len: "length rs1 < length rs" using length_dropWhile_le [of "?same r0" rs] Cons by simp
    have static: "map aggr_static ?ps = map aggr_static (gb_proj g)"
    proof -
      have "map aggr_static ps0 = map aggr_static (gb_proj g)"
        by (rule traverse_static [OF ps0(1)]) (auto simp: aggr_start_def aggr_static_def)
      moreover have "foldR (\<lambda>ps fr. traverseR (aggr_add L fr) ps) ps xs = Inr qs \<Longrightarrow> map aggr_static qs = map aggr_static ps" for xs ps qs
        by (induction xs arbitrary: ps) (auto dest!: traverse_static dest: aggr_add_static)
      ultimately show ?thesis using ps0(2) by simp
    qed
    have sub: "set (r1 # rs1) \<subseteq> set rs" using set_dropWhileD [of _ "?same r0" rs] Cons by auto
    have "delivers_to (groupby_next fuel L C t) (\<lambda>(g, s). gb_proj g) (?g1, s')
      (map ag (runs (same_group ty (gb_groupby ?g1)) (r1 # rs1)))
      (\<lambda>(g', s'). gb_rows g' = gb_rows ?g1 + length (runs (same_group ty (gb_groupby ?g1)) (r1 # rs1)))"
    proof (rule less.hyps [OF len])
      show "delivers_to (o_next C t) (frame_of C) s' rs1 Q" "length rs1 < fuel" "frame_of C s' = r1" "gb_hasMore ?g1"
        "group_inv ty (gb_groupby ?g1) r1 (gb_type ?g1) (gb_last ?g1)"
        using rest Cons len less.prems(2) by simp_all
      show "list_all (groupable ty (gb_groupby ?g1)) (r1 # rs1)" using less.prems(6) sub by (auto simp: list_all_iff)
      show "list_all (\<lambda>run. aggregate L (gb_proj ?g1) run = Inr (ag run)) (runs (same_group ty (gb_groupby ?g1)) (r1 # rs1))"
        using less.prems(7) Cons aggregate_static [OF static] by simp
    qed
    then have "delivers_to (groupby_next fuel L C t) (\<lambda>(g, s). gb_proj g) (?g1, s') (map ag (runs ?same (r1 # rs1)))
      (\<lambda>(g', s'). gb_rows g' = gb_rows g + length ((r0 # takeWhile (?same r0) rs) # runs ?same (r1 # rs1)))"
      by (auto elim: delivers_to_mono simp del: runs.simps)
    moreover have "runs ?same (r0 # rs) = (r0 # takeWhile (?same r0) rs) # runs ?same (r1 # rs1)"
      by (simp only: runs.simps Cons)
    ultimately show ?thesis using nx by (simp del: runs.simps)
  qed
qed

text \<open>
  C13.  \<open>GROUP BY\<close> delivers one row for each maximal run of rows with equal group columns, in
  order, with every aggregate function folded over exactly the rows of the run, and reports the
  number of runs.  (The columns of the rows must be readable and comparable: a NaN is not.)
\<close>

theorem group_by_runs:
  assumes "o_begin C t s0 = Inr s" "delivers (o_next C t) (frame_of C) s rs" "length rs < fuel"
    and "list_all (groupable ty (gb_groupby g)) rs"
    and "list_all (\<lambda>run. aggregate L (gb_proj g) run = Inr (ag run)) (runs (same_group ty (gb_groupby g)) rs)"
  shows "\<exists>gs. o_begin (groupby_ops fuel L C) t (g, s0) = Inr gs \<and>
    delivers_to (o_next (groupby_ops fuel L C) t) (o_getResult (groupby_ops fuel L C)) gs
      (map (\<lambda>run. aggr_row L (ag run)) (runs (same_group ty (gb_groupby g)) rs))
      (\<lambda>gs'. o_getInfoString (groupby_ops fuel L C) gs' =
        Inr (''SELECT '' @ nat_to_string (length (runs (same_group ty (gb_groupby g)) rs))))"
proof -
  let ?runs = "runs (same_group ty (gb_groupby g)) rs"
  have main: "\<exists>gs. groupby_begin C t (g, s0) = Inr gs \<and>
    delivers_to (groupby_next fuel L C t) (\<lambda>(g, s). gb_proj g) gs (map ag ?runs) (\<lambda>(g', s'). gb_rows g' = length ?runs)"
  proof (cases rs)
    case Nil
    with assms(2) obtain s' where "o_next C t s = Inr (False, s')" by auto
    then show ?thesis using assms(1) Nil by (simp add: groupby_begin_def Let_def groupby_next_def)
  next
    case (Cons r0 rs')
    with assms(2) obtain s' where s': "o_next C t s = Inr (True, s')" "frame_of C s' = r0"
      "delivers (o_next C t) (frame_of C) s' rs'" by auto
    from group_value_start [of ty "gb_groupby g" r0] assms(4) Cons obtain tvs where
      tvs: "traverseR (group_value r0) (gb_groupby g) = Inr tvs"
      "group_inv ty (gb_groupby g) r0 (map fst tvs) (map snd tvs)" by auto
    let ?g = "g\<lparr>gb_rows := 0, gb_last := map snd tvs, gb_type := map fst tvs, gb_hasMore := True\<rparr>"
    have "groupby_begin C t (g, s0) = Inr (?g, s')"
      using assms(1) s'(1,2) tvs(1) by (simp add: groupby_begin_def Let_def)
    moreover have "delivers_to (groupby_next fuel L C t) (\<lambda>(g, s). gb_proj g) (?g, s')
      (map ag (runs (same_group ty (gb_groupby ?g)) (r0 # rs')))
      (\<lambda>(g', s'). gb_rows g' = gb_rows ?g + length (runs (same_group ty (gb_groupby ?g)) (r0 # rs')))"
      by (rule groupby_delivers [OF s'(3) _ s'(2)]) (use assms(3-5) Cons tvs(2) in simp_all)
    ultimately show ?thesis using Cons by auto
  qed
  then obtain gs where b: "groupby_begin C t (g, s0) = Inr gs"
    and d: "delivers_to (groupby_next fuel L C t) (\<lambda>(g, s). gb_proj g) gs (map ag ?runs) (\<lambda>(g', s'). gb_rows g' = length ?runs)"
    by blast
  have cur: "o_getResult (groupby_ops fuel L C) = (\<lambda>gs. aggr_row L (case gs of (g, s) \<Rightarrow> gb_proj g))"
    by (auto simp: groupby_ops_def groupby_getResult_row fun_eq_iff)
  have "delivers_to (o_next (groupby_ops fuel L C) t) (o_getResult (groupby_ops fuel L C)) gs
      (map (\<lambda>run. aggr_row L (ag run)) ?runs)
      (\<lambda>gs'. o_getInfoString (groupby_ops fuel L C) gs' = Inr (''SELECT '' @ nat_to_string (length ?runs)))"
    using delivers_to_map [OF d, of "aggr_row L"] unfolding cur
    by (simp add: groupby_ops_def comp_def) (erule delivers_to_mono, auto simp: groupby_getInfoString_def)
  then show ?thesis using b by (auto simp: groupby_ops_def)
qed

end
