(* ===== verification/Aggregates.thy ===== *)
theory Aggregates
  imports GroupPlans
begin

text \<open>
  What the aggregate functions of \<^verbatim>\<open>src/execution/GroupByPlan\<close> compute over the rows of a run.
\<close>

section \<open>One aggregate function over the rows of a run\<close>

definition aggregate_one :: "lib \<Rightarrow> frame list \<Rightarrow> aggr_func \<Rightarrow> aggr_func res" where
  "aggregate_one L run p = bindR (aggr_start (hd run) p) (\<lambda>q. foldR (\<lambda>q fr. aggr_add L fr q) q (tl run))"

lemma foldR_traverse_nth:
  assumes "foldR (\<lambda>ps fr. traverseR (f fr) ps) qs rs = Inr ps" "i < length qs"
  shows "foldR (\<lambda>q fr. f fr q) (qs ! i) rs = Inr (ps ! i)"
  using assms
proof (induction rs arbitrary: qs)
  case (Cons r rs)
  then obtain qs' where q: "traverseR (f r) qs = Inr qs'" "foldR (\<lambda>ps fr. traverseR (f fr) ps) qs' rs = Inr ps" by auto
  have "foldR (\<lambda>q fr. f fr q) (qs' ! i) rs = Inr (ps ! i)"
    by (rule Cons.IH [OF q(2)]) (simp add: traverseR_length [OF q(1)] Cons.prems(2))
  then show ?case by (simp add: traverseR_nth [OF q(1) Cons.prems(2)])
qed simp

lemma aggregate_pointwise:
  assumes "aggregate L projs run = Inr ps" "i < length projs"
  shows "aggregate_one L run (projs ! i) = Inr (ps ! i)"
proof -
  from assms(1) obtain qs where qs: "traverseR (aggr_start (hd run)) projs = Inr qs"
    "foldR (\<lambda>ps fr. traverseR (aggr_add L fr) ps) qs (tl run) = Inr ps" by (auto simp: aggregate_def)
  have "foldR (\<lambda>q fr. aggr_add L fr q) (qs ! i) (tl run) = Inr (ps ! i)"
    by (rule foldR_traverse_nth [OF qs(2)]) (simp add: traverseR_length [OF qs(1)] assms(2))
  then show ?thesis by (simp add: aggregate_one_def traverseR_nth [OF qs(1) assms(2)])
qed

section \<open>The value after some rows\<close>

definition int_of :: "eresult \<Rightarrow> int" where
  "int_of r = (case r of R_Int v \<Rightarrow> v | _ \<Rightarrow> 0)"

text \<open>
  What \<open>m_value\<close> stands for when the column had the values \<open>vs\<close>: \<open>h\<close> handles the type of the
  column.  A sum of integers is exact for the types below 64 bits, and modulo \<open>2 ^ 64\<close> above.
\<close>

fun aggregates :: "handler \<Rightarrow> FuncType \<Rightarrow> eresult list \<Rightarrow> eresult \<Rightarrow> bool" where
  "aggregates h FN_FIRST vs x = (x = r_cache (hd vs))"
| "aggregates h FN_COUNT vs x = True"
| "aggregates h FN_MIN vs x = (x \<in> r_cache ` set vs \<and> (\<forall>v \<in> set vs. cmp_val h x v \<le> 0))"
| "aggregates h FN_MAX vs x = (x \<in> r_cache ` set vs \<and> (\<forall>v \<in> set vs. cmp_val h v x \<le> 0))"
| "aggregates (H_Int T) _ vs x =
     (\<exists>s. x = R_Int s \<and> int_min T \<le> s \<and> s \<le> int_max T \<and> 2 ^ 64 dvd (s - sum_list (map int_of vs)) \<and>
        (T \<noteq> T_int64 \<longrightarrow> s = sum_list (map int_of vs)))"
| "aggregates _ _ vs x = True"

lemma aggregates_sum_other: "(\<And>T. h \<noteq> H_Int T) \<Longrightarrow> F \<in> {FN_SUM, FN_AVG} \<Longrightarrow> aggregates h F vs x"
  by (cases h; cases F) auto

lemma comparable_cache_h [simp]: "comparable h (r_cache v) = comparable h v"
  by (auto simp: comparable_def r_cache_def split: handler.splits eresult.splits)

lemma cmp_cache_h [simp]: "cmp_val h a (r_cache v) = cmp_val h a v"
proof -
  have "h_compare L h a (r_cache v) = h_compare L h a v" for L
    by (cases v; cases h) (simp_all add: r_cache_def h_compare_def string_compare_def isMaxString_def getString_def
        getInt_def getDouble_def r_toString_def)
  then show ?thesis by (simp add: cmp_val_def)
qed

lemma cmp_cache_left: "comparable h a \<Longrightarrow> comparable h v \<Longrightarrow> cmp_val h (r_cache a) v = cmp_val h a v"
  using handler_order.cmp_antisym [of h v "r_cache a"] handler_order.cmp_antisym [of h v a] by simp

lemma wrap64_dvd: "2 ^ 64 dvd (wrap64 v - v)"
proof -
  define m where "m = v mod (2 ^ 64 :: int)"
  have v: "v = 2 ^ 64 * (v div 2 ^ 64) + m" by (simp add: m_def)
  have "wrap64 v = m \<or> wrap64 v = m - 2 ^ 64" by (simp add: wrap64_def wrap_signed_def to_signed_def m_def)
  then have "wrap64 v - v = 2 ^ 64 * (- (v div 2 ^ 64)) \<or> wrap64 v - v = 2 ^ 64 * (- (v div 2 ^ 64) - 1)"
    using v by (simp add: right_diff_distrib) linarith
  then show ?thesis by (metis dvd_triv_left)
qed

section \<open>A further row\<close>

lemma aggr_add_min:
  assumes "aggregates h FN_MIN vs x" "\<forall>a \<in> set vs. comparable h a" "comparable h v" "vs \<noteq> []"
  shows "aggregates h FN_MIN (vs @ [v]) (if cmp_val h v x < 0 then r_cache v else x)"
proof -
  have x: "comparable h x" "x \<in> r_cache ` set vs" using assms(1,2) by auto
  have anti: "cmp_val h x v = - cmp_val h v x" by (rule handler_order.cmp_antisym [OF assms(3) x(1)])
  show ?thesis
  proof (cases "cmp_val h v x < 0")
    case True
    have "cmp_val h v a \<le> 0" if "a \<in> set vs" for a
      using handler_order.cmp_trans [OF assms(3) x(1), of a] assms(1,2) True that by auto
    then show ?thesis using True assms(2,3) handler_order.cmp_refl [OF assms(3)] by (auto simp: cmp_cache_left)
  next
    case False
    then show ?thesis using assms(1) anti by auto
  qed
qed

lemma aggr_add_max:
  assumes "aggregates h FN_MAX vs x" "\<forall>a \<in> set vs. comparable h a" "comparable h v" "vs \<noteq> []"
  shows "aggregates h FN_MAX (vs @ [v]) (if cmp_val h v x > 0 then r_cache v else x)"
proof -
  have x: "comparable h x" "x \<in> r_cache ` set vs" using assms(1,2) by auto
  have anti: "cmp_val h x v = - cmp_val h v x" by (rule handler_order.cmp_antisym [OF assms(3) x(1)])
  show ?thesis
  proof (cases "cmp_val h v x > 0")
    case True
    have "cmp_val h a v \<le> 0" if "a \<in> set vs" for a
      using handler_order.cmp_trans [of h a x v] assms x(1) True that anti by auto
    then show ?thesis using True assms(2,3) handler_order.cmp_refl [OF assms(3)] by auto
  next
    case False
    then show ?thesis using assms(1) by auto
  qed
qed

lemma aggr_add_sum:
  assumes "aggregates (H_Int T) F vs (R_Int a)" "F \<in> {FN_SUM, FN_AVG}" "int_min T \<le> b" "b \<le> int_max T"
    and "h_add L (H_Int T) (R_Int a) (R_Int b) = Inr s"
  shows "aggregates (H_Int T) F (vs @ [R_Int b]) s"
proof -
  let ?S = "sum_list (map int_of vs)"
  from assms(1,2) have a: "int_min T \<le> a" "a \<le> int_max T" "2 ^ 64 dvd (a - ?S)" "T \<noteq> T_int64 \<longrightarrow> a = ?S" by auto
  have s: "s = R_Int (wrap64 (a + b))" "int_min T \<le> wrap64 (a + b)" "wrap64 (a + b) \<le> int_max T"
    using assms(5) by (auto simp: h_add_def getInt_def Let_def checkInt_def split: if_splits)
  have "2 ^ 64 dvd ((wrap64 (a + b) - (a + b)) + (a - ?S))" by (rule dvd_add [OF wrap64_dvd a(3)])
  moreover have "(wrap64 (a + b) - (a + b)) + (a - ?S) = wrap64 (a + b) - (?S + b)" by simp
  ultimately have d: "2 ^ 64 dvd (wrap64 (a + b) - (?S + b))" by metis
  have "wrap64 (a + b) = a + b" if "T \<noteq> T_int64"
    using that a(1,2) assms(3,4) by (intro wrap64_id) (cases T; simp add: int64_range_def int_min_def int_max_def)
  then show ?thesis using assms(2) s d a(4) by (auto simp: int_of_def)
qed


section \<open>A run\<close>

text \<open>The rows of a run as the aggregate function reads them.\<close>

definition readable :: "DBDataType \<Rightarrow> handler \<Rightarrow> nat \<Rightarrow> frame \<Rightarrow> eresult \<Rightarrow> bool" where
  "readable t h i fr v \<longleftrightarrow> snd fr i = Inr t \<and> fst fr i t = Inr v \<and> comparable h v \<and>
     (\<forall>T. h = H_Int T \<longrightarrow> int_min T \<le> int_of v \<and> int_of v \<le> int_max T)"

definition aggr_inv :: "handler \<Rightarrow> eresult list \<Rightarrow> aggr_func \<Rightarrow> aggr_func \<Rightarrow> bool" where
  "aggr_inv h vs p q \<longleftrightarrow> aggr_static q = aggr_static p \<and> af_count q = length vs \<and> aggregates h (af_func q) vs (af_value q)"

lemma comparable_int: "comparable (H_Int T) v \<Longrightarrow> \<exists>x. v = R_Int x"
  by (auto simp: comparable_def split: eresult.splits)

lemma aggregates_step:
  assumes "aggregates h F vs x" "comparable h v" "\<And>T. h = H_Int T \<Longrightarrow> int_min T \<le> int_of v \<and> int_of v \<le> int_max T"
    and "h_add L h x v = Inr s" "F \<in> {FN_SUM, FN_AVG}"
  shows "aggregates h F (vs @ [v]) s"
proof (cases "\<exists>T. h = H_Int T")
  case True
  then obtain T b where T: "h = H_Int T" "v = R_Int b" using comparable_int assms(2) by blast
  moreover obtain a where "x = R_Int a" using assms(1,5) T(1) by auto
  ultimately show ?thesis using aggr_add_sum [of T F vs a b L s] assms by (simp add: int_of_def)
next
  case False
  then show ?thesis using assms(5) by (auto intro: aggregates_sum_other)
qed

lemma aggr_start_inv:
  assumes "readable t h (af_index p) fr v" "aggr_start fr p = Inr q"
  shows "aggr_inv h [v] p q"
proof -
  have q: "q = p\<lparr>af_value := r_cache v, af_count := 1\<rparr>" using assms by (simp add: aggr_start_def readable_def)
  have c: "comparable h v" using assms(1) by (simp add: readable_def)
  have "cmp_val h (r_cache v) v \<le> 0" "cmp_val h v (r_cache v) \<le> 0"
    using handler_order.cmp_refl [OF c] by (simp_all add: cmp_cache_left c)
  moreover have "aggregates (H_Int T) F [v] (r_cache v)" if "h = H_Int T" "F \<in> {FN_SUM, FN_AVG}" for T F
    using comparable_int [of T v] c assms(1) that by (auto simp: int_of_def r_cache_def readable_def)
  then have "aggregates h F [v] (r_cache v)" if "F \<in> {FN_SUM, FN_AVG}" for F
    using that by (cases "\<exists>T. h = H_Int T") (auto intro: aggregates_sum_other)
  ultimately have "aggregates h (af_func p) [v] (r_cache v)" by (cases "af_func p") simp_all
  then show ?thesis by (simp add: aggr_inv_def q aggr_static_def)
qed

lemma aggr_add_inv:
  assumes "readable t h (af_index p) fr v" "getHandler t = Some h" "aggr_inv h vs p q" "vs \<noteq> []"
    and "\<forall>a \<in> set vs. comparable h a" "aggr_add L fr q = Inr q'"
  shows "aggr_inv h (vs @ [v]) p q'"
proof -
  have i: "af_index q = af_index p" "af_count q = length vs" "aggregates h (af_func q) vs (af_value q)"
    using assms(3) unfolding aggr_inv_def aggr_static_def by auto
  have v: "snd fr (af_index q) = Inr t" "fst fr (af_index q) t = Inr v" "comparable h v"
    "h = H_Int T \<Longrightarrow> int_min T \<le> int_of v \<and> int_of v \<le> int_max T" for T
    using assms(1) i(1) by (auto simp: readable_def)
  have x: "comparable h (af_value q)" if "af_func q \<in> {FN_MIN, FN_MAX}" using i(3) that assms(5) by auto
  have cmp: "r_compare L v (af_value q) t = Inr (cmp_val h v (af_value q))" if "af_func q \<in> {FN_MIN, FN_MAX}"
    by (simp add: r_compare_def with_handler_def assms(2) h_compare_cmp_val [OF v(3) x [OF that]])
  have "af_count q' = length vs + 1 \<and> aggregates h (af_func q) (vs @ [v]) (af_value q')"
  proof (cases "af_func q")
    case FN_MIN
    with assms(6) cmp v(1,2) have "q' = q\<lparr>af_count := af_count q + 1,
        af_value := if cmp_val h v (af_value q) < 0 then r_cache v else af_value q\<rparr>"
      by (auto simp: aggr_add_def Let_def)
    then show ?thesis using aggr_add_min [OF _ assms(5) v(3) assms(4), of "af_value q"] i FN_MIN by (simp del: aggregates.simps)
  next
    case FN_MAX
    with assms(6) cmp v(1,2) have "q' = q\<lparr>af_count := af_count q + 1,
        af_value := if cmp_val h v (af_value q) > 0 then r_cache v else af_value q\<rparr>"
      by (auto simp: aggr_add_def Let_def)
    then show ?thesis using aggr_add_max [OF _ assms(5) v(3) assms(4), of "af_value q"] i FN_MAX by (simp del: aggregates.simps)
  next
    case FN_FIRST
    with assms(6) have "q' = q\<lparr>af_count := af_count q + 1\<rparr>" by (simp add: aggr_add_def)
    then show ?thesis using FN_FIRST i assms(4) by simp
  next
    case FN_COUNT
    with assms(6) have "q' = q\<lparr>af_count := af_count q + 1\<rparr>" by (simp add: aggr_add_def)
    then show ?thesis using FN_COUNT i by simp
  next
    case FN_SUM
    then obtain s where s: "h_add L h (af_value q) v = Inr s" "q' = q\<lparr>af_count := af_count q + 1, af_value := s\<rparr>"
      using assms(6) v(1,2) assms(2) by (auto simp: aggr_add_def Let_def r_add_def with_handler_def)
    then show ?thesis using aggregates_step [OF i(3) v(3) v(4) s(1)] FN_SUM i(2) by simp
  next
    case FN_AVG
    then obtain s where s: "h_add L h (af_value q) v = Inr s" "q' = q\<lparr>af_count := af_count q + 1, af_value := s\<rparr>"
      using assms(6) v(1,2) assms(2) by (auto simp: aggr_add_def Let_def r_add_def with_handler_def)
    then show ?thesis using aggregates_step [OF i(3) v(3) v(4) s(1)] FN_AVG i(2) by simp
  qed
  moreover have "aggr_static q' = aggr_static q" by (rule aggr_add_static [OF assms(6)])
  ultimately show ?thesis using assms(3) unfolding aggr_inv_def aggr_static_def by auto
qed

text \<open>
  C16.  What the functions of a \<open>GROUP BY\<close> hold after a run: the number of its rows; for \<open>FIRST\<close> the
  first value; for \<open>MIN\<close> and \<open>MAX\<close> a value of the run that no other value goes below or beyond; for
  \<open>SUM\<close> and \<open>AVG\<close> over integers the exact sum for 16 and 32 bits - a sum out of the range of the
  type is an error - and the sum modulo \<open>2 ^ 64\<close> for 64 bits, where the addition wraps silently.
\<close>

theorem aggregate_values:
  assumes "aggregate L projs run = Inr ps" "i < length projs" "run \<noteq> []" "getHandler t = Some h"
    and "list_all2 (readable t h (af_index (projs ! i))) run vs"
  shows "af_count (ps ! i) = length run \<and> aggregates h (af_func (projs ! i)) vs (af_value (ps ! i))"
proof -
  let ?p = "projs ! i"
  have inv: "aggr_inv h (us @ ws) ?p q'"
    if "foldR (\<lambda>q fr. aggr_add L fr q) q rs = Inr q'" "list_all2 (readable t h (af_index ?p)) rs ws"
      "aggr_inv h us ?p q" "us \<noteq> []" "\<forall>a \<in> set us. comparable h a" for rs q q' us ws
    using that
  proof (induction rs arbitrary: q us ws)
    case (Cons r rs)
    then obtain w ws' q1 where w: "ws = w # ws'" "readable t h (af_index ?p) r w" "list_all2 (readable t h (af_index ?p)) rs ws'"
      "aggr_add L r q = Inr q1" "foldR (\<lambda>q fr. aggr_add L fr q) q1 rs = Inr q'"
      by (auto simp: list_all2_Cons1)
    have "aggr_inv h ((us @ [w]) @ ws') ?p q'"
      by (rule Cons.IH [OF w(5,3) aggr_add_inv [OF w(2) assms(4) Cons.prems(3,4,5) w(4)]])
        (use Cons.prems(5) w(2) in \<open>auto simp: readable_def\<close>)
    then show ?case by (simp add: w(1))
  qed simp
  from assms(3,5) obtain r rs v ws where rv: "run = r # rs" "vs = v # ws" "readable t h (af_index ?p) r v"
    "list_all2 (readable t h (af_index ?p)) rs ws" by (cases run) (auto simp: list_all2_Cons1)
  from aggregate_pointwise [OF assms(1,2)] rv(1) obtain q where q: "aggr_start r ?p = Inr q"
    "foldR (\<lambda>q fr. aggr_add L fr q) q rs = Inr (ps ! i)" by (auto simp: aggregate_one_def)
  have "aggr_inv h ([v] @ ws) ?p (ps ! i)"
    by (rule inv [OF q(2) rv(4) aggr_start_inv [OF rv(3) q(1)]]) (use rv(3) in \<open>auto simp: readable_def\<close>)
  then show ?thesis using list_all2_lengthD [OF assms(5)] unfolding aggr_inv_def aggr_static_def rv(2) by auto
qed


section \<open>An example\<close>

text \<open>\<open>SELECT a, count(a), sum(a) ... GROUP BY a\<close> over the rows 1, 1 and 2.\<close>

definition ex_pairs :: const_plan where
  "ex_pairs = \<lparr>cp_current = 0, cp_columns = [''a''],
     cp_rows = map (\<lambda>v. PNode 0 NT_LIST OP_NONE v v [ex_int v]) [''1'', ''1'', ''2'']\<rparr>"

definition ex_pair_frame :: "string \<Rightarrow> frame" where
  "ex_pair_frame v = (const_value ex_lib (PNode 0 NT_LIST OP_NONE v v [ex_int v]), const_getResultType ex_pairs)"

definition ex_aggr :: "FuncType \<Rightarrow> nat \<Rightarrow> int \<Rightarrow> aggr_func" where
  "ex_aggr f n v = \<lparr>af_func = f, af_name = ''a'', af_index = 0, af_count = n, af_value = R_Int v\<rparr>"

definition ex_group :: groupby_plan where
  "ex_group = newGroupByPlan\<lparr>gb_proj := map (\<lambda>f. ex_aggr f 0 0) [FN_FIRST, FN_COUNT, FN_SUM], gb_groupby := [0]\<rparr>"

lemma ex_pairs_delivers:
  "delivers (o_next (const_ops ex_lib) False) (frame_of (const_ops ex_lib)) ex_pairs (map ex_pair_frame [''1'', ''1'', ''2''])"
  by (simp add: ex_pairs_def ex_pair_frame_def const_ops_def empty_ops_def frame_of_def const_next_def CheckCancellation_def
      const_getResult_def fun_eq_iff const_getResultType_def)

lemma ex_pair_value:
  "fst (ex_pair_frame ''1'') 0 DT_INT64 = Inr (R_Int 1)" "fst (ex_pair_frame ''2'') 0 DT_INT64 = Inr (R_Int 2)"
  "snd (ex_pair_frame ''1'') 0 = Inr DT_INT64" "snd (ex_pair_frame ''2'') 0 = Inr DT_INT64"
  by (simp_all add: ex_pair_frame_def ex_pairs_def const_eval)

lemma ex_pair_type: "snd (ex_pair_frame v) = const_getResultType ex_pairs" "const_getResultType ex_pairs 0 = Inr DT_INT64"
  by (simp_all add: ex_pair_frame_def ex_pairs_def const_eval)

lemma ex_pair_runs:
  "runs (same_group (const_getResultType ex_pairs) [0]) (map ex_pair_frame [''1'', ''1'', ''2'']) =
    [[ex_pair_frame ''1'', ex_pair_frame ''1''], [ex_pair_frame ''2'']]"
  by (simp add: same_group_def col_value_def col_cmp_def ex_pair_type ex_pair_value getHandler_def cmp_val_def h_compare_def
      getInt_def int_compare_def)

lemma ex_pair_aggregate:
  "aggregate ex_lib (gb_proj ex_group) [ex_pair_frame ''1'', ex_pair_frame ''1''] = Inr [ex_aggr FN_FIRST 2 1, ex_aggr FN_COUNT 2 1, ex_aggr FN_SUM 2 2]"
  "aggregate ex_lib (gb_proj ex_group) [ex_pair_frame ''2''] = Inr [ex_aggr FN_FIRST 1 2, ex_aggr FN_COUNT 1 2, ex_aggr FN_SUM 1 2]"
  by (simp_all add: aggregate_def ex_group_def newGroupByPlan_def ex_aggr_def aggr_start_def aggr_add_def ex_pair_value r_cache_def
      r_add_def with_handler_def getHandler_def h_add_def getInt_def checkInt_def int_min_def int_max_def wrap64_def wrap_signed_def
      to_signed_def)

theorem group_by_runs_witness:
  "\<exists>gs. o_begin (groupby_ops 5 ex_lib (const_ops ex_lib)) False (ex_group, ex_pairs) = Inr gs \<and>
    delivers_to (o_next (groupby_ops 5 ex_lib (const_ops ex_lib)) False) (o_getResult (groupby_ops 5 ex_lib (const_ops ex_lib))) gs
      [aggr_row ex_lib [ex_aggr FN_FIRST 2 1, ex_aggr FN_COUNT 2 1, ex_aggr FN_SUM 2 2],
       aggr_row ex_lib [ex_aggr FN_FIRST 1 2, ex_aggr FN_COUNT 1 2, ex_aggr FN_SUM 1 2]]
      (\<lambda>gs'. o_getInfoString (groupby_ops 5 ex_lib (const_ops ex_lib)) gs' = Inr (''SELECT '' @ nat_to_string 2))"
proof -
  define ag where "ag run = (if length run = 2 then [ex_aggr FN_FIRST 2 1, ex_aggr FN_COUNT 2 1, ex_aggr FN_SUM 2 2]
    else [ex_aggr FN_FIRST 1 2, ex_aggr FN_COUNT 1 2, ex_aggr FN_SUM 1 2])" for run :: "frame list"
  have g: "gb_groupby ex_group = [0]" by (simp add: ex_group_def newGroupByPlan_def)
  have b: "o_begin (const_ops ex_lib) False ex_pairs = Inr ex_pairs"
    by (simp add: const_ops_def empty_ops_def const_begin_def ex_pairs_def)
  have gr: "groupable (const_getResultType ex_pairs) [0] (ex_pair_frame v)" if "v \<in> {''1'', ''2''}" for v
    using that by (auto simp: groupable_def ex_pair_type ex_pair_value col_comparable_def getHandler_def comparable_def)
  have agr: "list_all (\<lambda>run. aggregate ex_lib (gb_proj ex_group) run = Inr (ag run))
    [[ex_pair_frame ''1'', ex_pair_frame ''1''], [ex_pair_frame ''2'']]"
    by (simp add: ex_pair_aggregate ag_def)
  have grs: "list_all (groupable (const_getResultType ex_pairs) [0]) (map ex_pair_frame [''1'', ''1'', ''2''])"
    using gr by simp
  have len: "length (map ex_pair_frame [''1'', ''1'', ''2'']) < 5" by simp
  have two: "length [[ex_pair_frame ''1'', ex_pair_frame ''1''], [ex_pair_frame ''2'']] = 2" by simp
  have res: "map (\<lambda>run. aggr_row ex_lib (ag run)) [[ex_pair_frame ''1'', ex_pair_frame ''1''], [ex_pair_frame ''2'']] =
    [aggr_row ex_lib [ex_aggr FN_FIRST 2 1, ex_aggr FN_COUNT 2 1, ex_aggr FN_SUM 2 2],
     aggr_row ex_lib [ex_aggr FN_FIRST 1 2, ex_aggr FN_COUNT 1 2, ex_aggr FN_SUM 1 2]]"
    by (simp add: ag_def)
  from group_by_runs [OF b ex_pairs_delivers len, of "const_getResultType ex_pairs" ex_group ex_lib ag,
      unfolded g ex_pair_runs, OF grs agr] show ?thesis unfolding two res .
qed

theorem aggregate_values_witness:
  "af_count (ex_aggr FN_SUM 2 2) = length [ex_pair_frame ''1'', ex_pair_frame ''1''] \<and>
   aggregates (H_Int T_int64) (af_func (gb_proj ex_group ! 2)) [R_Int 1, R_Int 1] (af_value (ex_aggr FN_SUM 2 2))"
proof -
  have p: "gb_proj ex_group ! 2 = ex_aggr FN_SUM 0 0" by (simp add: ex_group_def)
  have "list_all2 (readable DT_INT64 (H_Int T_int64) (af_index (gb_proj ex_group ! 2)))
      [ex_pair_frame ''1'', ex_pair_frame ''1''] [R_Int 1, R_Int 1]"
    by (simp add: readable_def p ex_aggr_def ex_pair_value comparable_def int_of_def int_min_def int_max_def)
  with aggregate_values [OF ex_pair_aggregate(1), of 2 DT_INT64 "H_Int T_int64" "[R_Int 1, R_Int 1]"]
  show ?thesis by (simp add: ex_group_def getHandler_def del: aggregates.simps)
qed

end
