(* ===== verification/MemPool.thy ===== *)
theory MemPool
  imports Config DataRows
begin

text \<open>
  Memory of the executor: the shared pool of blocks of \<^verbatim>\<open>src/common/GlobalMemBlockPool.cpp\<close> and
  the bump allocator of \<^verbatim>\<open>src/execution/ExecutionBuffer.cpp\<close>.  A block is a number; the null
  pointer is \<open>None\<close>.  Operations that may throw after changing their object return the outcome
  together with the changed state.
\<close>

section \<open>The block pool\<close>

text \<open>
  \<open>bp_next\<close> counts the blocks created so far.  The configured limit is a parameter;
  \<open>m_iTotalMem\<close> is a 64-bit counter that grows by one block size per call, so it is kept
  unbounded here.
\<close>

record block_pool =
  bp_freeBlocks :: "nat option list"
  bp_totalMem :: nat
  bp_next :: nat

definition newPool :: block_pool where
  "newPool = \<lparr>bp_freeBlocks = [], bp_totalMem = 0, bp_next = 0\<rparr>"

definition bp_alloc :: "nat \<Rightarrow> block_pool \<Rightarrow> nat option \<times> block_pool" where
  "bp_alloc limit p =
     (case bp_freeBlocks p of
        [] \<Rightarrow>
          (let p' = p\<lparr>bp_totalMem := bp_totalMem p + BLOCK_SIZE\<rparr>; iTotal = bp_totalMem p' in
           if iTotal > limit then (None, p')
           else (Some (bp_next p), p'\<lparr>bp_next := bp_next p + 1\<rparr>))
      | head # rest \<Rightarrow> (head, p\<lparr>bp_freeBlocks := rest\<rparr>))"

definition bp_free :: "nat option \<Rightarrow> block_pool \<Rightarrow> block_pool" where
  "bp_free b p = p\<lparr>bp_freeBlocks := bp_freeBlocks p @ [b]\<rparr>"

definition bp_freeAll :: "nat option list \<Rightarrow> block_pool \<Rightarrow> block_pool" where
  "bp_freeAll buffers p = foldl (\<lambda>p b. bp_free b p) p buffers"

text \<open>The blocks that are out with a client, and the invariant of the pool.\<close>

definition bp_held :: "block_pool \<Rightarrow> nat set" where
  "bp_held p = {b. b < bp_next p \<and> Some b \<notin> set (bp_freeBlocks p)}"

definition free_ids :: "block_pool \<Rightarrow> nat list" where
  "free_ids p = map the (filter (\<lambda>b. b \<noteq> None) (bp_freeBlocks p))"

definition bp_inv :: "nat \<Rightarrow> block_pool \<Rightarrow> bool" where
  "bp_inv limit p \<longleftrightarrow> distinct (free_ids p) \<and> (\<forall>b \<in> set (free_ids p). b < bp_next p) \<and>
     bp_next p * BLOCK_SIZE \<le> bp_totalMem p \<and> bp_next p * BLOCK_SIZE \<le> limit"

text \<open>
  The contract between the pool and its clients: a block handed out belongs to nobody else, a
  returned block stops being held, and nothing else changes hands.
\<close>

locale block_provider =
  fixes alloc :: "'p \<Rightarrow> 'b option \<times> 'p"
    and release :: "'b option \<Rightarrow> 'p \<Rightarrow> 'p"
    and held :: "'p \<Rightarrow> 'b set"
    and inv :: "'p \<Rightarrow> bool"
  assumes alloc_block: "inv p \<Longrightarrow> alloc p = (Some b, p') \<Longrightarrow> inv p' \<and> b \<notin> held p \<and> held p' = insert b (held p)"
    and alloc_null: "inv p \<Longrightarrow> alloc p = (None, p') \<Longrightarrow> inv p' \<and> held p' = held p"
    and release_block: "inv p \<Longrightarrow> b \<in> held p \<Longrightarrow> inv (release (Some b) p) \<and> held (release (Some b) p) = held p - {b}"
    and release_null: "inv p \<Longrightarrow> inv (release None p) \<and> held (release None p) = held p"
begin

lemma alloc_keeps: 
  assumes "inv p" "alloc p = (ob, p')"
  shows "inv p' \<and> held p \<subseteq> held p'"
proof (cases ob)
  case None
  then show ?thesis using alloc_null [of p p'] assms by simp
next
  case (Some b)
  then have "inv p' \<and> b \<notin> held p \<and> held p' = insert b (held p)" using alloc_block [of p b p'] assms by simp
  then show ?thesis by blast
qed

text \<open>Two clients that own disjoint sets of blocks stay disjoint when one of them allocates.\<close>

lemma alloc_separates:
  assumes "inv p" "mine \<subseteq> held p" "others \<subseteq> held p" "mine \<inter> others = {}" "alloc p = (Some b, p')"
  shows "insert b mine \<subseteq> held p' \<and> others \<subseteq> held p' \<and> insert b mine \<inter> others = {} \<and> b \<notin> mine"
  using alloc_block [OF assms(1,5)] assms(2-4) by auto

lemma release_all:
  assumes "inv p" "set bs \<subseteq> held p" "distinct bs"
  shows "inv (foldl (\<lambda>p b. release b p) p (map Some bs)) \<and>
    held (foldl (\<lambda>p b. release b p) p (map Some bs)) = held p - set bs"
  using assms
proof (induction bs arbitrary: p)
  case (Cons b bs)
  have "inv (release (Some b) p)" "held (release (Some b) p) = held p - {b}"
    using release_block [of p b] Cons.prems by auto
  then show ?case using Cons.IH [of "release (Some b) p"] Cons.prems by auto
qed simp

end

lemma free_ids_simps:
  "free_ids (p\<lparr>bp_freeBlocks := Some b # bs\<rparr>) = b # free_ids (p\<lparr>bp_freeBlocks := bs\<rparr>)"
  "free_ids (p\<lparr>bp_freeBlocks := None # bs\<rparr>) = free_ids (p\<lparr>bp_freeBlocks := bs\<rparr>)"
  "free_ids (p\<lparr>bp_freeBlocks := bs @ [Some b]\<rparr>) = free_ids (p\<lparr>bp_freeBlocks := bs\<rparr>) @ [b]"
  "free_ids (p\<lparr>bp_freeBlocks := bs @ [None]\<rparr>) = free_ids (p\<lparr>bp_freeBlocks := bs\<rparr>)"
  by (simp_all add: free_ids_def)

lemma set_free_ids: "b \<in> set (free_ids p) \<longleftrightarrow> Some b \<in> set (bp_freeBlocks p)"
  by (force simp: free_ids_def)

lemma bp_alloc_block:
  assumes "bp_inv limit p" "bp_alloc limit p = (Some b, p')"
  shows "bp_inv limit p' \<and> b \<notin> bp_held p \<and> bp_held p' = insert b (bp_held p)"
proof (cases "bp_freeBlocks p")
  case Nil
  then show ?thesis using assms
    by (auto simp: bp_alloc_def bp_inv_def bp_held_def free_ids_def Let_def split: if_splits)
next
  case (Cons x rest)
  then have p': "p = p\<lparr>bp_freeBlocks := Some b # rest\<rparr>" "p' = p\<lparr>bp_freeBlocks := rest\<rparr>"
    using assms(2) by (auto simp: bp_alloc_def)
  then have ids: "free_ids p = b # free_ids p'" using free_ids_simps(1) by metis
  have d: "b \<notin> set (free_ids p')" "b < bp_next p" "bp_next p' = bp_next p"
    using assms(1) ids arg_cong [OF p'(2), of bp_next] by (simp_all add: bp_inv_def)
  have "bp_held p = {x. x < bp_next p \<and> x \<notin> set (free_ids p)}" "bp_held p' = {x. x < bp_next p' \<and> x \<notin> set (free_ids p')}"
    by (simp_all add: bp_held_def set_free_ids)
  then have "bp_held p' = insert b (bp_held p) \<and> b \<notin> bp_held p"
    using d ids by auto
  then show ?thesis using assms(1) ids p'(2) by (simp add: bp_inv_def)
qed

lemma bp_alloc_null:
  assumes "bp_inv limit p" "bp_alloc limit p = (None, p')"
  shows "bp_inv limit p' \<and> bp_held p' = bp_held p"
  using assms
  by (cases "bp_freeBlocks p") (auto simp: bp_alloc_def bp_inv_def bp_held_def free_ids_def Let_def split: if_splits)

lemma bp_free_block:
  assumes "bp_inv limit p" "b \<in> bp_held p"
  shows "bp_inv limit (bp_free (Some b) p) \<and> bp_held (bp_free (Some b) p) = bp_held p - {b}"
proof -
  have "free_ids (bp_free (Some b) p) = free_ids p @ [b]" by (simp add: bp_free_def free_ids_def)
  moreover have "b \<notin> set (free_ids p)" "b < bp_next p"
    using assms(2) by (auto simp: bp_held_def set_free_ids)
  ultimately show ?thesis using assms(1) by (auto simp: bp_inv_def bp_held_def bp_free_def)
qed

lemma bp_free_null:
  "bp_inv limit p \<Longrightarrow> bp_inv limit (bp_free None p) \<and> bp_held (bp_free None p) = bp_held p"
  by (auto simp: bp_inv_def bp_held_def bp_free_def free_ids_def)

interpretation pool: block_provider "bp_alloc limit" bp_free bp_held "bp_inv limit" for limit
  by unfold_locales (rule bp_alloc_block bp_alloc_null bp_free_block bp_free_null; assumption)+

section \<open>The execution buffer\<close>

text \<open>
  \<open>doAlloc\<close> returns the block and the offset of the allocated bytes.  It has counted the bytes
  before it can fail, so the buffer is returned with every outcome.
\<close>

record exec_buffer =
  eb_blocks :: "nat list"
  eb_used :: nat
  eb_blockUsed :: nat
  eb_current :: nat
  eb_total :: nat

definition newExecutionBuffer :: "nat \<Rightarrow> exec_buffer" where
  "newExecutionBuffer sz = \<lparr>eb_blocks = [], eb_used = 0, eb_blockUsed = 0, eb_current = 0, eb_total = sz\<rparr>"

definition deleteExecutionBuffer :: "exec_buffer \<Rightarrow> block_pool \<Rightarrow> block_pool" where
  "deleteExecutionBuffer eb p = bp_freeAll (map Some (eb_blocks eb)) p"

definition doAlloc :: "nat \<Rightarrow> nat \<Rightarrow> exec_buffer \<Rightarrow> block_pool \<Rightarrow> (err + nat \<times> nat) \<times> exec_buffer \<times> block_pool" where
  "doAlloc limit sz eb p =
     (if sz > BLOCK_SIZE then (Inl (ExecutionException ''request buffer too large''), eb, p)
      else let eb1 = eb\<lparr>eb_used := eb_used eb + sz\<rparr> in
      if eb_used eb1 > eb_total eb1 then (Inl (ExecutionException ''not enough buffer''), eb1, p)
      else let eb2 = (if eb_blockUsed eb1 + sz > BLOCK_SIZE
                      then eb1\<lparr>eb_current := eb_current eb1 + 1, eb_blockUsed := sz\<rparr>
                      else eb1\<lparr>eb_blockUsed := eb_blockUsed eb1 + sz\<rparr>) in
      if eb_current eb2 = length (eb_blocks eb2) then
        (case bp_alloc limit p of
           (Some b, p') \<Rightarrow> (Inr (b, eb_blockUsed eb2 - sz), eb2\<lparr>eb_blocks := eb_blocks eb2 @ [b]\<rparr>, p')
         | (None, p') \<Rightarrow> (Inl (ExecutionException ''Not enough execution buffer''), eb2, p'))
      else if eb_current eb2 < length (eb_blocks eb2)
      then (Inr (eb_blocks eb2 ! eb_current eb2, eb_blockUsed eb2 - sz), eb2, p)
      else (Inl (Stuck ''m_bufferBlocks[m_iCurrentBlock]''), eb2, p))"

text \<open>The bytes of all blocks, and a row as \<open>DataRow\<close> keeps it: where it starts and how long it is.\<close>

type_synonym heap = "nat \<Rightarrow> nat \<Rightarrow> byte"

record data_row =
  dr_block :: nat
  dr_offset :: nat
  dr_size :: nat

record memory =
  m_pool :: block_pool
  m_heap :: heap

definition write_bytes :: "nat \<Rightarrow> nat \<Rightarrow> byte list \<Rightarrow> heap \<Rightarrow> heap" where
  "write_bytes b off bs h =
     h(b := (\<lambda>i. if off \<le> i \<and> i < off + length bs then bs ! (i - off) else h b i))"

definition row_bytes :: "heap \<Rightarrow> data_row \<Rightarrow> byte list" where
  "row_bytes h r = map (\<lambda>i. h (dr_block r) (dr_offset r + i)) [0..<dr_size r]"

text \<open>A row that cannot be written throws after the allocation; nothing reads the bytes it may have set.\<close>

definition copyRow ::
  "lib \<Rightarrow> nat \<Rightarrow> eresult list \<Rightarrow> DBDataType list \<Rightarrow> exec_buffer \<Rightarrow> memory \<Rightarrow> (err + data_row) \<times> exec_buffer \<times> memory" where
  "copyRow L limit results types eb m =
     (case row_computeSize L types results of
        Inl e \<Rightarrow> (Inl e, eb, m)
      | Inr rowSize \<Rightarrow>
          (case doAlloc limit rowSize eb (m_pool m) of
             (Inl e, eb', p') \<Rightarrow> (Inl e, eb', m\<lparr>m_pool := p'\<rparr>)
           | (Inr (b, off), eb', p') \<Rightarrow>
               (case row_copy L types results of
                  Inl e \<Rightarrow> (Inl e, eb', m\<lparr>m_pool := p'\<rparr>)
                | Inr bs \<Rightarrow> (Inr \<lparr>dr_block = b, dr_offset = off, dr_size = rowSize\<rparr>, eb',
                     m\<lparr>m_pool := p', m_heap := write_bytes b off bs (m_heap m)\<rparr>))))"

definition eb_getResult :: "heap \<Rightarrow> DBDataType list \<Rightarrow> data_row \<Rightarrow> nat \<Rightarrow> eresult res" where
  "eb_getResult h types r index = row_getResult types (row_bytes h r) index"

definition eb_compare :: "lib \<Rightarrow> heap \<Rightarrow> DBDataType list \<Rightarrow> data_row \<Rightarrow> data_row \<Rightarrow> nat \<Rightarrow> int res" where
  "eb_compare L h types row1 row2 index = row_compareAt L types (row_bytes h row1) (row_bytes h row2) index"

definition eb_allocString ::
  "nat \<Rightarrow> byte list \<Rightarrow> exec_buffer \<Rightarrow> memory \<Rightarrow> (err + data_row) \<times> exec_buffer \<times> memory" where
  "eb_allocString limit src eb m =
     (case doAlloc limit (length src) eb (m_pool m) of
        (Inl e, eb', p') \<Rightarrow> (Inl e, eb', m\<lparr>m_pool := p'\<rparr>)
      | (Inr (b, off), eb', p') \<Rightarrow>
          (Inr \<lparr>dr_block = b, dr_offset = off, dr_size = length src\<rparr>, eb',
           m\<lparr>m_pool := p', m_heap := write_bytes b off src (m_heap m)\<rparr>))"

section \<open>Live rows\<close>

definition apart :: "data_row \<Rightarrow> data_row \<Rightarrow> bool" where
  "apart r q \<longleftrightarrow> dr_block r \<noteq> dr_block q \<or> dr_offset r + dr_size r \<le> dr_offset q \<or> dr_offset q + dr_size q \<le> dr_offset r"

definition row_inside :: "exec_buffer \<Rightarrow> data_row \<Rightarrow> bool" where
  "row_inside eb r \<longleftrightarrow> dr_block r \<in> set (eb_blocks eb) \<and> dr_offset r + dr_size r \<le> BLOCK_SIZE \<and>
     (dr_block r = last (eb_blocks eb) \<longrightarrow> dr_offset r + dr_size r \<le> eb_blockUsed eb)"

text \<open>The invariant of a buffer that has handed out the regions \<open>rs\<close>, latest first.\<close>

definition eb_inv :: "block_pool \<Rightarrow> exec_buffer \<Rightarrow> data_row list \<Rightarrow> bool" where
  "eb_inv p eb rs \<longleftrightarrow>
     distinct (eb_blocks eb) \<and> set (eb_blocks eb) \<subseteq> bp_held p \<and>
     (if eb_blocks eb = [] then eb_current eb = 0 \<and> eb_blockUsed eb = 0
      else Suc (eb_current eb) = length (eb_blocks eb)) \<and>
     eb_blockUsed eb \<le> BLOCK_SIZE \<and> eb_used eb = sum_list (map dr_size rs) \<and>
     eb_used eb \<le> eb_total eb \<and>
     (\<forall>r \<in> set rs. row_inside eb r) \<and> sorted_wrt apart rs"

lemma newExecutionBuffer_inv: "eb_inv p (newExecutionBuffer sz) []"
  by (simp add: eb_inv_def newExecutionBuffer_def)

text \<open>The three ways an allocation can succeed.\<close>

lemma doAlloc_InrE:
  assumes "doAlloc limit sz eb p = (Inr (b, off), eb', p')" "eb_inv p eb rs"
  obtains
    (same) "p' = p" "eb_blocks eb \<noteq> []" "b = last (eb_blocks eb)" "off = eb_blockUsed eb"
      "off + sz \<le> BLOCK_SIZE" "eb_used eb + sz \<le> eb_total eb"
      "eb' = eb\<lparr>eb_used := eb_used eb + sz, eb_blockUsed := off + sz\<rparr>"
  | (fresh) cur where "bp_alloc limit p = (Some b, p')" "off = 0" "sz \<le> BLOCK_SIZE" "eb_used eb + sz \<le> eb_total eb"
      "cur = length (eb_blocks eb)"
      "eb' = eb\<lparr>eb_used := eb_used eb + sz, eb_current := cur, eb_blockUsed := sz, eb_blocks := eb_blocks eb @ [b]\<rparr>"
proof -
  have sz: "sz \<le> BLOCK_SIZE" "eb_used eb + sz \<le> eb_total eb"
    using assms(1) by (auto simp: doAlloc_def Let_def split: if_splits)
  show ?thesis
  proof (cases "eb_blocks eb = []")
    case True
    then have "eb_current eb = 0" "eb_blockUsed eb = 0" using assms(2) by (auto simp: eb_inv_def)
    then show ?thesis using assms(1) sz True
      by (intro fresh [of 0]) (auto simp: doAlloc_def Let_def split: if_splits prod.splits option.splits)
  next
    case False
    then have cur: "Suc (eb_current eb) = length (eb_blocks eb)" using assms(2) by (simp add: eb_inv_def)
    show ?thesis
    proof (cases "eb_blockUsed eb + sz > BLOCK_SIZE")
      case True
      then show ?thesis using assms(1) sz cur
        by (intro fresh [of "Suc (eb_current eb)"])
          (auto simp: doAlloc_def Let_def split: if_splits prod.splits option.splits)
    next
      case small: False
      have "last (eb_blocks eb) = eb_blocks eb ! eb_current eb"
        using False cur by (metis One_nat_def diff_Suc_1 last_conv_nth)
      then show ?thesis using assms(1) sz cur small False
        by (intro same) (auto simp: doAlloc_def Let_def split: if_splits)
    qed
  qed
qed

lemma row_inside_grow:
  assumes "row_inside eb q" "eb_blocks eb \<noteq> []" "eb_blockUsed eb \<le> u"
  shows "row_inside (eb\<lparr>eb_used := v, eb_blockUsed := u\<rparr>) q"
  using assms by (auto simp: row_inside_def)

lemma row_inside_new_block:
  assumes "row_inside eb q" "b \<notin> set (eb_blocks eb)"
  shows "row_inside (eb\<lparr>eb_used := v, eb_current := c, eb_blockUsed := u, eb_blocks := eb_blocks eb @ [b]\<rparr>) q"
  using assms by (auto simp: row_inside_def)

lemma doAlloc_inv:
  assumes "doAlloc limit sz eb p = (Inr (b, off), eb', p')" "eb_inv p eb rs" "bp_inv limit p"
  defines "r \<equiv> \<lparr>dr_block = b, dr_offset = off, dr_size = sz\<rparr>"
  shows "eb_inv p' eb' (r # rs) \<and> bp_inv limit p' \<and> bp_held p \<subseteq> bp_held p' \<and>
    set (eb_blocks eb') \<subseteq> set (eb_blocks eb) \<union> (bp_held p' - bp_held p)"
  using assms(1,2)
proof (cases rule: doAlloc_InrE)
  case same
  note i = assms(2) [unfolded eb_inv_def]
  have rows: "row_inside eb' q" if "q \<in> set rs" for q
    unfolding same using i that same by (intro row_inside_grow) auto
  have "row_inside eb' r" using same i by (auto simp: row_inside_def r_def)
  moreover have "\<forall>q \<in> set rs. apart r q"
    using i same by (auto simp: apart_def r_def row_inside_def)
  moreover have "eb_used eb' = sum_list (map dr_size (r # rs))" "eb_blocks eb' = eb_blocks eb"
    using i same by (simp_all add: r_def)
  ultimately show ?thesis using i same rows assms(3) by (simp add: eb_inv_def)
next
  case (fresh cur)
  note i = assms(2) [unfolded eb_inv_def]
  from pool.alloc_block [OF assms(3) fresh(1)] have
    b: "bp_inv limit p'" "b \<notin> bp_held p" "bp_held p' = insert b (bp_held p)" by auto
  have nb: "b \<notin> set (eb_blocks eb)" using b i by auto
  have rows: "row_inside eb' q" if "q \<in> set rs" for q
    unfolding fresh using i that nb by (intro row_inside_new_block) auto
  have r: "row_inside eb' r" using fresh i by (auto simp: row_inside_def r_def)
  have ap: "\<forall>q \<in> set rs. apart r q"
    using i nb by (auto simp: apart_def r_def row_inside_def)
  have used: "eb_used eb' = sum_list (map dr_size (r # rs))" and bl: "eb_blocks eb' = eb_blocks eb @ [b]"
    using i fresh by (simp_all add: r_def)
  have held: "set (eb_blocks eb') \<subseteq> bp_held p'" "distinct (eb_blocks eb')"
    using i bl b nb by auto
  have st: "Suc (eb_current eb') = length (eb_blocks eb')" "eb_blockUsed eb' \<le> BLOCK_SIZE" "eb_used eb' \<le> eb_total eb'"
    using fresh by simp_all
  have "sorted_wrt apart (r # rs)" using i ap by simp
  then have "eb_inv p' eb' (r # rs)"
    unfolding eb_inv_def using used held st r rows bl by simp
  moreover have "set (eb_blocks eb') \<subseteq> set (eb_blocks eb) \<union> (bp_held p' - bp_held p)"
    using bl b by auto
  ultimately show ?thesis using b by blast
qed

lemma row_bytes_write_apart:
  assumes "apart q r" "dr_block r = b" "dr_offset r = off" "dr_size r = length bs"
  shows "row_bytes (write_bytes b off bs h) q = row_bytes h q"
proof -
  have "write_bytes b off bs h (dr_block q) (dr_offset q + i) = h (dr_block q) (dr_offset q + i)"
    if i: "i < dr_size q" for i
  proof (cases "dr_block q = b")
    case True
    then have "dr_offset q + dr_size q \<le> off \<or> off + length bs \<le> dr_offset q"
      using assms by (simp add: apart_def)
    then show ?thesis using i by (auto simp: write_bytes_def)
  qed (simp add: write_bytes_def)
  then show ?thesis by (simp add: row_bytes_def)
qed

lemma row_bytes_write_same:
  "row_bytes (write_bytes b off bs h) \<lparr>dr_block = b, dr_offset = off, dr_size = length bs\<rparr> = bs"
  by (rule nth_equalityI) (simp_all add: row_bytes_def write_bytes_def)

lemma copyRow_InrE:
  assumes "copyRow L limit results types eb m = (Inr r, eb', m')" "list_all2 column_ok types results"
  obtains bs p' where "row_copy L types results = Inr bs" "dr_size r = length bs"
    "doAlloc limit (length bs) eb (m_pool m) = (Inr (dr_block r, dr_offset r), eb', p')"
    "m' = m\<lparr>m_pool := p', m_heap := write_bytes (dr_block r) (dr_offset r) bs (m_heap m)\<rparr>"
proof -
  from row_copy_ok [OF column_ok_rows(1) [OF assms(2)], of L] obtain bs where
    bs: "row_copy L types results = Inr bs" "row_computeSize L types results = Inr (length bs)" .
  with assms(1) show ?thesis
    by (intro that [of bs "m_pool m'"]) (auto simp: copyRow_def split: prod.splits sum.splits)
qed

lemma copyRow_keeps:
  assumes "copyRow L limit results types eb m = (Inr r, eb', m')" "list_all2 column_ok types results"
    and "eb_inv (m_pool m) eb rs" "bp_inv limit (m_pool m)"
  shows "eb_inv (m_pool m') eb' (r # rs) \<and> bp_inv limit (m_pool m') \<and>
    (\<forall>q \<in> set rs. row_bytes (m_heap m') q = row_bytes (m_heap m) q) \<and>
    row_getResults types (row_bytes (m_heap m') r) = Inr (map2 stored_column types results) \<and>
    (\<forall>b. b \<in> bp_held (m_pool m) - set (eb_blocks eb) \<longrightarrow> m_heap m' b = m_heap m b \<and> b \<notin> set (eb_blocks eb'))"
proof -
  from assms(1,2) obtain bs p' where bs: "row_copy L types results = Inr bs" "dr_size r = length bs"
    "doAlloc limit (length bs) eb (m_pool m) = (Inr (dr_block r, dr_offset r), eb', p')"
    "m' = m\<lparr>m_pool := p', m_heap := write_bytes (dr_block r) (dr_offset r) bs (m_heap m)\<rparr>"
    by (rule copyRow_InrE)
  have r: "r = \<lparr>dr_block = dr_block r, dr_offset = dr_offset r, dr_size = length bs\<rparr>"
    using bs(2) by simp
  note k = doAlloc_inv [OF bs(3) assms(3,4), folded r]
  have inv: "eb_inv p' eb' (r # rs)" "bp_inv limit p'" using k by auto
  have "row_bytes (m_heap m') q = row_bytes (m_heap m) q" if "q \<in> set rs" for q
  proof -
    have "apart r q" using inv(1) that by (simp add: eb_inv_def)
    then have "apart q r" by (auto simp: apart_def)
    then show ?thesis using bs(2,4) by (simp add: row_bytes_write_apart)
  qed
  moreover have "row_bytes (m_heap m') r = bs"
    using row_bytes_write_same [of "dr_block r" "dr_offset r" bs "m_heap m", folded r] bs(4) by simp
  then have "row_getResults types (row_bytes (m_heap m') r) = Inr (map2 stored_column types results)"
    using row_getResults_copy [OF assms(2) bs(1), of "[]"] by simp
  moreover have "m_heap m' b = m_heap m b \<and> b \<notin> set (eb_blocks eb')"
    if "b \<in> bp_held (m_pool m) - set (eb_blocks eb)" for b
  proof -
    have "b \<notin> set (eb_blocks eb')" using k that by blast
    moreover have "dr_block r \<in> set (eb_blocks eb')" using inv(1) by (simp add: eb_inv_def row_inside_def)
    ultimately show ?thesis using bs(4) by (auto simp: write_bytes_def)
  qed
  ultimately show ?thesis using inv bs(4) by simp
qed

section \<open>Pool traffic\<close>

text \<open>
  What the clients of the pool do, in any order: take a block, give a held block back, or give
  back a null pointer (an owner whose allocation failed does so when it is destroyed).
\<close>

inductive pool_step :: "nat \<Rightarrow> block_pool \<Rightarrow> block_pool \<Rightarrow> bool" for limit where
  step_alloc: "bp_alloc limit p = (b, p') \<Longrightarrow> pool_step limit p p'"
| step_free: "b \<in> bp_held p \<Longrightarrow> pool_step limit p (bp_free (Some b) p)"
| step_free_null: "pool_step limit p (bp_free None p)"

inductive_cases pool_stepE: "pool_step limit p p'"

inductive pool_steps :: "nat \<Rightarrow> block_pool \<Rightarrow> block_pool \<Rightarrow> bool" for limit where
  steps_refl: "pool_steps limit p p"
| steps_step: "pool_steps limit p q \<Longrightarrow> pool_step limit q r \<Longrightarrow> pool_steps limit p r"

lemma pool_step_inv: "pool_step limit p p' \<Longrightarrow> bp_inv limit p \<Longrightarrow> bp_inv limit p'"
  by (erule pool_stepE) (use pool.alloc_keeps pool.release_block pool.release_null in blast)+

lemma newPool_inv: "bp_inv limit newPool"
  by (simp add: bp_inv_def newPool_def free_ids_def)

lemma reachable_inv: "pool_steps limit p q \<Longrightarrow> bp_inv limit p \<Longrightarrow> bp_inv limit q"
  by (induction rule: pool_steps.induct) (auto intro: pool_step_inv)

section \<open>Properties\<close>



text \<open>
  C20.  A row copied into an execution buffer lies inside one of its blocks, apart from all rows
  copied before; it reads back as the stored values, the earlier rows keep their bytes, and the
  blocks of every other owner are left alone.
\<close>

theorem copied_rows_stay:
  assumes "eb_inv (m_pool m) eb rs" "bp_inv limit (m_pool m)" "list_all2 column_ok types results"
    and "copyRow L limit results types eb m = (Inr r, eb', m')"
  shows "eb_inv (m_pool m') eb' (r # rs) \<and>
    row_getResults types (row_bytes (m_heap m') r) = Inr (map2 stored_column types results) \<and>
    (\<forall>q \<in> set rs. apart r q \<and> row_bytes (m_heap m') q = row_bytes (m_heap m) q) \<and>
    (\<forall>b \<in> bp_held (m_pool m) - set (eb_blocks eb). m_heap m' b = m_heap m b)"
proof -
  note k = copyRow_keeps [OF assms(4,3,1,2)]
  then have "\<forall>q \<in> set rs. apart r q" by (simp add: eb_inv_def)
  then show ?thesis using k by blast
qed

theorem copied_rows_stay_witness:
  "\<exists>r eb' m'. copyRow ex_lib 1000000 (ex_row 7 ''ab'') ex_types (newExecutionBuffer 100)
       \<lparr>m_pool = newPool, m_heap = (\<lambda>_ _. 0)\<rparr> = (Inr r, eb', m') \<and>
     row_getResults ex_types (row_bytes (m_heap m') r) = Inr [R_Int 7, R_StringView ''ab'']"
proof -
  let ?m = "\<lparr>m_pool = newPool, m_heap = (\<lambda>_ _. 0)\<rparr>"
  have ok: "list_all2 column_ok ex_types (ex_row 7 ''ab'')" by (rule ex_row_ok) simp_all
  from row_copy_ok [OF column_ok_rows(1) [OF ok], of ex_lib] obtain bs where
    bs: "row_copy ex_lib ex_types (ex_row 7 ''ab'') = Inr bs"
    "row_computeSize ex_lib ex_types (ex_row 7 ''ab'') = Inr (length bs)" .
  have "row_computeSize ex_lib ex_types (ex_row 7 ''ab'') = Inr 8"
    by (simp add: ex_types_def ex_row_def with_handler_def getHandler_def h_getSize_def int_size_def
        isMaxString_def getString_def)
  then have "length bs = 8" using bs(2) by simp
  then obtain r eb' m' where c: "copyRow ex_lib 1000000 (ex_row 7 ''ab'') ex_types (newExecutionBuffer 100) ?m = (Inr r, eb', m')"
    using bs by (simp add: copyRow_def doAlloc_def newExecutionBuffer_def newPool_def bp_alloc_def BLOCK_SIZE_def Let_def)
  have "map2 stored_column ex_types (ex_row 7 ''ab'') = [R_Int 7, R_StringView ''ab'']"
    by (simp add: ex_types_def ex_row_def stored_column_def stored_def getHandler_def)
  moreover have "eb_inv (m_pool ?m) (newExecutionBuffer 100) []" "bp_inv 1000000 (m_pool ?m)"
    using newExecutionBuffer_inv newPool_inv by simp_all
  ultimately have "row_getResults ex_types (row_bytes (m_heap m') r) = Inr [R_Int 7, R_StringView ''ab'']"
    using copied_rows_stay [OF _ _ ok c] by auto
  then show ?thesis using c by blast
qed

end
