(* ===== verification/LevelDB.thy ===== *)
theory LevelDB
  imports Config DataRows
begin

text \<open>
  The storage engine, \<^verbatim>\<open>src/execution/LevelDBHandler.h\<close> and \<^verbatim>\<open>LevelDBHandler.cpp\<close>.  LevelDB is
  not part of the repository: its operations are the fields of \<open>leveldb\<close>, a parameter of every
  definition that uses them, and \<open>iter_laws\<close> states the documented behaviour of its iterators.
\<close>

section \<open>Interface\<close>

datatype batch_op = Put "byte list" "byte list" | Del "byte list"

text \<open>
  \<open>'it\<close> is an iterator, \<open>'db\<close> a database with its files.  \<open>ldb_write\<close> returns the text of the status
  when the write fails; \<open>ldb_sizes\<close> is \<open>GetApproximateSizes\<close> for one range.
\<close>

record 'it leveldb_iter =
  it_valid :: "'it \<Rightarrow> bool"
  it_key :: "'it \<Rightarrow> byte list"
  it_value :: "'it \<Rightarrow> byte list"
  it_first :: "'it \<Rightarrow> 'it"
  it_last :: "'it \<Rightarrow> 'it"
  it_next :: "'it \<Rightarrow> 'it"
  it_prev :: "'it \<Rightarrow> 'it"
  it_seek :: "byte list \<Rightarrow> 'it \<Rightarrow> 'it"

record ('db, 'it) leveldb =
  ldb_iter :: "'it leveldb_iter"
  ldb_open :: "DBDataType list \<Rightarrow> string \<Rightarrow> string + 'db"
  ldb_newIterator :: "'db \<Rightarrow> 'it"
  ldb_write :: "batch_op list \<Rightarrow> 'db \<Rightarrow> string + 'db"
  ldb_sizes :: "byte list \<Rightarrow> byte list \<Rightarrow> 'db \<Rightarrow> nat"

text \<open>
  An iterator stands on one of the entries of its snapshot, in comparator order, or beyond the
  last.  \<open>ents\<close> and \<open>pos\<close> read the snapshot and the position off an iterator.
\<close>

definition iter_laws ::
  "'it leveldb_iter \<Rightarrow> (byte list \<Rightarrow> byte list \<Rightarrow> int) \<Rightarrow> ('it \<Rightarrow> (byte list \<times> byte list) list) \<Rightarrow> ('it \<Rightarrow> nat) \<Rightarrow> bool" where
  "iter_laws I cmp ents pos \<longleftrightarrow> (\<forall>it k.
     it_valid I it = (pos it < length (ents it)) \<and>
     (pos it < length (ents it) \<longrightarrow> (it_key I it, it_value I it) = ents it ! pos it) \<and>
     ents (it_first I it) = ents it \<and> pos (it_first I it) = 0 \<and>
     ents (it_last I it) = ents it \<and> pos (it_last I it) = length (ents it) - 1 \<and>
     ents (it_next I it) = ents it \<and> (pos it < length (ents it) \<longrightarrow> pos (it_next I it) = Suc (pos it)) \<and>
     ents (it_prev I it) = ents it \<and>
     (pos it < length (ents it) \<longrightarrow> pos (it_prev I it) = (if pos it = 0 then length (ents it) else pos it - 1)) \<and>
     ents (it_seek I k it) = ents it \<and>
     pos (it_seek I k it) = length (takeWhile (\<lambda>e. cmp (fst e) k < 0) (ents it)))"

section \<open>Handlers\<close>

definition key_types :: "table_info \<Rightarrow> DBDataType list res" where
  "key_types T = traverseR (\<lambda>i. mapR c_type (getKeyColumn T i)) [0..<getKeyCount T]"

text \<open>\<open>LevelDBHandler::LevelDBHandler\<close>.\<close>

definition newLevelDBHandler :: "('db, 'it) leveldb \<Rightarrow> table_info \<Rightarrow> 'db res" where
  "newLevelDBHandler D T =
     bindR (key_types T) (\<lambda>types.
     bindR (getAttribute T ''path'') (\<lambda>sPath.
     (case ldb_open D types sPath of
        Inl status \<Rightarrow> Inl (ExecutionException (''Failed to open leveldb '' @ sPath @ '': '' @ status))
      | Inr db \<Rightarrow> Inr db)))"

text \<open>\<open>s_handlers\<close>: the databases opened so far, one per table, found by the address of the table.\<close>

type_synonym 'db handlers = "(nat \<times> 'db) list"

definition getLevelDBHandler ::
  "('db, 'it) leveldb \<Rightarrow> nat \<Rightarrow> table_info \<Rightarrow> 'db handlers \<Rightarrow> err + 'db \<times> 'db handlers" where
  "getLevelDBHandler D p T hs =
     (case map_of hs p of
        Some db \<Rightarrow> Inr (db, hs)
      | None \<Rightarrow> bindR (newLevelDBHandler D T) (\<lambda>db. Inr (db, (p, db) # hs)))"

definition batch_insert :: "byte list \<Rightarrow> byte list \<Rightarrow> batch_op list \<Rightarrow> batch_op list" where
  "batch_insert key v b = b @ [Put key v]"

definition batch_remove :: "byte list \<Rightarrow> batch_op list \<Rightarrow> batch_op list" where
  "batch_remove key b = b @ [Del key]"

definition batch_clear :: "batch_op list \<Rightarrow> batch_op list" where
  "batch_clear b = []"

definition commit :: "('db, 'it) leveldb \<Rightarrow> batch_op list \<Rightarrow> 'db \<Rightarrow> 'db res" where
  "commit D b db = (case ldb_write D b db of
       Inl status \<Rightarrow> Inl (ExecutionException (''Failed to write to leveldb'' @ status))
     | Inr db' \<Rightarrow> Inr db')"

definition createIterator :: "('db, 'it) leveldb \<Rightarrow> 'db \<Rightarrow> 'it" where
  "createIterator D db = ldb_newIterator D db"

text \<open>
  \<open>getCost\<close> asks for the sizes of two ranges, the second one default-constructed, but has room for
  one answer: the second is written past the end of \<open>sizes\<close>.
\<close>

definition getCost_ranges :: nat where "getCost_ranges = 2"
definition getCost_room :: nat where "getCost_room = 1"

definition getCost :: "('db, 'it) leveldb \<Rightarrow> byte list \<Rightarrow> byte list \<Rightarrow> 'db \<Rightarrow> nat res" where
  "getCost D start end' db =
     (if getCost_ranges > getCost_room then Inl (Stuck ''sizes[1]'') else Inr (ldb_sizes D start end' db))"

section \<open>A sorted list as a snapshot\<close>

text \<open>An iterator over a list of entries; it meets the documented behaviour.\<close>

type_synonym list_iter = "(byte list \<times> byte list) list \<times> nat"

definition list_iterator :: "(byte list \<Rightarrow> byte list \<Rightarrow> int) \<Rightarrow> list_iter leveldb_iter" where
  "list_iterator cmp = \<lparr>
     it_valid = (\<lambda>(es, i). i < length es),
     it_key = (\<lambda>(es, i). fst (es ! i)),
     it_value = (\<lambda>(es, i). snd (es ! i)),
     it_first = (\<lambda>(es, i). (es, 0)),
     it_last = (\<lambda>(es, i). (es, length es - 1)),
     it_next = (\<lambda>(es, i). (es, Suc i)),
     it_prev = (\<lambda>(es, i). (es, if i = 0 then length es else i - 1)),
     it_seek = (\<lambda>k (es, i). (es, length (takeWhile (\<lambda>e. cmp (fst e) k < 0) es)))\<rparr>"

lemma list_iterator_laws: "iter_laws (list_iterator cmp) cmp fst snd"
  by (auto simp: iter_laws_def list_iterator_def)

end
