(* ===== verification/KeySearchRange.thy ===== *)
theory KeySearchRange
  imports LevelDB
begin

text \<open>
  Search ranges over the key of a table: \<^verbatim>\<open>src/execution/KeySearchRange.h\<close> and
  \<^verbatim>\<open>KeySearchRange.cpp\<close>.  The constructor picks the comparisons of an \<open>AND\<close> that bound the key,
  turns them into a first and a last key and tells which comparisons need no further filter.
\<close>

section \<open>The range\<close>

record key_pred =
  kp_keyIndex :: int
  kp_value :: pnode
  kp_op :: Operation
  kp_expr :: string

definition no_pred :: key_pred where
  "no_pred = \<lparr>kp_keyIndex = -1, kp_value = NullNode, kp_op = OP_NONE, kp_expr = []\<rparr>"

record key_range =
  kr_predicates :: "key_pred list"
  kr_endPredicate :: key_pred
  kr_startRow :: "byte list"
  kr_endRow :: "byte list"
  kr_startInclusive :: bool
  kr_endInclusive :: bool
  kr_seekToFirst :: bool
  kr_seekToLast :: bool
  kr_startResults :: "eresult list"
  kr_endResults :: "eresult list"
  kr_keyTypes :: "DBDataType list"

section \<open>Collecting the comparisons\<close>

type_synonym pred_state = "key_pred list \<times> key_pred"

definition setPredicateInfo ::
  "table_info \<Rightarrow> Operation \<Rightarrow> pnode \<Rightarrow> pnode \<Rightarrow> pnode \<Rightarrow> pred_state \<Rightarrow> pred_state res" where
  "setPredicateInfo T op pKey pValue pPredicate = (\<lambda>(ps, e).
     (case getColumnByName T (n_value pKey) of
        None \<Rightarrow> Inl (Stuck ''pKeyColumn->m_iKeyIndex'')
      | Some c \<Rightarrow>
         (let i = nat (c_keyIndex c);
              info = \<lparr>kp_keyIndex = c_keyIndex c, kp_value = pValue, kp_op = op, kp_expr = n_expr pPredicate\<rparr> in
          if c_keyIndex c < 0 then Inr (ps, e)
          else if i \<ge> length ps then Inl (Stuck ''m_predicates[m_iKeyIndex]'')
          else (case op of
              COMP_EQ \<Rightarrow> Inr (ps[i := info], e)
            | COMP_GT \<Rightarrow> if kp_op (ps ! i) = COMP_EQ then Inr (ps, e) else Inr (ps[i := info], e)
            | COMP_GE \<Rightarrow> if kp_op (ps ! i) = COMP_EQ \<or> kp_op (ps ! i) = COMP_GT then Inr (ps, e)
                         else Inr (ps[i := info], e)
            | COMP_LE \<Rightarrow> if kp_op e = COMP_LT then Inr (ps, e) else Inr (ps, info)
            | COMP_LT \<Rightarrow> Inr (ps, info)
            | _ \<Rightarrow> Inr (ps, e)))))"

definition reverseOp :: "Operation \<Rightarrow> Operation option" where
  "reverseOp op = (case op of
       COMP_EQ \<Rightarrow> Some COMP_EQ
     | COMP_LE \<Rightarrow> Some COMP_GE
     | COMP_LT \<Rightarrow> Some COMP_GT
     | COMP_GT \<Rightarrow> Some COMP_LT
     | COMP_GE \<Rightarrow> Some COMP_LE
     | _ \<Rightarrow> None)"

definition setComparison :: "table_info \<Rightarrow> pnode \<Rightarrow> pred_state \<Rightarrow> pred_state res" where
  "setComparison T pPredicate st =
     (case reverseOp (n_op pPredicate) of
        None \<Rightarrow> Inr st
      | Some rop \<Rightarrow>
          bindR (getChild pPredicate 0) (\<lambda>pLeft.
          bindR (getChild pPredicate 1) (\<lambda>pRight.
          if pLeft = NullNode \<or> pRight = NullNode then Inl (Stuck ''pLeft->m_type'')
          else if n_type pLeft = NT_NAME \<and> isConst pRight then
            setPredicateInfo T (n_op pPredicate) pLeft pRight pPredicate st
          else if n_type pRight = NT_NAME \<and> isConst pLeft then
            setPredicateInfo T rop pRight pLeft pPredicate st
          else Inr st)))"

fun doSetPredicate :: "table_info \<Rightarrow> pnode \<Rightarrow> pred_state \<Rightarrow> pred_state res" where
  "doSetPredicate T NullNode st = Inr st"
| "doSetPredicate T (PNode a t op e v cs) st =
     (if t \<noteq> NT_OP then Inr st
      else if op = OP_AND then foldR (\<lambda>st c. doSetPredicate T c st) st cs
      else setComparison T (PNode a t op e v cs) st)"

section \<open>Choosing the bounds\<close>

text \<open>
  The first loop of the constructor.  \<open>rf_solved\<close> are the expressions inserted into \<open>pSolved\<close>, in
  order; \<open>rf_keyValid\<close> is the local variable \<open>keyValid\<close>.
\<close>

record range_flags =
  rf_keyValid :: bool
  rf_end :: key_pred
  rf_startInclusive :: bool
  rf_endInclusive :: bool
  rf_seekToFirst :: bool
  rf_seekToLast :: bool
  rf_solved :: "string list"

definition scan_end :: "nat \<Rightarrow> Operation \<Rightarrow> range_flags \<Rightarrow> range_flags" where
  "scan_end i op f =
     (if (kp_op (rf_end f) = COMP_LT \<or> kp_op (rf_end f) = COMP_LE) \<and> int i = kp_keyIndex (rf_end f) then
        (if \<not> rf_keyValid f \<or> op = COMP_EQ
         then f\<lparr>rf_end := (rf_end f)\<lparr>kp_op := OP_NONE, kp_keyIndex := -1\<rparr>\<rparr>
         else f\<lparr>rf_endInclusive := (kp_op (rf_end f) = COMP_LE), rf_keyValid := False,
                rf_solved := rf_solved f @ [kp_expr (rf_end f)], rf_seekToLast := False\<rparr>)
      else f)"

definition scan_start :: "key_pred \<Rightarrow> range_flags \<Rightarrow> range_flags" where
  "scan_start info f =
     (case kp_op info of
        COMP_EQ \<Rightarrow> f\<lparr>rf_solved := rf_solved f @ [kp_expr info], rf_seekToFirst := False, rf_seekToLast := False\<rparr>
      | COMP_GT \<Rightarrow> f\<lparr>rf_startInclusive := False, rf_keyValid := False,
                     rf_solved := rf_solved f @ [kp_expr info], rf_seekToFirst := False\<rparr>
      | COMP_GE \<Rightarrow> f\<lparr>rf_startInclusive := True, rf_keyValid := False,
                     rf_solved := rf_solved f @ [kp_expr info], rf_seekToFirst := False\<rparr>
      | OP_NONE \<Rightarrow> f\<lparr>rf_keyValid := False\<rparr>
      | _ \<Rightarrow> f)"

fun scan_predicates :: "nat \<Rightarrow> key_pred list \<Rightarrow> range_flags \<Rightarrow> key_pred list \<times> range_flags" where
  "scan_predicates i [] f = ([], f)"
| "scan_predicates i (p # ps) f =
     (let info = (if rf_keyValid f then p else p\<lparr>kp_op := OP_NONE\<rparr>);
          f' = scan_start info (scan_end i (kp_op info) f);
          (ps', f'') = scan_predicates (Suc i) ps f'
      in (info # ps', f''))"

definition initial_flags :: "key_pred \<Rightarrow> range_flags" where
  "initial_flags e = \<lparr>rf_keyValid = True, rf_end = e, rf_startInclusive = True, rf_endInclusive = True,
     rf_seekToFirst = True, rf_seekToLast = True, rf_solved = []\<rparr>"

text \<open>The second loop: the values of the first and of the last key, column by column.\<close>

definition end_value ::
  "lib \<Rightarrow> nat \<Rightarrow> key_pred \<Rightarrow> handler \<Rightarrow> bool \<Rightarrow> err + eresult \<times> bool" where
  "end_value L i e h nextEndMax =
     (if int i = kp_keyIndex e
      then bindR (h_fromNode L h (kp_value e) R_Null) (\<lambda>r. Inr (r, kp_op e = COMP_LE))
      else Inr (if nextEndMax then h_setToMax h else h_setToMin h, nextEndMax))"

fun fill_bounds ::
  "lib \<Rightarrow> table_info \<Rightarrow> key_pred \<Rightarrow> nat \<Rightarrow> DBDataType list \<Rightarrow> key_pred list \<Rightarrow> bool \<Rightarrow> bool \<Rightarrow> (eresult \<times> eresult) list res" where
  "fill_bounds L T e i (t # ts) (info # ps) nextStartMax nextEndMax =
     bindR (getKeyColumn T i) (\<lambda>_.
     with_handler t (\<lambda>h.
     (case kp_op info of
        COMP_EQ \<Rightarrow>
          bindR (h_fromNode L h (kp_value info) R_Null) (\<lambda>r.
          mapR ((#) (r, r)) (fill_bounds L T e (Suc i) ts ps nextStartMax nextEndMax))
      | op \<Rightarrow>
          bindR (if op = COMP_GE \<or> op = COMP_GT then h_fromNode L h (kp_value info) R_Null
                 else Inr (if nextStartMax then h_setToMax h else h_setToMin h)) (\<lambda>s.
          bindR (end_value L i e h nextEndMax) (\<lambda>(r, nextEndMax').
          mapR ((#) (s, r)) (fill_bounds L T e (Suc i) ts ps
            (if op = COMP_GE then False else if op = COMP_GT then True else nextStartMax) nextEndMax'))))))"
| "fill_bounds L T e i _ _ nextStartMax nextEndMax = Inr []"

definition newKeySearchRange ::
  "lib \<Rightarrow> DBDataType list \<Rightarrow> table_info \<Rightarrow> pnode \<Rightarrow> err + key_range \<times> string list" where
  "newKeySearchRange L keyTypes T pNode =
     bindR (doSetPredicate T pNode (replicate (length keyTypes) no_pred, no_pred)) (\<lambda>(ps, e).
     let (ps', f) = scan_predicates 0 ps (initial_flags e) in
     bindR (fill_bounds L T (rf_end f) 0 keyTypes ps' False True) (\<lambda>bounds.
     let starts = map fst bounds; ends = map snd bounds in
     bindR (row_computeSize L keyTypes starts) (\<lambda>_.
     bindR (row_copy L keyTypes starts) (\<lambda>startRow.
     bindR (row_computeSize L keyTypes ends) (\<lambda>_.
     bindR (row_copy L keyTypes ends) (\<lambda>endRow.
     Inr (\<lparr>kr_predicates = ps', kr_endPredicate = rf_end f, kr_startRow = startRow, kr_endRow = endRow,
            kr_startInclusive = rf_startInclusive f, kr_endInclusive = rf_endInclusive f,
            kr_seekToFirst = rf_seekToFirst f, kr_seekToLast = rf_seekToLast f,
            kr_startResults = starts, kr_endResults = ends, kr_keyTypes = keyTypes\<rparr>, rf_solved f)))))))"

section \<open>Using a range\<close>

text \<open>The comparison loop shared by \<open>exceedEnd\<close>, \<open>exceedEndReversed\<close> and \<open>compareStart\<close>.\<close>

fun compare_values :: "lib \<Rightarrow> DBDataType list \<Rightarrow> eresult list \<Rightarrow> eresult list \<Rightarrow> int res" where
  "compare_values L (t # ts) (x # xs) (y # ys) =
     with_handler t (\<lambda>h. bindR (h_compare L h x y) (\<lambda>n. if n \<noteq> 0 then Inr n else compare_values L ts xs ys))"
| "compare_values L [] _ _ = Inr 0"
| "compare_values L (t # ts) _ _ = Inl (Stuck ''keyValues[i]'')"

definition exceedEnd :: "lib \<Rightarrow> key_range \<Rightarrow> eresult list \<Rightarrow> bool res" where
  "exceedEnd L r keyValues =
     (if kr_seekToLast r then Inr False
      else bindR (compare_values L (kr_keyTypes r) keyValues (kr_endResults r)) (\<lambda>n.
        if n = 0 \<and> \<not> kr_endInclusive r then Inr True else if n > 0 then Inr True else Inr False))"

definition exceedEndReversed :: "lib \<Rightarrow> key_range \<Rightarrow> eresult list \<Rightarrow> bool res" where
  "exceedEndReversed L r keyValues =
     (if kr_seekToFirst r then Inr False
      else bindR (compare_values L (kr_keyTypes r) keyValues (kr_startResults r)) (\<lambda>n.
        if n = 0 \<and> \<not> kr_startInclusive r then Inr True else if n < 0 then Inr True else Inr False))"

definition compareStart :: "lib \<Rightarrow> key_range \<Rightarrow> key_range \<Rightarrow> int res" where
  "compareStart L r q =
     (if kr_seekToFirst r then (if kr_seekToFirst q then Inr 0 else Inr (-1))
      else if kr_seekToFirst q then Inr 1
      else compare_values L (kr_keyTypes r) (kr_startResults r) (kr_startResults q))"

definition startAfterEnd :: "lib \<Rightarrow> key_range \<Rightarrow> key_range \<Rightarrow> bool res" where
  "startAfterEnd L r q =
     (if kr_seekToFirst r \<or> kr_seekToLast q then Inr False
      else bindR (compare_values L (kr_keyTypes r) (kr_startResults r) (kr_endResults q)) (\<lambda>n.
        if n > 0 then Inr True
        else if n < 0 then Inr False
        else Inr (\<not> kr_endInclusive q \<or> \<not> kr_startInclusive r)))"

text \<open>The loops over the iterator take fuel, one unit per entry visited.\<close>

fun skip_equal :: "nat \<Rightarrow> lib \<Rightarrow> 'it leveldb_iter \<Rightarrow> key_range \<Rightarrow> 'it \<Rightarrow> 'it res" where
  "skip_equal 0 L I r it = Inl OutOfFuel"
| "skip_equal (Suc fuel) L I r it =
     (if \<not> it_valid I it then Inr it
      else bindR (row_compare L (kr_keyTypes r) (it_key I it) (kr_startRow r)) (\<lambda>n.
        if n > 0 then Inr it else skip_equal fuel L I r (it_next I it)))"

definition seekStart :: "nat \<Rightarrow> lib \<Rightarrow> 'it leveldb_iter \<Rightarrow> key_range \<Rightarrow> 'it \<Rightarrow> 'it res" where
  "seekStart fuel L I r it =
     (if kr_seekToFirst r then Inr (it_first I it)
      else let it1 = it_seek I (kr_startRow r) it in
           if \<not> kr_startInclusive r then skip_equal fuel L I r it1 else Inr it1)"

fun back_up :: "nat \<Rightarrow> lib \<Rightarrow> 'it leveldb_iter \<Rightarrow> key_range \<Rightarrow> 'it \<Rightarrow> 'it res" where
  "back_up 0 L I r it = Inl OutOfFuel"
| "back_up (Suc fuel) L I r it =
     (if \<not> it_valid I it then Inr it
      else bindR (row_compare L (kr_keyTypes r) (it_key I it) (kr_endRow r)) (\<lambda>n.
        if n = 0 \<and> kr_endInclusive r then Inr it
        else if n < 0 then Inr it
        else back_up fuel L I r (it_prev I it)))"

definition seekStartReversed :: "nat \<Rightarrow> lib \<Rightarrow> 'it leveldb_iter \<Rightarrow> key_range \<Rightarrow> 'it \<Rightarrow> 'it res" where
  "seekStartReversed fuel L I r it =
     (if kr_seekToLast r then Inr (it_last I it)
      else let it1 = it_seek I (kr_endRow r) it in
           if \<not> it_valid I it1 then Inr (it_last I it1) else back_up fuel L I r it1)"

definition join_results :: "lib \<Rightarrow> eresult list \<Rightarrow> string \<Rightarrow> string" where
  "join_results L rs s = butlast (s @ concat (map (\<lambda>r. r_toString L r @ ''|'') rs))"

definition kr_toString :: "lib \<Rightarrow> key_range \<Rightarrow> string" where
  "kr_toString L r =
     (let s1 = join_results L (kr_startResults r) (if kr_startInclusive r then ''range ['' else ''range ('');
          s2 = join_results L (kr_endResults r) (s1 @ '', '')
      in s2 @ (if kr_endInclusive r then '']'' else '')''))"

definition kr_getCost :: "('db, 'it) leveldb \<Rightarrow> key_range \<Rightarrow> 'db \<Rightarrow> nat res" where
  "kr_getCost D r db = getCost D (kr_startRow r) (kr_endRow r) db"

end
