(* ===== verification/RangeLaws.thy ===== *)
theory RangeLaws
  imports KeySearchRange
begin

text \<open>
  Correctness of \<^verbatim>\<open>src/execution/KeySearchRange.cpp\<close>.  \<open>key_bounds\<close> is the abstract specification
  of a range: an equality prefix, then at most one lower and one upper bound on the next column,
  then free columns.  The constructor refines it, and a key is between its two bounds exactly
  when it satisfies the comparisons they were made from.
\<close>

section \<open>Least and greatest values\<close>

lemma f_to_d_finite:
  assumes "0 \<le> m" "m < f_inf_mag"
  obtains x where "0 \<le> x" "x \<le> d_inf_mag" "\<forall>s. f_to_d (mk_float s m) = mk_double s x"
proof -
  obtain m' e' where de: "fp_decode 24 (-149) m = (m', e')" by (cases "fp_decode 24 (-149) m")
  have m': "0 \<le> m'" using fp_decode_nonneg [of m 24 "-149"] de assms(1) by simp
  let ?x = "fp_round 53 (-1074) d_inf_mag m' e'"
  have "0 \<le> ?x" "?x \<le> d_inf_mag" using m' by (auto intro: fp_round_bounds simp: d_inf_mag_def)
  moreover have "f_to_d (mk_float s m) = mk_double s ?x" for s
  proof -
    have "f_sign (mk_float s m) = s" "f_mag (mk_float s m) = m"
      using assms uint_mk_float [of m s] by (simp_all add: f_sign_def f_mag_def f_inf_mag_def)
    then show ?thesis using de assms(2) by (simp add: f_to_d_def d_round_def)
  qed
  ultimately show ?thesis using that by blast
qed

lemma float_limits:
  "\<not> d_is_nan (float_max t) \<and> \<not> d_is_nan (float_lowest t) \<and> d_key (float_lowest t) = - d_key (float_max t) \<and>
   0 \<le> d_key (float_max t)"
proof (cases t)
  case T_float
  have "0 \<le> f_inf_mag - 1" "f_inf_mag - 1 < f_inf_mag" by (simp_all add: f_inf_mag_def)
  then obtain x where x: "0 \<le> x" "x \<le> d_inf_mag" "\<forall>s. f_to_d (mk_float s (f_inf_mag - 1)) = mk_double s x"
    by (rule f_to_d_finite)
  then have "x < 2 ^ 63" by (simp add: d_inf_mag_def)
  then show ?thesis
    using x by (simp add: T_float float_max_def float_lowest_def flt_max_def flt_lowest_def d_is_nan_mk_double d_key_def)
next
  case T_double
  then show ?thesis
    by (simp add: float_max_def float_lowest_def d_max_def d_lowest_def d_is_nan_mk_double d_key_def d_inf_mag_def)
qed

lemma d_key_neg: "d_key (d_neg d) = - d_key d"
  using d_mag_bounds [of d] by (simp add: d_key_def d_neg_def)

lemma d_is_nan_neg: "d_is_nan (d_neg d) = d_is_nan d"
  using d_mag_bounds [of d] by (simp add: d_is_nan_def d_neg_def)

lemma float_ok_limits:
  assumes "float_ok t d"
  shows "d_key (float_lowest t) \<le> d_key d \<and> d_key d \<le> d_key (float_max t)"
proof -
  have z: "\<not> d_is_nan d_zero" "d_key d_zero = 0"
    by (simp_all add: d_zero_def d_is_nan_def d_mag_def d_inf_mag_def d_key_def d_sign_def)
  show ?thesis
    using assms float_limits [of t] z
    by (cases "d_less d_zero d") (auto simp: float_ok_def d_less_def d_key_neg d_is_nan_neg)
qed

definition type_min :: "DBDataType \<Rightarrow> eresult" where
  "type_min t = (case getHandler t of Some h \<Rightarrow> h_setToMin h | None \<Rightarrow> R_Null)"

definition type_max :: "DBDataType \<Rightarrow> eresult" where
  "type_max t = (case getHandler t of Some h \<Rightarrow> h_setToMax h | None \<Rightarrow> R_Null)"

lemma type_limits:
  assumes "column_ok t k"
  shows "type_cmp t k (type_min t) \<ge> 0 \<and> type_cmp t k (type_max t) \<le> 0"
proof -
  from assms obtain h where h: "getHandler t = Some h" "value_ok h k"
    by (auto simp: column_ok_def split: option.splits)
  have "cmp_val h k (h_setToMin h) \<ge> 0 \<and> cmp_val h k (h_setToMax h) \<le> 0"
  proof (cases h)
    case (H_Float ft)
    then obtain d where d: "k = R_Double d" "float_ok ft d" using h(2) by (auto simp: value_ok_def split: eresult.splits)
    then show ?thesis
      using float_ok_limits [OF d(2)] float_limits [of ft]
      by (auto simp: H_Float h_setToMin_def h_setToMax_def cmp_val_simps float_ok_def int_compare_def)
  next
    case H_String
    then obtain s where "k = R_StringView s \<or> k = R_String s" using h(2) by (auto simp: value_ok_def split: eresult.splits)
    moreover have "str_compare s [] \<ge> 0" by (cases s) auto
    ultimately show ?thesis
      by (auto simp: H_String h_setToMin_def h_setToMax_def cmp_val_string comparable_def text_of_def)
  qed (use h(2) in \<open>auto simp: value_ok_def h_setToMin_def h_setToMax_def cmp_val_simps handler_int_def int_compare_def split: eresult.splits\<close>)
  then show ?thesis using h(1) by (simp add: type_cmp_def type_min_def type_max_def)
qed

lemma lex_limits:
  assumes "list_all2 column_ok ts ks"
  shows "lex_compare type_cmp ts ks (map type_min ts) \<ge> 0" "lex_compare type_cmp ts ks (map type_max ts) \<le> 0"
proof -
  show "lex_compare type_cmp ts ks (map type_min ts) \<ge> 0"
    using assms by (induction rule: list_all2_induct) (use type_limits in \<open>force simp: Let_def\<close>)+
  show "lex_compare type_cmp ts ks (map type_max ts) \<le> 0"
    using assms by (induction rule: list_all2_induct) (use type_limits in \<open>force simp: Let_def\<close>)+
qed

section \<open>The specification of a range\<close>

text \<open>
  A comparison in use: key position, operator, value and expression.  \<open>use_holds\<close> is its meaning
  for a row of key values.
\<close>

type_synonym key_use = "nat \<times> Operation \<times> eresult \<times> string"

definition op_holds :: "Operation \<Rightarrow> int \<Rightarrow> bool" where
  "op_holds op n = (case op of
       COMP_EQ \<Rightarrow> n = 0 | COMP_NE \<Rightarrow> n \<noteq> 0 | COMP_LE \<Rightarrow> n \<le> 0 | COMP_LT \<Rightarrow> n < 0 | COMP_GT \<Rightarrow> n > 0 | COMP_GE \<Rightarrow> n \<ge> 0
     | _ \<Rightarrow> False)"

definition use_holds :: "nat \<Rightarrow> DBDataType list \<Rightarrow> eresult list \<Rightarrow> key_use \<Rightarrow> bool" where
  "use_holds i ts ks = (\<lambda>(j, op, v, x). i \<le> j \<and> j - i < length ts \<and> op_holds op (type_cmp (ts ! (j - i)) (ks ! (j - i)) v))"

text \<open>
  \<open>key_bounds i ts ss es si ei us\<close>: for the key columns from position \<open>i\<close> on, \<open>ss\<close> is the first
  key, \<open>es\<close> the last, \<open>si\<close> and \<open>ei\<close> tell whether they are included, \<open>us\<close> are the comparisons in use.
\<close>

inductive key_bounds ::
  "nat \<Rightarrow> DBDataType list \<Rightarrow> eresult list \<Rightarrow> eresult list \<Rightarrow> bool \<Rightarrow> bool \<Rightarrow> key_use list \<Rightarrow> bool" where
  kb_end: "key_bounds i [] [] [] True True []"
| kb_eq: "key_bounds (Suc i) ts ss es si ei us \<Longrightarrow>
    key_bounds i (t # ts) (v # ss) (v # es) si ei ((i, COMP_EQ, v, x) # us)"
| kb_last:
    "lo \<in> {(type_min t, True, []), (v, True, [(i, COMP_GE, v, x)]), (v, False, [(i, COMP_GT, v, x)])} \<Longrightarrow>
     up \<in> {(type_max t, True, []), (w, True, [(i, COMP_LE, w, y)]), (w, False, [(i, COMP_LT, w, y)])} \<Longrightarrow>
     lo = (s, si, us) \<Longrightarrow> up = (e, ei, us') \<Longrightarrow>
     key_bounds i (t # ts) (s # map (if si then type_min else type_max) ts)
       (e # map (if ei then type_max else type_min) ts) si ei (us' @ us)"

definition above :: "DBDataType list \<Rightarrow> eresult list \<Rightarrow> eresult list \<Rightarrow> bool \<Rightarrow> bool" where
  "above ts ks ss si \<longleftrightarrow> lex_compare type_cmp ts ks ss > 0 \<or> lex_compare type_cmp ts ks ss = 0 \<and> si"

definition below :: "DBDataType list \<Rightarrow> eresult list \<Rightarrow> eresult list \<Rightarrow> bool \<Rightarrow> bool" where
  "below ts ks es ei \<longleftrightarrow> lex_compare type_cmp ts ks es < 0 \<or> lex_compare type_cmp ts ks es = 0 \<and> ei"

lemma use_holds_here:
  "use_holds i (t # ts) (k # ks) (i, op, v, x) \<longleftrightarrow> op_holds op (type_cmp t k v)"
  by (simp add: use_holds_def)

lemma use_holds_Suc: "Suc i \<le> fst u \<Longrightarrow> use_holds i (t # ts) (k # ks) u \<longleftrightarrow> use_holds (Suc i) ts ks u"
  by (cases u) (auto simp: use_holds_def Suc_le_eq Suc_diff_Suc nth_Cons' dest!: Suc_le_lessD split: if_splits)

lemma key_bounds_positions: "key_bounds i ts ss es si ei us \<Longrightarrow> u \<in> set us \<Longrightarrow> i \<le> fst u"
  by (induction rule: key_bounds.induct) force+

lemma key_bounds_iff:
  assumes "key_bounds i ts ss es si ei us" "list_all2 column_ok ts ks"
  shows "above ts ks ss si \<and> below ts ks es ei \<longleftrightarrow> (\<forall>u \<in> set us. use_holds i ts ks u)"
  using assms
proof (induction arbitrary: ks rule: key_bounds.induct)
  case (kb_end i)
  then show ?case by (simp add: above_def below_def)
next
  case (kb_eq i ts ss es si ei us t v x)
  from kb_eq.prems obtain k ks' where ks: "ks = k # ks'" "list_all2 column_ok ts ks'"
    by (auto simp: list_all2_Cons1)
  have "(\<forall>u \<in> set us. use_holds i (t # ts) (k # ks') u) \<longleftrightarrow> (\<forall>u \<in> set us. use_holds (Suc i) ts ks' u)"
    using key_bounds_positions [OF kb_eq.hyps] use_holds_Suc by blast
  then show ?case
    using kb_eq.IH [OF ks(2)]
    by (auto simp: ks(1) above_def below_def Let_def use_holds_here op_holds_def)
next
  case (kb_last lo t v i x up w y s si us e ei us' ts)
  from kb_last.prems obtain k ks' where ks: "ks = k # ks'" "column_ok t k" "list_all2 column_ok ts ks'"
    by (auto simp: list_all2_Cons1)
  note lim = type_limits [OF ks(2)] lex_limits [OF ks(3)]
  have "above (t # ts) (k # ks') (s # map (if si then type_min else type_max) ts) si \<longleftrightarrow>
      (\<forall>u \<in> set us. use_holds i (t # ts) (k # ks') u)"
    using kb_last(1,3) lim by (auto simp: above_def Let_def use_holds_here op_holds_def)
  moreover have "below (t # ts) (k # ks') (e # map (if ei then type_max else type_min) ts) ei \<longleftrightarrow>
      (\<forall>u \<in> set us'. use_holds i (t # ts) (k # ks') u)"
    using kb_last(2,4) lim by (auto simp: below_def Let_def use_holds_here op_holds_def)
  ultimately show ?case by (auto simp: ks(1))
qed

text \<open>Without a lower (an upper) bound in use every key is above the first (below the last).\<close>

lemma key_bounds_unbounded:
  assumes "key_bounds i ts ss es si ei us" "list_all2 column_ok ts ks"
  shows "((\<forall>(j, op, v, x) \<in> set us. op \<noteq> COMP_EQ \<and> op \<noteq> COMP_GT \<and> op \<noteq> COMP_GE) \<longrightarrow> above ts ks ss si) \<and>
    ((\<forall>(j, op, v, x) \<in> set us. op \<noteq> COMP_EQ \<and> op \<noteq> COMP_LT \<and> op \<noteq> COMP_LE) \<longrightarrow> below ts ks es ei)"
  using assms
proof (induction arbitrary: ks rule: key_bounds.induct)
  case (kb_last lo t v i x up w y s si us e ei us' ts)
  from kb_last.prems obtain k ks' where ks: "ks = k # ks'" "column_ok t k" "list_all2 column_ok ts ks'"
    by (auto simp: list_all2_Cons1)
  note lim = type_limits [OF ks(2)] lex_limits [OF ks(3)]
  have "above (t # ts) ks (s # map (if si then type_min else type_max) ts) si"
    if "\<forall>(j, op, v, x) \<in> set (us' @ us). op \<noteq> COMP_EQ \<and> op \<noteq> COMP_GT \<and> op \<noteq> COMP_GE"
    using that kb_last(1,3) lim by (auto simp: above_def Let_def ks(1))
  moreover have "below (t # ts) ks (e # map (if ei then type_max else type_min) ts) ei"
    if "\<forall>(j, op, v, x) \<in> set (us' @ us). op \<noteq> COMP_EQ \<and> op \<noteq> COMP_LT \<and> op \<noteq> COMP_LE"
    using that kb_last(2,4) lim by (auto simp: below_def Let_def ks(1))
  ultimately show ?case by blast
qed (auto simp: above_def below_def)

section \<open>The constructor refines the specification\<close>

definition start_pred :: "key_pred \<Rightarrow> bool" where
  "start_pred p \<longleftrightarrow> kp_op p \<in> {OP_NONE, COMP_EQ, COMP_GT, COMP_GE}"

text \<open>An end predicate is absent or bounds one of the \<open>n\<close> columns from position \<open>i\<close> on.\<close>

definition end_pred :: "nat \<Rightarrow> nat \<Rightarrow> key_pred \<Rightarrow> bool" where
  "end_pred i n e \<longleftrightarrow> kp_op e = OP_NONE \<and> kp_keyIndex e = -1 \<or>
     kp_op e \<in> {COMP_LT, COMP_LE} \<and> int i \<le> kp_keyIndex e \<and> kp_keyIndex e < int (i + n)"

abbreviation dropped :: "key_pred \<Rightarrow> key_pred" where
  "dropped e \<equiv> e\<lparr>kp_op := OP_NONE, kp_keyIndex := -1\<rparr>"

lemma end_pred_dropped: "end_pred i n (dropped e)"
  by (simp add: end_pred_def)

text \<open>Once \<open>keyValid\<close> is false the remaining comparisons are ignored.\<close>

lemma scan_predicates_invalid:
  assumes "\<not> rf_keyValid f"
  shows "end_pred i (length ps) (rf_end f) \<Longrightarrow> rf_keyValid f = False \<Longrightarrow>
      scan_predicates i ps f = (map (\<lambda>p. p\<lparr>kp_op := OP_NONE\<rparr>) ps,
        if kp_op (rf_end f) = OP_NONE then f else f\<lparr>rf_end := dropped (rf_end f)\<rparr>)"
    and "kp_keyIndex (rf_end f) < int i \<Longrightarrow>
      scan_predicates i ps f = (map (\<lambda>p. p\<lparr>kp_op := OP_NONE\<rparr>) ps, f)"
  using assms
proof (induction ps arbitrary: i f)
  case Nil
  { case 1 then show ?case by (auto simp: end_pred_def) }
  { case 2 then show ?case by simp }
next
  case (Cons p ps)
  have st: "scan_start (p\<lparr>kp_op := OP_NONE\<rparr>) g = g" if "\<not> rf_keyValid g" for g :: range_flags
    using that by (simp add: scan_start_def)
  { case 1
    show ?case
    proof (cases "(kp_op (rf_end f) = COMP_LT \<or> kp_op (rf_end f) = COMP_LE) \<and> int i = kp_keyIndex (rf_end f)")
      case True
      then have f1: "scan_end i OP_NONE f = f\<lparr>rf_end := dropped (rf_end f)\<rparr>"
        using 1 by (simp add: scan_end_def)
      have "kp_keyIndex (rf_end (f\<lparr>rf_end := dropped (rf_end f)\<rparr>)) < int (Suc i)" by simp
      from Cons.IH(2) [OF this] show ?thesis using 1 True f1 st by auto
    next
      case False
      then have f1: "scan_end i OP_NONE f = f" by (auto simp: scan_end_def)
      have "end_pred (Suc i) (length ps) (rf_end f)" using 1 False by (auto simp: end_pred_def)
      from Cons.IH(1) [OF this] show ?thesis using 1 f1 st by simp
    qed }
  { case 2
    then have f1: "scan_end i OP_NONE f = f" by (auto simp: scan_end_def)
    show ?case using Cons.IH(2) [of f "Suc i"] 2 f1 st by simp }
qed

lemma fill_bounds_free:
  assumes "fill_bounds L T e i ts ps sm em = Inr bounds" "length ts = length ps"
    and "\<forall>p \<in> set ps. kp_op p = OP_NONE" "kp_keyIndex e < int i"
  shows "bounds = map (\<lambda>t. (if sm then type_max t else type_min t, if em then type_max t else type_min t)) ts"
  using assms
proof (induction ts arbitrary: i ps bounds)
  case (Cons t ts)
  then obtain p ps' where ps: "ps = p # ps'" by (cases ps) auto
  with Cons.prems have np: "kp_op p = OP_NONE" "int i \<noteq> kp_keyIndex e" by auto
  from Cons.prems(1) np obtain h bs where h: "getHandler t = Some h"
    "fill_bounds L T e (Suc i) ts ps' sm em = Inr bs"
    "bounds = (if sm then h_setToMax h else h_setToMin h, if em then h_setToMax h else h_setToMin h) # bs"
    by (auto simp: ps with_handler_def end_value_def split: option.splits)
  from Cons.IH [OF h(2)] Cons.prems ps h(1,3) show ?case by (auto simp: type_max_def type_min_def)
qed simp

text \<open>Where a comparison in use comes from.\<close>

definition use_from :: "nat \<Rightarrow> key_pred list \<Rightarrow> key_pred \<Rightarrow> nat \<Rightarrow> Operation \<Rightarrow> pnode \<Rightarrow> string \<Rightarrow> bool" where
  "use_from i ps e j op node x \<longleftrightarrow>
     (i \<le> j \<and> j - i < length ps \<and> kp_op (ps ! (j - i)) = op \<and> op \<noteq> OP_NONE \<and>
        kp_value (ps ! (j - i)) = node \<and> kp_expr (ps ! (j - i)) = x) \<or>
     (i \<le> j \<and> int j = kp_keyIndex e \<and> kp_op e = op \<and> op \<noteq> OP_NONE \<and> kp_value e = node \<and> kp_expr e = x)"

lemma use_from_Suc:
  "use_from (Suc i) ps e j op node x \<Longrightarrow> use_from i (p # ps) e j op node x"
  by (auto simp: use_from_def Suc_le_eq nth_Cons' dest: Suc_le_lessD)

lemma use_from_dropped: "use_from i ps (dropped e) j op node x \<Longrightarrow> use_from i ps e j op node x"
  by (auto simp: use_from_def)

definition node_value :: "lib \<Rightarrow> DBDataType \<Rightarrow> pnode \<Rightarrow> eresult \<Rightarrow> bool" where
  "node_value L t node v \<longleftrightarrow> (\<exists>h. getHandler t = Some h \<and> h_fromNode L h node R_Null = Inr v)"

definition uses_ok :: "lib \<Rightarrow> nat \<Rightarrow> DBDataType list \<Rightarrow> key_pred list \<Rightarrow> key_pred \<Rightarrow> key_use list \<Rightarrow> bool" where
  "uses_ok L i ts ps e us \<longleftrightarrow> (\<forall>(j, op, v, x) \<in> set us. i \<le> j \<and> j - i < length ts \<and>
     (\<exists>node. use_from i ps e j op node x \<and> node_value L (ts ! (j - i)) node v))"

lemma uses_ok_Suc:
  assumes "uses_ok L (Suc i) ts ps e us"
  shows "uses_ok L i (t # ts) (p # ps) e us"
  unfolding uses_ok_def
proof (clarify)
  fix j op v x
  assume "(j, op, v, x) \<in> set us"
  with assms obtain node where n: "Suc i \<le> j" "j - Suc i < length ts" "use_from (Suc i) ps e j op node x"
    "node_value L (ts ! (j - Suc i)) node v" by (auto simp: uses_ok_def)
  have "j - i = Suc (j - Suc i)" using n(1) by simp
  then show "i \<le> j \<and> j - i < length (t # ts) \<and> (\<exists>node. use_from i (p # ps) e j op node x \<and> node_value L ((t # ts) ! (j - i)) node v)"
    using n(1,2,4) use_from_Suc [OF n(3), of p] by auto
qed

lemma uses_ok_dropped: "uses_ok L i ts ps (dropped e) us \<Longrightarrow> uses_ok L i ts ps e us"
  unfolding uses_ok_def using use_from_dropped by fastforce

lemma uses_ok_append: "uses_ok L i ts ps e (us @ us') \<longleftrightarrow> uses_ok L i ts ps e us \<and> uses_ok L i ts ps e us'"
  by (simp add: uses_ok_def ball_Un)

definition lower_ops :: "key_use list \<Rightarrow> bool" where
  "lower_ops us \<longleftrightarrow> (\<exists>(j, op, v, x) \<in> set us. op = COMP_EQ \<or> op = COMP_GT \<or> op = COMP_GE)"

definition upper_ops :: "key_use list \<Rightarrow> bool" where
  "upper_ops us \<longleftrightarrow> (\<exists>(j, op, v, x) \<in> set us. op = COMP_EQ \<or> op = COMP_LT \<or> op = COMP_LE)"

abbreviation exprs :: "key_use list \<Rightarrow> string list" where
  "exprs us \<equiv> map (\<lambda>(j, op, v, x). x) us"

text \<open>The refinement, for the columns from position \<open>i\<close> on.\<close>

definition refines_range ::
  "lib \<Rightarrow> nat \<Rightarrow> DBDataType list \<Rightarrow> key_pred list \<Rightarrow> range_flags \<Rightarrow> range_flags \<Rightarrow> (eresult \<times> eresult) list \<Rightarrow> key_use list \<Rightarrow> bool" where
  "refines_range L i ts ps f f' bounds us \<longleftrightarrow>
     key_bounds i ts (map fst bounds) (map snd bounds) (rf_startInclusive f') (rf_endInclusive f') us \<and>
     rf_solved f' = rf_solved f @ exprs us \<and>
     rf_seekToFirst f' = (rf_seekToFirst f \<and> \<not> lower_ops us) \<and>
     rf_seekToLast f' = (rf_seekToLast f \<and> \<not> upper_ops us) \<and>
     uses_ok L i ts ps (rf_end f) us"

text \<open>The lower bound the head column contributes when it has no equality.\<close>

lemma start_bound:
  fixes i :: nat
  assumes "kp_op p \<in> {OP_NONE, COMP_GT, COMP_GE}" "rf_startInclusive g" "getHandler t = Some h"
    and "(if kp_op p = COMP_GE \<or> kp_op p = COMP_GT then h_fromNode L h (kp_value p) R_Null else Inr (h_setToMin h)) = Inr s"
  defines "si \<equiv> (kp_op p \<noteq> COMP_GT)"
  defines "us \<equiv> (if kp_op p = OP_NONE then [] else [(i, kp_op p, s, kp_expr p)])"
  shows "(s, si, us) \<in> {(type_min t, True, []), (s, True, [(i, COMP_GE, s, kp_expr p)]), (s, False, [(i, COMP_GT, s, kp_expr p)])}"
    and "scan_start p g = g\<lparr>rf_startInclusive := si, rf_keyValid := False, rf_solved := rf_solved g @ exprs us,
            rf_seekToFirst := (rf_seekToFirst g \<and> \<not> lower_ops us)\<rparr>"
    and "\<not> upper_ops us"
    and "uses_ok L i (t # ts) (p # ps) e us"
proof -
  show "(s, si, us) \<in> {(type_min t, True, []), (s, True, [(i, COMP_GE, s, kp_expr p)]), (s, False, [(i, COMP_GT, s, kp_expr p)])}"
    using assms(1,3,4) by (auto simp: si_def us_def type_min_def)
  show "scan_start p g = g\<lparr>rf_startInclusive := si, rf_keyValid := False, rf_solved := rf_solved g @ exprs us,
      rf_seekToFirst := (rf_seekToFirst g \<and> \<not> lower_ops us)\<rparr>"
    using assms(1,2) by (auto simp: scan_start_def si_def us_def lower_ops_def)
  show "\<not> upper_ops us" using assms(1) by (auto simp: us_def upper_ops_def)
  show "uses_ok L i (t # ts) (p # ps) e us"
    using assms(1,3,4) by (auto simp: uses_ok_def us_def use_from_def node_value_def)
qed

text \<open>The upper bound of the head column: the end predicate when it is about this column.\<close>

lemma end_bound:
  assumes "end_pred i (Suc n) e" "getHandler t = Some h" "rf_end f = e" "rf_keyValid f" "rf_endInclusive f" "op \<noteq> COMP_EQ"
  defines "kept \<equiv> kp_op e \<noteq> OP_NONE \<and> kp_keyIndex e = int i"
  assumes "end_value L i (if kept then e else dropped e) h True = Inr (r, em)"
  defines "us \<equiv> (if kept then [(i, kp_op e, r, kp_expr e)] else [])"
  shows "(r, em, us) \<in> {(type_max t, True, []), (r, True, [(i, COMP_LE, r, kp_expr e)]), (r, False, [(i, COMP_LT, r, kp_expr e)])}"
    and "scan_end i op f = f\<lparr>rf_endInclusive := em, rf_keyValid := (\<not> kept),
            rf_solved := rf_solved f @ exprs us, rf_seekToLast := (rf_seekToLast f \<and> \<not> upper_ops us)\<rparr>"
    and "\<not> lower_ops us"
    and "uses_ok L i (t # ts) ps e us"
proof -
  have ops: "kp_op e = OP_NONE \<and> kp_keyIndex e = -1 \<or> kp_op e = COMP_LT \<or> kp_op e = COMP_LE"
    using assms(1) by (auto simp: end_pred_def)
  show "(r, em, us) \<in> {(type_max t, True, []), (r, True, [(i, COMP_LE, r, kp_expr e)]), (r, False, [(i, COMP_LT, r, kp_expr e)])}"
  proof (cases kept)
    case True
    then have em: "em = (kp_op e = COMP_LE)" and i: "kp_keyIndex e = int i"
      using assms(8) by (auto simp: end_value_def kept_def)
    have "kp_op e = COMP_LT \<or> kp_op e = COMP_LE" using ops i by auto
    then show ?thesis using True unfolding em us_def by auto
  next
    case False
    then have "em = True" "r = h_setToMax h" using assms(8) by (simp_all add: end_value_def)
    then show ?thesis using False assms(2) by (simp add: us_def type_max_def)
  qed
  show "scan_end i op f = f\<lparr>rf_endInclusive := em, rf_keyValid := (\<not> kept),
      rf_solved := rf_solved f @ exprs us, rf_seekToLast := (rf_seekToLast f \<and> \<not> upper_ops us)\<rparr>"
  proof (cases kept)
    case True
    then have em: "em = (kp_op e = COMP_LE)" and i: "kp_keyIndex e = int i"
      using assms(8) by (auto simp: end_value_def kept_def)
    have o: "kp_op e = COMP_LT \<or> kp_op e = COMP_LE" using ops i by auto
    show ?thesis
      using True o i assms(3-6) unfolding em us_def scan_end_def upper_ops_def by auto
  next
    case False
    then have "em = True" using assms(8) by (simp add: end_value_def)
    moreover have "\<not> ((kp_op e = COMP_LT \<or> kp_op e = COMP_LE) \<and> int i = kp_keyIndex e)"
      using False by (auto simp: kept_def)
    ultimately show ?thesis
      using False assms(3-5) by (cases f) (auto simp: scan_end_def us_def upper_ops_def)
  qed
  show "\<not> lower_ops us" using ops by (auto simp: us_def kept_def lower_ops_def)
  show "uses_ok L i (t # ts) ps e us"
    using assms(2,8) by (auto simp: uses_ok_def us_def use_from_def kept_def node_value_def end_value_def)
qed

lemma scan_head_eq:
  assumes "rf_keyValid f" "kp_op p = COMP_EQ" "end_pred i (Suc n) (rf_end f)"
  obtains e where "e = rf_end f \<or> e = dropped (rf_end f)" "end_pred (Suc i) n e"
    "scan_start p (scan_end i (kp_op p) f) = f\<lparr>rf_end := e, rf_solved := rf_solved f @ [kp_expr p],
       rf_seekToFirst := False, rf_seekToLast := False\<rparr>"
proof (cases "(kp_op (rf_end f) = COMP_LT \<or> kp_op (rf_end f) = COMP_LE) \<and> int i = kp_keyIndex (rf_end f)")
  case True
  then show ?thesis using assms
    by (intro that [of "dropped (rf_end f)"]) (auto simp: scan_end_def scan_start_def end_pred_def)
next
  case False
  then show ?thesis using assms
    by (intro that [of "rf_end f"]) (auto simp: scan_end_def scan_start_def end_pred_def)
qed

lemma ops_append:
  "lower_ops (us' @ us) = (lower_ops us' \<or> lower_ops us)" "upper_ops (us' @ us) = (upper_ops us' \<or> upper_ops us)"
  by (auto simp: lower_ops_def upper_ops_def)

lemma invalid_tail:
  assumes "scan_predicates (Suc i) ps f = (ps', f')" "rf_end f = e" "\<not> rf_keyValid f" "end_pred i (Suc (length ps)) e"
  defines "e' \<equiv> (if kp_op e \<noteq> OP_NONE \<and> kp_keyIndex e = int i then e else dropped e)"
  shows "f' = f\<lparr>rf_end := e'\<rparr>" "ps' = map (\<lambda>p. p\<lparr>kp_op := OP_NONE\<rparr>) ps" "kp_keyIndex e' < int (Suc i)"
proof -
  have same: "f\<lparr>rf_end := e\<rparr> = f" using assms(2) by auto
  consider (kept) "kp_op e \<noteq> OP_NONE" "kp_keyIndex e = int i" | (none) "kp_op e = OP_NONE" "kp_keyIndex e = -1"
    | (later) "kp_op e \<noteq> OP_NONE" "kp_keyIndex e \<noteq> int i" "end_pred (Suc i) (length ps) e"
    using assms(4) unfolding end_pred_def by fastforce
  then have "f' = f\<lparr>rf_end := e'\<rparr> \<and> ps' = map (\<lambda>p. p\<lparr>kp_op := OP_NONE\<rparr>) ps \<and> kp_keyIndex e' < int (Suc i)"
  proof cases
    case kept
    then show ?thesis using scan_predicates_invalid(2) [OF assms(3), of "Suc i" ps] assms(1,2) same by (simp add: e'_def)
  next
    case none
    then have "dropped e = e" "end_pred (Suc i) (length ps) e" by (simp_all add: end_pred_def)
    then show ?thesis using scan_predicates_invalid(1) [OF assms(3), of "Suc i" ps] assms(1-3) same none by (simp add: e'_def)
  next
    case later
    then show ?thesis using scan_predicates_invalid(1) [OF assms(3), of "Suc i" ps] assms(1-3) by (simp add: e'_def)
  qed
  then show "f' = f\<lparr>rf_end := e'\<rparr>" "ps' = map (\<lambda>p. p\<lparr>kp_op := OP_NONE\<rparr>) ps" "kp_keyIndex e' < int (Suc i)" by blast+
qed

lemma range_refined:
  assumes "scan_predicates i ps f = (ps', f')" "fill_bounds L T (rf_end f') i ts ps' False True = Inr bounds"
    and "rf_keyValid f" "rf_startInclusive f" "rf_endInclusive f" "length ts = length ps"
    and "\<forall>p \<in> set ps. start_pred p" "end_pred i (length ps) (rf_end f)"
  shows "\<exists>us. refines_range L i ts ps f f' bounds us"
  using assms
proof (induction ps arbitrary: i f ts ps' f' bounds)
  case Nil
  then show ?case
    by (auto simp: refines_range_def uses_ok_def lower_ops_def upper_ops_def intro!: exI [of _ "[]"] key_bounds.intros)
next
  case (Cons p ps)
  obtain t ts' where ts: "ts = t # ts'" "length ts' = length ps" using Cons.prems(6) by (cases ts) auto
  have sp: "start_pred p" "\<forall>q \<in> set ps. start_pred q" using Cons.prems(7) by auto
  obtain ps1 f1 where sc: "f1 = scan_start p (scan_end i (kp_op p) f)"
    "scan_predicates (Suc i) ps f1 = (ps1, f')" "ps' = p # ps1"
    using Cons.prems(1,3) by (auto simp: Let_def split: prod.splits)
  show ?case
  proof (cases "kp_op p = COMP_EQ")
    case True
    obtain e where e: "e = rf_end f \<or> e = dropped (rf_end f)" "end_pred (Suc i) (length ps) e"
      and f1: "f1 = f\<lparr>rf_end := e, rf_solved := rf_solved f @ [kp_expr p], rf_seekToFirst := False, rf_seekToLast := False\<rparr>"
      using scan_head_eq [OF Cons.prems(3) True] Cons.prems(8) sc(1) by (metis length_Cons)
    obtain h v bs where h: "getHandler t = Some h" "h_fromNode L h (kp_value p) R_Null = Inr v"
      "fill_bounds L T (rf_end f') (Suc i) ts' ps1 False True = Inr bs" "bounds = (v, v) # bs"
      using Cons.prems(2) True by (auto simp: ts sc(3) with_handler_def split: option.splits)
    obtain us where us: "refines_range L (Suc i) ts' ps f1 f' bs us"
      using Cons.IH [OF sc(2) h(3)] f1 e(2) Cons.prems(3-5) ts(2) sp(2) by auto
    have "uses_ok L i ts (p # ps) (rf_end f) us"
      using us e(1) uses_ok_dropped uses_ok_Suc f1 by (auto simp: refines_range_def ts)
    moreover have "uses_ok L i ts (p # ps) (rf_end f) [(i, COMP_EQ, v, kp_expr p)]"
      using h True by (auto simp: uses_ok_def use_from_def node_value_def ts)
    ultimately have "uses_ok L i ts (p # ps) (rf_end f) ((i, COMP_EQ, v, kp_expr p) # us)"
      by (simp add: uses_ok_def)
    then have "refines_range L i ts (p # ps) f f' bounds ((i, COMP_EQ, v, kp_expr p) # us)"
      using us h(4) f1 by (auto simp: refines_range_def ts lower_ops_def upper_ops_def intro: kb_eq)
    then show ?thesis by blast
  next
    case False
    then have op: "kp_op p \<in> {OP_NONE, COMP_GT, COMP_GE}" using sp(1) by (auto simp: start_pred_def)
    define e where "e = rf_end f"
    define kept where "kept \<longleftrightarrow> kp_op e \<noteq> OP_NONE \<and> kp_keyIndex e = int i"
    define e' where "e' = (if kept then e else dropped e)"
    have ep: "end_pred i (Suc (length ps)) e" using Cons.prems(8) by (simp add: e_def)
    have dr: "dropped e = e" if "kp_op e = OP_NONE" using that ep by (auto simp: end_pred_def)
    obtain h s r em bs where h: "getHandler t = Some h"
      "(if kp_op p = COMP_GE \<or> kp_op p = COMP_GT then h_fromNode L h (kp_value p) R_Null else Inr (h_setToMin h)) = Inr s"
      "end_value L i (rf_end f') h True = Inr (r, em)"
      "fill_bounds L T (rf_end f') (Suc i) ts' ps1 (kp_op p = COMP_GT) em = Inr bs" "bounds = (s, r) # bs"
      using Cons.prems(2) op by (auto simp: ts sc(3) with_handler_def split: option.splits)
    define us' where "us' = (if kept then [(i, kp_op e, r, kp_expr e)] else [])"
    define us where "us = (if kp_op p = OP_NONE then [] else [(i, kp_op p, s, kp_expr p)])"
    define g where "g = scan_end i (kp_op p) f"
    have g_end: "rf_end g = e" unfolding g_def using False Cons.prems(3) by (simp add: scan_end_def e_def)
    have f1: "rf_end f1 = e" "\<not> rf_keyValid f1"
      using op g_end unfolding sc(1) g_def [symmetric] by (auto simp: scan_start_def)
    have f': "f' = f1\<lparr>rf_end := e'\<rparr>" and ps1: "ps1 = map (\<lambda>p. p\<lparr>kp_op := OP_NONE\<rparr>) ps" and fe: "kp_keyIndex e' < int (Suc i)"
      using invalid_tail [OF sc(2) f1 ep] by (simp_all add: e'_def kept_def)
    have ev: "end_value L i (if kept then e else dropped e) h True = Inr (r, em)"
      using h(3) f' by (simp add: e'_def)
    note ub = end_bound [OF ep h(1) e_def [symmetric] Cons.prems(3,5) False, folded kept_def, OF ev, folded us'_def]
    have g: "rf_startInclusive g" unfolding g_def ub(2) using Cons.prems(4) by simp
    note lb = start_bound [OF op g h(1,2), of i, folded us_def]
    have bs: "bs = map (\<lambda>t. (if kp_op p = COMP_GT then type_max t else type_min t, if em then type_max t else type_min t)) ts'"
      using fill_bounds_free [OF h(4)] f' fe ts(2) by (simp add: ps1)
    have fst_bs: "map fst bs = map (if kp_op p \<noteq> COMP_GT then type_min else type_max) ts'"
      and snd_bs: "map snd bs = map (if em then type_max else type_min) ts'"
      by (simp_all add: bs)
    have kb: "key_bounds i (t # ts') (s # map fst bs) (r # map snd bs) (kp_op p \<noteq> COMP_GT) em (us' @ us)"
      unfolding fst_bs snd_bs by (rule kb_last [OF lb(1) ub(1) refl refl])
    have "uses_ok L i (t # ts') (p # ps) e us'" by (rule ub(4))
    moreover have "uses_ok L i (t # ts') (p # ps) e us" by (rule lb(4))
    ultimately have "uses_ok L i (t # ts') (p # ps) e (us' @ us)" by (simp add: uses_ok_append)
    moreover have "rf_startInclusive f' = (kp_op p \<noteq> COMP_GT)" "rf_endInclusive f' = rf_endInclusive g"
      "rf_solved f' = rf_solved g @ exprs us" "rf_seekToFirst f' = (rf_seekToFirst g \<and> \<not> lower_ops us)"
      "rf_seekToLast f' = rf_seekToLast g"
      unfolding f' sc(1) g_def [symmetric] lb(2) by simp_all
    moreover have "rf_endInclusive g = em" "rf_solved g = rf_solved f @ exprs us'"
      "rf_seekToFirst g = rf_seekToFirst f" "rf_seekToLast g = (rf_seekToLast f \<and> \<not> upper_ops us')"
      unfolding g_def ub(2) by simp_all
    ultimately have "refines_range L i ts (p # ps) f f' bounds (us' @ us)"
      using kb lb(3) ub(3) by (simp add: refines_range_def ts h(5) e_def ops_append)
    then show ?thesis by blast
  qed
qed

section \<open>The comparisons of a predicate\<close>

text \<open>
  \<open>key_atoms T p\<close>: the comparisons of an \<open>AND\<close> between a key column of \<open>T\<close> and a constant, with
  the column on the left: key position, operator, constant and expression.
\<close>

type_synonym key_atom = "nat \<times> Operation \<times> pnode \<times> string"

definition atoms_of :: "table_info \<Rightarrow> Operation \<Rightarrow> pnode \<Rightarrow> pnode \<Rightarrow> string \<Rightarrow> key_atom list" where
  "atoms_of T op pKey pValue x = (case getColumnByName T (n_value pKey) of
       Some c \<Rightarrow> if c_keyIndex c < 0 then [] else [(nat (c_keyIndex c), op, pValue, x)]
     | None \<Rightarrow> [])"

definition comparison_atoms :: "table_info \<Rightarrow> pnode \<Rightarrow> key_atom list" where
  "comparison_atoms T p = (case (reverseOp (n_op p), n_children p) of
       (Some rop, l # r # _) \<Rightarrow>
         if n_type l = NT_NAME \<and> isConst r then atoms_of T (n_op p) l r (n_expr p)
         else if n_type r = NT_NAME \<and> isConst l then atoms_of T rop r l (n_expr p)
         else []
     | _ \<Rightarrow> [])"

fun key_atoms :: "table_info \<Rightarrow> pnode \<Rightarrow> key_atom list" where
  "key_atoms T NullNode = []"
| "key_atoms T (PNode a t op e v cs) =
     (if t \<noteq> NT_OP then []
      else if op = OP_AND then concat (map (key_atoms T) cs)
      else comparison_atoms T (PNode a t op e v cs))"

definition pred_inv :: "key_atom set \<Rightarrow> nat \<Rightarrow> pred_state \<Rightarrow> bool" where
  "pred_inv A n = (\<lambda>(ps, e). length ps = n \<and>
     (\<forall>i < n. start_pred (ps ! i) \<and>
        (kp_op (ps ! i) \<noteq> OP_NONE \<longrightarrow> (i, kp_op (ps ! i), kp_value (ps ! i), kp_expr (ps ! i)) \<in> A)) \<and>
     end_pred 0 n e \<and>
     (kp_op e \<noteq> OP_NONE \<longrightarrow> (nat (kp_keyIndex e), kp_op e, kp_value e, kp_expr e) \<in> A))"

lemma setPredicateInfo_inv:
  assumes "setPredicateInfo T op pKey pValue pPredicate st = Inr st'" "pred_inv A n st"
    and "set (atoms_of T op pKey pValue (n_expr pPredicate)) \<subseteq> A"
  shows "pred_inv A n st'"
proof -
  obtain ps e where st: "st = (ps, e)" by (cases st)
  from assms(1) obtain c where c: "getColumnByName T (n_value pKey) = Some c"
    by (auto simp: setPredicateInfo_def st split: option.splits)
  show ?thesis
  proof (cases "c_keyIndex c < 0")
    case True
    then show ?thesis using assms(1,2) c by (simp add: setPredicateInfo_def st)
  next
    case False
    let ?i = "nat (c_keyIndex c)"
    let ?info = "\<lparr>kp_keyIndex = c_keyIndex c, kp_value = pValue, kp_op = op, kp_expr = n_expr pPredicate\<rparr>"
    have A: "(?i, op, pValue, n_expr pPredicate) \<in> A" using assms(3) c False by (simp add: atoms_of_def)
    have i: "?i < n"
      using assms(1,2) c False by (auto simp: setPredicateInfo_def st pred_inv_def Let_def not_le split: if_splits)
    have start: "pred_inv A n (ps[?i := ?info], e)" if "op \<in> {COMP_EQ, COMP_GT, COMP_GE}"
      using that assms(2) A i by (auto simp: st pred_inv_def start_pred_def nth_list_update)
    have end': "pred_inv A n (ps, ?info)" if "op \<in> {COMP_LE, COMP_LT}"
      using that assms(2) A i False by (auto simp: st pred_inv_def end_pred_def)
    show ?thesis
      using assms(1,2) c False start end' i
      by (auto simp: setPredicateInfo_def st Let_def split: Operation.splits if_splits)
  qed
qed

lemma setComparison_inv:
  assumes "setComparison T p st = Inr st'" "pred_inv A n st" "set (comparison_atoms T p) \<subseteq> A"
  shows "pred_inv A n st'"
proof (cases "reverseOp (n_op p)")
  case None
  then show ?thesis using assms by (simp add: setComparison_def)
next
  case (Some rop)
  with assms(1) obtain l r where lr: "getChild p 0 = Inr l" "getChild p 1 = Inr r"
    by (auto simp: setComparison_def)
  then obtain cs where cs: "n_children p = l # r # cs"
    by (cases "n_children p" rule: list.exhaust [case_names Nil Cons]; cases "tl (n_children p)")
      (auto simp: getChild_def split: if_splits)
  show ?thesis
    using assms Some lr cs setPredicateInfo_inv [OF _ assms(2)]
    by (auto simp: setComparison_def comparison_atoms_def split: if_splits)
qed

lemma doSetPredicate_inv:
  "doSetPredicate T p st = Inr st' \<Longrightarrow> pred_inv A n st \<Longrightarrow> set (key_atoms T p) \<subseteq> A \<Longrightarrow> pred_inv A n st'"
proof (induction T p st arbitrary: st' rule: doSetPredicate.induct)
  case (1 T st)
  then show ?case by simp
next
  case (2 T a t op e v cs st)
  show ?case
  proof (cases "t = NT_OP \<and> op = OP_AND")
    case True
    then have "foldR (\<lambda>st c. doSetPredicate T c st) st cs = Inr st'" using 2(2) by simp
    then show ?thesis
    proof (rule foldR_invariant)
      fix s c s'
      assume "pred_inv A n s" "c \<in> set cs" "doSetPredicate T c s = Inr s'"
      moreover have "set (key_atoms T c) \<subseteq> A" using 2(4) True \<open>c \<in> set cs\<close> by auto
      ultimately show "pred_inv A n s'" using 2(1) True by blast
    qed (rule 2(3))
  next
    case False
    then show ?thesis
      using 2(2-4) setComparison_inv [of T "PNode a t op e v cs" st st' A n] by (auto split: if_splits)
  qed
qed

lemma initial_pred_inv: "pred_inv A n (replicate n no_pred, no_pred)"
  by (simp add: pred_inv_def no_pred_def start_pred_def end_pred_def)

lemma use_from_atom:
  assumes "pred_inv A n (ps, e)" "use_from 0 ps e j op node x"
  shows "(j, op, node, x) \<in> A"
proof -
  have "j = nat (kp_keyIndex e)" if "int j = kp_keyIndex e" using that by linarith
  then show ?thesis using assms by (auto simp: use_from_def pred_inv_def)
qed

text \<open>The constructor as a refinement of the specification.\<close>

definition describes :: "lib \<Rightarrow> DBDataType list \<Rightarrow> table_info \<Rightarrow> pnode \<Rightarrow> key_range \<Rightarrow> key_use list \<Rightarrow> bool" where
  "describes L types T p r us \<longleftrightarrow>
     key_bounds 0 types (kr_startResults r) (kr_endResults r) (kr_startInclusive r) (kr_endInclusive r) us \<and>
     kr_seekToFirst r = (\<not> lower_ops us) \<and> kr_seekToLast r = (\<not> upper_ops us) \<and> kr_keyTypes r = types \<and>
     row_copy L types (kr_startResults r) = Inr (kr_startRow r) \<and>
     row_copy L types (kr_endResults r) = Inr (kr_endRow r) \<and>
     (\<forall>(j, op, v, x) \<in> set us. j < length types \<and>
        (\<exists>node. (j, op, node, x) \<in> set (key_atoms T p) \<and> node_value L (types ! j) node v))"

lemma newKeySearchRange_describes:
  assumes "newKeySearchRange L types T p = Inr (r, solved)"
  shows "\<exists>us. describes L types T p r us \<and> solved = exprs us"
proof -
  from assms obtain ps e ps' f bounds startRow endRow where
    ps: "doSetPredicate T p (replicate (length types) no_pred, no_pred) = Inr (ps, e)"
    and sc: "scan_predicates 0 ps (initial_flags e) = (ps', f)"
    and fb: "fill_bounds L T (rf_end f) 0 types ps' False True = Inr bounds"
    and rows: "row_copy L types (map fst bounds) = Inr startRow" "row_copy L types (map snd bounds) = Inr endRow"
    and r: "r = \<lparr>kr_predicates = ps', kr_endPredicate = rf_end f, kr_startRow = startRow, kr_endRow = endRow,
            kr_startInclusive = rf_startInclusive f, kr_endInclusive = rf_endInclusive f,
            kr_seekToFirst = rf_seekToFirst f, kr_seekToLast = rf_seekToLast f,
            kr_startResults = map fst bounds, kr_endResults = map snd bounds, kr_keyTypes = types\<rparr>"
    and solved: "solved = rf_solved f"
    by (auto simp: newKeySearchRange_def Let_def split: prod.splits)
  let ?A = "set (key_atoms T p)"
  have inv: "pred_inv ?A (length types) (ps, e)"
    using doSetPredicate_inv [OF ps initial_pred_inv] by blast
  then have "length types = length ps" "\<forall>q \<in> set ps. start_pred q" "end_pred 0 (length ps) (rf_end (initial_flags e))"
    by (auto simp: pred_inv_def initial_flags_def in_set_conv_nth)
  from range_refined [OF sc fb _ _ _ this] obtain us where
    us: "refines_range L 0 types ps (initial_flags e) f bounds us" by (auto simp: initial_flags_def)
  have "\<forall>(j, op, v, x) \<in> set us. j < length types \<and>
        (\<exists>node. (j, op, node, x) \<in> ?A \<and> node_value L (types ! j) node v)"
    using us use_from_atom [OF inv] by (fastforce simp: refines_range_def uses_ok_def initial_flags_def)
  then have "describes L types T p r us" "solved = exprs us"
    using us rows by (auto simp: describes_def r refines_range_def initial_flags_def solved)
  then show ?thesis by blast
qed

section \<open>Keys in a range\<close>

lemma compare_values_lex:
  assumes "list_all2 type_comparable ts xs" "list_all2 type_comparable ts ys"
  shows "compare_values L ts xs ys = Inr (lex_compare type_cmp ts xs ys)"
  using assms
proof (induction arbitrary: ys rule: list_all2_induct)
  case (Cons t ts x xs)
  from Cons.prems obtain y ys' where ys: "ys = y # ys'" "type_comparable t y" "list_all2 type_comparable ts ys'"
    by (auto simp: list_all2_Cons1)
  obtain h where h: "getHandler t = Some h" "comparable h x" "comparable h y"
    using Cons(1) ys(2) by (auto simp: type_comparable_def split: option.splits)
  then show ?case using Cons.IH [OF ys(3)]
    by (simp add: ys(1) with_handler_def h_compare_cmp_val type_cmp_def Let_def)
qed simp

text \<open>
  Bounds that are not numbers (\<open>NaN\<close>) order nothing; \<open>comparable_range\<close> excludes them.
\<close>

definition comparable_range :: "key_range \<Rightarrow> bool" where
  "comparable_range r \<longleftrightarrow> list_all2 type_comparable (kr_keyTypes r) (kr_startResults r) \<and>
     list_all2 type_comparable (kr_keyTypes r) (kr_endResults r)"

lemma column_ok_comparable: "list_all2 column_ok ts ks \<Longrightarrow> list_all2 type_comparable ts ks"
  by (erule list_all2_mono) (blast dest: column_bound bound_column_comparable)

lemma exceed_iff:
  assumes "describes L types T p r us" "comparable_range r" "list_all2 column_ok types ks"
  shows "exceedEnd L r ks = Inr (\<not> below types ks (kr_endResults r) (kr_endInclusive r))"
    and "exceedEndReversed L r ks = Inr (\<not> above types ks (kr_startResults r) (kr_startInclusive r))"
proof -
  have types: "kr_keyTypes r = types" and kb: "key_bounds 0 types (kr_startResults r) (kr_endResults r) (kr_startInclusive r) (kr_endInclusive r) us"
    and seek: "kr_seekToFirst r = (\<not> lower_ops us)" "kr_seekToLast r = (\<not> upper_ops us)"
    using assms(1) by (simp_all add: describes_def)
  note cmp = compare_values_lex [OF column_ok_comparable [OF assms(3)]]
  note free = key_bounds_unbounded [OF kb assms(3)]
  show "exceedEnd L r ks = Inr (\<not> below types ks (kr_endResults r) (kr_endInclusive r))"
  proof (cases "kr_seekToLast r")
    case True
    then have "below types ks (kr_endResults r) (kr_endInclusive r)"
      using free seek(2) by (auto simp: upper_ops_def)
    then show ?thesis using True by (simp add: exceedEnd_def)
  next
    case False
    then show ?thesis using cmp [of "kr_endResults r" L] assms(2)
      by (auto simp: exceedEnd_def types comparable_range_def below_def)
  qed
  show "exceedEndReversed L r ks = Inr (\<not> above types ks (kr_startResults r) (kr_startInclusive r))"
  proof (cases "kr_seekToFirst r")
    case True
    then have "above types ks (kr_startResults r) (kr_startInclusive r)"
      using free seek(1) by (auto simp: lower_ops_def)
    then show ?thesis using True by (simp add: exceedEndReversed_def)
  next
    case False
    then show ?thesis using cmp [of "kr_startResults r" L] assms(2)
      by (auto simp: exceedEndReversed_def types comparable_range_def above_def)
  qed
qed

text \<open>The meaning of one comparison of the predicate for a key.\<close>

definition atom_true :: "lib \<Rightarrow> DBDataType list \<Rightarrow> eresult list \<Rightarrow> key_atom \<Rightarrow> bool" where
  "atom_true L types ks = (\<lambda>(j, op, node, x). j < length types \<and>
     (case getHandler (types ! j) of None \<Rightarrow> False
      | Some h \<Rightarrow> (case h_fromNode L h node R_Null of
          Inl _ \<Rightarrow> False
        | Inr v \<Rightarrow> op_holds op (type_cmp (types ! j) (ks ! j) v))))"

lemma use_holds_atom:
  assumes "node_value L (types ! j) node v" "j < length types"
  shows "use_holds 0 types ks (j, op, v, x) \<longleftrightarrow> atom_true L types ks (j, op, node, x)"
  using assms by (auto simp: use_holds_def atom_true_def node_value_def)

lemma describes_atoms:
  assumes "describes L types T p r us"
  shows "\<exists>used. set used \<subseteq> set (key_atoms T p) \<and> map (\<lambda>(j, op, node, x). x) used = exprs us \<and>
    (\<forall>ks. (\<forall>u \<in> set us. use_holds 0 types ks u) \<longleftrightarrow> (\<forall>a \<in> set used. atom_true L types ks a))"
proof -
  have "\<forall>(j, op, v, x) \<in> set us. j < length types \<and>
        (\<exists>node. (j, op, node, x) \<in> set (key_atoms T p) \<and> node_value L (types ! j) node v)"
    using assms by (simp add: describes_def)
  then show ?thesis
  proof (induction us)
    case Nil
    then show ?case by (intro exI [of _ "[]"]) simp
  next
    case (Cons u us)
    obtain j op v x where u: "u = (j, op, v, x)" by (cases u)
    with Cons.prems obtain node where n: "j < length types" "(j, op, node, x) \<in> set (key_atoms T p)"
      "node_value L (types ! j) node v" by auto
    from Cons obtain used where "set used \<subseteq> set (key_atoms T p)" "map (\<lambda>(j, op, node, x). x) used = exprs us"
      "\<forall>ks. (\<forall>u \<in> set us. use_holds 0 types ks u) \<longleftrightarrow> (\<forall>a \<in> set used. atom_true L types ks a)" by auto
    then show ?case using n u use_holds_atom [OF n(3,1)]
      by (intro exI [of _ "(j, op, node, x) # used"]) auto
  qed
qed

section \<open>Seeking\<close>

text \<open>
  The entries of a table: the key bytes of every entry are the stored form of its key values
  \<open>kss\<close>, in strict key order.  \<open>exact\<close>: values that storing does not change (a \<open>float\<close> column
  narrows the numbers it stores).
\<close>

definition exact :: "DBDataType list \<Rightarrow> eresult list \<Rightarrow> bool" where
  "exact types ks \<longleftrightarrow> map2 stored_column types ks = ks"

definition table_entries :: "lib \<Rightarrow> DBDataType list \<Rightarrow> (byte list \<times> byte list) list \<Rightarrow> eresult list list \<Rightarrow> bool" where
  "table_entries L types es kss \<longleftrightarrow>
     list_all2 (\<lambda>e ks. list_all2 column_ok types ks \<and> exact types ks \<and> row_copy L types ks = Inr (fst e)) es kss \<and>
     sorted_wrt (\<lambda>a b. lex_compare type_cmp types a b < 0) kss"

definition exact_range :: "key_range \<Rightarrow> bool" where
  "exact_range r \<longleftrightarrow>
     list_all2 bound_column (kr_keyTypes r) (kr_startResults r) \<and> exact (kr_keyTypes r) (kr_startResults r) \<and>
     list_all2 bound_column (kr_keyTypes r) (kr_endResults r) \<and> exact (kr_keyTypes r) (kr_endResults r)"

lemma exact_range_comparable: "exact_range r \<Longrightarrow> comparable_range r"
  unfolding exact_range_def comparable_range_def
  by (auto elim!: list_all2_mono dest: bound_column_comparable)

lemma key_against_bound:
  assumes "list_all2 column_ok types ks" "exact types ks" "row_copy L types ks = Inr k"
    and "list_all2 bound_column types vs" "exact types vs" "row_copy L types vs = Inr row"
  shows "row_compare L types k row = Inr (lex_compare type_cmp types ks vs)"
    and "key_cmp L types k row = lex_compare type_cmp types ks vs"
proof -
  have "comparable_rows ks vs"
    using assms(1,4) unfolding comparable_rows_def
  proof (induction arbitrary: vs rule: list_all2_induct)
    case (Cons t ts x xs)
    then show ?case using column_bound [OF Cons(1)] by (auto simp: list_all2_Cons1)
  qed simp
  from row_compare_copy [OF column_ok_rows(1) [OF assms(1)] assms(4) this assms(3,6), of "[]" "[]"]
  show "row_compare L types k row = Inr (lex_compare type_cmp types ks vs)"
    using assms(2,5) by (simp add: exact_def)
  then show "key_cmp L types k row = lex_compare type_cmp types ks vs"
    by (simp add: key_cmp_def keyComparator_Compare_def)
qed

lemma list_all2_in1: "list_all2 P xs ys \<Longrightarrow> x \<in> set xs \<Longrightarrow> \<exists>y \<in> set ys. P x y"
  by (induction rule: list_all2_induct) auto

lemma list_all2_in2: "list_all2 P xs ys \<Longrightarrow> y \<in> set ys \<Longrightarrow> \<exists>x \<in> set xs. P x y"
  by (induction rule: list_all2_induct) auto

lemma takeWhile_map_len:
  assumes "list_all2 (\<lambda>e k. P e = Q k) es kss"
  shows "length (takeWhile P es) = length (takeWhile Q kss)"
  using assms by (induction rule: list_all2_induct) auto

lemma iter_laws_at:
  assumes "iter_laws I cmp ents pos"
  shows "it_valid I it = (pos it < length (ents it))"
    "pos it < length (ents it) \<Longrightarrow> it_key I it = fst (ents it ! pos it)"
    "pos it < length (ents it) \<Longrightarrow> it_value I it = snd (ents it ! pos it)"
    "ents (it_first I it) = ents it" "pos (it_first I it) = 0"
    "ents (it_last I it) = ents it" "pos (it_last I it) = length (ents it) - 1"
    "ents (it_next I it) = ents it" "pos it < length (ents it) \<Longrightarrow> pos (it_next I it) = Suc (pos it)"
    "ents (it_prev I it) = ents it"
    "pos it < length (ents it) \<Longrightarrow> pos (it_prev I it) = (if pos it = 0 then length (ents it) else pos it - 1)"
    "ents (it_seek I k it) = ents it"
    "pos (it_seek I k it) = length (takeWhile (\<lambda>e. cmp (fst e) k < 0) (ents it))"
  using assms unfolding iter_laws_def by (metis fst_conv snd_conv)+

text \<open>The loop of \<open>seekStart\<close> stops at the first entry from its position on that is beyond the bound.\<close>

lemma skip_equal_stops:
  assumes "iter_laws I cmp ents pos" "length (ents it) - pos it < fuel" "pos it \<le> length (ents it)"
    and "\<forall>e \<in> set (ents it). row_compare L (kr_keyTypes r) (fst e) (kr_startRow r) = Inr (f e)"
  shows "\<exists>it'. skip_equal fuel L I r it = Inr it' \<and> ents it' = ents it \<and>
    pos it' = pos it + length (takeWhile (\<lambda>e. f e \<le> 0) (drop (pos it) (ents it)))"
  using assms(2-4)
proof (induction fuel arbitrary: it)
  case (Suc fuel)
  note at = iter_laws_at [OF assms(1), where it = it]
  show ?case
  proof (cases "pos it < length (ents it)")
    case False
    then show ?thesis using at(1) Suc.prems by simp
  next
    case True
    let ?e = "ents it ! pos it"
    have d: "drop (pos it) (ents it) = ?e # drop (Suc (pos it)) (ents it)" using True by (rule Cons_nth_drop_Suc [symmetric])
    have c: "row_compare L (kr_keyTypes r) (it_key I it) (kr_startRow r) = Inr (f ?e)"
      using at(2) [OF True] Suc.prems(3) True by simp
    show ?thesis
    proof (cases "f ?e > 0")
      case pos: True
      then show ?thesis using at(1) True c d by simp
    next
      case False
      have "length (ents it) - Suc (pos it) < fuel" using Suc.prems(1) True by linarith
      with Suc.IH [of "it_next I it"] obtain it' where "skip_equal fuel L I r (it_next I it) = Inr it'" "ents it' = ents it"
        "pos it' = Suc (pos it) + length (takeWhile (\<lambda>e. f e \<le> 0) (drop (Suc (pos it)) (ents it)))"
        using Suc.prems at(8) at(9) [OF True] True by auto
      then show ?thesis using at(1) True c d False by simp
    qed
  qed
qed simp

lemma takeWhile_prefix_len:
  assumes "\<And>x. x \<in> set xs \<Longrightarrow> P x \<Longrightarrow> Q x"
  shows "length (takeWhile Q xs) = length (takeWhile P xs) + length (takeWhile Q (drop (length (takeWhile P xs)) xs))"
  using assms by (induction xs) auto

lemma seekStart_position:
  assumes "describes L types T p r us" "exact_range r" "iter_laws I (key_cmp L types) ents pos"
    and "table_entries L types (ents it) kss" "length (ents it) < fuel"
  shows "\<exists>it'. seekStart fuel L I r it = Inr it' \<and> ents it' = ents it \<and>
    pos it' = length (takeWhile (\<lambda>ks. \<not> above types ks (kr_startResults r) (kr_startInclusive r)) kss)"
proof -
  let ?es = "ents it" and ?vs = "kr_startResults r" and ?row = "kr_startRow r"
  define f where "f = (\<lambda>ks. lex_compare type_cmp types ks ?vs)"
  have d: "kr_keyTypes r = types" "row_copy L types ?vs = Inr ?row" "kr_seekToFirst r = (\<not> lower_ops us)"
    and kb: "key_bounds 0 types ?vs (kr_endResults r) (kr_startInclusive r) (kr_endInclusive r) us"
    using assms(1) by (simp_all add: describes_def)
  note at = iter_laws_at [OF assms(3)]
  have ents: "list_all2 (\<lambda>e ks. list_all2 column_ok types ks \<and> exact types ks \<and> row_copy L types ks = Inr (fst e)) ?es kss"
    using assms(4) by (simp add: table_entries_def)
  have cmp: "list_all2 (\<lambda>e ks. list_all2 column_ok types ks \<and> row_compare L types (fst e) ?row = Inr (f ks) \<and> key_cmp L types (fst e) ?row = f ks) ?es kss"
    by (rule list_all2_mono [OF ents])
      (use key_against_bound assms(2) d in \<open>auto simp: exact_range_def f_def\<close>)
  show ?thesis
  proof (cases "kr_seekToFirst r")
    case True
    have "above types ks ?vs (kr_startInclusive r)" if "ks \<in> set kss" for ks
    proof -
      have "list_all2 column_ok types ks" using cmp that by (auto simp: list_all2_conv_all_nth in_set_conv_nth)
      from key_bounds_unbounded [OF kb this] show ?thesis using True d(3) by (auto simp: lower_ops_def)
    qed
    then have "takeWhile (\<lambda>ks. \<not> above types ks ?vs (kr_startInclusive r)) kss = []"
      by (cases kss) auto
    then show ?thesis using True at(4,5) by (simp add: seekStart_def)
  next
    case False
    define it1 where "it1 = it_seek I ?row it"
    have "length (takeWhile (\<lambda>e. key_cmp L types (fst e) ?row < 0) ?es) = length (takeWhile (\<lambda>ks. f ks < 0) kss)"
      by (rule takeWhile_map_len) (rule list_all2_mono [OF cmp], simp)
    then have p1: "ents it1 = ?es" "pos it1 = length (takeWhile (\<lambda>ks. f ks < 0) kss)"
      using at(12,13) by (simp_all add: it1_def)
    show ?thesis
    proof (cases "kr_startInclusive r")
      case True
      have "(\<lambda>ks. \<not> above types ks ?vs True) = (\<lambda>ks. f ks < 0)" by (auto simp: above_def f_def fun_eq_iff)
      then show ?thesis using False True p1 by (simp add: seekStart_def it1_def [symmetric] Let_def)
    next
      case excl: False
      define g where "g = (\<lambda>e :: byte list \<times> byte list. case row_compare L types (fst e) ?row of Inr n \<Rightarrow> n | Inl _ \<Rightarrow> 0)"
      have g: "list_all2 (\<lambda>e ks. g e = f ks) ?es kss" by (rule list_all2_mono [OF cmp]) (simp add: g_def)
      have rc: "\<forall>e \<in> set ?es. row_compare L types (fst e) ?row = Inr (g e)"
      proof
        fix e assume "e \<in> set ?es"
        then obtain ks where "row_compare L types (fst e) ?row = Inr (f ks)" using list_all2_in1 [OF cmp] by blast
        then show "row_compare L types (fst e) ?row = Inr (g e)" by (simp add: g_def)
      qed
      have len: "length ?es = length kss" using ents by (rule list_all2_lengthD)
      have "pos it1 \<le> length (ents it1)" using p1 len length_takeWhile_le by metis
      moreover have "length (ents it1) - pos it1 < fuel" using p1(1) assms(5) by (simp add: less_imp_diff_less)
      ultimately obtain it' where
        it': "skip_equal fuel L I r it1 = Inr it'" "ents it' = ?es"
        "pos it' = pos it1 + length (takeWhile (\<lambda>e. g e \<le> 0) (drop (pos it1) ?es))"
        using skip_equal_stops [OF assms(3), of it1 fuel L r g] p1(1) rc d(1) by auto
      have "list_all2 (\<lambda>e ks. (g e \<le> 0) = (f ks \<le> 0)) (drop n ?es) (drop n kss)" for n
        using g by (auto intro: list_all2_dropI elim!: list_all2_mono)
      then have "length (takeWhile (\<lambda>e. g e \<le> 0) (drop (pos it1) ?es)) = length (takeWhile (\<lambda>ks. f ks \<le> 0) (drop (pos it1) kss))"
        by (rule takeWhile_map_len)
      then have "pos it' = length (takeWhile (\<lambda>ks. f ks \<le> 0) kss)"
        using it'(3) takeWhile_prefix_len [of kss "\<lambda>ks. f ks < 0" "\<lambda>ks. f ks \<le> 0"] p1(2) by simp
      moreover have "(\<lambda>ks. \<not> above types ks ?vs False) = (\<lambda>ks. f ks \<le> 0)" by (auto simp: above_def f_def fun_eq_iff)
      ultimately show ?thesis using False excl it' by (simp add: seekStart_def it1_def [symmetric] Let_def)
    qed
  qed
qed

text \<open>In key order, keys below a bound come before the others.\<close>

lemma ordered_before:
  assumes "lex_compare type_cmp types a b < 0" "lex_compare type_cmp types b v \<le> 0"
    and "list_all2 type_comparable types a" "list_all2 type_comparable types b" "list_all2 type_comparable types v"
  shows "lex_compare type_cmp types a v < 0"
  using row_order.cmp_less_trans [OF assms(3-5) assms(1,2)] .

lemma seekStartReversed_position:
  assumes "describes L types T p r us" "exact_range r" "iter_laws I (key_cmp L types) ents pos"
    and "table_entries L types (ents it) kss" "2 < fuel"
  defines "n \<equiv> length (takeWhile (\<lambda>ks. below types ks (kr_endResults r) (kr_endInclusive r)) kss)"
  shows "\<exists>it'. seekStartReversed fuel L I r it = Inr it' \<and> ents it' = ents it \<and>
    pos it' = (if n = 0 then length (ents it) else n - 1)"
proof -
  let ?es = "ents it" and ?vs = "kr_endResults r" and ?row = "kr_endRow r"
  define f where "f = (\<lambda>ks. lex_compare type_cmp types ks ?vs)"
  have d: "kr_keyTypes r = types" "row_copy L types ?vs = Inr ?row" "kr_seekToLast r = (\<not> upper_ops us)"
    and kb: "key_bounds 0 types (kr_startResults r) ?vs (kr_startInclusive r) (kr_endInclusive r) us"
    using assms(1) by (simp_all add: describes_def)
  note at = iter_laws_at [OF assms(3)]
  have ents: "list_all2 (\<lambda>e ks. list_all2 column_ok types ks \<and> exact types ks \<and> row_copy L types ks = Inr (fst e)) ?es kss"
    and sorted: "sorted_wrt (\<lambda>a b. lex_compare type_cmp types a b < 0) kss"
    using assms(4) by (simp_all add: table_entries_def)
  have cmp: "list_all2 (\<lambda>e ks. list_all2 column_ok types ks \<and> row_compare L types (fst e) ?row = Inr (f ks) \<and> key_cmp L types (fst e) ?row = f ks) ?es kss"
    by (rule list_all2_mono [OF ents])
      (use key_against_bound assms(2) d in \<open>auto simp: exact_range_def f_def\<close>)
  have len: "length ?es = length kss" using ents by (rule list_all2_lengthD)
  have bf: "below types ks ?vs (kr_endInclusive r) \<longleftrightarrow> f ks < 0 \<or> f ks = 0 \<and> kr_endInclusive r" for ks
    by (simp add: below_def f_def)
  show ?thesis
  proof (cases "kr_seekToLast r")
    case True
    have "below types ks ?vs (kr_endInclusive r)" if "ks \<in> set kss" for ks
    proof -
      have "list_all2 column_ok types ks" using cmp that by (auto simp: list_all2_conv_all_nth in_set_conv_nth)
      from key_bounds_unbounded [OF kb this] show ?thesis using True d(3) by (auto simp: upper_ops_def)
    qed
    then have "n = length kss" unfolding n_def by (simp add: takeWhile_eq_all_conv [THEN iffD2])
    then show ?thesis using True at(6,7) len by (simp add: seekStartReversed_def)
  next
    case False
    define it1 where "it1 = it_seek I ?row it"
    define n0 where "n0 = length (takeWhile (\<lambda>ks. f ks < 0) kss)"
    have "length (takeWhile (\<lambda>e. key_cmp L types (fst e) ?row < 0) ?es) = n0"
      unfolding n0_def by (rule takeWhile_map_len) (rule list_all2_mono [OF cmp], simp)
    then have p1: "ents it1 = ?es" "pos it1 = n0" using at(12,13) by (simp_all add: it1_def)
    have le: "n0 \<le> length kss" unfolding n0_def by (rule length_takeWhile_le)
    have before: "f (kss ! i) < 0" if "i < n0" for i
      using that unfolding n0_def by (metis nth_mem set_takeWhileD takeWhile_nth)
    have row_at: "row_compare L types (fst (?es ! i)) ?row = Inr (f (kss ! i))" if "i < length kss" for i
      using cmp that by (simp add: list_all2_conv_all_nth)
    have ok_at: "list_all2 type_comparable types (kss ! i)" if "i < length kss" for i
    using list_all2_in2 [OF cmp nth_mem [OF that]] column_ok_comparable by blast
    have n_split: "n = n0 + length (takeWhile (\<lambda>ks. below types ks ?vs (kr_endInclusive r)) (drop n0 kss))"
      unfolding n_def n0_def by (rule takeWhile_prefix_len) (simp add: bf)
    show ?thesis
    proof (cases "n0 = length kss")
      case True
      then have "n = length kss" using n_split by simp
      then show ?thesis using False p1 True at(1) [of it1] at(6,7) [of it1] len
        by (simp add: seekStartReversed_def it1_def [symmetric] Let_def)
    next
      case inside: False
      then have n0: "n0 < length kss" using le by simp
      have valid: "it_valid I it1" using at(1) [of it1] p1 n0 len by simp
      have key: "it_key I it1 = fst (?es ! n0)" using at(2) [of it1] p1 n0 len by simp
      have dr: "drop n0 kss = kss ! n0 # drop (Suc n0) kss" using n0 by (rule Cons_nth_drop_Suc [symmetric])
      have not_neg: "\<not> f (kss ! n0) < 0" using nth_length_takeWhile [of "\<lambda>ks. f ks < 0" kss] n0 by (simp add: n0_def)
      obtain fuel' where fuel: "fuel = Suc (Suc fuel')" using assms(5) by (metis less_natE numeral_2_eq_2 Suc_lessD Suc_less_eq2)
      have sr: "seekStartReversed fuel L I r it = back_up fuel L I r it1"
        using False valid by (simp add: seekStartReversed_def it1_def [symmetric] Let_def)
      have rc: "row_compare L (kr_keyTypes r) (it_key I it1) ?row = Inr (f (kss ! n0))"
        using key row_at [OF n0] d(1) by simp
      show ?thesis
      proof (cases "f (kss ! n0) = 0 \<and> kr_endInclusive r")
        case True
        have "\<not> below types (kss ! Suc n0) ?vs (kr_endInclusive r)" if s: "Suc n0 < length kss"
        proof
          assume "below types (kss ! Suc n0) ?vs (kr_endInclusive r)"
          then have le0: "f (kss ! Suc n0) \<le> 0" by (auto simp: bf)
          have "lex_compare type_cmp types (kss ! n0) (kss ! Suc n0) < 0"
            using sorted s by (simp add: sorted_wrt_iff_nth_less)
          moreover have "list_all2 type_comparable types (kss ! n0)" "list_all2 type_comparable types (kss ! Suc n0)"
            using ok_at n0 s by simp_all
          moreover have "list_all2 type_comparable types ?vs"
            using exact_range_comparable [OF assms(2)] d(1) by (simp add: comparable_range_def)
          ultimately have "f (kss ! n0) < 0" using ordered_before le0 unfolding f_def by blast
          then show False using True by simp
        qed
        then have "takeWhile (\<lambda>ks. below types ks ?vs (kr_endInclusive r)) (drop (Suc n0) kss) = []"
          by (cases "Suc n0 < length kss") (simp_all add: Cons_nth_drop_Suc [symmetric])
        moreover have "below types (kss ! n0) ?vs (kr_endInclusive r)" using True bf by blast
        ultimately have "n = Suc n0" using n_split dr by simp
        then show ?thesis using sr fuel valid rc True p1 by simp
      next
        case not_below: False
        then have n: "n = n0" using n_split dr not_neg by (auto simp: bf)
        define it2 where "it2 = it_prev I it1"
        have p2: "ents it2 = ?es" "pos it2 = (if n0 = 0 then length ?es else n0 - 1)"
          using at(10) [of it1] at(11) [of it1] p1 n0 len by (simp_all add: it2_def)
        have step: "back_up fuel L I r it1 = back_up (Suc fuel') L I r it2"
          using fuel valid rc not_below not_neg by (auto simp: it2_def)
        have "back_up (Suc fuel') L I r it2 = Inr it2"
        proof (cases "n0 = 0")
          case True
          then show ?thesis using at(1) [of it2] p2 by simp
        next
          case False
          then have "row_compare L (kr_keyTypes r) (it_key I it2) ?row = Inr (f (kss ! (n0 - 1)))"
            using at(2) [of it2] p2 n0 len row_at [of "n0 - 1"] d(1) by simp
          then show ?thesis using before [of "n0 - 1"] False by simp
        qed
        then show ?thesis using sr step p2 n by auto
      qed
    qed
  qed
qed

section \<open>Properties\<close>

text \<open>A table with key \<open>(a int32, b varchar)\<close> and the predicate \<open>a = 1 and b > 'm'\<close>.\<close>

definition ex_keyed :: table_info where
  "ex_keyed = \<lparr>t_columns = [(newColumnInfo ''a'' DT_INT32)\<lparr>c_keyIndex := 0\<rparr>,
       (newColumnInfo ''b'' DT_STRING)\<lparr>c_index := 1, c_keyIndex := 1\<rparr>],
     t_keys = [0, 1], t_values = [], t_columnMap = [(''a'', 0), (''b'', 1)], t_attr = [], t_name = ''t''\<rparr>"

definition ex_cmp :: "Operation \<Rightarrow> string \<Rightarrow> NodeType \<Rightarrow> string \<Rightarrow> string \<Rightarrow> pnode" where
  "ex_cmp op x t c v = PNode 0 NT_OP op x [] [PNode 0 NT_NAME OP_NONE c c [], PNode 0 t OP_NONE v v []]"

definition ex_where :: pnode where
  "ex_where = PNode 0 NT_OP OP_AND [] [] [ex_cmp COMP_EQ ''a=1'' NT_INT ''a'' ''1'', ex_cmp COMP_GT ''b>m'' NT_STR ''b'' ''m'']"

lemmas range_eval = newKeySearchRange_def ex_where_def ex_cmp_def ex_types_def ex_keyed_def newColumnInfo_def
  setComparison_def setPredicateInfo_def reverseOp_def getChild_def isConst_def getColumnByName_def no_pred_def
  initial_flags_def scan_end_def scan_start_def end_value_def with_handler_def getHandler_def
  getKeyColumn_def getColumn_def Let_def ex_lib_def stringToInt_def checkInt_def int_min_def int_max_def
  h_fromNode_def int_fromNode_def string_fromNode_def int64_range_def ccode_def h_setToMax_def h_setToMin_def

lemma ex_range:
  obtains r where "newKeySearchRange ex_lib ex_types ex_keyed ex_where = Inr (r, [''a=1'', ''b>m''])"
    "kr_startResults r = [R_Int 1, R_StringView ''m'']" "kr_endResults r = [R_Int 1, R_MaxString]"
    "kr_keyTypes r = ex_types" "\<not> kr_startInclusive r" "\<not> kr_seekToFirst r" "\<not> kr_seekToLast r"
proof -
  have "list_all2 bound_column ex_types [R_Int 1, R_StringView ''m'']" "list_all2 bound_column ex_types [R_Int 1, R_MaxString]"
    by (simp_all add: ex_types_def bound_column_def getHandler_def bound_ok_def value_ok_def sized_def int_min_def int_max_def)
  then obtain sr er where rows: "row_copy ex_lib ex_types [R_Int 1, R_StringView ''m''] = Inr sr"
    "row_computeSize ex_lib ex_types [R_Int 1, R_StringView ''m''] = Inr (length sr)"
    "row_copy ex_lib ex_types [R_Int 1, R_MaxString] = Inr er"
    "row_computeSize ex_lib ex_types [R_Int 1, R_MaxString] = Inr (length er)"
    by (metis row_copy_ok)
  define ps where "ps = [\<lparr>kp_keyIndex = 0, kp_value = PNode 0 NT_INT OP_NONE ''1'' ''1'' [], kp_op = COMP_EQ, kp_expr = ''a=1''\<rparr>,
      \<lparr>kp_keyIndex = 1, kp_value = PNode 0 NT_STR OP_NONE ''m'' ''m'' [], kp_op = COMP_GT, kp_expr = ''b>m''\<rparr>]"
  define f where "f = \<lparr>rf_keyValid = False, rf_end = no_pred, rf_startInclusive = False, rf_endInclusive = True,
     rf_seekToFirst = False, rf_seekToLast = False, rf_solved = [''a=1'', ''b>m'']\<rparr>"
  have sel: "doSetPredicate ex_keyed ex_where (replicate (length ex_types) no_pred, no_pred) = Inr (ps, no_pred)"
    by (simp add: range_eval ps_def)
  have sc: "scan_predicates 0 ps (initial_flags no_pred) = (ps, f)"
    by (simp add: range_eval ps_def f_def)
  have fb: "fill_bounds ex_lib ex_keyed (rf_end f) 0 ex_types ps False True =
      Inr [(R_Int 1, R_Int 1), (R_StringView ''m'', R_MaxString)]"
    by (simp add: range_eval ps_def f_def)
  have "newKeySearchRange ex_lib ex_types ex_keyed ex_where =
      Inr (\<lparr>kr_predicates = ps, kr_endPredicate = rf_end f, kr_startRow = sr, kr_endRow = er,
            kr_startInclusive = rf_startInclusive f, kr_endInclusive = rf_endInclusive f,
            kr_seekToFirst = rf_seekToFirst f, kr_seekToLast = rf_seekToLast f,
            kr_startResults = [R_Int 1, R_StringView ''m''], kr_endResults = [R_Int 1, R_MaxString],
            kr_keyTypes = ex_types\<rparr>, rf_solved f)"
    unfolding newKeySearchRange_def sel bindR_simps prod.case sc Let_def fb by (simp add: rows)
  then show ?thesis by (intro that) (auto simp: f_def)
qed

text \<open>
  C5.  A key search range is exactly its solved comparisons: the comparisons the constructor
  reports as solved are key comparisons of the predicate, and a key lies between the bounds if
  and only if all of them hold.  In particular no key that satisfies the predicate is left out,
  and the solved comparisons need no further filter.
\<close>

theorem range_is_solved_comparisons:
  assumes "newKeySearchRange L types T p = Inr (r, solved)" "comparable_range r"
  shows "\<exists>used. set used \<subseteq> set (key_atoms T p) \<and> map (\<lambda>(j, op, node, x). x) used = solved \<and>
    (\<forall>ks. list_all2 column_ok types ks \<longrightarrow>
      (\<exists>b c. exceedEnd L r ks = Inr b \<and> exceedEndReversed L r ks = Inr c \<and>
        (\<not> b \<and> \<not> c \<longleftrightarrow> (\<forall>a \<in> set used. atom_true L types ks a))))"
proof -
  from newKeySearchRange_describes [OF assms(1)] obtain us where us: "describes L types T p r us" "solved = exprs us" by blast
  from describes_atoms [OF us(1)] obtain used where used: "set used \<subseteq> set (key_atoms T p)" "map (\<lambda>(j, op, node, x). x) used = solved"
    "\<forall>ks. (\<forall>u \<in> set us. use_holds 0 types ks u) \<longleftrightarrow> (\<forall>a \<in> set used. atom_true L types ks a)" using us(2) by auto
  have "\<exists>b c. exceedEnd L r ks = Inr b \<and> exceedEndReversed L r ks = Inr c \<and>
        (\<not> b \<and> \<not> c \<longleftrightarrow> (\<forall>a \<in> set used. atom_true L types ks a))" if ks: "list_all2 column_ok types ks" for ks
  proof -
    have "key_bounds 0 types (kr_startResults r) (kr_endResults r) (kr_startInclusive r) (kr_endInclusive r) us"
      using us(1) by (simp add: describes_def)
    from exceed_iff [OF us(1) assms(2) ks] key_bounds_iff [OF this ks] show ?thesis using used(3) by auto
  qed
  with used show ?thesis by blast
qed

theorem range_is_solved_comparisons_witness:
  "\<exists>r used. newKeySearchRange ex_lib ex_types ex_keyed ex_where = Inr (r, [''a=1'', ''b>m'']) \<and> comparable_range r \<and>
     set used \<subseteq> set (key_atoms ex_keyed ex_where) \<and> map (\<lambda>(j, op, node, x). x) used = [''a=1'', ''b>m''] \<and>
     exceedEndReversed ex_lib r [R_Int 1, R_StringView ''m''] = Inr True"
proof -
  obtain r where r: "newKeySearchRange ex_lib ex_types ex_keyed ex_where = Inr (r, [''a=1'', ''b>m''])"
    "kr_startResults r = [R_Int 1, R_StringView ''m'']" "kr_endResults r = [R_Int 1, R_MaxString]"
    "kr_keyTypes r = ex_types" "\<not> kr_startInclusive r" "\<not> kr_seekToFirst r" "\<not> kr_seekToLast r"
    by (rule ex_range)
  have c: "comparable_range r"
    by (simp add: comparable_range_def r ex_types_def type_comparable_def getHandler_def comparable_def)
  obtain used where u: "set used \<subseteq> set (key_atoms ex_keyed ex_where)"
      "map (\<lambda>(j, op, node, x). x) used = [''a=1'', ''b>m'']"
    using range_is_solved_comparisons [OF r(1) c] by (elim exE conjE)
  have e: "exceedEndReversed ex_lib r [R_Int 1, R_StringView ''m''] = Inr True"
    by (simp add: exceedEndReversed_def r ex_types_def with_handler_def getHandler_def h_compare_def getInt_def int_compare_def
        string_compare_def isMaxString_def getString_def)
  show ?thesis by (intro exI conjI; rule r(1) c u e)
qed

end
