(* ===== verification/World.thy ===== *)
theory World
  imports MemPool RangeLaws PlanBase
begin

text \<open>
  What the plans of a statement share beyond their own objects: the memory of the executor, the
  databases opened so far and the iterators over them.  An iterator is a position in \<open>w_iters\<close>
  (\<open>LevelDBIteratorPtr\<close> is a shared pointer: several scans may hold the same one).
\<close>

record ('db, 'it) world =
  w_mem :: memory
  w_handlers :: "'db handlers"
  w_iters :: "'it list"

section \<open>Rows among other memory traffic\<close>

text \<open>
  Plans of one statement take blocks from the shared pool in turn.  A plan relies on the blocks it
  owns: \<open>mem_keeps own m m'\<close> says that the memory may change, but for the blocks \<open>own\<close>.
\<close>

definition mem_keeps :: "nat set \<Rightarrow> memory \<Rightarrow> memory \<Rightarrow> bool" where
  "mem_keeps own m m' \<longleftrightarrow> own \<subseteq> bp_held (m_pool m') \<and> (\<forall>b \<in> own. m_heap m' b = m_heap m b)"

text \<open>
  The client's loop as in \<open>delivers_to\<close>, with other memory traffic before each call; \<open>next\<close> itself
  leaves the memory alone.
\<close>

fun delivers_amid ::
  "nat set \<Rightarrow> ('p \<times> ('db, 'it) world \<Rightarrow> err + bool \<times> 'p \<times> ('db, 'it) world) \<Rightarrow> ('p \<times> ('db, 'it) world \<Rightarrow> 'r) \<Rightarrow>
   'p \<times> ('db, 'it) world \<Rightarrow> 'r list \<Rightarrow> ('p \<times> ('db, 'it) world \<Rightarrow> bool) \<Rightarrow> bool" where
  "delivers_amid own nx cur s [] Q = (\<forall>m. mem_keeps own (w_mem (snd s)) m \<longrightarrow>
     (\<exists>s'. nx (fst s, snd s\<lparr>w_mem := m\<rparr>) = Inr (False, s') \<and> w_mem (snd s') = m \<and> Q s'))"
| "delivers_amid own nx cur s (r # rs) Q = (\<forall>m. mem_keeps own (w_mem (snd s)) m \<longrightarrow>
     (\<exists>s'. nx (fst s, snd s\<lparr>w_mem := m\<rparr>) = Inr (True, s') \<and> w_mem (snd s') = m \<and> cur s' = r \<and>
       delivers_amid own nx cur s' rs Q))"

lemma mem_keeps_refl: "own \<subseteq> bp_held (m_pool m) \<Longrightarrow> mem_keeps own m m"
  by (simp add: mem_keeps_def)

lemma delivers_amid_delivers:
  "delivers_amid own nx cur s rs Q \<Longrightarrow> own \<subseteq> bp_held (m_pool (w_mem (snd s))) \<Longrightarrow> delivers_to nx cur s rs Q"
proof (induction rs arbitrary: s)
  case Nil
  from Nil.prems(1) [unfolded delivers_amid.simps, rule_format, OF mem_keeps_refl [OF Nil.prems(2)]] show ?case by auto
next
  case (Cons r rs)
  from Cons.prems(1) [unfolded delivers_amid.simps, rule_format, OF mem_keeps_refl [OF Cons.prems(2)]] obtain s' where
    s': "nx s = Inr (True, s')" "w_mem (snd s') = w_mem (snd s)" "cur s' = r" "delivers_amid own nx cur s' rs Q" by auto
  then have "own \<subseteq> bp_held (m_pool (w_mem (snd s')))" using Cons.prems(2) by simp
  then show ?case using Cons.IH s' by auto
qed

text \<open>A plan that neither reads nor changes the memory delivers the same rows amid any traffic.\<close>

definition ignores_memory ::
  "('p \<times> ('db, 'it) world \<Rightarrow> err + bool \<times> 'p \<times> ('db, 'it) world) \<Rightarrow> ('p \<times> ('db, 'it) world \<Rightarrow> 'r) \<Rightarrow> bool" where
  "ignores_memory nx cur \<longleftrightarrow> (\<forall>p w m. cur (p, w\<lparr>w_mem := m\<rparr>) = cur (p, w)) \<and>
     (\<forall>p w b p' w'. nx (p, w) = Inr (b, p', w') \<longrightarrow> (\<forall>m. nx (p, w\<lparr>w_mem := m\<rparr>) = Inr (b, p', w'\<lparr>w_mem := m\<rparr>)))"

lemma ignores_memory_delivers:
  assumes "ignores_memory nx cur" "delivers_to nx cur s rs Q" "\<And>p w m. Q (p, w) \<Longrightarrow> Q (p, w\<lparr>w_mem := m\<rparr>)"
  shows "delivers_amid own nx cur (fst s, snd s\<lparr>w_mem := m\<rparr>) rs Q"
  using assms(2)
proof (induction rs arbitrary: s m)
  case Nil
  then obtain p' w' where n: "nx s = Inr (False, p', w')" "Q (p', w')" by auto
  then have "nx (fst s, snd s\<lparr>w_mem := m'\<rparr>) = Inr (False, p', w'\<lparr>w_mem := m'\<rparr>)" for m'
    using assms(1) unfolding ignores_memory_def by (metis prod.collapse)
  then show ?case using assms(3) [OF n(2)] by simp
next
  case (Cons r rs)
  then obtain p' w' where n: "nx s = Inr (True, p', w')" "cur (p', w') = r" "delivers_to nx cur (p', w') rs Q" by auto
  then have "nx (fst s, snd s\<lparr>w_mem := m'\<rparr>) = Inr (True, p', w'\<lparr>w_mem := m'\<rparr>)" for m'
    using assms(1) unfolding ignores_memory_def by (metis prod.collapse)
  moreover have "cur (p', w'\<lparr>w_mem := m'\<rparr>) = r" for m' using assms(1) n(2) by (simp add: ignores_memory_def)
  moreover have "delivers_amid own nx cur (p', w'\<lparr>w_mem := m'\<rparr>) rs Q" for m' using Cons.IH [OF n(3), of m'] by simp
  ultimately show ?case by simp
qed

lemma ignores_memory_amid:
  assumes "ignores_memory nx cur" "delivers_to nx cur s rs Q" "\<And>p w m. Q (p, w) \<Longrightarrow> Q (p, w\<lparr>w_mem := m\<rparr>)"
  shows "delivers_amid own nx cur s rs Q"
  using ignores_memory_delivers [OF assms, of own "w_mem (snd s)"] by simp

lemma delivers_amid_mono:
  assumes "delivers_amid own nx cur s rs Q" "\<And>s'. Q s' \<Longrightarrow> Q' s'"
  shows "delivers_amid own nx cur s rs Q'"
  using assms(1)
proof (induction rs arbitrary: s)
  case Nil
  then show ?case using assms(2) by simp blast
next
  case (Cons r rs)
  then show ?case by simp blast
qed

text \<open>A plan that gives its own blocks back at its end.\<close>

definition mem_releases :: "nat \<Rightarrow> nat set \<Rightarrow> memory \<Rightarrow> memory \<Rightarrow> bool" where
  "mem_releases limit own m m' \<longleftrightarrow> (bp_inv limit (m_pool m) \<longrightarrow> bp_inv limit (m_pool m')) \<and>
     bp_held (m_pool m) - own \<subseteq> bp_held (m_pool m') \<and> (\<forall>b \<in> bp_held (m_pool m) - own. m_heap m' b = m_heap m b)"

lemma mem_releases_refl [simp]: "mem_releases limit own m m"
  by (simp add: mem_releases_def)

section \<open>Databases\<close>

text \<open>
  The documented behaviour of LevelDB: an iterator walks the entries the database had when it was
  made, in the order of the comparator; a write applies its batch as a whole, operation by
  operation, or fails.  \<open>contents\<close> reads the entries off a database.
\<close>

fun put_entry :: "(byte list \<Rightarrow> byte list \<Rightarrow> int) \<Rightarrow> byte list \<Rightarrow> byte list \<Rightarrow> (byte list \<times> byte list) list \<Rightarrow> (byte list \<times> byte list) list" where
  "put_entry cmp k v [] = [(k, v)]"
| "put_entry cmp k v (e # es) =
     (if cmp (fst e) k < 0 then e # put_entry cmp k v es
      else if cmp (fst e) k = 0 then (k, v) # es
      else (k, v) # e # es)"

definition del_entry :: "(byte list \<Rightarrow> byte list \<Rightarrow> int) \<Rightarrow> byte list \<Rightarrow> (byte list \<times> byte list) list \<Rightarrow> (byte list \<times> byte list) list" where
  "del_entry cmp k es = filter (\<lambda>e. cmp (fst e) k \<noteq> 0) es"

definition apply_op :: "(byte list \<Rightarrow> byte list \<Rightarrow> int) \<Rightarrow> (byte list \<times> byte list) list \<Rightarrow> batch_op \<Rightarrow> (byte list \<times> byte list) list" where
  "apply_op cmp es bop = (case bop of Put k v \<Rightarrow> put_entry cmp k v es | Del k \<Rightarrow> del_entry cmp k es)"

definition db_laws ::
  "('db, 'it) leveldb \<Rightarrow> (byte list \<Rightarrow> byte list \<Rightarrow> int) \<Rightarrow> ('db \<Rightarrow> (byte list \<times> byte list) list) \<Rightarrow>
   ('it \<Rightarrow> (byte list \<times> byte list) list) \<Rightarrow> ('it \<Rightarrow> nat) \<Rightarrow> bool" where
  "db_laws D cmp contents ents pos \<longleftrightarrow> iter_laws (ldb_iter D) cmp ents pos \<and>
     (\<forall>db. ents (ldb_newIterator D db) = contents db) \<and>
     (\<forall>b db db'. ldb_write D b db = Inr db' \<longrightarrow> contents db' = foldl (apply_op cmp) (contents db) b)"

text \<open>A database that is its list of entries.\<close>

definition list_db :: "(byte list \<Rightarrow> byte list \<Rightarrow> int) \<Rightarrow> ((byte list \<times> byte list) list, list_iter) leveldb" where
  "list_db cmp = \<lparr>ldb_iter = list_iterator cmp, ldb_open = (\<lambda>types path. Inr []), ldb_newIterator = (\<lambda>db. (db, 0)),
     ldb_write = (\<lambda>b db. Inr (foldl (apply_op cmp) db b)), ldb_sizes = (\<lambda>start end' db. length db)\<rparr>"

lemma list_db_laws: "db_laws (list_db cmp) cmp (\<lambda>db. db) fst snd"
  by (simp add: db_laws_def list_db_def list_iterator_laws)

end
