(* ===== verification/ScanPlan.thy ===== *)
theory ScanPlan
  imports World
begin

text \<open>
  \<^verbatim>\<open>src/execution/LevelDBScanPlan\<close>: the rows of a table whose keys lie in a key search range, in
  key order or backwards.  A table is its address (the key of the open databases) with its
  description.  The values the plan keeps as views into the iterator are kept as values here: they
  are read before the iterator moves on.
\<close>

section \<open>The plan\<close>

record scan_plan =
  sc_columnValues :: "eresult option list"
  sc_projectValue :: bool
  sc_keyValues :: "eresult list"
  sc_keyTypes :: "DBDataType list"
  sc_valueTypes :: "DBDataType list"
  sc_tableId :: nat
  sc_table :: table_info
  sc_order :: SortOrder
  sc_currentKey :: "byte list"
  sc_rows :: nat
  sc_iter :: "nat option"
  sc_range :: "key_range option"

text \<open>The loop of the constructor over the columns.\<close>

definition scan_type_step :: "DBDataType list \<times> DBDataType list \<Rightarrow> column_info \<Rightarrow> DBDataType list \<times> DBDataType list" where
  "scan_type_step = (\<lambda>(keyTypes, valueTypes) c.
     if c_keyIndex c < 0 then (keyTypes, valueTypes @ [c_type c])
     else (keyTypes[nat (c_keyIndex c) := c_type c], valueTypes))"

definition scan_types :: "table_info \<Rightarrow> DBDataType list \<times> DBDataType list" where
  "scan_types T = foldl scan_type_step (replicate (getKeyCount T) DT_UNKNOWN, []) (t_columns T)"

definition newLevelDBScanPlan :: "nat \<Rightarrow> table_info \<Rightarrow> scan_plan" where
  "newLevelDBScanPlan tid T = \<lparr>
     sc_columnValues = replicate (getColumnCount T - getKeyCount T) None, sc_projectValue = False,
     sc_keyValues = replicate (getKeyCount T) R_Null, sc_keyTypes = fst (scan_types T), sc_valueTypes = snd (scan_types T),
     sc_tableId = tid, sc_table = T, sc_order = AnyOrder, sc_currentKey = [], sc_rows = 0, sc_iter = None, sc_range = None\<rparr>"

definition scan_setPredicate :: "lib \<Rightarrow> pnode \<Rightarrow> scan_plan \<Rightarrow> err + scan_plan \<times> string list" where
  "scan_setPredicate L pNode sc =
     mapR (\<lambda>(r, solved). (sc\<lparr>sc_range := Some r\<rparr>, solved)) (newKeySearchRange L (sc_keyTypes sc) (sc_table sc) pNode)"

text \<open>A range without predicate, made when there is none yet.\<close>

definition scan_ensureRange :: "lib \<Rightarrow> scan_plan \<Rightarrow> scan_plan res" where
  "scan_ensureRange L sc =
     (if sc_range sc = None then mapR fst (scan_setPredicate L NullNode sc) else Inr sc)"

definition scan_addProjection :: "lib \<Rightarrow> pnode \<Rightarrow> scan_plan \<Rightarrow> err + int \<times> scan_plan" where
  "scan_addProjection L pNode sc =
     (if isRowKeyNode L pNode then Inr (int (length (sc_columnValues sc) + getKeyCount (sc_table sc)), sc)
      else if n_type pNode = NT_NAME then
        (case getColumnByName (sc_table sc) (n_value pNode) of
           None \<Rightarrow> Inl (ParseException (''Unknown column: '' @ n_value pNode))
         | Some c \<Rightarrow>
             if c_keyIndex c \<ge> 0 then Inr (c_keyIndex c, sc)
             else if c_valueIndex c < 0 \<or> nat (c_valueIndex c) \<ge> length (sc_columnValues sc)
             then Inl (Stuck ''m_columnValues[m_iValueIndex]'')
             else Inr (int (getKeyCount (sc_table sc)) + c_valueIndex c,
                    sc\<lparr>sc_projectValue := True,
                       sc_columnValues := (sc_columnValues sc)[nat (c_valueIndex c) := Some R_Null]\<rparr>))
      else Inr (-1, sc))"

definition scan_begin :: "lib \<Rightarrow> ('db, 'it) leveldb \<Rightarrow> scan_plan \<times> ('db, 'it) world \<Rightarrow> (scan_plan \<times> ('db, 'it) world) res" where
  "scan_begin L D = (\<lambda>(sc, w).
     let sc0 = sc\<lparr>sc_rows := 0\<rparr> in
     bindR (if sc_iter sc0 = None
            then mapR (\<lambda>(db, hs). (sc0\<lparr>sc_iter := Some (length (w_iters w))\<rparr>,
                                    w\<lparr>w_handlers := hs, w_iters := w_iters w @ [createIterator D db]\<rparr>))
                   (getLevelDBHandler D (sc_tableId sc0) (sc_table sc0) (w_handlers w))
            else Inr (sc0, w)) (\<lambda>(sc1, w1).
     mapR (\<lambda>sc2. (sc2, w1)) (scan_ensureRange L sc1)))"

text \<open>\<open>setLevelDBIterator\<close>: scans of one statement share an iterator.\<close>

definition setLevelDBIterator :: "nat \<Rightarrow> scan_plan \<Rightarrow> scan_plan" where
  "setLevelDBIterator i sc = sc\<lparr>sc_iter := Some i\<rparr>"

text \<open>The movement of the iterator at the start of \<open>next\<close>.\<close>

definition scan_move :: "nat \<Rightarrow> lib \<Rightarrow> 'it leveldb_iter \<Rightarrow> scan_plan \<Rightarrow> key_range \<Rightarrow> 'it \<Rightarrow> 'it res" where
  "scan_move fuel L I sc r it =
     (if sc_order sc = Descend
      then (if sc_rows sc = 0 then seekStartReversed fuel L I r it else Inr (it_prev I it))
      else (if sc_rows sc = 0 then seekStart fuel L I r it else Inr (it_next I it)))"

definition scan_exceeds :: "lib \<Rightarrow> scan_plan \<Rightarrow> key_range \<Rightarrow> bool res" where
  "scan_exceeds L sc r =
     (if sc_order sc = Descend then exceedEndReversed L r (sc_keyValues sc) else exceedEnd L r (sc_keyValues sc))"

text \<open>The value columns that are projected, read from the value row.\<close>

definition read_values :: "DBDataType list \<Rightarrow> byte list \<Rightarrow> eresult option list \<Rightarrow> eresult option list res" where
  "read_values types valueRow cols =
     traverseR (\<lambda>(i, c). case c of None \<Rightarrow> Inr None | Some _ \<Rightarrow> mapR Some (row_getResult types valueRow i))
       (zip [0..<length cols] cols)"

definition scan_next ::
  "nat \<Rightarrow> lib \<Rightarrow> ('db, 'it) leveldb \<Rightarrow> bool \<Rightarrow> scan_plan \<times> ('db, 'it) world \<Rightarrow> err + bool \<times> scan_plan \<times> ('db, 'it) world" where
  "scan_next fuel L D bTerminated = (\<lambda>(sc, w).
     case (sc_range sc, sc_iter sc) of
       (Some r, Some i) \<Rightarrow>
         if i \<ge> length (w_iters w) then Inl (Stuck ''m_pDBIter'')
         else bindR (scan_move fuel L (ldb_iter D) sc r (w_iters w ! i)) (\<lambda>it.
           let w1 = w\<lparr>w_iters := (w_iters w)[i := it]\<rparr> in
           if \<not> it_valid (ldb_iter D) it then Inr (False, sc, w1)
           else bindR (CheckCancellation bTerminated) (\<lambda>_.
             let key = it_key (ldb_iter D) it in
             bindR (traverseR (row_getResult (sc_keyTypes sc) key) [0..<length (sc_keyValues sc)]) (\<lambda>keyValues.
             let sc1 = sc\<lparr>sc_currentKey := key, sc_keyValues := keyValues\<rparr> in
             bindR (scan_exceeds L sc1 r) (\<lambda>exceeded.
             if exceeded then Inr (False, sc1, w1)
             else bindR (if sc_projectValue sc1
                         then read_values (sc_valueTypes sc1) (it_value (ldb_iter D) it) (sc_columnValues sc1)
                         else Inr (sc_columnValues sc1)) (\<lambda>cols.
               Inr (True, sc1\<lparr>sc_columnValues := cols, sc_rows := sc_rows sc1 + 1\<rparr>, w1))))))
     | _ \<Rightarrow> Inl (Stuck ''m_pSearchRange''))"

definition scan_close :: "scan_plan \<Rightarrow> scan_plan" where
  "scan_close sc = sc\<lparr>sc_iter := None\<rparr>"

definition scan_getResultType :: "scan_plan \<Rightarrow> nat \<Rightarrow> DBDataType res" where
  "scan_getResultType sc index =
     (if index = getColumnCount (sc_table sc) then Inr DT_BYTES
      else if index < getKeyCount (sc_table sc) then mapR c_type (getKeyColumn (sc_table sc) index)
      else mapR c_type (getValueColumn (sc_table sc) (index - getKeyCount (sc_table sc))))"

definition scan_getProjectionName :: "scan_plan \<Rightarrow> nat \<Rightarrow> string res" where
  "scan_getProjectionName sc index = mapR c_name (getColumn (sc_table sc) index)"

definition scan_ensureSortOrder :: "nat \<Rightarrow> string \<Rightarrow> SortOrder \<Rightarrow> scan_plan \<Rightarrow> bool \<times> scan_plan" where
  "scan_ensureSortOrder iSortIndex sColumn order sc =
     (if iSortIndex > getColumnCount (sc_table sc) then (False, sc)
      else case getColumnByName (sc_table sc) sColumn of
        None \<Rightarrow> (False, sc)
      | Some c \<Rightarrow>
          if c_keyIndex c \<noteq> int iSortIndex then (False, sc)
          else if order = AnyOrder then (True, sc)
          else let sc1 = (if sc_order sc = AnyOrder then sc\<lparr>sc_order := order\<rparr> else sc) in
            (sc_order sc1 = order, sc1))"

text \<open>What the columns of the plan show of its current row.\<close>

definition scan_view :: "scan_plan \<Rightarrow> eresult list \<times> eresult option list \<times> byte list" where
  "scan_view sc = (sc_keyValues sc, sc_columnValues sc, sc_currentKey sc)"

definition view_row :: "nat \<Rightarrow> eresult list \<times> eresult option list \<times> byte list \<Rightarrow> row" where
  "view_row keyCount = (\<lambda>(keyValues, columnValues, currentKey) columnIndex type.
     if columnIndex < keyCount then
       (if columnIndex < length keyValues then Inr (keyValues ! columnIndex) else Inl (Stuck ''m_keyValues[columnIndex]''))
     else if columnIndex - keyCount < length columnValues then
       (case columnValues ! (columnIndex - keyCount) of
          Some v \<Rightarrow> Inr v
        | None \<Rightarrow> Inl (Stuck ''*m_columnValues[columnIndex]''))
     else if columnIndex = keyCount + length columnValues then Inr (R_StringView (string_of currentKey))
     else Inl (Stuck ''columnIndex''))"

definition scan_getResult :: "scan_plan \<Rightarrow> row" where
  "scan_getResult sc = view_row (getKeyCount (sc_table sc)) (scan_view sc)"

definition scan_explain ::
  "lib \<Rightarrow> ('db, 'it) leveldb \<Rightarrow> nat \<Rightarrow> scan_plan \<times> ('db, 'it) world \<Rightarrow> err + string list \<times> scan_plan \<times> ('db, 'it) world" where
  "scan_explain L D depth = (\<lambda>(sc, w).
     bindR (scan_ensureRange L sc) (\<lambda>sc1.
     case sc_range sc1 of
       None \<Rightarrow> Inl (Stuck ''m_pSearchRange'')
     | Some r \<Rightarrow>
         bindR (getLevelDBHandler D (sc_tableId sc1) (sc_table sc1) (w_handlers w)) (\<lambda>(db, hs).
         bindR (kr_getCost D r db) (\<lambda>cost.
           Inr ([tabs depth @ ''leveldb:scan '' @ t_name (sc_table sc1) @ '', cost:'' @ nat_to_string cost @
                   (if sc_order sc1 = Descend then '', reverse'' else []),
                 tabs (depth + 1) @ kr_toString L r], sc1, w\<lparr>w_handlers := hs\<rparr>)))))"

definition scan_ops :: "nat \<Rightarrow> lib \<Rightarrow> ('db, 'it) leveldb \<Rightarrow> (scan_plan \<times> ('db, 'it) world) plan_ops" where
  "scan_ops fuel L D = \<lparr>
     o_explain = scan_explain L D,
     o_begin = (\<lambda>bTerminated. scan_begin L D),
     o_next = scan_next fuel L D,
     o_end = (\<lambda>(sc, w). Inr (scan_close sc, w)),
     o_getResultColumns = (\<lambda>(sc, w). Inr (length (sc_columnValues sc) + 1)),
     o_getProjectionName = (\<lambda>(sc, w). scan_getProjectionName sc),
     o_getResultType = (\<lambda>(sc, w). scan_getResultType sc),
     o_addProjection = (\<lambda>pColumn (sc, w). mapR (\<lambda>(i, sc'). (i, sc', w)) (scan_addProjection L pColumn sc)),
     o_getAllColumns = (\<lambda>(sc, w). Inr (map c_name (t_columns (sc_table sc)))),
     o_ensureSortOrder = (\<lambda>iSortIndex sColumn order (sc, w).
       case scan_ensureSortOrder iSortIndex sColumn order sc of (b, sc') \<Rightarrow> Inr (b, sc', w)),
     o_getInfoString = (\<lambda>(sc, w). Inr (''SELECT '' @ nat_to_string (sc_rows sc))),
     o_getResult = (\<lambda>(sc, w). scan_getResult sc)\<rparr>"


section \<open>The walk of the iterator\<close>

text \<open>
  Rows of a table: entry bytes, key values and value values.  In key order, the keys above the
  lower bound are a final part and those below the upper bound an initial part.
\<close>

type_synonym table_row = "(byte list \<times> byte list) \<times> eresult list \<times> eresult list"

definition keys_of :: "table_row list \<Rightarrow> eresult list list" where
  "keys_of rs = map (fst \<circ> snd) rs"

definition table_rows :: "lib \<Rightarrow> DBDataType list \<Rightarrow> DBDataType list \<Rightarrow> table_row list \<Rightarrow> bool" where
  "table_rows L kt vt rs \<longleftrightarrow> table_entries L kt (map fst rs) (keys_of rs) \<and>
     list_all (\<lambda>(e, ks, vs). list_all2 column_ok vt vs \<and> row_copy L vt vs = Inr (snd e)) rs"

definition in_range :: "DBDataType list \<Rightarrow> key_range \<Rightarrow> eresult list \<Rightarrow> bool" where
  "in_range types r ks \<longleftrightarrow> above types ks (kr_startResults r) (kr_startInclusive r) \<and>
     below types ks (kr_endResults r) (kr_endInclusive r)"

definition in_bound :: "DBDataType list \<Rightarrow> key_range \<Rightarrow> SortOrder \<Rightarrow> eresult list \<Rightarrow> bool" where
  "in_bound types r order ks =
     (if order = Descend then above types ks (kr_startResults r) (kr_startInclusive r)
      else below types ks (kr_endResults r) (kr_endInclusive r))"

text \<open>The positions the iterator takes, one after the other.\<close>

definition scan_walk :: "DBDataType list \<Rightarrow> key_range \<Rightarrow> SortOrder \<Rightarrow> eresult list list \<Rightarrow> nat list" where
  "scan_walk types r order kss =
     (if order = Descend
      then rev [0..<length (takeWhile (\<lambda>ks. below types ks (kr_endResults r) (kr_endInclusive r)) kss)]
      else [length (takeWhile (\<lambda>ks. \<not> above types ks (kr_startResults r) (kr_startInclusive r)) kss)..<length kss])"

lemma takeWhile_filter:
  "sorted_wrt (\<lambda>a b. P b \<longrightarrow> P a) xs \<Longrightarrow> takeWhile P xs = filter P xs"
  by (induction xs) (auto simp: filter_empty_conv)

lemma dropWhile_filter:
  "sorted_wrt (\<lambda>a b. P a \<longrightarrow> P b) xs \<Longrightarrow> dropWhile (\<lambda>x. \<not> P x) xs = filter P xs"
  by (induction xs) (auto simp: filter_id_conv)

lemma bounds_monotone:
  assumes "exact_range r" "kr_keyTypes r = types" "list_all (list_all2 column_ok types) kss"
    and "sorted_wrt (\<lambda>a b. lex_compare type_cmp types a b < 0) kss"
  shows "sorted_wrt (\<lambda>a b. below types b (kr_endResults r) i \<longrightarrow> below types a (kr_endResults r) i) kss"
    and "sorted_wrt (\<lambda>a b. above types a (kr_startResults r) i \<longrightarrow> above types b (kr_startResults r) i) kss"
proof -
  have bounds: "list_all2 type_comparable types (kr_endResults r)" "list_all2 type_comparable types (kr_startResults r)"
    using exact_range_comparable [OF assms(1)] assms(2) by (simp_all add: comparable_range_def)
  have ok: "list_all2 type_comparable types ks" if "ks \<in> set kss" for ks
    using assms(3) that column_ok_comparable by (auto simp: list_all_iff)
  show "sorted_wrt (\<lambda>a b. below types b (kr_endResults r) i \<longrightarrow> below types a (kr_endResults r) i) kss"
  proof (rule sorted_wrt_mono_rel [OF _ assms(4)])
    fix a b assume ab: "a \<in> set kss" "b \<in> set kss" "lex_compare type_cmp types a b < 0"
    show "below types b (kr_endResults r) i \<longrightarrow> below types a (kr_endResults r) i"
      using row_order.cmp_less_trans [OF ok [OF ab(1)] ok [OF ab(2)] bounds(1) ab(3)]
      by (auto simp: below_def)
  qed
  show "sorted_wrt (\<lambda>a b. above types a (kr_startResults r) i \<longrightarrow> above types b (kr_startResults r) i) kss"
  proof (rule sorted_wrt_mono_rel [OF _ assms(4)])
    fix a b assume ab: "a \<in> set kss" "b \<in> set kss" "lex_compare type_cmp types a b < 0"
    note anti = row_order.cmp_antisym [OF ok [OF ab(1)] bounds(2)] row_order.cmp_antisym [OF ok [OF ab(2)] bounds(2)]
      row_order.cmp_antisym [OF ok [OF ab(1)] ok [OF ab(2)]]
    show "above types a (kr_startResults r) i \<longrightarrow> above types b (kr_startResults r) i"
      using row_order.cmp_le_less_trans [OF bounds(2) ok [OF ab(1)] ok [OF ab(2)]] ab(3) anti
      by (auto simp: above_def)
  qed
qed

lemma scan_walk_filter:
  fixes rs :: "table_row list"
  assumes "exact_range r" "kr_keyTypes r = types" "table_rows L types vt rs"
  shows "map ((!) rs) (takeWhile (\<lambda>p. in_bound types r order (fst (snd (rs ! p)))) (scan_walk types r order (keys_of rs))) =
    (if order = Descend then rev else id) (filter (\<lambda>(e, ks, vs). in_range types r ks) rs)"
proof -
  let ?A = "\<lambda>ks. above types ks (kr_startResults r) (kr_startInclusive r)"
  let ?B = "\<lambda>ks. below types ks (kr_endResults r) (kr_endInclusive r)"
  let ?kss = "keys_of rs"
  have t: "list_all2 (\<lambda>e ks. list_all2 column_ok types ks \<and> exact types ks \<and> row_copy L types ks = Inr (fst e)) (map fst rs) ?kss"
    "sorted_wrt (\<lambda>a b. lex_compare type_cmp types a b < 0) ?kss"
    using assms(3) by (simp_all add: table_rows_def table_entries_def)
  have "list_all (list_all2 column_ok types) ?kss" using list_all2_in2 [OF t(1)] by (fastforce simp: list_all_iff)
  note mono = bounds_monotone [OF assms(1,2) this t(2)]
  have B: "sorted_wrt (\<lambda>a b. ?B (fst (snd b)) \<longrightarrow> ?B (fst (snd a))) rs"
    and A: "sorted_wrt (\<lambda>a b. ?A (fst (snd a)) \<longrightarrow> ?A (fst (snd b))) rs"
    using mono(1) [of "kr_endInclusive r"] mono(2) [of "kr_startInclusive r"] by (simp_all add: sorted_wrt_map keys_of_def)
  have len: "length (takeWhile P ?kss) = length (takeWhile (P \<circ> fst \<circ> snd) rs)" "length ?kss = length rs" for P
    by (simp_all add: takeWhile_map comp_assoc keys_of_def)
  have rng: "(\<lambda>(e, ks, vs). in_range types r ks) = (\<lambda>x. ?A (fst (snd x)) \<and> ?B (fst (snd x)))"
    by (auto simp: in_range_def fun_eq_iff)
  show ?thesis
  proof (cases "order = Descend")
    case True
    have take: "map ((!) rs) [0..<length (takeWhile (?B \<circ> fst \<circ> snd) rs)] = filter (?B \<circ> fst \<circ> snd) rs"
    proof -
      have "map ((!) rs) [0..<length (takeWhile (?B \<circ> fst \<circ> snd) rs)] = take (length (takeWhile (?B \<circ> fst \<circ> snd) rs)) rs"
        by (rule nth_equalityI) (simp_all add: min_absorb2 length_takeWhile_le)
      also have "\<dots> = takeWhile (?B \<circ> fst \<circ> snd) rs" by (simp add: takeWhile_eq_take [symmetric])
      also have "\<dots> = filter (?B \<circ> fst \<circ> snd) rs" by (rule takeWhile_filter) (use B in \<open>simp add: comp_def\<close>)
      finally show ?thesis .
    qed
    have "map ((!) rs) (takeWhile (\<lambda>p. ?A (fst (snd (rs ! p)))) (rev [0..<length (takeWhile (?B \<circ> fst \<circ> snd) rs)])) =
        takeWhile (?A \<circ> fst \<circ> snd) (rev (filter (?B \<circ> fst \<circ> snd) rs))"
      unfolding take [symmetric] rev_map takeWhile_map by (simp add: comp_def)
    also have "\<dots> = filter (?A \<circ> fst \<circ> snd) (rev (filter (?B \<circ> fst \<circ> snd) rs))"
      by (rule takeWhile_filter) (use A in \<open>simp add: sorted_wrt_rev sorted_wrt_filter comp_def\<close>)
    also have "\<dots> = rev (filter (\<lambda>x. ?A (fst (snd x)) \<and> ?B (fst (snd x))) rs)"
      by (simp add: rev_filter [symmetric] comp_def conj_commute)
    finally show ?thesis using True unfolding scan_walk_def in_bound_def len rng by simp
  next
    case False
    have drop: "map ((!) rs) [length (takeWhile (\<lambda>x. \<not> ?A (fst (snd x))) rs)..<length rs] = filter (?A \<circ> fst \<circ> snd) rs"
    proof -
      have "map ((!) rs) [length (takeWhile (\<lambda>x. \<not> ?A (fst (snd x))) rs)..<length rs] = drop (length (takeWhile (\<lambda>x. \<not> ?A (fst (snd x))) rs)) rs"
        by (rule nth_equalityI) auto
      also have "\<dots> = dropWhile (\<lambda>x. \<not> ?A (fst (snd x))) rs" by (simp add: dropWhile_eq_drop)
      also have "\<dots> = filter (?A \<circ> fst \<circ> snd) rs" using dropWhile_filter [OF A] by (simp add: comp_def)
      finally show ?thesis .
    qed
    have "map ((!) rs) (takeWhile (\<lambda>p. ?B (fst (snd (rs ! p)))) [length (takeWhile (\<lambda>x. \<not> ?A (fst (snd x))) rs)..<length rs]) =
        takeWhile (?B \<circ> fst \<circ> snd) (filter (?A \<circ> fst \<circ> snd) rs)"
      unfolding drop [symmetric] takeWhile_map by (simp add: comp_def)
    also have "\<dots> = filter (?B \<circ> fst \<circ> snd) (filter (?A \<circ> fst \<circ> snd) rs)"
      by (rule takeWhile_filter) (use B in \<open>simp add: sorted_wrt_filter comp_def\<close>)
    also have "\<dots> = filter (\<lambda>x. ?A (fst (snd x)) \<and> ?B (fst (snd x))) rs"
      by (simp add: comp_def conj_commute)
    finally show ?thesis using False unfolding scan_walk_def in_bound_def len rng by (simp add: comp_def)
  qed
qed


text \<open>The movement at the start of the \<open>n\<close>-th call of \<open>next\<close>.\<close>

definition walk_pos :: "nat list \<Rightarrow> nat \<Rightarrow> nat \<Rightarrow> nat" where
  "walk_pos walk len n = (if n < length walk then walk ! n else len)"

lemma scan_move_walk:
  assumes "describes L types T p r us" "exact_range r" "iter_laws I (key_cmp L types) ents pos"
    and "table_entries L types (ents it) kss" "length (ents it) < fuel" "2 < fuel"
    and "0 < sc_rows sc \<Longrightarrow> sc_rows sc \<le> length (scan_walk types r (sc_order sc) kss) \<and>
      pos it = scan_walk types r (sc_order sc) kss ! (sc_rows sc - 1)"
  shows "\<exists>it'. scan_move fuel L I sc r it = Inr it' \<and> ents it' = ents it \<and>
    pos it' = walk_pos (scan_walk types r (sc_order sc) kss) (length (ents it)) (sc_rows sc)"
proof -
  let ?start = "length (takeWhile (\<lambda>ks. \<not> above types ks (kr_startResults r) (kr_startInclusive r)) kss)"
  let ?stop = "length (takeWhile (\<lambda>ks. below types ks (kr_endResults r) (kr_endInclusive r)) kss)"
  have len: "length (ents it) = length kss" using assms(4) by (auto simp: table_entries_def dest: list_all2_lengthD)
  have le: "?start \<le> length kss" "?stop \<le> length kss" by (rule length_takeWhile_le)+
  note at = iter_laws_at [OF assms(3), where it = it]
  show ?thesis
  proof (cases "sc_order sc = Descend")
    case True
    then have w: "scan_walk types r (sc_order sc) kss = rev [0..<?stop]" by (simp add: scan_walk_def)
    have wn: "rev [0..<?stop] ! i = ?stop - Suc i" if "i < ?stop" for i using that by (simp add: rev_nth)
    show ?thesis
    proof (cases "sc_rows sc = 0")
      case first: True
      obtain it' where "seekStartReversed fuel L I r it = Inr it'" "ents it' = ents it"
        "pos it' = (if ?stop = 0 then length (ents it) else ?stop - 1)"
        using seekStartReversed_position [OF assms(1-4,6)] by auto
      then show ?thesis using True first w wn [of 0] by (simp add: scan_move_def walk_pos_def)
    next
      case False
      then have n: "0 < sc_rows sc" "sc_rows sc \<le> ?stop" "pos it = ?stop - sc_rows sc"
        using assms(7) w wn [of "sc_rows sc - 1"] by auto
      then have lt: "pos it < length (ents it)" using le len by linarith
      have "pos (it_prev I it) = walk_pos (rev [0..<?stop]) (length (ents it)) (sc_rows sc)"
        using at(11) [OF lt] n wn [of "sc_rows sc"] by (auto simp: walk_pos_def)
      then show ?thesis using True False at(10) w by (simp add: scan_move_def)
    qed
  next
    case False
    then have w: "scan_walk types r (sc_order sc) kss = [?start..<length kss]" by (simp add: scan_walk_def)
    show ?thesis
    proof (cases "sc_rows sc = 0")
      case first: True
      obtain it' where "seekStart fuel L I r it = Inr it'" "ents it' = ents it" "pos it' = ?start"
        using seekStart_position [OF assms(1-5)] by auto
      then show ?thesis using False first w le len by (auto simp: scan_move_def walk_pos_def)
    next
      case more: False
      then have n: "0 < sc_rows sc" "sc_rows sc \<le> length kss - ?start" "pos it = ?start + (sc_rows sc - 1)"
        using assms(7) w by auto
      then have lt: "pos it < length (ents it)" using le len by linarith
      have "pos (it_next I it) = walk_pos [?start..<length kss] (length (ents it)) (sc_rows sc)"
        using at(9) [OF lt] n len by (auto simp: walk_pos_def)
      then show ?thesis using False more at(8) w by (simp add: scan_move_def)
    qed
  qed
qed

text \<open>What the columns show of a row of the table; \<open>shape\<close> tells which value columns are projected.\<close>

definition project_values :: "bool list \<Rightarrow> DBDataType list \<Rightarrow> eresult list \<Rightarrow> eresult option list" where
  "project_values shape vt vs =
     map (\<lambda>(i, b). if b then Some (stored_column (vt ! i) (vs ! i)) else None) (zip [0..<length shape] shape)"

definition row_view :: "bool list \<Rightarrow> DBDataType list \<Rightarrow> table_row \<Rightarrow> eresult list \<times> eresult option list \<times> byte list" where
  "row_view shape vt = (\<lambda>(e, ks, vs). (ks, project_values shape vt vs, fst e))"

definition shape_of :: "scan_plan \<Rightarrow> bool list" where
  "shape_of sc = map (\<lambda>c. c \<noteq> None) (sc_columnValues sc)"

lemma read_values_project:
  assumes "list_all2 column_ok vt vs" "row_copy L vt vs = Inr bs" "length cols \<le> length vt"
  shows "read_values vt bs cols = Inr (project_values (map (\<lambda>c. c \<noteq> None) cols) vt vs)"
proof -
  have "read_values vt bs cols = Inr (map (\<lambda>(i, c). if c \<noteq> None then Some (stored_column (vt ! i) (vs ! i)) else None)
      (zip [0..<length cols] cols))"
    unfolding read_values_def
  proof (rule traverseR_map_Inr)
    fix x assume "x \<in> set (zip [0..<length cols] cols)"
    moreover obtain i c where x: "x = (i, c)" by (cases x)
    ultimately have "i < length cols" using set_zip_leftD by fastforce
    then have "row_getResult vt bs i = Inr (stored_column (vt ! i) (vs ! i))"
      using row_getResult_copy [OF assms(1,2), of i "[]"] assms(3) by simp
    then show "(case x of (i, c) \<Rightarrow> case c of None \<Rightarrow> Inr None | Some _ \<Rightarrow> mapR Some (row_getResult vt bs i)) =
      Inr (case x of (i, c) \<Rightarrow> if c \<noteq> None then Some (stored_column (vt ! i) (vs ! i)) else None)"
      by (simp add: x split: option.splits)
  qed
  then show ?thesis by (simp add: project_values_def zip_map2 comp_def case_prod_unfold)
qed

lemma project_values_none: "list_all (\<lambda>c. c = None) cols \<Longrightarrow> project_values (map (\<lambda>c. c \<noteq> None) cols) vt vs = cols"
  by (auto simp: project_values_def list_all_length intro!: nth_equalityI)

lemma project_values_shape: "map (\<lambda>c. c \<noteq> None) (project_values shape vt vs) = shape"
  by (auto simp: project_values_def split: if_splits intro!: nth_equalityI)

lemma read_keys:
  assumes "list_all2 column_ok kt ks" "exact kt ks" "row_copy L kt ks = Inr key"
  shows "traverseR (row_getResult kt key) [0..<length kt] = Inr ks"
proof -
  have "traverseR (row_getResult kt key) [0..<length kt] = Inr (map (\<lambda>i. stored_column (kt ! i) (ks ! i)) [0..<length kt])"
    by (rule traverseR_map_Inr) (use row_getResult_copy [OF assms(1,3), of _ "[]"] in simp)
  also have "map (\<lambda>i. stored_column (kt ! i) (ks ! i)) [0..<length kt] = map2 stored_column kt ks"
    using list_all2_lengthD [OF assms(1)] by (intro nth_equalityI) simp_all
  finally show ?thesis using assms(2) by (simp add: exact_def)
qed


section \<open>The rows of a scan\<close>

text \<open>A scan of a table whose rows are \<open>rs\<close>, with its range; \<open>scan_at\<close> adds where its iterator stands.\<close>

definition scan_ready :: "lib \<Rightarrow> DBDataType list \<Rightarrow> DBDataType list \<Rightarrow> key_range \<Rightarrow> SortOrder \<Rightarrow> bool list \<Rightarrow> scan_plan \<Rightarrow> bool" where
  "scan_ready L kt vt r order shape sc \<longleftrightarrow> sc_range sc = Some r \<and> sc_keyTypes sc = kt \<and> sc_valueTypes sc = vt \<and>
     sc_order sc = order \<and> shape_of sc = shape \<and> length (sc_keyValues sc) = length kt \<and>
     length (sc_columnValues sc) \<le> length vt \<and> (sc_projectValue sc \<or> list_all (\<lambda>c. c = None) (sc_columnValues sc))"

definition scan_at ::
  "lib \<Rightarrow> DBDataType list \<Rightarrow> DBDataType list \<Rightarrow> key_range \<Rightarrow> SortOrder \<Rightarrow> bool list \<Rightarrow> ('it \<Rightarrow> (byte list \<times> byte list) list) \<Rightarrow> ('it \<Rightarrow> nat) \<Rightarrow>
   table_row list \<Rightarrow> scan_plan \<times> ('db, 'it) world \<Rightarrow> bool" where
  "scan_at L kt vt r order shape ents pos rs = (\<lambda>(sc, w). scan_ready L kt vt r order shape sc \<and>
     (\<exists>i. sc_iter sc = Some i \<and> i < length (w_iters w) \<and> ents (w_iters w ! i) = map fst rs \<and>
       (0 < sc_rows sc \<longrightarrow> sc_rows sc \<le> length (scan_walk kt r order (keys_of rs)) \<and>
          pos (w_iters w ! i) = scan_walk kt r order (keys_of rs) ! (sc_rows sc - 1))))"

text \<open>The iterator of a scan, wherever it stands, is one over the entries of the table.\<close>

definition iter_over ::
  "('it \<Rightarrow> (byte list \<times> byte list) list) \<Rightarrow> table_row list \<Rightarrow> nat option \<Rightarrow> ('db, 'it) world \<Rightarrow> bool" where
  "iter_over ents rs iter w \<longleftrightarrow> (\<exists>i. iter = Some i \<and> i < length (w_iters w) \<and> ents (w_iters w ! i) = map fst rs)"

lemma scan_walk_inside: "p \<in> set (scan_walk kt r order kss) \<Longrightarrow> p < length kss"
  using length_takeWhile_le [of "\<lambda>ks. below kt ks (kr_endResults r) (kr_endInclusive r)" kss]
  by (auto simp: scan_walk_def split: if_splits)

definition scan_setting ::
  "nat \<Rightarrow> lib \<Rightarrow> ('db, 'it) leveldb \<Rightarrow> DBDataType list \<Rightarrow> DBDataType list \<Rightarrow> key_range \<Rightarrow> ('it \<Rightarrow> (byte list \<times> byte list) list) \<Rightarrow>
   ('it \<Rightarrow> nat) \<Rightarrow> table_row list \<Rightarrow> bool" where
  "scan_setting fuel L D kt vt r ents pos rs \<longleftrightarrow> (\<exists>T p us. describes L kt T p r us) \<and> exact_range r \<and>
     iter_laws (ldb_iter D) (key_cmp L kt) ents pos \<and> table_rows L kt vt rs \<and> length rs < fuel \<and> 2 < fuel"

lemma scan_row_at:
  assumes "table_rows L kt vt rs" "q < length rs"
  shows "list_all2 column_ok kt (fst (snd (rs ! q)))" "RangeLaws.exact kt (fst (snd (rs ! q)))"
    "row_copy L kt (fst (snd (rs ! q))) = Inr (fst (fst (rs ! q)))"
    "list_all2 column_ok vt (snd (snd (rs ! q)))" "row_copy L vt (snd (snd (rs ! q))) = Inr (snd (fst (rs ! q)))"
  using assms unfolding table_rows_def table_entries_def keys_of_def
  by (auto simp: list_all2_conv_all_nth list_all_length case_prod_unfold)

lemma scan_next_step:
  assumes "scan_at L kt vt r order shape ents pos rs (sc, w)" "scan_setting fuel L D kt vt r ents pos rs"
    and "sc_rows sc \<le> length (scan_walk kt r order (keys_of rs))"
  shows "if sc_rows sc < length (scan_walk kt r order (keys_of rs)) \<and>
            in_bound kt r order (fst (snd (rs ! (scan_walk kt r order (keys_of rs) ! sc_rows sc))))
    then \<exists>sc' w'. scan_next fuel L D False (sc, w) = Inr (True, sc', w') \<and> scan_at L kt vt r order shape ents pos rs (sc', w') \<and>
      sc_rows sc' = Suc (sc_rows sc) \<and> scan_view sc' = row_view shape vt (rs ! (scan_walk kt r order (keys_of rs) ! sc_rows sc)) \<and>
      sc_table sc' = sc_table sc \<and> w_handlers w' = w_handlers w \<and> sc_iter sc' = sc_iter sc
    else \<exists>sc' w'. scan_next fuel L D False (sc, w) = Inr (False, sc', w') \<and> sc_rows sc' = sc_rows sc \<and> w_handlers w' = w_handlers w \<and>
      iter_over ents rs (sc_iter sc) w'"
proof -
  from assms(2) obtain T p us where desc: "describes L kt T p r us" and exact: "exact_range r"
    and laws: "iter_laws (ldb_iter D) (key_cmp L kt) ents pos" and table: "table_rows L kt vt rs"
    and fuel: "length rs < fuel" "2 < fuel" by (auto simp: scan_setting_def)
  let ?walk = "scan_walk kt r order (keys_of rs)" and ?n = "sc_rows sc"
  from assms(1) have ready: "sc_range sc = Some r" "sc_keyTypes sc = kt" "sc_valueTypes sc = vt" "sc_order sc = order"
    "shape_of sc = shape" "length (sc_keyValues sc) = length kt" "length (sc_columnValues sc) \<le> length vt"
    "sc_projectValue sc \<or> list_all (\<lambda>c. c = None) (sc_columnValues sc)"
    by (simp_all add: scan_at_def scan_ready_def)
  from assms(1) obtain i where i: "sc_iter sc = Some i" "i < length (w_iters w)" "ents (w_iters w ! i) = map fst rs"
    "0 < ?n \<Longrightarrow> ?n \<le> length ?walk \<and> pos (w_iters w ! i) = ?walk ! (?n - 1)"
    by (auto simp: scan_at_def)
  have te: "table_entries L kt (ents (w_iters w ! i)) (keys_of rs)" using table i(3) by (simp add: table_rows_def)
  obtain it where it: "scan_move fuel L (ldb_iter D) sc r (w_iters w ! i) = Inr it" "ents it = map fst rs"
    "pos it = walk_pos ?walk (length rs) ?n"
    using scan_move_walk [OF desc exact laws te, of fuel sc] fuel i(3,4) ready(4) by auto
  note at = iter_laws_at [OF laws, where it = it]
  show ?thesis
  proof (cases "?n < length ?walk")
    case False
    then have "\<not> it_valid (ldb_iter D) it" using at(1) it by (simp add: walk_pos_def)
    then have "scan_next fuel L D False (sc, w) = Inr (False, sc, w\<lparr>w_iters := (w_iters w)[i := it]\<rparr>)"
      using ready(1) i(1,2) it(1) by (simp add: scan_next_def Let_def)
    then show ?thesis using False i(1,2) it(2) by (auto simp: iter_over_def)
  next
    case True
    define q where "q = ?walk ! ?n"
    have q: "q < length rs" "pos it = q" using scan_walk_inside [of q kt r order "keys_of rs"] True it(3)
      by (auto simp: q_def walk_pos_def keys_of_def)
    have valid: "it_valid (ldb_iter D) it" "it_key (ldb_iter D) it = fst (fst (rs ! q))" "it_value (ldb_iter D) it = snd (fst (rs ! q))"
      using at(1-3) q it(2) by simp_all
    note row = scan_row_at [OF table q(1)]
    let ?ks = "fst (snd (rs ! q))" and ?key = "fst (fst (rs ! q))"
    let ?sc = "sc\<lparr>sc_currentKey := ?key, sc_keyValues := ?ks\<rparr>" and ?w = "w\<lparr>w_iters := (w_iters w)[i := it]\<rparr>"
    have keys: "traverseR (row_getResult (sc_keyTypes sc) ?key) [0..<length (sc_keyValues sc)] = Inr ?ks"
      using read_keys [OF row(1-3)] ready(2,6) by simp
    have ex: "scan_exceeds L ?sc r = Inr (\<not> in_bound kt r order ?ks)"
      using exceed_iff [OF desc exact_range_comparable [OF exact] row(1)] ready(4) by (simp add: scan_exceeds_def in_bound_def)
    let ?cols = "project_values shape vt (snd (snd (rs ! q)))"
    have cols: "(if sc_projectValue sc then read_values (sc_valueTypes sc) (snd (fst (rs ! q))) (sc_columnValues sc)
        else Inr (sc_columnValues sc)) = Inr ?cols"
      using read_values_project [OF row(4,5) ready(7)] project_values_none ready(3,5,8) by (auto simp: shape_of_def)
    have nx: "scan_next fuel L D False (sc, w) =
      (if in_bound kt r order ?ks then Inr (True, ?sc\<lparr>sc_columnValues := ?cols, sc_rows := Suc ?n\<rparr>, ?w) else Inr (False, ?sc, ?w))"
    proof (cases "sc_projectValue sc")
      case True
      then show ?thesis using ready(1) i(1,2) it(1) valid keys ex cols
        by (simp add: scan_next_def Let_def CheckCancellation_def del: upt_Suc)
    next
      case False
      then have "?cols = sc_columnValues sc" using cols by simp
      moreover have "sc\<lparr>sc_currentKey := a, sc_keyValues := b, sc_columnValues := sc_columnValues sc, sc_rows := n\<rparr> =
        sc\<lparr>sc_currentKey := a, sc_keyValues := b, sc_rows := n\<rparr>" for a b n by simp
      ultimately show ?thesis using False ready(1) i(1,2) it(1) valid keys ex
        by (simp add: scan_next_def Let_def CheckCancellation_def del: upt_Suc)
    qed
    have lens: "length ?ks = length kt" "length ?cols = length (sc_columnValues sc)"
      using list_all2_lengthD [OF row(1)] ready(5) by (auto simp: project_values_def shape_of_def)
    have shp: "shape_of (?sc\<lparr>sc_columnValues := ?cols, sc_rows := Suc ?n\<rparr>) = shape"
      using project_values_shape [of shape vt "snd (snd (rs ! q))"] by (simp add: shape_of_def)
    have none: "list_all (\<lambda>c. c = None) ?cols" if "list_all (\<lambda>c. c = None) (sc_columnValues sc)"
      using that ready(5) project_values_none [OF that] by (simp add: shape_of_def)
    have "scan_at L kt vt r order shape ents pos rs (?sc\<lparr>sc_columnValues := ?cols, sc_rows := Suc ?n\<rparr>, ?w)"
      using ready lens shp none i(1,2) it(2) True q(2) by (auto simp: scan_at_def scan_ready_def q_def)
    moreover have "scan_view (?sc\<lparr>sc_columnValues := ?cols, sc_rows := Suc ?n\<rparr>) = row_view shape vt (rs ! q)"
      by (simp add: scan_view_def row_view_def case_prod_unfold)
    ultimately show ?thesis using nx True i(1,2) it(2) by (simp add: q_def [symmetric] iter_over_def)
  qed
qed

lemma scan_delivers_walk:
  assumes "scan_at L kt vt r order shape ents pos rs (sc, w)" "scan_setting fuel L D kt vt r ents pos rs"
    and "sc_rows sc \<le> length (scan_walk kt r order (keys_of rs))"
  defines "todo \<equiv> takeWhile (\<lambda>q. in_bound kt r order (fst (snd (rs ! q)))) (drop (sc_rows sc) (scan_walk kt r order (keys_of rs)))"
  shows "delivers_to (scan_next fuel L D False) (\<lambda>(sc, w). (sc_table sc, scan_view sc)) (sc, w)
    (map (\<lambda>q. (sc_table sc, row_view shape vt (rs ! q))) todo) (\<lambda>(sc', w'). sc_rows sc' = sc_rows sc + length todo \<and> w_handlers w' = w_handlers w \<and> iter_over ents rs (sc_iter sc) w')"
  using assms(1,3) unfolding todo_def
proof (induction "length (scan_walk kt r order (keys_of rs)) - sc_rows sc" arbitrary: sc w)
  case 0
  then have "\<not> sc_rows sc < length (scan_walk kt r order (keys_of rs))" by linarith
  moreover from this have "drop (sc_rows sc) (scan_walk kt r order (keys_of rs)) = []" by simp
  ultimately show ?case using scan_next_step [OF 0(2) assms(2) 0(3)] by auto
next
  case (Suc n)
  let ?walk = "scan_walk kt r order (keys_of rs)" and ?P = "\<lambda>q. in_bound kt r order (fst (snd (rs ! q)))"
  have lt: "sc_rows sc < length ?walk" using Suc(2) by linarith
  have d: "drop (sc_rows sc) ?walk = ?walk ! sc_rows sc # drop (Suc (sc_rows sc)) ?walk"
    using lt by (rule Cons_nth_drop_Suc [symmetric])
  show ?case
  proof (cases "?P (?walk ! sc_rows sc)")
    case False
    then show ?thesis using scan_next_step [OF Suc(3) assms(2) Suc(4)] d by (auto split: if_splits)
  next
    case True
    with scan_next_step [OF Suc(3) assms(2) Suc(4)] lt obtain sc' w' where s': "scan_next fuel L D False (sc, w) = Inr (True, sc', w')"
      "scan_at L kt vt r order shape ents pos rs (sc', w')" "sc_rows sc' = Suc (sc_rows sc)"
      "scan_view sc' = row_view shape vt (rs ! (?walk ! sc_rows sc))" "sc_table sc' = sc_table sc" "w_handlers w' = w_handlers w" "sc_iter sc' = sc_iter sc" by auto
    have "n = length ?walk - sc_rows sc'" "sc_rows sc' \<le> length ?walk" using Suc(2) s'(3) lt by simp_all
    from Suc(1) [OF this(1) s'(2) this(2)] show ?thesis using s' d True by simp
  qed
qed


text \<open>From the first position on, the rows whose keys are in the range.\<close>

lemma scan_delivers_range:
  assumes at: "scan_at L kt vt r order shape ents pos rs (sc, w)" and setting: "scan_setting fuel L D kt vt r ents pos rs"
    and "sc_rows sc = 0"
  shows "delivers_to (o_next (scan_ops fuel L D) False) (\<lambda>s. (sc_table (fst s), scan_view (fst s))) (sc, w)
      (map (\<lambda>row. (sc_table sc, row_view shape vt row))
        ((if order = Descend then rev else id) (filter (\<lambda>(e, ks, vs). in_range kt r ks) rs)))
      (\<lambda>s'. o_getInfoString (scan_ops fuel L D) s' =
          Inr (''SELECT '' @ nat_to_string (length (filter (\<lambda>(e, ks, vs). in_range kt r ks) rs))) \<and>
        w_handlers (snd s') = w_handlers w \<and> iter_over ents rs (sc_iter sc) (snd s'))"
proof -
  let ?hits = "filter (\<lambda>(e, ks, vs). in_range kt r ks) rs"
  from setting obtain T p us where desc: "describes L kt T p r us" "exact_range r" "table_rows L kt vt rs"
    by (auto simp: scan_setting_def)
  then have kt: "kr_keyTypes r = kt" by (simp add: describes_def)
  let ?todo = "takeWhile (\<lambda>q. in_bound kt r order (fst (snd (rs ! q)))) (scan_walk kt r order (keys_of rs))"
  have todo: "map ((!) rs) ?todo = (if order = Descend then rev else id) ?hits"
    using scan_walk_filter [OF desc(2) kt desc(3), of order] by simp
  have len: "length ?todo = length ?hits" using arg_cong [OF todo, of length] by (simp split: if_splits)
  have "delivers_to (scan_next fuel L D False) (\<lambda>(sc, w). (sc_table sc, scan_view sc)) (sc, w)
    (map (\<lambda>row. (sc_table sc, row_view shape vt row)) (map ((!) rs) ?todo))
    (\<lambda>(sc', w'). sc_rows sc' = length ?hits \<and> w_handlers w' = w_handlers w \<and> iter_over ents rs (sc_iter sc) w')"
    using scan_delivers_walk [OF at setting] len assms(3) by (simp add: comp_def)
  then show ?thesis unfolding todo
    by (simp add: scan_ops_def case_prod_unfold split del: if_split) (erule delivers_to_mono, simp)
qed

lemmas scan_range_rows = scan_delivers_range [THEN delivers_to_map [where g = "\<lambda>(T, v). view_row (getKeyCount T) v"]]

text \<open>What the operations before \<open>begin\<close> keep of a scan.\<close>

definition scan_wf :: "scan_plan \<Rightarrow> bool" where
  "scan_wf sc \<longleftrightarrow> length (sc_keyValues sc) = length (sc_keyTypes sc) \<and> length (sc_columnValues sc) \<le> length (sc_valueTypes sc) \<and>
     (sc_projectValue sc \<or> list_all (\<lambda>c. c = None) (sc_columnValues sc))"

lemma scan_addProjection_wf: "scan_addProjection L n sc = Inr (i, sc') \<Longrightarrow> scan_wf sc \<Longrightarrow> scan_wf sc'"
  by (auto simp: scan_addProjection_def scan_wf_def split: if_splits option.splits)

lemma scan_ensureSortOrder_wf: "scan_ensureSortOrder i c order sc = (b, sc') \<Longrightarrow> scan_wf sc \<Longrightarrow> scan_wf sc'"
  by (auto simp: scan_ensureSortOrder_def scan_wf_def Let_def split: if_splits option.splits)

lemma scan_type_steps_lengths:
  "length (fst (foldl scan_type_step (ks, vs) cs)) = length ks"
  "length (snd (foldl scan_type_step (ks, vs) cs)) = length vs + length (filter (\<lambda>c. c_keyIndex c < 0) cs)"
  by (induction cs arbitrary: ks vs) (simp_all add: scan_type_step_def)

lemma scan_types_lengths:
  "length (fst (scan_types T)) = getKeyCount T"
  "length (snd (scan_types T)) = length (filter (\<lambda>c. c_keyIndex c < 0) (t_columns T))"
  by (simp_all add: scan_types_def scan_type_steps_lengths)

lemma newLevelDBScanPlan_wf:
  assumes "length (filter (\<lambda>c. c_keyIndex c \<ge> 0) (t_columns T)) \<le> getKeyCount T"
  shows "scan_wf (newLevelDBScanPlan tid T)"
proof -
  have "length (filter (\<lambda>c. c_keyIndex c \<ge> 0) (t_columns T)) + length (filter (\<lambda>c. c_keyIndex c < 0) (t_columns T)) = getColumnCount T"
    using sum_length_filter_compl [of "\<lambda>c. c_keyIndex c \<ge> 0" "t_columns T"] by (simp add: getColumnCount_def not_le)
  then show ?thesis using assms by (simp add: scan_wf_def newLevelDBScanPlan_def scan_types_lengths list_all_length)
qed

lemma scan_setPredicate_InrE:
  assumes "scan_setPredicate L p sc = Inr (sc', solved)"
  obtains r where "newKeySearchRange L (sc_keyTypes sc) (sc_table sc) p = Inr (r, solved)" "sc' = sc\<lparr>sc_range := Some r\<rparr>"
  using assms by (auto simp: scan_setPredicate_def)

lemma scan_ops_getResult: "o_getResult (scan_ops fuel L D) = (\<lambda>s. scan_getResult (fst s))"
  by (simp add: scan_ops_def case_prod_unfold)

lemma scan_delivers_hits:
  fixes rs :: "table_row list"
  assumes "scan_setPredicate L p sc = Inr (sc', solved)" "sc_range sc' = Some r" "exact_range r"
    and "scan_wf sc" "sc_iter sc = None"
    and "getLevelDBHandler D (sc_tableId sc) (sc_table sc) (w_handlers w) = Inr (db, hs)"
    and "db_laws D (key_cmp L (sc_keyTypes sc)) contents ents pos" "contents db = map fst rs"
    and "table_rows L (sc_keyTypes sc) (sc_valueTypes sc) rs" "length rs < fuel" "2 < fuel"
  shows "\<exists>used s. set used \<subseteq> set (key_atoms (sc_table sc) p) \<and> map (\<lambda>(j, op, node, x). x) used = solved \<and>
    o_begin (scan_ops fuel L D) False (sc', w) = Inr s \<and>
    delivers_to (o_next (scan_ops fuel L D) False) (o_getResult (scan_ops fuel L D)) s
      (map (view_row (getKeyCount (sc_table sc)) \<circ> row_view (shape_of sc) (sc_valueTypes sc))
        ((if sc_order sc = Descend then rev else id)
          (filter (\<lambda>(e, ks, vs). \<forall>a \<in> set used. atom_true L (sc_keyTypes sc) ks a) rs)))
      (\<lambda>s'. o_getInfoString (scan_ops fuel L D) s' = Inr (''SELECT '' @
          nat_to_string (length (filter (\<lambda>(e, ks, vs). \<forall>a \<in> set used. atom_true L (sc_keyTypes sc) ks a) rs))) \<and>
        w_handlers (snd s') = hs)"
proof -
  let ?kt = "sc_keyTypes sc" and ?vt = "sc_valueTypes sc" and ?shape = "shape_of sc" and ?order = "sc_order sc"
  from assms(1,2) have range: "newKeySearchRange L ?kt (sc_table sc) p = Inr (r, solved)" and sc': "sc' = sc\<lparr>sc_range := Some r\<rparr>"
    by (auto elim: scan_setPredicate_InrE)
  from newKeySearchRange_describes [OF range] obtain us where us: "describes L ?kt (sc_table sc) p r us" "solved = exprs us" by blast
  from describes_atoms [OF us(1)] us(2) obtain used where used: "set used \<subseteq> set (key_atoms (sc_table sc) p)"
    "map (\<lambda>(j, op, node, x). x) used = solved"
    "\<And>ks. (\<forall>u \<in> set us. use_holds 0 ?kt ks u) \<longleftrightarrow> (\<forall>a \<in> set used. atom_true L ?kt ks a)" by auto
  have kt: "kr_keyTypes r = ?kt" and kb: "key_bounds 0 ?kt (kr_startResults r) (kr_endResults r) (kr_startInclusive r) (kr_endInclusive r) us"
    using us(1) by (simp_all add: describes_def)
  have setting: "scan_setting fuel L D ?kt ?vt r ents pos rs"
    using us(1) assms(3,7,9-11) by (auto simp: scan_setting_def db_laws_def)
  define hits where "hits = filter (\<lambda>(e, ks, vs). \<forall>a \<in> set used. atom_true L ?kt ks a) rs"
  have hits: "filter (\<lambda>(e, ks, vs). in_range ?kt r ks) rs = hits"
    unfolding hits_def
  proof (rule filter_cong [OF refl])
    fix x assume "x \<in> set rs"
    then obtain q where "q < length rs" "x = rs ! q" by (auto simp: in_set_conv_nth)
    then have "list_all2 column_ok ?kt (fst (snd x))" using scan_row_at(1) [OF assms(9)] by simp
    then have "in_range ?kt r (fst (snd x)) \<longleftrightarrow> (\<forall>a \<in> set used. atom_true L ?kt (fst (snd x)) a)"
      unfolding in_range_def used(3) [symmetric] by (rule key_bounds_iff [OF kb])
    then show "(case x of (e, ks, vs) \<Rightarrow> in_range ?kt r ks) = (case x of (e, ks, vs) \<Rightarrow> \<forall>a \<in> set used. atom_true L ?kt ks a)"
      by (simp add: case_prod_unfold)
  qed
  define sc1 where "sc1 = sc'\<lparr>sc_rows := 0, sc_iter := Some (length (w_iters w))\<rparr>"
  define w1 where "w1 = w\<lparr>w_handlers := hs, w_iters := w_iters w @ [ldb_newIterator D db]\<rparr>"
  have b: "o_begin (scan_ops fuel L D) False (sc', w) = Inr (sc1, w1)"
    using assms(5,6) by (simp add: scan_ops_def scan_begin_def scan_ensureRange_def sc' sc1_def w1_def createIterator_def Let_def)
  have "ents (ldb_newIterator D db) = map fst rs" using assms(7,8) by (simp add: db_laws_def)
  then have at: "scan_at L ?kt ?vt r ?order ?shape ents pos rs (sc1, w1)"
    using assms(4) by (auto simp: scan_at_def scan_ready_def scan_wf_def sc1_def sc' w1_def shape_of_def)
  have "delivers_to (o_next (scan_ops fuel L D) False) (o_getResult (scan_ops fuel L D)) (sc1, w1)
      (map (view_row (getKeyCount (sc_table sc1)) \<circ> row_view ?shape ?vt) ((if ?order = Descend then rev else id) hits))
      (\<lambda>s'. o_getInfoString (scan_ops fuel L D) s' = Inr (''SELECT '' @ nat_to_string (length hits)) \<and>
        w_handlers (snd s') = w_handlers w1 \<and> iter_over ents rs (sc_iter sc1) (snd s'))"
    unfolding hits [symmetric] using scan_range_rows [OF at setting]
    by (simp add: sc1_def case_prod_unfold scan_getResult_def [symmetric] comp_def scan_ops_getResult split del: if_split)
  from delivers_to_mono [OF this, of "\<lambda>s'. o_getInfoString (scan_ops fuel L D) s' = Inr (''SELECT '' @ nat_to_string (length hits)) \<and>
      w_handlers (snd s') = hs"]
  have "delivers_to (o_next (scan_ops fuel L D) False) (o_getResult (scan_ops fuel L D)) (sc1, w1)
      (map (view_row (getKeyCount (sc_table sc)) \<circ> row_view ?shape ?vt) ((if ?order = Descend then rev else id) hits))
      (\<lambda>s'. o_getInfoString (scan_ops fuel L D) s' = Inr (''SELECT '' @ nat_to_string (length hits)) \<and> w_handlers (snd s') = hs)"
    by (simp add: w1_def sc1_def sc')
  then show ?thesis using used(1,2) b unfolding hits_def by blast
qed

text \<open>
  C7.  A scan delivers exactly the rows of the table that satisfy the comparisons it reported as
  solved when its predicate was set - in key order, or backwards when it was asked for a
  descending order - with the projected columns, and reports their number.  (The bounds must be
  values that storing does not change.)
\<close>

theorem scan_delivers_solved:
  fixes rs :: "table_row list"
  assumes "scan_setPredicate L p sc = Inr (sc', solved)" "sc_range sc' = Some r" "exact_range r"
    and "scan_wf sc" "sc_iter sc = None"
    and "getLevelDBHandler D (sc_tableId sc) (sc_table sc) (w_handlers w) = Inr (db, hs)"
    and "db_laws D (key_cmp L (sc_keyTypes sc)) contents ents pos" "contents db = map fst rs"
    and "table_rows L (sc_keyTypes sc) (sc_valueTypes sc) rs" "length rs < fuel" "2 < fuel"
  shows "\<exists>used s. set used \<subseteq> set (key_atoms (sc_table sc) p) \<and> map (\<lambda>(j, op, node, x). x) used = solved \<and>
    o_begin (scan_ops fuel L D) False (sc', w) = Inr s \<and>
    delivers_to (o_next (scan_ops fuel L D) False) (o_getResult (scan_ops fuel L D)) s
      (map (view_row (getKeyCount (sc_table sc)) \<circ> row_view (shape_of sc) (sc_valueTypes sc))
        ((if sc_order sc = Descend then rev else id)
          (filter (\<lambda>(e, ks, vs). \<forall>a \<in> set used. atom_true L (sc_keyTypes sc) ks a) rs)))
      (\<lambda>s'. o_getInfoString (scan_ops fuel L D) s' = Inr (''SELECT '' @
        nat_to_string (length (filter (\<lambda>(e, ks, vs). \<forall>a \<in> set used. atom_true L (sc_keyTypes sc) ks a) rs))))"
  using scan_delivers_hits [OF assms] by (elim exE conjE) (intro exI conjI; (assumption | erule delivers_to_mono; simp))


text \<open>A table with the keys \<open>(1, 'k')\<close>, \<open>(1, 'z')\<close> and \<open>(2, 'a')\<close>, scanned for \<open>a = 1 and b > 'm'\<close>.\<close>

definition ex_keys :: "eresult list list" where
  "ex_keys = [[R_Int 1, R_StringView ''k''], [R_Int 1, R_StringView ''z''], [R_Int 2, R_StringView ''a'']]"

lemma ex_keys_rows:
  obtains es where "table_rows ex_lib ex_types [] (map2 (\<lambda>k ks. ((k, []), ks, [])) es ex_keys)" "length es = 3"
proof -
  have ok: "list_all2 column_ok ex_types ks \<and> exact ex_types ks" if "ks \<in> set ex_keys" for ks
    using that by (auto simp: ex_keys_def ex_types_def column_ok_def getHandler_def value_ok_def sized_def int_min_def int_max_def
        exact_def stored_column_def stored_def)
  define enc where "enc ks = (case row_copy ex_lib ex_types ks of Inr bs \<Rightarrow> bs | Inl _ \<Rightarrow> [])" for ks
  have copy: "row_copy ex_lib ex_types ks = Inr (enc ks)" if "ks \<in> set ex_keys" for ks
    using row_copy_ok [OF column_ok_rows(1) [OF conjunct1 [OF ok [OF that]]], of ex_lib] by (metis enc_def old.sum.simps(6))
  have keys: "list_all2 (\<lambda>e ks. list_all2 column_ok ex_types ks \<and> exact ex_types ks \<and> row_copy ex_lib ex_types ks = Inr (fst e))
      (map (\<lambda>ks. (enc ks, [])) ex_keys) ex_keys"
    unfolding list_all2_map1 list_all2_same using ok copy by simp
  have sorted: "sorted_wrt (\<lambda>a b. lex_compare type_cmp ex_types a b < 0) ex_keys"
    by (simp add: ex_keys_def ex_types_def type_cmp_def getHandler_def cmp_val_def h_compare_def getInt_def int_compare_def
        string_compare_def isMaxString_def getString_def Let_def ccode_def)
  have rows: "map2 (\<lambda>k ks. ((k, []), ks, [])) (map enc ex_keys) ex_keys = map (\<lambda>ks. ((enc ks, []), ks, [])) ex_keys"
    by (simp add: zip_map1 zip_same_conv_map comp_def)
  have "table_rows ex_lib ex_types [] (map2 (\<lambda>k ks. ((k, []), ks, [])) (map enc ex_keys) ex_keys)"
    using keys sorted unfolding rows table_rows_def table_entries_def keys_of_def
    by (simp add: comp_def list_all_iff)
  then show ?thesis by (rule that) (simp add: ex_keys_def)
qed

lemma ex_atoms:
  "key_atoms ex_keyed ex_where = [(0, COMP_EQ, PNode 0 NT_INT OP_NONE ''1'' ''1'' [], ''a=1''),
     (1, COMP_GT, PNode 0 NT_STR OP_NONE ''m'' ''m'' [], ''b>m'')]"
  by (simp add: range_eval comparison_atoms_def atoms_of_def)


lemma ex_atom_true:
  "atom_true ex_lib ex_types [R_Int i, v] (0, COMP_EQ, PNode 0 NT_INT OP_NONE ''1'' ''1'' [], x) = (i = 1)"
  "atom_true ex_lib ex_types [v, R_StringView ''k''] (Suc 0, COMP_GT, PNode 0 NT_STR OP_NONE ''m'' ''m'' [], x) = False"
  "atom_true ex_lib ex_types [v, R_StringView ''z''] (Suc 0, COMP_GT, PNode 0 NT_STR OP_NONE ''m'' ''m'' [], x) = True"
  by (simp_all add: atom_true_def range_eval op_holds_def type_cmp_def cmp_val_def h_compare_def getInt_def
        int_compare_def string_compare_def isMaxString_def getString_def)

definition ex_entry :: "byte list \<Rightarrow> int \<Rightarrow> string \<Rightarrow> table_row" where
  "ex_entry k i v = ((k, []), [R_Int i, R_StringView v], [])"

definition ex_table :: "byte list \<Rightarrow> byte list \<Rightarrow> byte list \<Rightarrow> table_row list" where
  "ex_table k1 k2 k3 = [ex_entry k1 1 ''k'', ex_entry k2 1 ''z'', ex_entry k3 2 ''a'']"

definition ex_world :: "table_row list \<Rightarrow> ((byte list \<times> byte list) list, list_iter) world" where
  "ex_world rs = \<lparr>w_mem = \<lparr>m_pool = newPool, m_heap = (\<lambda>_ _. 0)\<rparr>, w_handlers = [(0, map fst rs)], w_iters = []\<rparr>"

lemma ex_table_rows: obtains k1 k2 k3 where "table_rows ex_lib ex_types [] (ex_table k1 k2 k3)"
proof -
  obtain es where es: "table_rows ex_lib ex_types [] (map2 (\<lambda>k ks. ((k, []), ks, [])) es ex_keys)" "length es = 3"
    by (rule ex_keys_rows)
  then obtain k1 k2 k3 where "es = [k1, k2, k3]" by (auto simp: numeral_3_eq_3 length_Suc_conv)
  then show ?thesis using es(1) by (intro that [of k1 k2 k3]) (simp add: ex_keys_def ex_table_def ex_entry_def)
qed

lemma ex_scan_plan:
  "sc_keyTypes (newLevelDBScanPlan 0 ex_keyed) = ex_types" "sc_valueTypes (newLevelDBScanPlan 0 ex_keyed) = []"
  "sc_table (newLevelDBScanPlan 0 ex_keyed) = ex_keyed" "sc_tableId (newLevelDBScanPlan 0 ex_keyed) = 0"
  "sc_iter (newLevelDBScanPlan 0 ex_keyed) = None" "sc_order (newLevelDBScanPlan 0 ex_keyed) = AnyOrder"
  "shape_of (newLevelDBScanPlan 0 ex_keyed) = []" "scan_wf (newLevelDBScanPlan 0 ex_keyed)" "getKeyCount ex_keyed = 2"
  by (simp_all add: newLevelDBScanPlan_def scan_types_def scan_type_step_def ex_keyed_def newColumnInfo_def ex_types_def getKeyCount_def
      getColumnCount_def shape_of_def scan_wf_def)

lemma ex_scan_range:
  obtains r where "scan_setPredicate ex_lib ex_where (newLevelDBScanPlan 0 ex_keyed) =
      Inr (newLevelDBScanPlan 0 ex_keyed\<lparr>sc_range := Some r\<rparr>, [''a=1'', ''b>m''])" "exact_range r"
proof -
  obtain r where r: "newKeySearchRange ex_lib ex_types ex_keyed ex_where = Inr (r, [''a=1'', ''b>m''])"
    "kr_startResults r = [R_Int 1, R_StringView ''m'']" "kr_endResults r = [R_Int 1, R_MaxString]" "kr_keyTypes r = ex_types"
    by (rule ex_range)
  have "exact_range r"
    by (simp add: exact_range_def r exact_def ex_types_def bound_column_def getHandler_def bound_ok_def value_ok_def sized_def
        int_min_def int_max_def stored_column_def stored_def)
  then show ?thesis by (intro that [of r]) (simp_all add: scan_setPredicate_def ex_scan_plan r(1))
qed

lemma ex_handler:
  "getLevelDBHandler D (sc_tableId (newLevelDBScanPlan 0 ex_keyed)) T (w_handlers (ex_world rs)) = Inr (map fst rs, w_handlers (ex_world rs))"
  by (simp add: getLevelDBHandler_def ex_world_def ex_scan_plan)

lemma ex_used:
  "set used \<subseteq> set (key_atoms ex_keyed ex_where) \<Longrightarrow> map (\<lambda>(j, op, node, x). x) used = [''a=1'', ''b>m''] \<Longrightarrow>
    used = key_atoms ex_keyed ex_where"
  by (auto simp: ex_atoms map_eq_Cons_conv)

lemma ex_hits:
  "filter (\<lambda>(e, ks, vs). \<forall>a \<in> set (key_atoms ex_keyed ex_where). atom_true ex_lib ex_types ks a) (ex_table k1 k2 k3) = [ex_entry k2 1 ''z'']"
  "filter (\<lambda>(e, ks, vs). \<not> (\<forall>a \<in> set (key_atoms ex_keyed ex_where). atom_true ex_lib ex_types ks a)) (ex_table k1 k2 k3) =
    [ex_entry k1 1 ''k'', ex_entry k3 2 ''a'']"
  by (simp_all add: ex_atoms ex_atom_true ex_table_def ex_entry_def)

theorem scan_delivers_solved_witness:
  "\<exists>sc' k1 k2 k3 s. scan_setPredicate ex_lib ex_where (newLevelDBScanPlan 0 ex_keyed) = Inr (sc', [''a=1'', ''b>m'']) \<and>
    o_begin (scan_ops 4 ex_lib (list_db (key_cmp ex_lib ex_types))) False (sc', ex_world (ex_table k1 k2 k3)) = Inr s \<and>
    delivers_to (o_next (scan_ops 4 ex_lib (list_db (key_cmp ex_lib ex_types))) False)
      (o_getResult (scan_ops 4 ex_lib (list_db (key_cmp ex_lib ex_types)))) s
      [view_row 2 ([R_Int 1, R_StringView ''z''], [], k2)]
      (\<lambda>s'. o_getInfoString (scan_ops 4 ex_lib (list_db (key_cmp ex_lib ex_types))) s' = Inr (''SELECT '' @ nat_to_string 1))"
proof -
  let ?D = "list_db (key_cmp ex_lib ex_types)" and ?sc = "newLevelDBScanPlan 0 ex_keyed"
  obtain k1 k2 k3 where rows: "table_rows ex_lib ex_types [] (ex_table k1 k2 k3)" by (rule ex_table_rows)
  let ?rs = "ex_table k1 k2 k3"
  obtain r where r: "scan_setPredicate ex_lib ex_where ?sc = Inr (?sc\<lparr>sc_range := Some r\<rparr>, [''a=1'', ''b>m''])" "exact_range r"
    by (rule ex_scan_range)
  have laws: "db_laws ?D (key_cmp ex_lib (sc_keyTypes ?sc)) (\<lambda>db. db) fst snd" unfolding ex_scan_plan by (rule list_db_laws)
  have rng: "sc_range (?sc\<lparr>sc_range := Some r\<rparr>) = Some r" by simp
  have rows': "table_rows ex_lib (sc_keyTypes ?sc) (sc_valueTypes ?sc) ?rs" unfolding ex_scan_plan by (rule rows)
  have fuel: "length ?rs < 4" "2 < (4 :: nat)" by (simp_all add: ex_table_def)
  have any: "(if AnyOrder = Descend then rev else id) = (id :: table_row list \<Rightarrow> table_row list)" by simp
  obtain used s where us: "set used \<subseteq> set (key_atoms ex_keyed ex_where)" "map (\<lambda>(j, op, node, x). x) used = [''a=1'', ''b>m'']"
      "o_begin (scan_ops 4 ex_lib ?D) False (?sc\<lparr>sc_range := Some r\<rparr>, ex_world ?rs) = Inr s"
    and d: "delivers_to (o_next (scan_ops 4 ex_lib ?D) False) (o_getResult (scan_ops 4 ex_lib ?D)) s
      (map (view_row 2 \<circ> row_view [] []) (id (filter (\<lambda>(e, ks, vs). \<forall>a \<in> set used. atom_true ex_lib ex_types ks a) ?rs)))
      (\<lambda>s'. o_getInfoString (scan_ops 4 ex_lib ?D) s' = Inr (''SELECT '' @
        nat_to_string (length (filter (\<lambda>(e, ks, vs). \<forall>a \<in> set used. atom_true ex_lib ex_types ks a) ?rs))))"
    using scan_delivers_solved [OF r(1) rng r(2) ex_scan_plan(8,5) ex_handler laws refl rows' fuel]
    unfolding ex_scan_plan any by (elim exE conjE) (rule that)
  have view: "map (view_row 2 \<circ> row_view [] []) (id [ex_entry k2 1 ''z'']) = [view_row 2 ([R_Int 1, R_StringView ''z''], [], k2)]"
    and one: "length [ex_entry k2 1 ''z''] = 1"
    by (simp_all add: row_view_def project_values_def ex_entry_def)
  show ?thesis using r(1) us(3) d unfolding ex_used [OF us(1,2)] ex_hits view one by blast
qed

end
