(* ===== verification/WritePlans.thy ===== *)
theory WritePlans
  imports ScanPlan GroupPlans
begin

text \<open>
  The plans that change a table: \<^verbatim>\<open>src/execution/LevelDBInsertPlan\<close> and \<^verbatim>\<open>LevelDBDeletePlan\<close>.  Both
  collect a batch while the rows of the plan below pass, and commit it in \<open>end\<close>.
\<close>

section \<open>LevelDBInsertPlan\<close>

record insert_plan =
  in_tableId :: nat
  in_table :: table_info
  in_rows :: nat
  in_keyTypes :: "DBDataType list"
  in_valueTypes :: "DBDataType list"
  in_keyResults :: "eresult list"
  in_valueResults :: "eresult list"
  in_batch :: "batch_op list"

definition newLevelDBInsertPlan :: "nat \<Rightarrow> table_info \<Rightarrow> insert_plan" where
  "newLevelDBInsertPlan tid T =
     (let keyTypes = map c_type (filter (\<lambda>c. c_keyIndex c \<ge> 0) (t_columns T));
          valueTypes = map c_type (filter (\<lambda>c. \<not> c_keyIndex c \<ge> 0) (t_columns T))
      in \<lparr>in_tableId = tid, in_table = T, in_rows = 0, in_keyTypes = keyTypes, in_valueTypes = valueTypes,
          in_keyResults = replicate (length keyTypes) R_Null, in_valueResults = replicate (length valueTypes) R_Null,
          in_batch = []\<rparr>)"

definition insert_begin ::
  "('p \<times> ('db, 'it) world) plan_ops \<Rightarrow> bool \<Rightarrow> insert_plan \<times> 'p \<times> ('db, 'it) world \<Rightarrow> (insert_plan \<times> 'p \<times> ('db, 'it) world) res" where
  "insert_begin C bTerminated = (\<lambda>(ip, s).
     bindR (o_getResultColumns C s) (\<lambda>n.
     if n \<noteq> getColumnCount (in_table ip)
     then Inl (ExecutionException ''the numbers of insert columns and values are not matched'')
     else mapR (Pair (ip\<lparr>in_rows := 0\<rparr>)) (o_begin C bTerminated s)))"

text \<open>One column of the current row, put at its place among the keys or the values.\<close>

definition insert_column :: "row \<Rightarrow> eresult list \<times> eresult list \<Rightarrow> nat \<times> column_info \<Rightarrow> err + eresult list \<times> eresult list" where
  "insert_column r = (\<lambda>(keys, vals) (i, c).
     if c_keyIndex c \<ge> 0 then
       (if nat (c_keyIndex c) < length keys
        then mapR (\<lambda>v. (keys[nat (c_keyIndex c) := v], vals)) (r i (c_type c))
        else Inl (Stuck ''m_keyResults[m_iKeyIndex]''))
     else if c_valueIndex c \<ge> 0 \<and> nat (c_valueIndex c) < length vals
     then mapR (\<lambda>v. (keys, vals[nat (c_valueIndex c) := v])) (r i (c_type c))
     else Inl (Stuck ''m_valueResults[m_iValueIndex]''))"

definition insert_columns :: "table_info \<Rightarrow> row \<Rightarrow> eresult list \<times> eresult list \<Rightarrow> err + eresult list \<times> eresult list" where
  "insert_columns T r kvs = foldR (insert_column r) kvs (zip [0..<getColumnCount T] (t_columns T))"

text \<open>A row of bytes in a buffer of the computed size.\<close>

definition buffer_row :: "lib \<Rightarrow> DBDataType list \<Rightarrow> eresult list \<Rightarrow> byte list res" where
  "buffer_row L types results = bindR (row_computeSize L types results) (\<lambda>rowSize. row_copy L types results)"

definition insert_next ::
  "lib \<Rightarrow> ('p \<times> ('db, 'it) world) plan_ops \<Rightarrow> bool \<Rightarrow> insert_plan \<times> 'p \<times> ('db, 'it) world \<Rightarrow>
   err + bool \<times> insert_plan \<times> 'p \<times> ('db, 'it) world" where
  "insert_next L C bTerminated = (\<lambda>(ip, s).
     bindR (o_next C bTerminated s) (\<lambda>(more, s').
     if \<not> more then Inr (False, ip, s')
     else bindR (insert_columns (in_table ip) (o_getResult C s') (in_keyResults ip, in_valueResults ip)) (\<lambda>(keys, vals).
       bindR (buffer_row L (in_keyTypes ip) keys) (\<lambda>key.
       bindR (buffer_row L (in_valueTypes ip) vals) (\<lambda>val.
         Inr (True, ip\<lparr>in_keyResults := keys, in_valueResults := vals,
                      in_batch := batch_insert key val (in_batch ip), in_rows := in_rows ip + 1\<rparr>, s'))))))"

text \<open>The commit of a batch to the database of a table; the handler keeps the changed database.\<close>

definition commit_batch ::
  "('db, 'it) leveldb \<Rightarrow> nat \<Rightarrow> table_info \<Rightarrow> batch_op list \<Rightarrow> ('db, 'it) world \<Rightarrow> ('db, 'it) world res" where
  "commit_batch D tid T batch w =
     bindR (getLevelDBHandler D tid T (w_handlers w)) (\<lambda>(db, hs).
     mapR (\<lambda>db'. w\<lparr>w_handlers := (tid, db') # filter (\<lambda>h. fst h \<noteq> tid) hs\<rparr>) (commit D batch db))"

definition insert_end ::
  "('db, 'it) leveldb \<Rightarrow> ('p \<times> ('db, 'it) world) plan_ops \<Rightarrow> insert_plan \<times> 'p \<times> ('db, 'it) world \<Rightarrow>
   (insert_plan \<times> 'p \<times> ('db, 'it) world) res" where
  "insert_end D C = (\<lambda>(ip, s).
     bindR (o_end C s) (\<lambda>(p, w). mapR (\<lambda>w'. (ip, p, w')) (commit_batch D (in_tableId ip) (in_table ip) (in_batch ip) w)))"

definition insert_getInfoString :: "insert_plan \<Rightarrow> string" where
  "insert_getInfoString ip = ''INSERT 0 '' @ nat_to_string (in_rows ip)"

definition insert_explain ::
  "('p \<times> ('db, 'it) world) plan_ops \<Rightarrow> nat \<Rightarrow> insert_plan \<times> 'p \<times> ('db, 'it) world \<Rightarrow>
   err + string list \<times> insert_plan \<times> 'p \<times> ('db, 'it) world" where
  "insert_explain C depth = (\<lambda>(ip, s).
     mapR (\<lambda>(rows, s'). ((tabs depth @ ''leveldb:insert '' @ t_name (in_table ip)) # rows, ip, s')) (o_explain C (depth + 1) s))"

definition insert_ops ::
  "lib \<Rightarrow> ('db, 'it) leveldb \<Rightarrow> ('p \<times> ('db, 'it) world) plan_ops \<Rightarrow> (insert_plan \<times> 'p \<times> ('db, 'it) world) plan_ops" where
  "insert_ops L D C = (single_ops C)\<lparr>
     o_explain := insert_explain C,
     o_begin := insert_begin C,
     o_next := insert_next L C,
     o_end := insert_end D C,
     o_getResultColumns := (\<lambda>(ip, s). Inr 0),
     o_getInfoString := (\<lambda>(ip, s). Inr (insert_getInfoString ip))\<rparr>"

section \<open>LevelDBDeletePlan\<close>

record delete_plan =
  de_tableId :: nat
  de_table :: table_info
  de_rows :: nat
  de_projection :: int
  de_batch :: "batch_op list"

definition newLevelDBDeletePlan :: "nat \<Rightarrow> table_info \<Rightarrow> delete_plan" where
  "newLevelDBDeletePlan tid T = \<lparr>de_tableId = tid, de_table = T, de_rows = 0, de_projection = -1, de_batch = []\<rparr>"

definition rowkey_node :: pnode where
  "rowkey_node = PNode 0 NT_NAME OP_NONE ROWKEY ROWKEY []"

definition delete_begin ::
  "('p \<times> ('db, 'it) world) plan_ops \<Rightarrow> bool \<Rightarrow> delete_plan \<times> 'p \<times> ('db, 'it) world \<Rightarrow> (delete_plan \<times> 'p \<times> ('db, 'it) world) res" where
  "delete_begin C bTerminated = (\<lambda>(dp, s).
     bindR (o_addProjection C rowkey_node s) (\<lambda>(i, s1).
     if i < 0 then Inl (Stuck ''m_iRowkeyProjection >= 0'')
     else mapR (Pair (dp\<lparr>de_projection := i, de_rows := 0\<rparr>)) (o_begin C bTerminated s1)))"

definition delete_next ::
  "lib \<Rightarrow> ('p \<times> ('db, 'it) world) plan_ops \<Rightarrow> bool \<Rightarrow> delete_plan \<times> 'p \<times> ('db, 'it) world \<Rightarrow>
   err + bool \<times> delete_plan \<times> 'p \<times> ('db, 'it) world" where
  "delete_next L C bTerminated = (\<lambda>(dp, s).
     bindR (o_next C bTerminated s) (\<lambda>(more, s').
     if \<not> more then Inr (False, dp, s')
     else bindR (o_getResult C s' (nat (de_projection dp)) DT_BYTES) (\<lambda>rowkey.
       bindR (getString L rowkey) (\<lambda>key.
         Inr (True, dp\<lparr>de_batch := batch_remove (bytes_of key) (de_batch dp), de_rows := de_rows dp + 1\<rparr>, s')))))"

definition delete_end ::
  "('db, 'it) leveldb \<Rightarrow> ('p \<times> ('db, 'it) world) plan_ops \<Rightarrow> delete_plan \<times> 'p \<times> ('db, 'it) world \<Rightarrow>
   (delete_plan \<times> 'p \<times> ('db, 'it) world) res" where
  "delete_end D C = (\<lambda>(dp, s).
     bindR (o_end C s) (\<lambda>(p, w). mapR (\<lambda>w'. (dp, p, w')) (commit_batch D (de_tableId dp) (de_table dp) (de_batch dp) w)))"

definition delete_getInfoString :: "delete_plan \<Rightarrow> string" where
  "delete_getInfoString dp = ''DELETE '' @ nat_to_string (de_rows dp)"

definition delete_explain ::
  "('p \<times> ('db, 'it) world) plan_ops \<Rightarrow> nat \<Rightarrow> delete_plan \<times> 'p \<times> ('db, 'it) world \<Rightarrow>
   err + string list \<times> delete_plan \<times> 'p \<times> ('db, 'it) world" where
  "delete_explain C depth = (\<lambda>(dp, s).
     mapR (\<lambda>(rows, s'). ((tabs depth @ ''leveldb:delete '' @ t_name (de_table dp)) # rows, dp, s')) (o_explain C (depth + 1) s))"

definition delete_ops ::
  "lib \<Rightarrow> ('db, 'it) leveldb \<Rightarrow> ('p \<times> ('db, 'it) world) plan_ops \<Rightarrow> (delete_plan \<times> 'p \<times> ('db, 'it) world) plan_ops" where
  "delete_ops L D C = (single_ops C)\<lparr>
     o_explain := delete_explain C,
     o_begin := delete_begin C,
     o_next := delete_next L C,
     o_end := delete_end D C,
     o_getResultColumns := (\<lambda>(dp, s). Inr 0),
     o_getInfoString := (\<lambda>(dp, s). Inr (delete_getInfoString dp))\<rparr>"


section \<open>Changing the rows of a table\<close>

definition key_of :: "table_row \<Rightarrow> eresult list" where "key_of r = fst (snd r)"

definition row_ok :: "lib \<Rightarrow> DBDataType list \<Rightarrow> DBDataType list \<Rightarrow> table_row \<Rightarrow> bool" where
  "row_ok L kt vt r \<longleftrightarrow> list_all2 column_ok kt (key_of r) \<and> exact kt (key_of r) \<and> row_copy L kt (key_of r) = Inr (fst (fst r)) \<and>
     list_all2 column_ok vt (snd (snd r)) \<and> row_copy L vt (snd (snd r)) = Inr (snd (fst r))"

definition key_less :: "DBDataType list \<Rightarrow> table_row \<Rightarrow> table_row \<Rightarrow> bool" where
  "key_less kt a b \<longleftrightarrow> lex_compare type_cmp kt (key_of a) (key_of b) < 0"

lemma table_rows_iff: "table_rows L kt vt rs \<longleftrightarrow> list_all (row_ok L kt vt) rs \<and> sorted_wrt (key_less kt) rs"
proof -
  have "key_less kt = (\<lambda>a b. lex_compare type_cmp kt (fst (snd a)) (fst (snd b)) < 0)"
    by (simp add: key_less_def key_of_def fun_eq_iff)
  then show ?thesis
    by (auto simp: table_rows_def table_entries_def keys_of_def row_ok_def key_of_def list_all_iff sorted_wrt_map
        list_all2_conv_all_nth all_set_conv_all_nth case_prod_unfold)
qed

text \<open>The row with a key that the order of the key types takes for equal.\<close>

definition find_row :: "DBDataType list \<Rightarrow> table_row list \<Rightarrow> eresult list \<Rightarrow> eresult list option" where
  "find_row kt rs k = map_option (\<lambda>r. snd (snd r)) (find (\<lambda>r. lex_compare type_cmp kt (key_of r) k = 0) rs)"

fun put_row :: "DBDataType list \<Rightarrow> table_row \<Rightarrow> table_row list \<Rightarrow> table_row list" where
  "put_row kt new [] = [new]"
| "put_row kt new (r # rs) =
     (let n = lex_compare type_cmp kt (key_of r) (key_of new) in
      if n < 0 then r # put_row kt new rs else if n = 0 then new # rs else new # r # rs)"

definition del_row :: "DBDataType list \<Rightarrow> eresult list \<Rightarrow> table_row list \<Rightarrow> table_row list" where
  "del_row kt k rs = filter (\<lambda>r. lex_compare type_cmp kt (key_of r) k \<noteq> 0) rs"

lemma row_ok_key: "row_ok L kt vt r \<Longrightarrow> list_all2 type_comparable kt (key_of r)"
  by (simp add: row_ok_def column_ok_comparable)

lemma key_cmp_rows:
  assumes "row_ok L kt vt a" "list_all2 column_ok kt k" "exact kt k" "row_copy L kt k = Inr bs"
  shows "key_cmp L kt (fst (fst a)) bs = lex_compare type_cmp kt (key_of a) k"
  using assms column_ok_rows(1) [OF assms(2)] by (intro key_against_bound(2)) (simp_all add: row_ok_def)

lemma put_row_entries:
  assumes "list_all (row_ok L kt vt) rs" "row_ok L kt vt new"
  shows "map fst (put_row kt new rs) = put_entry (key_cmp L kt) (fst (fst new)) (snd (fst new)) (map fst rs)"
  using assms(1)
proof (induction rs)
  case (Cons r rs)
  have "key_cmp L kt (fst (fst r)) (fst (fst new)) = lex_compare type_cmp kt (key_of r) (key_of new)"
    by (rule key_cmp_rows [where vt = vt]) (use Cons.prems assms(2) in \<open>simp_all add: row_ok_def\<close>)
  then show ?case using Cons by (simp add: Let_def)
qed simp

lemma put_row_set: "set (put_row kt new rs) \<subseteq> insert new (set rs)"
  by (induction rs) (auto simp: Let_def)

lemma put_row_table:
  assumes "table_rows L kt vt rs" "row_ok L kt vt new"
  shows "table_rows L kt vt (put_row kt new rs)"
proof -
  have ok: "list_all (row_ok L kt vt) rs" and "sorted_wrt (key_less kt) rs" using assms(1) by (simp_all add: table_rows_iff)
  then have "sorted_wrt (key_less kt) (put_row kt new rs)"
  proof (induction rs)
    case (Cons r rs)
    let ?n = "lex_compare type_cmp kt (key_of r) (key_of new)"
    have c: "list_all2 type_comparable kt (key_of r)" "list_all2 type_comparable kt (key_of new)"
      and d: "\<And>x. x \<in> set rs \<Longrightarrow> list_all2 type_comparable kt (key_of x) \<and> key_less kt r x"
      using Cons.prems assms(2) by (auto simp: list_all_iff intro: row_ok_key)
    have new: "key_less kt new x" if "?n \<ge> 0" "x \<in> set rs" for x
    proof -
      have "lex_compare type_cmp kt (key_of new) (key_of r) \<le> 0" using row_order.cmp_antisym [OF c] that(1) by simp
      then show ?thesis using row_order.cmp_le_less_trans [OF c(2,1)] d [OF that(2)] by (simp add: key_less_def)
    qed
    have rn: "key_less kt new r" if "?n > 0" using row_order.cmp_antisym [OF c] that by (simp add: key_less_def)
    have set: "x \<in> set (put_row kt new rs) \<Longrightarrow> x = new \<or> x \<in> set rs" for x using put_row_set by blast
    consider "?n < 0" | "?n = 0" | "?n > 0" by linarith
    then show ?case
    proof cases
      case 1
      then have "key_less kt r new" by (simp add: key_less_def)
      then have "\<forall>x \<in> set (put_row kt new rs). key_less kt r x" using set d by blast
      then show ?thesis using Cons 1 by (simp add: Let_def)
    next
      case 2
      then show ?thesis using Cons.prems new by (auto simp: Let_def)
    next
      case 3
      then show ?thesis using Cons.prems new rn by (auto simp: Let_def)
    qed
  qed simp
  moreover have "list_all (row_ok L kt vt) (put_row kt new rs)"
    using ok assms(2) put_row_set [of kt new rs] by (auto simp: list_all_iff)
  ultimately show ?thesis by (simp add: table_rows_iff)
qed

lemma find_put_row:
  assumes "table_rows L kt vt rs" "row_ok L kt vt new" "list_all2 type_comparable kt k"
  shows "find_row kt (put_row kt new rs) k =
    (if lex_compare type_cmp kt (key_of new) k = 0 then Some (snd (snd new)) else find_row kt rs k)"
proof -
  let ?c = "\<lambda>r. lex_compare type_cmp kt (key_of r) k = 0"
  have ok: "list_all (row_ok L kt vt) rs" using assms(1) by (simp add: table_rows_iff)
  then have "find ?c (put_row kt new rs) = (if ?c new then Some new else find ?c rs)"
  proof (induction rs)
    case (Cons r rs)
    let ?n = "lex_compare type_cmp kt (key_of r) (key_of new)"
    have c: "list_all2 type_comparable kt (key_of r)" "list_all2 type_comparable kt (key_of new)"
      using Cons.prems assms(2) by (auto intro: row_ok_key)
    have eq: "?c r \<longleftrightarrow> ?c new" if "?n = 0"
      using row_order.cmp_eq_left [OF c assms(3) that] by (metis sgn_0_0)
    have less: "\<not> ?c r" if "?n < 0" "?c new"
      using row_order.cmp_less_trans [OF c assms(3) that(1)] that(2) by auto
    show ?case using Cons eq less by (auto simp: Let_def)
  qed simp
  then show ?thesis by (simp add: find_row_def)
qed

lemma del_row_entries:
  assumes "list_all (row_ok L kt vt) rs" "list_all2 column_ok kt k" "exact kt k" "row_copy L kt k = Inr bs"
  shows "map fst (del_row kt k rs) = del_entry (key_cmp L kt) bs (map fst rs)"
proof -
  have "filter (\<lambda>r. lex_compare type_cmp kt (key_of r) k \<noteq> 0) rs = filter (\<lambda>r. key_cmp L kt (fst (fst r)) bs \<noteq> 0) rs"
  proof (rule filter_cong [OF refl])
    fix r assume "r \<in> set rs"
    then have "row_ok L kt vt r" using assms(1) by (simp add: list_all_iff)
    from key_cmp_rows [OF this assms(2-4)]
    show "(lex_compare type_cmp kt (key_of r) k \<noteq> 0) = (key_cmp L kt (fst (fst r)) bs \<noteq> 0)" by simp
  qed
  then show ?thesis by (simp add: del_row_def del_entry_def filter_map comp_def)
qed

lemma del_row_table: "table_rows L kt vt rs \<Longrightarrow> table_rows L kt vt (del_row kt k rs)"
  by (auto simp: table_rows_iff del_row_def list_all_iff sorted_wrt_filter)


text \<open>The commit of the collected puts.\<close>

definition put_of :: "table_row \<Rightarrow> batch_op" where
  "put_of r = Put (fst (fst r)) (snd (fst r))"

lemma apply_puts:
  assumes "table_rows L kt vt rs" "list_all (row_ok L kt vt) news"
  shows "foldl (apply_op (key_cmp L kt)) (map fst rs) (map put_of news) = map fst (foldl (\<lambda>rs r. put_row kt r rs) rs news) \<and>
    table_rows L kt vt (foldl (\<lambda>rs r. put_row kt r rs) rs news)"
  using assms
proof (induction news arbitrary: rs)
  case (Cons new news)
  have ok: "list_all (row_ok L kt vt) rs" "row_ok L kt vt new" using Cons.prems by (simp_all add: table_rows_iff)
  have "apply_op (key_cmp L kt) (map fst rs) (put_of new) = map fst (put_row kt new rs)"
    by (simp add: apply_op_def put_of_def put_row_entries [OF ok])
  then show ?case using Cons.IH [OF put_row_table [OF Cons.prems(1) ok(2)]] Cons.prems(2) by simp
qed simp

definition newest :: "DBDataType list \<Rightarrow> table_row list \<Rightarrow> eresult list \<Rightarrow> table_row option" where
  "newest kt news k = find (\<lambda>r. lex_compare type_cmp kt (key_of r) k = 0) (rev news)"

lemma find_puts:
  assumes "table_rows L kt vt rs" "list_all (row_ok L kt vt) news" "list_all2 type_comparable kt k"
  shows "find_row kt (foldl (\<lambda>rs r. put_row kt r rs) rs news) k =
    (case newest kt news k of Some r \<Rightarrow> Some (snd (snd r)) | None \<Rightarrow> find_row kt rs k)"
  using assms(1,2)
proof (induction news arbitrary: rs)
  case Nil
  then show ?case by (simp add: newest_def)
next
  case (Cons new news)
  have ok: "row_ok L kt vt new" "list_all (row_ok L kt vt) news" using Cons.prems(2) by simp_all
  have app: "find P (xs @ [x]) = (case find P xs of Some y \<Rightarrow> Some y | None \<Rightarrow> if P x then Some x else None)" for P xs and x :: table_row
    by (induction xs) simp_all
  show ?case
    using Cons.IH [OF put_row_table [OF Cons.prems(1) ok(1)] ok(2)] find_put_row [OF Cons.prems(1) ok(1) assms(3)]
    by (simp add: newest_def app split: option.splits)
qed

text \<open>Committing a batch: the write fails with its status, or the table has the rows of the batch applied.\<close>

definition commits ::
  "nat \<Rightarrow> ('p \<times> ('db, 'it) world) res \<Rightarrow> ('db \<Rightarrow> (byte list \<times> byte list) list) \<Rightarrow> (table_row list \<Rightarrow> bool) \<Rightarrow> bool" where
  "commits tid r contents P = (case r of
       Inl e \<Rightarrow> \<exists>status. e = ExecutionException (''Failed to write to leveldb'' @ status)
     | Inr (p, w) \<Rightarrow> \<exists>db rs. map_of (w_handlers w) tid = Some db \<and> contents db = map fst rs \<and> P rs)"

lemma commit_batch_commits:
  assumes "getLevelDBHandler D tid T (w_handlers w) = Inr (db, hs)" "db_laws D cmp contents ents pos"
    and "foldl (apply_op cmp) (contents db) batch = map fst rs" "P rs"
  shows "commits tid (mapR (Pair p) (commit_batch D tid T batch w)) contents P"
proof (cases "ldb_write D batch db")
  case (Inl status)
  then show ?thesis using assms(1) by (simp add: commits_def commit_batch_def commit_def)
next
  case (Inr db')
  then have "contents db' = map fst rs" using assms(2,3) by (simp add: db_laws_def)
  then show ?thesis using assms(1,4) Inr by (auto simp: commits_def commit_batch_def commit_def)
qed

section \<open>The rows of an insert\<close>

text \<open>Every key and value position of the table belongs to a column.\<close>

definition insert_slots :: "table_info \<Rightarrow> nat \<Rightarrow> nat \<Rightarrow> bool" where
  "insert_slots T K V \<longleftrightarrow>
     (\<forall>c \<in> set (t_columns T). if c_keyIndex c \<ge> 0 then nat (c_keyIndex c) < K else c_valueIndex c \<ge> 0 \<and> nat (c_valueIndex c) < V) \<and>
     (\<forall>j < K. \<exists>c \<in> set (t_columns T). c_keyIndex c = int j) \<and>
     (\<forall>j < V. \<exists>c \<in> set (t_columns T). c_keyIndex c < 0 \<and> c_valueIndex c = int j)"

definition row_values :: "table_info \<Rightarrow> row \<Rightarrow> eresult list \<Rightarrow> eresult list \<Rightarrow> bool" where
  "row_values T r ks vs \<longleftrightarrow> (\<forall>(i, c) \<in> set (zip [0..<getColumnCount T] (t_columns T)).
     r i (c_type c) = Inr (if c_keyIndex c \<ge> 0 then ks ! nat (c_keyIndex c) else vs ! nat (c_valueIndex c)))"

text \<open>\<open>fits xs ys P\<close>: \<open>xs\<close> agrees with \<open>ys\<close> at the positions \<open>P\<close>.\<close>

definition fits :: "'a list \<Rightarrow> 'a list \<Rightarrow> (nat \<Rightarrow> bool) \<Rightarrow> bool" where
  "fits xs ys P \<longleftrightarrow> length xs = length ys \<and> (\<forall>j < length ys. P j \<longrightarrow> xs ! j = ys ! j)"

lemma fits_update: "fits xs ys P \<Longrightarrow> fits (xs[j := ys ! j]) ys (\<lambda>i. P i \<or> i = j)"
  by (cases "j < length xs") (auto simp: fits_def nth_list_update)

lemma fits_mono: "fits xs ys P \<Longrightarrow> (\<And>j. Q j \<Longrightarrow> P j) \<Longrightarrow> fits xs ys Q"
  by (auto simp: fits_def)

lemma fits_all: "fits xs ys P \<Longrightarrow> (\<And>j. j < length ys \<Longrightarrow> P j) \<Longrightarrow> xs = ys"
  by (auto simp: fits_def intro: nth_equalityI)

lemma fits_length: "fits xs ys P \<Longrightarrow> length xs = length ys"
  by (simp add: fits_def)

definition column_fits :: "row \<Rightarrow> eresult list \<Rightarrow> eresult list \<Rightarrow> nat \<times> column_info \<Rightarrow> bool" where
  "column_fits r ks vs ic \<longleftrightarrow> (let c = snd ic in
     if c_keyIndex c \<ge> 0 then nat (c_keyIndex c) < length ks \<and> r (fst ic) (c_type c) = Inr (ks ! nat (c_keyIndex c))
     else c_valueIndex c \<ge> 0 \<and> nat (c_valueIndex c) < length vs \<and> r (fst ic) (c_type c) = Inr (vs ! nat (c_valueIndex c)))"

lemma insert_columns_prefix:
  assumes "\<forall>ic \<in> set ics. column_fits r ks vs ic" "fits keys ks P" "fits vals vs Q"
  shows "\<exists>keys' vals'. foldR (insert_column r) (keys, vals) ics = Inr (keys', vals') \<and>
    fits keys' ks (\<lambda>j. P j \<or> (\<exists>ic \<in> set ics. c_keyIndex (snd ic) = int j)) \<and>
    fits vals' vs (\<lambda>j. Q j \<or> (\<exists>ic \<in> set ics. c_keyIndex (snd ic) < 0 \<and> c_valueIndex (snd ic) = int j))"
  using assms
proof (induction ics arbitrary: keys vals P Q)
  case (Cons ic ics)
  obtain i c where ic: "ic = (i, c)" by (cases ic)
  have c: "column_fits r ks vs (i, c)" and rest: "\<forall>ic \<in> set ics. column_fits r ks vs ic" using Cons.prems(1) by (simp_all add: ic)
  show ?case
  proof (cases "c_keyIndex c \<ge> 0")
    case True
    let ?j = "nat (c_keyIndex c)"
    have "insert_column r (keys, vals) ic = Inr (keys[?j := ks ! ?j], vals)"
      using c True fits_length [OF Cons.prems(2)] by (simp add: insert_column_def ic column_fits_def)
    moreover from Cons.IH [OF rest fits_update [OF Cons.prems(2), of ?j] Cons.prems(3)] obtain keys' vals' where
      "foldR (insert_column r) (keys[?j := ks ! ?j], vals) ics = Inr (keys', vals')"
      "fits keys' ks (\<lambda>j. (P j \<or> j = ?j) \<or> (\<exists>ic \<in> set ics. c_keyIndex (snd ic) = int j))"
      "fits vals' vs (\<lambda>j. Q j \<or> (\<exists>ic \<in> set ics. c_keyIndex (snd ic) < 0 \<and> c_valueIndex (snd ic) = int j))" by blast
    ultimately show ?thesis using True
      by (intro exI [of _ keys'] exI [of _ vals']) (auto simp: ic elim!: fits_mono)
  next
    case False
    let ?j = "nat (c_valueIndex c)"
    have "insert_column r (keys, vals) ic = Inr (keys, vals[?j := vs ! ?j])"
      using c False fits_length [OF Cons.prems(3)] by (simp add: insert_column_def ic column_fits_def)
    moreover from Cons.IH [OF rest Cons.prems(2) fits_update [OF Cons.prems(3), of ?j]] obtain keys' vals' where
      "foldR (insert_column r) (keys, vals[?j := vs ! ?j]) ics = Inr (keys', vals')"
      "fits keys' ks (\<lambda>j. P j \<or> (\<exists>ic \<in> set ics. c_keyIndex (snd ic) = int j))"
      "fits vals' vs (\<lambda>j. (Q j \<or> j = ?j) \<or> (\<exists>ic \<in> set ics. c_keyIndex (snd ic) < 0 \<and> c_valueIndex (snd ic) = int j))" by blast
    ultimately show ?thesis using False
      by (intro exI [of _ keys'] exI [of _ vals']) (auto simp: ic elim!: fits_mono)
  qed
qed auto

lemma insert_columns_values:
  assumes "insert_slots T (length ks) (length vs)" "row_values T r ks vs" "length keys = length ks" "length vals = length vs"
  shows "insert_columns T r (keys, vals) = Inr (ks, vs)"
proof -
  let ?ics = "zip [0..<getColumnCount T] (t_columns T)"
  have mem: "set (t_columns T) = snd ` set ?ics"
    by (metis getColumnCount_def length_upt diff_zero list.set_map map_snd_zip)
  have "\<forall>ic \<in> set ?ics. column_fits r ks vs ic"
    using assms(1,2) unfolding insert_slots_def row_values_def column_fits_def mem by (auto simp: Let_def)
  moreover have "fits keys ks (\<lambda>_. False)" "fits vals vs (\<lambda>_. False)" using assms(3,4) by (simp_all add: fits_def)
  ultimately obtain keys' vals' where k: "insert_columns T r (keys, vals) = Inr (keys', vals')"
    "fits keys' ks (\<lambda>j. False \<or> (\<exists>ic \<in> set ?ics. c_keyIndex (snd ic) = int j))"
    "fits vals' vs (\<lambda>j. False \<or> (\<exists>ic \<in> set ?ics. c_keyIndex (snd ic) < 0 \<and> c_valueIndex (snd ic) = int j))"
    using insert_columns_prefix unfolding insert_columns_def by blast
  have "keys' = ks" by (rule fits_all [OF k(2)]) (use assms(1) in \<open>simp add: insert_slots_def mem\<close>)
  moreover have "vals' = vs" by (rule fits_all [OF k(3)]) (use assms(1) in \<open>simp add: insert_slots_def mem\<close>)
  ultimately show ?thesis using k(1) by simp
qed


text \<open>What an insert does with the rows of the plan below.\<close>

definition inserts :: "lib \<Rightarrow> insert_plan \<Rightarrow> row \<Rightarrow> table_row \<Rightarrow> bool" where
  "inserts L ip r new \<longleftrightarrow> row_values (in_table ip) r (key_of new) (snd (snd new)) \<and> row_ok L (in_keyTypes ip) (in_valueTypes ip) new"

definition insert_wf :: "insert_plan \<Rightarrow> bool" where
  "insert_wf ip \<longleftrightarrow> insert_slots (in_table ip) (length (in_keyTypes ip)) (length (in_valueTypes ip)) \<and>
     length (in_keyResults ip) = length (in_keyTypes ip) \<and> length (in_valueResults ip) = length (in_valueTypes ip)"

lemma buffer_row_copy: "list_all2 column_ok types vs \<Longrightarrow> buffer_row L types vs = row_copy L types vs"
  using row_copy_ok [OF column_ok_rows(1)] by (metis bindR_simps(2) buffer_row_def)

lemma insert_next_row:
  assumes "o_next C t s = Inr (True, s')" "inserts L ip (o_getResult C s') new" "insert_wf ip"
  shows "insert_next L C t (ip, s) = Inr (True, ip\<lparr>in_keyResults := key_of new, in_valueResults := snd (snd new),
    in_batch := in_batch ip @ [put_of new], in_rows := in_rows ip + 1\<rparr>, s')"
proof -
  have ok: "list_all2 column_ok (in_keyTypes ip) (key_of new)" "list_all2 column_ok (in_valueTypes ip) (snd (snd new))"
    "row_copy L (in_keyTypes ip) (key_of new) = Inr (fst (fst new))" "row_copy L (in_valueTypes ip) (snd (snd new)) = Inr (snd (fst new))"
    using assms(2) by (simp_all add: inserts_def row_ok_def)
  have "insert_columns (in_table ip) (o_getResult C s') (in_keyResults ip, in_valueResults ip) = Inr (key_of new, snd (snd new))"
    using assms(2,3) list_all2_lengthD [OF ok(1)] list_all2_lengthD [OF ok(2)]
    by (intro insert_columns_values) (simp_all add: inserts_def insert_wf_def)
  then show ?thesis using assms(1) buffer_row_copy [OF ok(1), of L] buffer_row_copy [OF ok(2), of L] ok(3,4)
    by (simp add: insert_next_def batch_insert_def put_of_def)
qed

lemma insert_delivers:
  assumes "delivers_to (o_next C t) (o_getResult C) s rows Q" "list_all2 (inserts L ip) rows news" "insert_wf ip"
  shows "delivers_to (insert_next L C t) (\<lambda>_. ()) (ip, s) (map (\<lambda>_. ()) news)
    (\<lambda>(ip', s'). Q s' \<and> in_batch ip' = in_batch ip @ map put_of news \<and> in_rows ip' = in_rows ip + length news \<and>
       in_table ip' = in_table ip \<and> in_tableId ip' = in_tableId ip)"
  using assms
proof (induction rows arbitrary: s ip news)
  case Nil
  then show ?case by (auto simp: insert_next_def)
next
  case (Cons r rows)
  then obtain new news' where news: "news = new # news'" "inserts L ip r new" "list_all2 (inserts L ip) rows news'"
    by (auto simp: list_all2_Cons1)
  from Cons.prems(1) obtain s' where s': "o_next C t s = Inr (True, s')" "o_getResult C s' = r"
    "delivers_to (o_next C t) (o_getResult C) s' rows Q" by auto
  let ?ip = "ip\<lparr>in_keyResults := key_of new, in_valueResults := snd (snd new),
    in_batch := in_batch ip @ [put_of new], in_rows := in_rows ip + 1\<rparr>"
  have step: "insert_next L C t (ip, s) = Inr (True, ?ip, s')"
    by (rule insert_next_row) (use s' news(2) Cons.prems(3) in simp_all)
  have "list_all2 (inserts L ?ip) rows news'" using news(3) by (simp add: inserts_def [abs_def])
  moreover have "insert_wf ?ip"
    using Cons.prems(3) news(2) by (auto simp: insert_wf_def inserts_def row_ok_def dest: list_all2_lengthD)
  ultimately have "delivers_to (insert_next L C t) (\<lambda>_. ()) (?ip, s') (map (\<lambda>_. ()) news')
    (\<lambda>(ip', s'). Q s' \<and> in_batch ip' = in_batch ?ip @ map put_of news' \<and> in_rows ip' = in_rows ?ip + length news' \<and>
       in_table ip' = in_table ?ip \<and> in_tableId ip' = in_tableId ?ip)"
    using Cons.IH [OF s'(3)] by blast
  then show ?case using step by (simp add: news(1))
qed

definition rows_inserted :: "lib \<Rightarrow> DBDataType list \<Rightarrow> DBDataType list \<Rightarrow> table_row list \<Rightarrow> table_row list \<Rightarrow> table_row list \<Rightarrow> bool" where
  "rows_inserted L kt vt rs news rs' \<longleftrightarrow> table_rows L kt vt rs' \<and>
     (\<forall>k. list_all2 type_comparable kt k \<longrightarrow> find_row kt rs' k =
        (case newest kt news k of Some r \<Rightarrow> Some (snd (snd r)) | None \<Rightarrow> find_row kt rs k))"

text \<open>What an insert collects is committed at its end.\<close>

lemma insert_commits:
  assumes "getLevelDBHandler D tid T (w_handlers w) = Inr (db, hs)" "contents db = map fst rs"
    and "db_laws D (key_cmp L kt) contents ents pos" "table_rows L kt vt rs" "list_all (row_ok L kt vt) news"
  shows "commits tid (mapR (Pair q) (commit_batch D tid T (map put_of news) w)) contents (rows_inserted L kt vt rs news)"
proof (rule commit_batch_commits [OF assms(1,3)])
  let ?rs = "foldl (\<lambda>rs r. put_row kt r rs) rs news"
  note puts = apply_puts [OF assms(4,5)]
  then show "foldl (apply_op (key_cmp L kt)) (contents db) (map put_of news) = map fst ?rs" using assms(2) by simp
  show "rows_inserted L kt vt rs news ?rs" using puts find_puts [OF assms(4,5)] by (simp add: rows_inserted_def)
qed

text \<open>
  C10.  An insert takes every row of the plan below into its table: unless the write fails, with
  the error of the store, the table afterwards has for every key the values of the last inserted
  row with this key, and its old row for all other keys; the entries stay sorted and well formed.
  (Keys must be values that storing does not change.)
\<close>

theorem insert_adds_rows:
  fixes rs news :: "table_row list"
  assumes "o_getResultColumns C s = Inr (getColumnCount (in_table ip))" "o_begin C t s = Inr s1"
    and "delivers_to (o_next C t) (o_getResult C) s1 rows
      (\<lambda>s2. \<exists>p w db hs. o_end C s2 = Inr (p, w) \<and> contents db = map fst rs \<and>
        getLevelDBHandler D (in_tableId ip) (in_table ip) (w_handlers w) = Inr (db, hs))"
    and "list_all2 (inserts L ip) rows news" "insert_wf ip" "in_batch ip = []"
    and "db_laws D (key_cmp L (in_keyTypes ip)) contents ents pos" "table_rows L (in_keyTypes ip) (in_valueTypes ip) rs"
  shows "\<exists>is. o_begin (insert_ops L D C) t (ip, s) = Inr is \<and>
    delivers_to (o_next (insert_ops L D C) t) (\<lambda>_. ()) is (map (\<lambda>_. ()) news)
      (\<lambda>is'. o_getInfoString (insert_ops L D C) is' = Inr (''INSERT 0 '' @ nat_to_string (length news)) \<and>
        commits (in_tableId ip) (mapR snd (o_end (insert_ops L D C) is')) contents
          (rows_inserted L (in_keyTypes ip) (in_valueTypes ip) rs news))"
proof -
  let ?kt = "in_keyTypes ip" and ?vt = "in_valueTypes ip"
  have news: "list_all (row_ok L ?kt ?vt) news" using list_all2_in2 [OF assms(4)] by (auto simp: list_all_iff inserts_def)
  have ins: "list_all2 (inserts L (ip\<lparr>in_rows := 0\<rparr>)) rows news" "insert_wf (ip\<lparr>in_rows := 0\<rparr>)"
    using assms(4,5) by (simp_all add: inserts_def [abs_def] insert_wf_def)
  have b: "o_begin (insert_ops L D C) t (ip, s) = Inr (ip\<lparr>in_rows := 0\<rparr>, s1)"
    using assms(1,2) by (simp add: insert_ops_def insert_begin_def)
  have last: "o_getInfoString (insert_ops L D C) is' = Inr (''INSERT 0 '' @ nat_to_string (length news)) \<and>
      commits (in_tableId ip) (mapR snd (o_end (insert_ops L D C) is')) contents (rows_inserted L ?kt ?vt rs news)"
    if "case is' of (ip', s') \<Rightarrow> (\<exists>p w db hs. o_end C s' = Inr (p, w) \<and> contents db = map fst rs \<and>
          getLevelDBHandler D (in_tableId ip) (in_table ip) (w_handlers w) = Inr (db, hs)) \<and>
        in_batch ip' = map put_of news \<and> in_rows ip' = length news \<and> in_table ip' = in_table ip \<and> in_tableId ip' = in_tableId ip" for is'
  proof -
    from that obtain ip' s' p w db hs where i: "is' = (ip', s')" "o_end C s' = Inr (p, w)" "contents db = map fst rs"
      "getLevelDBHandler D (in_tableId ip) (in_table ip) (w_handlers w) = Inr (db, hs)"
      "in_batch ip' = map put_of news" "in_rows ip' = length news" "in_table ip' = in_table ip" "in_tableId ip' = in_tableId ip"
      by (cases is') auto
    have "commits (in_tableId ip) (mapR (Pair p) (commit_batch D (in_tableId ip) (in_table ip) (map put_of news) w)) contents
      (rows_inserted L ?kt ?vt rs news)"
      by (rule insert_commits [OF i(4,3) assms(7,8) news])
    moreover have "mapR snd (o_end (insert_ops L D C) is') = mapR (Pair p) (commit_batch D (in_tableId ip) (in_table ip) (map put_of news) w)"
      by (cases "commit_batch D (in_tableId ip) (in_table ip) (map put_of news) w") (simp_all add: insert_ops_def insert_end_def i)
    ultimately show ?thesis by (simp add: insert_ops_def i insert_getInfoString_def)
  qed
  have d: "delivers_to (o_next (insert_ops L D C) t) (\<lambda>_. ()) (ip\<lparr>in_rows := 0\<rparr>, s1) (map (\<lambda>_. ()) news)
      (\<lambda>(ip', s'). (\<exists>p w db hs. o_end C s' = Inr (p, w) \<and> contents db = map fst rs \<and>
        getLevelDBHandler D (in_tableId ip) (in_table ip) (w_handlers w) = Inr (db, hs)) \<and>
       in_batch ip' = map put_of news \<and> in_rows ip' = length news \<and> in_table ip' = in_table ip \<and> in_tableId ip' = in_tableId ip)"
    using insert_delivers [OF assms(3) ins] assms(6) by (simp add: insert_ops_def)
  show ?thesis by (intro exI conjI, rule b, rule delivers_to_mono [OF d], erule last)
qed


section \<open>The rows of a delete\<close>

lemma delete_delivers:
  assumes "delivers_to (o_next C t) (o_getResult C) s rows Q"
    and "list_all2 (\<lambda>r k. r (nat (de_projection dp)) DT_BYTES = Inr (R_StringView (string_of k))) rows keys"
  shows "delivers_to (delete_next L C t) (\<lambda>_. ()) (dp, s) (map (\<lambda>_. ()) keys)
    (\<lambda>(dp', s'). Q s' \<and> de_batch dp' = de_batch dp @ map Del keys \<and> de_rows dp' = de_rows dp + length keys \<and>
       de_table dp' = de_table dp \<and> de_tableId dp' = de_tableId dp)"
  using assms
proof (induction rows arbitrary: s dp keys)
  case Nil
  then show ?case by (auto simp: delete_next_def)
next
  case (Cons r rows)
  then obtain k keys' where keys: "keys = k # keys'" "r (nat (de_projection dp)) DT_BYTES = Inr (R_StringView (string_of k))"
    "list_all2 (\<lambda>r k. r (nat (de_projection dp)) DT_BYTES = Inr (R_StringView (string_of k))) rows keys'"
    by (auto simp: list_all2_Cons1)
  from Cons.prems(1) obtain s' where s': "o_next C t s = Inr (True, s')" "o_getResult C s' = r"
    "delivers_to (o_next C t) (o_getResult C) s' rows Q" by auto
  let ?dp = "dp\<lparr>de_batch := de_batch dp @ [Del k], de_rows := de_rows dp + 1\<rparr>"
  have step: "delete_next L C t (dp, s) = Inr (True, ?dp, s')"
    using s'(1,2) keys(2) by (simp add: delete_next_def getString_def batch_remove_def)
  have "delivers_to (delete_next L C t) (\<lambda>_. ()) (?dp, s') (map (\<lambda>_. ()) keys')
    (\<lambda>(dp', s'). Q s' \<and> de_batch dp' = de_batch ?dp @ map Del keys' \<and> de_rows dp' = de_rows ?dp + length keys' \<and>
       de_table dp' = de_table ?dp \<and> de_tableId dp' = de_tableId ?dp)"
    by (rule Cons.IH [OF s'(3)]) (use keys(3) in simp)
  then show ?case using step by (simp add: keys(1))
qed

lemma apply_dels:
  assumes "list_all (row_ok L kt vt) rs" "list_all (row_ok L kt vt) hits"
  shows "foldl (apply_op (key_cmp L kt)) (map fst rs) (map Del (map (fst \<circ> fst) hits)) =
    map fst (filter (\<lambda>r. \<forall>h \<in> set hits. lex_compare type_cmp kt (key_of r) (key_of h) \<noteq> 0) rs)"
  using assms
proof (induction hits arbitrary: rs)
  case (Cons h hits)
  have "map fst (del_row kt (key_of h) rs) = del_entry (key_cmp L kt) (fst (fst h)) (map fst rs)"
    by (rule del_row_entries [where vt = vt]) (use Cons.prems in \<open>simp_all add: row_ok_def [of _ _ _ h]\<close>)
  moreover have "list_all (row_ok L kt vt) (del_row kt (key_of h) rs)" using Cons.prems(1) by (auto simp: del_row_def list_all_iff)
  moreover have "filter (\<lambda>r. \<forall>h \<in> set hits. lex_compare type_cmp kt (key_of r) (key_of h) \<noteq> 0) (del_row kt (key_of h) rs) =
      filter (\<lambda>r. \<forall>h \<in> set (h # hits). lex_compare type_cmp kt (key_of r) (key_of h) \<noteq> 0) rs"
    by (simp add: del_row_def conj_commute)
  ultimately show ?case using Cons.IH [of "del_row kt (key_of h) rs"] Cons.prems(2) by (simp add: apply_op_def)
qed simp

text \<open>In a table, a key stands for one row.\<close>

lemma table_key_unique:
  assumes "table_rows L kt vt rs" "a \<in> set rs" "b \<in> set rs" "lex_compare type_cmp kt (key_of a) (key_of b) = 0"
  shows "a = b"
proof -
  from assms(1) have ok: "list_all (row_ok L kt vt) rs" "sorted_wrt (key_less kt) rs" by (simp_all add: table_rows_iff)
  from assms(2,3) obtain i j where ij: "i < length rs" "rs ! i = a" "j < length rs" "rs ! j = b" by (auto simp: in_set_conv_nth)
  have c: "list_all2 type_comparable kt (key_of a)" "list_all2 type_comparable kt (key_of b)"
    using assms(2,3) ok(1) by (auto simp: list_all_iff intro: row_ok_key)
  have less: "key_less kt (rs ! m) (rs ! n)" if "m < n" "n < length rs" for m n
    using ok(2) that by (rule sorted_wrt_nth_less)
  have "\<not> i < j" using less [of i j] ij assms(4) by (auto simp: key_less_def)
  moreover have "\<not> j < i" using less [of j i] ij assms(4) row_order.cmp_antisym [OF c] by (auto simp: key_less_def)
  ultimately show ?thesis using ij by (metis linorder_neqE_nat)
qed

lemma delete_hits:
  assumes "table_rows L kt vt rs" "set hits = {r \<in> set rs. P r}"
  shows "foldl (apply_op (key_cmp L kt)) (map fst rs) (map Del (map (fst \<circ> fst) hits)) = map fst (filter (\<lambda>r. \<not> P r) rs)"
proof -
  have ok: "list_all (row_ok L kt vt) rs" using assms(1) by (simp add: table_rows_iff)
  then have hits: "list_all (row_ok L kt vt) hits" using assms(2) by (auto simp: list_all_iff)
  have "filter (\<lambda>r. \<forall>h \<in> set hits. lex_compare type_cmp kt (key_of r) (key_of h) \<noteq> 0) rs = filter (\<lambda>r. \<not> P r) rs"
  proof (rule filter_cong [OF refl])
    fix r assume r: "r \<in> set rs"
    then have "list_all2 type_comparable kt (key_of r)" using ok by (auto simp: list_all_iff intro: row_ok_key)
    then have "lex_compare type_cmp kt (key_of r) (key_of r) = 0" by (rule row_order.cmp_refl)
    then show "(\<forall>h \<in> set hits. lex_compare type_cmp kt (key_of r) (key_of h) \<noteq> 0) = (\<not> P r)"
      using r assms(2) table_key_unique [OF assms(1) r] by blast
  qed
  then show ?thesis using apply_dels [OF ok hits] by simp
qed

lemma getLevelDBHandler_again: "getLevelDBHandler D tid T hs0 = Inr (db, hs) \<Longrightarrow> getLevelDBHandler D tid T hs = Inr (db, hs)"
  by (auto simp: getLevelDBHandler_def split: option.splits)

lemma view_row_rowkey: "view_row n (ks, project_values shape vt vs, k) (n + length shape) ty = Inr (R_StringView (string_of k))"
  by (simp add: view_row_def project_values_def)

text \<open>
  C11.  \<open>DELETE ... WHERE\<close> over a scan removes exactly the rows that satisfy the comparisons the scan
  solved, and no other; it reports their number.  (The write of the batch may fail, with the error
  of the store.)
\<close>

theorem delete_removes_solved:
  fixes rs :: "table_row list"
  assumes "scan_setPredicate L p sc = Inr (sc', solved)" "sc_range sc' = Some r" "exact_range r"
    and "scan_wf sc" "sc_iter sc = None" "EqualsIgnoreCase L ROWKEY ROWKEY"
    and "getLevelDBHandler D (sc_tableId sc) (sc_table sc) (w_handlers w) = Inr (db, hs)"
    and "db_laws D (key_cmp L (sc_keyTypes sc)) contents ents pos" "contents db = map fst rs"
    and "table_rows L (sc_keyTypes sc) (sc_valueTypes sc) rs" "length rs < fuel" "2 < fuel"
  defines "ops \<equiv> delete_ops L D (scan_ops fuel L D)"
  shows "\<exists>used s. set used \<subseteq> set (key_atoms (sc_table sc) p) \<and> map (\<lambda>(j, op, node, x). x) used = solved \<and>
    o_begin ops False (newLevelDBDeletePlan (sc_tableId sc) (sc_table sc), sc', w) = Inr s \<and>
    delivers_to (o_next ops False) (\<lambda>_. ()) s
      (map (\<lambda>_. ()) (filter (\<lambda>(e, ks, vs). \<forall>a \<in> set used. atom_true L (sc_keyTypes sc) ks a) rs))
      (\<lambda>s'. o_getInfoString ops s' = Inr (''DELETE '' @
          nat_to_string (length (filter (\<lambda>(e, ks, vs). \<forall>a \<in> set used. atom_true L (sc_keyTypes sc) ks a) rs))) \<and>
        commits (sc_tableId sc) (mapR snd (o_end ops s')) contents
          (\<lambda>rs'. rs' = filter (\<lambda>(e, ks, vs). \<not> (\<forall>a \<in> set used. atom_true L (sc_keyTypes sc) ks a)) rs))"
proof -
  let ?C = "scan_ops fuel L D" and ?kt = "sc_keyTypes sc" and ?tid = "sc_tableId sc" and ?T = "sc_table sc"
  let ?new = "newLevelDBDeletePlan ?tid ?T"
  from scan_delivers_hits [OF assms(1-5,7-12)] obtain used s where us: "set used \<subseteq> set (key_atoms ?T p)"
      "map (\<lambda>(j, op, node, x). x) used = solved" "o_begin ?C False (sc', w) = Inr s"
    and d0: "delivers_to (o_next ?C False) (o_getResult ?C) s
      (map (view_row (getKeyCount ?T) \<circ> row_view (shape_of sc) (sc_valueTypes sc))
        ((if sc_order sc = Descend then rev else id) (filter (\<lambda>(e, ks, vs). \<forall>a \<in> set used. atom_true L ?kt ks a) rs)))
      (\<lambda>s'. o_getInfoString ?C s' = Inr (''SELECT '' @
          nat_to_string (length (filter (\<lambda>(e, ks, vs). \<forall>a \<in> set used. atom_true L ?kt ks a) rs))) \<and> w_handlers (snd s') = hs)"
    by blast
  define P where "P = (\<lambda>(e :: byte list \<times> byte list, ks, vs :: eresult list). \<forall>a \<in> set used. atom_true L ?kt ks a)"
  define hits where "hits = (if sc_order sc = Descend then rev else id) (filter P rs)"
  have set: "set hits = {x \<in> set rs. P x}" and len: "length hits = length (filter P rs)" by (auto simp: hits_def)
  have notP: "(\<lambda>(e, ks, vs). \<not> (\<forall>a \<in> set used. atom_true L ?kt ks a)) = (\<lambda>x. \<not> P x)" by (auto simp: P_def fun_eq_iff)
  let ?i = "int (length (sc_columnValues sc) + getKeyCount ?T)"
  let ?dp = "?new\<lparr>de_projection := ?i, de_rows := 0\<rparr>"
  have sc': "sc' = sc\<lparr>sc_range := Some r\<rparr>" using assms(1,2) by (auto elim: scan_setPredicate_InrE)
  have "isRowKeyNode L rowkey_node" using assms(6) by (simp add: isRowKeyNode_def rowkey_node_def)
  then have "o_addProjection ?C rowkey_node (sc', w) = Inr (?i, sc', w)" by (simp add: scan_ops_def scan_addProjection_def sc')
  then have b: "o_begin ops False (?new, sc', w) = Inr (?dp, s)"
    using us(3) by (simp add: ops_def delete_ops_def delete_begin_def)
  have keys: "list_all2 (\<lambda>row k. row (nat (de_projection ?dp)) DT_BYTES = Inr (R_StringView (string_of k)))
      (map (view_row (getKeyCount ?T) \<circ> row_view (shape_of sc) (sc_valueTypes sc)) hits) (map (fst \<circ> fst) hits)"
    using view_row_rowkey [of "getKeyCount ?T" _ "shape_of sc" "sc_valueTypes sc"]
    by (simp add: list_all2_map1 list_all2_map2 list_all2_same row_view_def case_prod_unfold shape_of_def add.commute nat_int_add)
  have last: "o_getInfoString ops s' = Inr (''DELETE '' @ nat_to_string (length (filter P rs))) \<and>
      commits ?tid (mapR snd (o_end ops s')) contents (\<lambda>rs'. rs' = filter (\<lambda>x. \<not> P x) rs)"
    if "case s' of (dp', s2) \<Rightarrow> w_handlers (snd s2) = hs \<and> de_batch dp' = map Del (map (fst \<circ> fst) hits) \<and>
      de_rows dp' = length hits \<and> de_table dp' = ?T \<and> de_tableId dp' = ?tid" for s'
  proof -
    from that obtain dp' sc2 w2 where i: "s' = (dp', sc2, w2)" "w_handlers w2 = hs" "de_batch dp' = map Del (map (fst \<circ> fst) hits)"
      "de_rows dp' = length hits" "de_table dp' = ?T" "de_tableId dp' = ?tid" by (cases s') auto
    have hd: "getLevelDBHandler D ?tid ?T (w_handlers w2) = Inr (db, hs)"
      using getLevelDBHandler_again [OF assms(7)] i(2) by simp
    have "foldl (apply_op (key_cmp L ?kt)) (contents db) (map Del (map (fst \<circ> fst) hits)) = map fst (filter (\<lambda>x. \<not> P x) rs)"
      using delete_hits [OF assms(10) set] assms(9) by simp
    then have "commits ?tid (mapR (Pair (scan_close sc2)) (commit_batch D ?tid ?T (map Del (map (fst \<circ> fst) hits)) w2)) contents
      (\<lambda>rs'. rs' = filter (\<lambda>x. \<not> P x) rs)"
      by (rule commit_batch_commits [where P = "\<lambda>rs'. rs' = filter (\<lambda>x. \<not> P x) rs", OF hd assms(8) _ refl])
    moreover have "mapR snd (o_end ops s') = mapR (Pair (scan_close sc2)) (commit_batch D ?tid ?T (map Del (map (fst \<circ> fst) hits)) w2)"
      unfolding i(1) by (cases "commit_batch D ?tid ?T (map Del (map (fst \<circ> fst) hits)) w2")
        (simp_all add: ops_def delete_ops_def delete_end_def scan_ops_def i(3-6))
    ultimately show ?thesis by (simp add: ops_def delete_ops_def i delete_getInfoString_def len)
  qed
  have d: "delivers_to (o_next ops False) (\<lambda>_. ()) (?dp, s) (map (\<lambda>_. ()) hits)
    (\<lambda>(dp', s2). w_handlers (snd s2) = hs \<and> de_batch dp' = map Del (map (fst \<circ> fst) hits) \<and>
      de_rows dp' = length hits \<and> de_table dp' = ?T \<and> de_tableId dp' = ?tid)"
  proof -
    have "delivers_to (o_next ?C False) (o_getResult ?C) s
      (map (view_row (getKeyCount ?T) \<circ> row_view (shape_of sc) (sc_valueTypes sc)) hits) (\<lambda>s'. w_handlers (snd s') = hs)"
      using d0 unfolding P_def [symmetric] hits_def [symmetric] by (rule delivers_to_mono) simp
    from delete_delivers [OF this keys, of L] show ?thesis
      by (simp add: ops_def delete_ops_def newLevelDBDeletePlan_def comp_def)
  qed
  have "map (\<lambda>_. ()) hits = map (\<lambda>_. ()) (filter P rs)" using len by (simp add: map_replicate_const)
  note d' = d [unfolded this]
  have "delivers_to (o_next ops False) (\<lambda>_. ()) (?dp, s) (map (\<lambda>_. ()) (filter P rs))
      (\<lambda>s'. o_getInfoString ops s' = Inr (''DELETE '' @ nat_to_string (length (filter P rs))) \<and>
        commits ?tid (mapR snd (o_end ops s')) contents (\<lambda>rs'. rs' = filter (\<lambda>x. \<not> P x) rs))"
    by (rule delivers_to_mono [OF d']) (erule last)
  then show ?thesis
    unfolding notP [symmetric] unfolding P_def
    by (intro exI [of _ used] exI [of _ "(?dp, s)"]) (rule conjI [OF us(1) conjI [OF us(2) conjI [OF b]]])
qed


section \<open>Examples\<close>

theorem delete_removes_solved_witness:
  "\<exists>sc' k1 k2 k3 s. scan_setPredicate ex_lib ex_where (newLevelDBScanPlan 0 ex_keyed) = Inr (sc', [''a=1'', ''b>m'']) \<and>
    o_begin (delete_ops ex_lib (list_db (key_cmp ex_lib ex_types)) (scan_ops 4 ex_lib (list_db (key_cmp ex_lib ex_types)))) False
      (newLevelDBDeletePlan 0 ex_keyed, sc', ex_world (ex_table k1 k2 k3)) = Inr s \<and>
    delivers_to (o_next (delete_ops ex_lib (list_db (key_cmp ex_lib ex_types)) (scan_ops 4 ex_lib (list_db (key_cmp ex_lib ex_types)))) False)
      (\<lambda>_. ()) s [()]
      (\<lambda>s'. o_getInfoString (delete_ops ex_lib (list_db (key_cmp ex_lib ex_types)) (scan_ops 4 ex_lib (list_db (key_cmp ex_lib ex_types)))) s' =
          Inr (''DELETE '' @ nat_to_string 1) \<and>
        commits 0 (mapR snd (o_end (delete_ops ex_lib (list_db (key_cmp ex_lib ex_types)) (scan_ops 4 ex_lib (list_db (key_cmp ex_lib ex_types)))) s'))
          (\<lambda>db. db) (\<lambda>rs'. rs' = [ex_entry k1 1 ''k'', ex_entry k3 2 ''a'']))"
proof -
  let ?D = "list_db (key_cmp ex_lib ex_types)" and ?sc = "newLevelDBScanPlan 0 ex_keyed"
  let ?O = "delete_ops ex_lib ?D (scan_ops 4 ex_lib ?D)"
  obtain k1 k2 k3 where rows: "table_rows ex_lib ex_types [] (ex_table k1 k2 k3)" by (rule ex_table_rows)
  let ?rs = "ex_table k1 k2 k3"
  obtain r where r: "scan_setPredicate ex_lib ex_where ?sc = Inr (?sc\<lparr>sc_range := Some r\<rparr>, [''a=1'', ''b>m''])" "exact_range r"
    by (rule ex_scan_range)
  have laws: "db_laws ?D (key_cmp ex_lib (sc_keyTypes ?sc)) (\<lambda>db. db) fst snd" unfolding ex_scan_plan by (rule list_db_laws)
  have rng: "sc_range (?sc\<lparr>sc_range := Some r\<rparr>) = Some r" by simp
  have rows': "table_rows ex_lib (sc_keyTypes ?sc) (sc_valueTypes ?sc) ?rs" unfolding ex_scan_plan by (rule rows)
  have fuel: "length ?rs < 4" "2 < (4 :: nat)" by (simp_all add: ex_table_def)
  have eq: "EqualsIgnoreCase ex_lib ROWKEY ROWKEY" by (simp add: ex_lib_def)
  obtain used s where us: "set used \<subseteq> set (key_atoms ex_keyed ex_where)" "map (\<lambda>(j, op, node, x). x) used = [''a=1'', ''b>m'']"
      "o_begin ?O False (newLevelDBDeletePlan 0 ex_keyed, ?sc\<lparr>sc_range := Some r\<rparr>, ex_world ?rs) = Inr s"
    and d: "delivers_to (o_next ?O False) (\<lambda>_. ()) s
      (map (\<lambda>_. ()) (filter (\<lambda>(e, ks, vs). \<forall>a \<in> set used. atom_true ex_lib ex_types ks a) ?rs))
      (\<lambda>s'. o_getInfoString ?O s' = Inr (''DELETE '' @
          nat_to_string (length (filter (\<lambda>(e, ks, vs). \<forall>a \<in> set used. atom_true ex_lib ex_types ks a) ?rs))) \<and>
        commits 0 (mapR snd (o_end ?O s')) (\<lambda>db. db)
          (\<lambda>rs'. rs' = filter (\<lambda>(e, ks, vs). \<not> (\<forall>a \<in> set used. atom_true ex_lib ex_types ks a)) ?rs))"
    using delete_removes_solved [OF r(1) rng r(2) ex_scan_plan(8,5) eq ex_handler laws refl rows' fuel]
    unfolding ex_scan_plan by (elim exE conjE) (rule that)
  have one: "map (\<lambda>_. ()) [ex_entry k2 1 ''z''] = [()]" "length [ex_entry k2 1 ''z''] = 1" by simp_all
  show ?thesis using r(1) us(3) d unfolding ex_used [OF us(1,2)] ex_hits one by blast
qed

text \<open>\<open>INSERT INTO t VALUES (2, 'a')\<close> into the table with the rows \<open>(1, 'k')\<close> and \<open>(1, 'z')\<close>.\<close>

definition ex_new :: const_plan where
  "ex_new = \<lparr>cp_current = 0, cp_columns = [''c1'', ''c2''],
     cp_rows = [PNode 0 NT_LIST OP_NONE [] [] [ex_int ''2'', PNode 0 NT_STR OP_NONE ''a'' ''a'' []]]\<rparr>"

theorem insert_adds_rows_witness:
  "\<exists>k1 k2 k3 is. o_begin (insert_ops ex_lib (list_db (key_cmp ex_lib ex_types)) (lift_leaf (const_ops ex_lib))) False
      (newLevelDBInsertPlan 0 ex_keyed, ex_new, ex_world [ex_entry k1 1 ''k'', ex_entry k2 1 ''z'']) = Inr is \<and>
    delivers_to (o_next (insert_ops ex_lib (list_db (key_cmp ex_lib ex_types)) (lift_leaf (const_ops ex_lib))) False) (\<lambda>_. ()) is [()]
      (\<lambda>is'. o_getInfoString (insert_ops ex_lib (list_db (key_cmp ex_lib ex_types)) (lift_leaf (const_ops ex_lib))) is' =
          Inr (''INSERT 0 '' @ nat_to_string 1) \<and>
        commits 0 (mapR snd (o_end (insert_ops ex_lib (list_db (key_cmp ex_lib ex_types)) (lift_leaf (const_ops ex_lib))) is')) (\<lambda>db. db)
          (rows_inserted ex_lib ex_types [] [ex_entry k1 1 ''k'', ex_entry k2 1 ''z''] [ex_entry k3 2 ''a'']))"
proof -
  let ?D = "list_db (key_cmp ex_lib ex_types)" and ?C = "lift_leaf (const_ops ex_lib) :: (const_plan \<times> ((byte list \<times> byte list) list, list_iter) world) plan_ops"
  let ?ip = "newLevelDBInsertPlan 0 ex_keyed"
  obtain k1 k2 k3 where "table_rows ex_lib ex_types [] (ex_table k1 k2 k3)" by (rule ex_table_rows)
  then have rows: "table_rows ex_lib ex_types [] [ex_entry k1 1 ''k'', ex_entry k2 1 ''z'']" and new: "row_ok ex_lib ex_types [] (ex_entry k3 2 ''a'')"
    by (simp_all add: ex_table_def table_rows_iff)
  let ?rs = "[ex_entry k1 1 ''k'', ex_entry k2 1 ''z'']"
  define row where "row = const_value ex_lib (PNode 0 NT_LIST OP_NONE [] [] [ex_int ''2'', PNode 0 NT_STR OP_NONE ''a'' ''a'' []])"
  have ip: "in_keyTypes ?ip = ex_types" "in_valueTypes ?ip = []" "in_table ?ip = ex_keyed" "in_tableId ?ip = 0" "in_batch ?ip = []"
    by (simp_all add: newLevelDBInsertPlan_def ex_keyed_def newColumnInfo_def ex_types_def)
  have wf: "insert_wf ?ip"
    by (simp add: insert_wf_def newLevelDBInsertPlan_def insert_slots_def ex_keyed_def newColumnInfo_def less_Suc_eq)
  have vals: "row 0 DT_INT32 = Inr (R_Int 2)" "row 1 DT_STRING = Inr (R_StringView ''a'')"
    by (simp_all add: row_def const_eval string_fromNode_def)
  have "row_values ex_keyed row [R_Int 2, R_StringView ''a''] []"
    using vals by (simp add: row_values_def ex_keyed_def newColumnInfo_def getColumnCount_def)
  then have ins: "list_all2 (inserts ex_lib ?ip) [row] [ex_entry k3 2 ''a'']"
    using new unfolding list_all2_Cons list_all2_Nil inserts_def ip by (simp add: ex_entry_def key_of_def)
  have cols: "o_getResultColumns ?C (ex_new, ex_world ?rs) = Inr (getColumnCount (in_table ?ip))"
    unfolding ip by (simp add: lift_leaf_def const_ops_def empty_ops_def ex_new_def getColumnCount_def ex_keyed_def)
  have b: "o_begin ?C False (ex_new, ex_world ?rs) = Inr (ex_new, ex_world ?rs)"
    by (simp add: lift_leaf_def const_ops_def empty_ops_def const_begin_def ex_new_def)
  have d: "delivers_to (o_next ?C False) (o_getResult ?C) (ex_new, ex_world ?rs) [row]
      (\<lambda>s2. \<exists>p w db hs. o_end ?C s2 = Inr (p, w) \<and> db = map fst ?rs \<and>
        getLevelDBHandler ?D (in_tableId ?ip) (in_table ?ip) (w_handlers w) = Inr (db, hs))"
    by (simp add: lift_leaf_def const_ops_def empty_ops_def const_next_def CheckCancellation_def ex_new_def row_def const_getResult_def
        fun_eq_iff ip getLevelDBHandler_def ex_world_def)
  have laws: "db_laws ?D (key_cmp ex_lib (in_keyTypes ?ip)) (\<lambda>db. db) fst snd" unfolding ip by (rule list_db_laws)
  have rows': "table_rows ex_lib (in_keyTypes ?ip) (in_valueTypes ?ip) ?rs" unfolding ip by (rule rows)
  have one: "map (\<lambda>_. ()) [ex_entry k3 2 ''a''] = [()]" "length [ex_entry k3 2 ''a''] = 1" by simp_all
  show ?thesis using insert_adds_rows [OF cols b d ins wf ip(5) laws rows'] unfolding ip one by blast
qed

end
