(* ===== verification/SortPlan.thy ===== *)
theory SortPlan
  imports World GroupPlans "HOL-Library.Multiset"
begin

text \<open>
  \<^verbatim>\<open>src/execution/SortPlan\<close>: \<open>begin\<close> copies the rows of the plan below into an execution buffer and
  sorts them.  \<open>std::sort\<close> is a parameter; \<open>sort_law\<close> is what the C++ standard promises of it.
\<close>

section \<open>The plan\<close>

definition SORT_BUFFER_SIZE :: nat where "SORT_BUFFER_SIZE = 64 * 1024 * 1024"

record sort_proj =
  sp_subIndex :: nat
  sp_name :: string

record sort_spec =
  ss_index :: nat
  ss_subIndex :: nat
  ss_column :: string
  ss_order :: SortOrder

record sort_plan =
  so_rows :: "data_row list"
  so_proj :: "sort_proj list"
  so_sort :: "sort_spec list"
  so_types :: "DBDataType list"
  so_current :: nat
  so_buffer :: "exec_buffer option"

definition newSortPlan :: sort_plan where
  "newSortPlan = \<lparr>so_rows = [], so_proj = [], so_sort = [], so_types = [], so_current = 0, so_buffer = None\<rparr>"

type_synonym sorter = "(data_row \<Rightarrow> data_row \<Rightarrow> bool res) \<Rightarrow> data_row list \<Rightarrow> data_row list res"

text \<open>The function \<open>comp\<close> of \<open>begin\<close>: is the first row less?\<close>

fun sort_less :: "lib \<Rightarrow> heap \<Rightarrow> DBDataType list \<Rightarrow> nat \<Rightarrow> sort_spec list \<Rightarrow> data_row \<Rightarrow> data_row \<Rightarrow> bool res" where
  "sort_less L h types projs [] row1 row2 = Inr False"
| "sort_less L h types projs (spec # specs) row1 row2 =
     (if ss_index spec \<ge> projs then Inl (Stuck ''spec.m_iIndex < m_proj.size()'')
      else bindR (eb_compare L h types row1 row2 (ss_index spec)) (\<lambda>n.
        if n = 0 then sort_less L h types projs specs row1 row2
        else Inr (if ss_order spec = Descend then n > 0 else n < 0)))"

definition sort_value :: "'s plan_ops \<Rightarrow> 's \<Rightarrow> DBDataType list \<Rightarrow> nat \<times> sort_proj \<Rightarrow> eresult res" where
  "sort_value C s types = (\<lambda>(i, proj).
     if i \<ge> length types then Inl (Stuck ''m_types[i]'')
     else bindR (o_getResult C s (sp_subIndex proj) (types ! i)) (\<lambda>r.
       if isNull r then Inl (Stuck ''!results[i].isNull()'') else Inr r))"

text \<open>The loop of \<open>begin\<close> over the rows of the plan below, one unit of fuel per row.\<close>

fun sort_fill ::
  "nat \<Rightarrow> lib \<Rightarrow> nat \<Rightarrow> ('p \<times> ('db, 'it) world) plan_ops \<Rightarrow> bool \<Rightarrow> DBDataType list \<Rightarrow> sort_proj list \<Rightarrow>
   'p \<times> ('db, 'it) world \<Rightarrow> data_row list \<Rightarrow> exec_buffer \<Rightarrow> err + ('p \<times> ('db, 'it) world) \<times> data_row list \<times> exec_buffer" where
  "sort_fill 0 L limit C bTerminated types projs s rows eb = Inl OutOfFuel"
| "sort_fill (Suc fuel) L limit C bTerminated types projs s rows eb =
     bindR (o_next C bTerminated s) (\<lambda>(more, p, w).
       if \<not> more then Inr ((p, w), rows, eb)
       else bindR (traverseR (sort_value C (p, w) types) (zip [0..<length projs] projs)) (\<lambda>results.
         case copyRow L limit results types eb (w_mem w) of
           (Inl e, _) \<Rightarrow> Inl e
         | (Inr row, eb', m) \<Rightarrow>
             sort_fill fuel L limit C bTerminated types projs (p, w\<lparr>w_mem := m\<rparr>) (rows @ [row]) eb'))"

text \<open>The destruction of a buffer gives its blocks back.\<close>

definition drop_buffer :: "exec_buffer option \<Rightarrow> ('db, 'it) world \<Rightarrow> ('db, 'it) world" where
  "drop_buffer b w = (case b of None \<Rightarrow> w
     | Some eb \<Rightarrow> w\<lparr>w_mem := (w_mem w)\<lparr>m_pool := deleteExecutionBuffer eb (m_pool (w_mem w))\<rparr>\<rparr>)"

definition sort_begin ::
  "nat \<Rightarrow> lib \<Rightarrow> nat \<Rightarrow> sorter \<Rightarrow> ('p \<times> ('db, 'it) world) plan_ops \<Rightarrow> bool \<Rightarrow> sort_plan \<times> 'p \<times> ('db, 'it) world \<Rightarrow>
   (sort_plan \<times> 'p \<times> ('db, 'it) world) res" where
  "sort_begin fuel L limit sorter C bTerminated = (\<lambda>(sp, p, w).
     bindR (o_begin C bTerminated (p, drop_buffer (so_buffer sp) w)) (\<lambda>s1.
     bindR (traverseR (\<lambda>proj. o_getResultType C s1 (sp_subIndex proj)) (so_proj sp)) (\<lambda>ts.
     let types = so_types sp @ ts in
     bindR (sort_fill fuel L limit C bTerminated types (so_proj sp) s1 (so_rows sp) (newExecutionBuffer SORT_BUFFER_SIZE))
       (\<lambda>(s2, rows, eb).
     bindR (o_end C s2) (\<lambda>(p3, w3).
     mapR (\<lambda>sorted. (sp\<lparr>so_buffer := Some eb, so_types := types, so_rows := sorted, so_current := 0\<rparr>, p3, w3))
       (sorter (sort_less L (m_heap (w_mem w3)) types (length (so_proj sp)) (so_sort sp)) rows))))))"

definition sort_end :: "sort_plan \<times> 'p \<times> ('db, 'it) world \<Rightarrow> sort_plan \<times> 'p \<times> ('db, 'it) world" where
  "sort_end = (\<lambda>(sp, p, w). (sp\<lparr>so_rows := [], so_buffer := None\<rparr>, p, drop_buffer (so_buffer sp) w))"

definition sort_next :: "bool \<Rightarrow> sort_plan \<times> 'p \<times> ('db, 'it) world \<Rightarrow> err + bool \<times> sort_plan \<times> 'p \<times> ('db, 'it) world" where
  "sort_next bTerminated = (\<lambda>(sp, s).
     bindR (CheckCancellation bTerminated) (\<lambda>_.
       if so_current sp \<ge> length (so_rows sp) then Inr (False, sp, s)
       else Inr (True, sp\<lparr>so_current := so_current sp + 1\<rparr>, s)))"

definition sort_getResult :: "sort_plan \<times> 'p \<times> ('db, 'it) world \<Rightarrow> row" where
  "sort_getResult = (\<lambda>(sp, p, w) index type.
     if so_current sp = 0 \<or> so_current sp > length (so_rows sp) then Inl (Stuck ''m_rows[m_iCurrent - 1]'')
     else eb_getResult (m_heap (w_mem w)) (so_types sp) (so_rows sp ! (so_current sp - 1)) index)"

definition sort_addProjection ::
  "'s plan_ops \<Rightarrow> pnode \<Rightarrow> sort_plan \<times> 's \<Rightarrow> err + int \<times> sort_plan \<times> 's" where
  "sort_addProjection C pNode = (\<lambda>(sp, s).
     bindR (o_addProjection C pNode s) (\<lambda>(index, s').
       if index < 0 then Inr (index, sp, s')
       else let i = index_of (\<lambda>proj. int (sp_subIndex proj) = index) (so_proj sp) in
         if i \<ge> 0 then Inr (i, sp, s')
         else Inr (int (length (so_proj sp)),
                sp\<lparr>so_proj := so_proj sp @ [\<lparr>sp_subIndex = nat index, sp_name = n_expr pNode\<rparr>]\<rparr>, s')))"

definition addSortSpecification ::
  "'s plan_ops \<Rightarrow> pnode \<Rightarrow> SortOrder \<Rightarrow> sort_plan \<times> 's \<Rightarrow> (sort_plan \<times> 's) res" where
  "addSortSpecification C pNode order sps =
     bindR (sort_addProjection C pNode sps) (\<lambda>(i, sp, s).
       if i < 0 then Inl (ParseException (''unrecognized column '' @ n_expr pNode))
       else Inr (sp\<lparr>so_sort := so_sort sp @ [\<lparr>ss_index = nat i, ss_subIndex = sp_subIndex (so_proj sp ! nat i),
                     ss_column = n_expr pNode, ss_order = order\<rparr>]\<rparr>, s))"

definition sort_ensureSortOrder :: "nat \<Rightarrow> string \<Rightarrow> SortOrder \<Rightarrow> sort_plan \<Rightarrow> bool \<times> sort_plan" where
  "sort_ensureSortOrder iSortIndex sColumn order sp =
     (if length (so_sort sp) \<le> iSortIndex then (False, sp)
      else let spec = so_sort sp ! iSortIndex in
      if sColumn \<noteq> ss_column spec then (False, sp)
      else if order = AnyOrder then (True, sp)
      else let spec' = (if ss_order spec = AnyOrder then spec\<lparr>ss_order := order\<rparr> else spec) in
        (ss_order spec' = order, sp\<lparr>so_sort := (so_sort sp)[iSortIndex := spec']\<rparr>))"

definition sort_getResultType :: "'s plan_ops \<Rightarrow> sort_plan \<times> 's \<Rightarrow> nat \<Rightarrow> DBDataType res" where
  "sort_getResultType C = (\<lambda>(sp, s) index.
     if index < length (so_proj sp) then o_getResultType C s (sp_subIndex (so_proj sp ! index))
     else Inl (Stuck ''m_proj[index]''))"

definition spec_string :: "nat \<Rightarrow> nat \<times> sort_spec \<Rightarrow> string" where
  "spec_string n = (\<lambda>(i, spec).
     ss_column spec @ '' '' @ (if ss_order spec = Descend then ''descend'' else ''ascend'') @ (if i = n - 1 then '') '' else '', ''))"

definition sort_explain :: "'s plan_ops \<Rightarrow> nat \<Rightarrow> sort_plan \<times> 's \<Rightarrow> err + string list \<times> sort_plan \<times> 's" where
  "sort_explain C depth = (\<lambda>(sp, s).
     mapR (\<lambda>(rows, s').
         ((tabs depth @ ''Sort('' @ concat (map (spec_string (length (so_sort sp))) (zip [0..<length (so_sort sp)] (so_sort sp))) @
           ''project:'' @ str_join '', '' (map sp_name (so_proj sp))) # rows, sp, s'))
       (o_explain C depth s))"

definition sort_ops ::
  "nat \<Rightarrow> lib \<Rightarrow> nat \<Rightarrow> sorter \<Rightarrow> ('p \<times> ('db, 'it) world) plan_ops \<Rightarrow> (sort_plan \<times> 'p \<times> ('db, 'it) world) plan_ops" where
  "sort_ops fuel L limit sorter C = (single_ops C)\<lparr>
     o_explain := sort_explain C,
     o_begin := sort_begin fuel L limit sorter C,
     o_next := sort_next,
     o_end := (\<lambda>s. Inr (sort_end s)),
     o_getResultColumns := (\<lambda>(sp, s). Inr (length (so_proj sp))),
     o_getProjectionName := (\<lambda>(sp, s) index. if index < length (so_proj sp) then Inr (sp_name (so_proj sp ! index))
                              else Inl (Stuck ''m_proj[index]'')),
     o_getResultType := sort_getResultType C,
     o_addProjection := sort_addProjection C,
     o_ensureSortOrder := (\<lambda>iSortIndex sColumn order (sp, s).
       case sort_ensureSortOrder iSortIndex sColumn order sp of (b, sp') \<Rightarrow> Inr (b, sp', s)),
     o_getResult := sort_getResult\<rparr>"

section \<open>The order of the rows\<close>

fun spec_cmp :: "DBDataType list \<Rightarrow> sort_spec list \<Rightarrow> eresult list \<Rightarrow> eresult list \<Rightarrow> int" where
  "spec_cmp types [] a b = 0"
| "spec_cmp types (spec # specs) a b =
     (let n = type_cmp (types ! ss_index spec) (a ! ss_index spec) (b ! ss_index spec) in
      if n = 0 then spec_cmp types specs a b else if ss_order spec = Descend then - n else n)"

text \<open>What \<open>std::sort\<close> promises for a comparison that is a strict weak order on the elements.\<close>

definition sort_law :: "sorter \<Rightarrow> bool" where
  "sort_law sorter \<longleftrightarrow> (\<forall>comp f rows. three_way f (\<lambda>x. x \<in> set rows) \<longrightarrow>
     (\<forall>x \<in> set rows. \<forall>y \<in> set rows. comp x y = Inr (f x y < (0 :: int))) \<longrightarrow>
     (\<exists>ys. sorter comp rows = Inr ys \<and> mset ys = mset rows \<and> sorted_wrt (\<lambda>x y. f x y \<le> 0) ys))"

text \<open>Insertion sort obeys the law.\<close>

fun insert_sorted :: "('a \<Rightarrow> 'a \<Rightarrow> 'e + bool) \<Rightarrow> 'a \<Rightarrow> 'a list \<Rightarrow> 'e + 'a list" where
  "insert_sorted lt x [] = Inr [x]"
| "insert_sorted lt x (y # ys) = bindR (lt y x) (\<lambda>b. if b then mapR ((#) y) (insert_sorted lt x ys) else Inr (x # y # ys))"

fun insertion_sort :: "('a \<Rightarrow> 'a \<Rightarrow> 'e + bool) \<Rightarrow> 'a list \<Rightarrow> 'e + 'a list" where
  "insertion_sort lt [] = Inr []"
| "insertion_sort lt (x # xs) = bindR (insertion_sort lt xs) (insert_sorted lt x)"

lemma insert_sorted_ok:
  assumes "three_way f ok" "ok x" "\<forall>y \<in> set ys. ok y" "\<forall>y \<in> set ys. lt y x = Inr (f y x < (0 :: int))"
    and "sorted_wrt (\<lambda>x y. f x y \<le> 0) ys"
  shows "\<exists>zs. insert_sorted lt x ys = Inr zs \<and> mset zs = add_mset x (mset ys) \<and> sorted_wrt (\<lambda>x y. f x y \<le> 0) zs"
  using assms(3-5)
proof (induction ys)
  case (Cons y ys)
  show ?case
  proof (cases "f y x < 0")
    case True
    from Cons obtain zs where zs: "insert_sorted lt x ys = Inr zs" "mset zs = add_mset x (mset ys)" "sorted_wrt (\<lambda>x y. f x y \<le> 0) zs" by auto
    have "set zs = insert x (set ys)" using arg_cong [OF zs(2), of set_mset] by simp
    then show ?thesis using zs True Cons.prems by auto
  next
    case False
    have xy: "f x y \<le> 0" using three_way.cmp_antisym [OF assms(1), of y x] False Cons.prems(1) assms(2) by simp
    have "f x z \<le> 0" if "z \<in> set ys" for z
      using three_way.cmp_trans [OF assms(1,2), of y z] xy Cons.prems that by auto
    then show ?thesis using False xy Cons.prems by auto
  qed
qed simp

lemma insertion_sort_law: "sort_law insertion_sort"
  unfolding sort_law_def
proof (intro allI impI)
  fix lt :: "data_row \<Rightarrow> data_row \<Rightarrow> bool res" and f :: "data_row \<Rightarrow> data_row \<Rightarrow> int" and rows
  assume f: "three_way f (\<lambda>x. x \<in> set rows)" and lt: "\<forall>x \<in> set rows. \<forall>y \<in> set rows. lt x y = Inr (f x y < 0)"
  have "\<exists>ys. insertion_sort lt xs = Inr ys \<and> mset ys = mset xs \<and> sorted_wrt (\<lambda>x y. f x y \<le> 0) ys" if "set xs \<subseteq> set rows" for xs
    using that
  proof (induction xs)
    case (Cons x xs)
    then obtain ys where ys: "insertion_sort lt xs = Inr ys" "mset ys = mset xs" "sorted_wrt (\<lambda>x y. f x y \<le> 0) ys" by auto
    then have "set ys = set xs" using mset_eq_setD by blast
    then have "\<exists>zs. insert_sorted lt x ys = Inr zs \<and> mset zs = add_mset x (mset ys) \<and> sorted_wrt (\<lambda>x y. f x y \<le> 0) zs"
      using Cons.prems lt by (intro insert_sorted_ok [OF f _ _ _ ys(3)]) auto
    then show ?case using ys by auto
  qed simp
  then show "\<exists>ys. insertion_sort lt rows = Inr ys \<and> mset ys = mset rows \<and> sorted_wrt (\<lambda>x y. f x y \<le> 0) ys" by simp
qed

section \<open>The rows of a sort\<close>

lemma row_getResults_nth:
  "row_getResults types bs = Inr vs \<Longrightarrow> i < length types \<Longrightarrow> row_getResult types bs i = Inr (vs ! i)"
proof (induction types arbitrary: bs vs i)
  case (Cons t ts)
  then show ?case by (cases i) (auto simp: with_handler_def bindR_eq_Inr mapR_eq_Inr split: option.splits)
qed simp

lemma row_getResults_length: "row_getResults types bs = Inr vs \<Longrightarrow> length vs = length types"
  by (induction types arbitrary: bs vs) (auto simp: with_handler_def bindR_eq_Inr mapR_eq_Inr split: option.splits)

text \<open>What a row below reads as, and what the buffer then keeps of it.\<close>

definition sort_reads :: "DBDataType list \<Rightarrow> sort_proj list \<Rightarrow> row \<Rightarrow> eresult list \<Rightarrow> bool" where
  "sort_reads types projs r vs \<longleftrightarrow> length types = length projs \<and> list_all2 column_ok types vs \<and>
     (\<forall>i < length projs. r (sp_subIndex (projs ! i)) (types ! i) = Inr (vs ! i))"

definition keeps_values :: "DBDataType list \<Rightarrow> heap \<Rightarrow> data_row \<Rightarrow> eresult list \<Rightarrow> bool" where
  "keeps_values types h r vs \<longleftrightarrow> list_all2 type_comparable types vs \<and> row_getResults types (row_bytes h r) = Inr vs"

lemma column_ok_not_null: "column_ok t v \<Longrightarrow> \<not> isNull v"
  by (auto simp: column_ok_def value_ok_def isNull_def split: option.splits handler.splits eresult.splits)

lemma sort_values:
  assumes "sort_reads types projs (o_getResult C s) vs"
  shows "traverseR (sort_value C s types) (zip [0..<length projs] projs) = Inr vs"
  unfolding traverseR_Inr_iff
proof (intro list_all2_all_nthI)
  have len: "length types = length projs" "length vs = length projs"
    using assms by (auto simp: sort_reads_def dest: list_all2_lengthD)
  then show "length (zip [0..<length projs] projs) = length vs" by simp
  fix i assume "i < length (zip [0..<length projs] projs)"
  then show "sort_value C s types (zip [0..<length projs] projs ! i) = Inr (vs ! i)"
    using assms len by (auto simp: sort_reads_def sort_value_def list_all2_conv_all_nth dest: column_ok_not_null)
qed

text \<open>The only errors of a row that can be stored are those of the memory.\<close>

definition memory_error :: "err \<Rightarrow> bool" where
  "memory_error e \<longleftrightarrow> e = ExecutionException ''request buffer too large'' \<or> e = ExecutionException ''not enough buffer'' \<or>
     e = ExecutionException ''Not enough execution buffer''"

lemma copyRow_error:
  assumes "copyRow L limit results types eb m = (Inl e, eb', m')" "list_all2 column_ok types results" "eb_inv (m_pool m) eb rs"
  shows "memory_error e"
proof -
  from row_copy_ok [OF column_ok_rows(1) [OF assms(2)], of L] obtain bs where
    bs: "row_copy L types results = Inr bs" "row_computeSize L types results = Inr (length bs)" .
  with assms(1) obtain p' where d: "doAlloc limit (length bs) eb (m_pool m) = (Inl e, eb', p')"
    by (auto simp: copyRow_def split: prod.splits sum.splits)
  have "eb_current eb \<le> length (eb_blocks eb)" "eb_blocks eb = [] \<longrightarrow> eb_blockUsed eb = 0"
    "eb_blocks eb \<noteq> [] \<longrightarrow> Suc (eb_current eb) = length (eb_blocks eb)" "eb_blocks eb = [] \<longrightarrow> eb_current eb = 0"
    using assms(3) by (auto simp: eb_inv_def split: if_splits)
  with d show ?thesis
    by (auto simp: doAlloc_def Let_def memory_error_def split: if_splits option.splits prod.splits)
qed

lemma keeps_values_heap:
  "list_all2 (keeps_values types h) rows vals \<Longrightarrow> (\<And>r. r \<in> set rows \<Longrightarrow> row_bytes h' r = row_bytes h r) \<Longrightarrow>
    list_all2 (keeps_values types h') rows vals"
  by (auto simp: keeps_values_def list_all2_conv_all_nth)


text \<open>
  The state while the rows are copied: the buffer holds the values, apart from the blocks \<open>own\<close>
  of the plan below.
\<close>

definition filled :: "nat \<Rightarrow> nat set \<Rightarrow> DBDataType list \<Rightarrow> memory \<Rightarrow> exec_buffer \<Rightarrow> data_row list \<Rightarrow> eresult list list \<Rightarrow> bool" where
  "filled limit own types m eb rows vals \<longleftrightarrow> bp_inv limit (m_pool m) \<and> own \<subseteq> bp_held (m_pool m) \<and>
     own \<inter> set (eb_blocks eb) = {} \<and> eb_inv (m_pool m) eb (rev rows) \<and> list_all2 (keeps_values types (m_heap m)) rows vals"

lemma filled_copy:
  assumes "filled limit own types m eb rows vals" "list_all2 column_ok types vs"
    and "copyRow L limit vs types eb m = (Inr row, eb', m')"
  shows "filled limit own types m' eb' (rows @ [row]) (vals @ [map2 stored_column types vs]) \<and> mem_keeps own m m'"
proof -
  note f = assms(1) [unfolded filled_def]
  have inv: "eb_inv (m_pool m) eb (rev rows)" "bp_inv limit (m_pool m)" using f by auto
  note k = copyRow_keeps [OF assms(3,2) inv]
  obtain bs p' where
    d: "doAlloc limit (length bs) eb (m_pool m) = (Inr (dr_block row, dr_offset row), eb', p')"
    and m': "m' = m\<lparr>m_pool := p', m_heap := write_bytes (dr_block row) (dr_offset row) bs (m_heap m)\<rparr>"
    by (rule copyRow_InrE [OF assms(3,2)])
  have held: "bp_held (m_pool m) \<subseteq> bp_held (m_pool m')" using doAlloc_inv [OF d inv] m' by simp
  have "own \<subseteq> bp_held (m_pool m) - set (eb_blocks eb)" using f by auto
  with k have own: "\<forall>b \<in> own. m_heap m' b = m_heap m b \<and> b \<notin> set (eb_blocks eb')" by auto
  have "row_bytes (m_heap m') r = row_bytes (m_heap m) r" if "r \<in> set rows" for r using k that by simp
  with f have "list_all2 (keeps_values types (m_heap m')) rows vals"
    using keeps_values_heap [of types "m_heap m" rows vals "m_heap m'"] by blast
  moreover have "keeps_values types (m_heap m') row (map2 stored_column types vs)"
    using k column_ok_rows(2) [OF assms(2)] by (simp add: keeps_values_def)
  ultimately have "list_all2 (keeps_values types (m_heap m')) (rows @ [row]) (vals @ [map2 stored_column types vs])"
    by (intro list_all2_appendI) simp_all
  then show ?thesis using k held own f unfolding filled_def mem_keeps_def by auto
qed

lemma sort_fill_rows:
  assumes "delivers_amid own (o_next C t) (o_getResult C) (p, w) rs Q"
    and "list_all2 (sort_reads types projs) rs vss" "filled limit own types m eb rows vals" "mem_keeps own (w_mem w) m"
    and "length rs < fuel"
  shows "(\<exists>e. sort_fill fuel L limit C t types projs (p, w\<lparr>w_mem := m\<rparr>) rows eb = Inl e \<and> memory_error e) \<or>
    (\<exists>s2 rows' eb'. sort_fill fuel L limit C t types projs (p, w\<lparr>w_mem := m\<rparr>) rows eb = Inr (s2, rows', eb') \<and> Q s2 \<and>
       filled limit own types (w_mem (snd s2)) eb' rows' (vals @ map (map2 stored_column types) vss))"
  using assms
proof (induction rs arbitrary: p w vss m eb rows vals fuel)
  case Nil
  then obtain n where n: "fuel = Suc n" by (cases fuel) auto
  from Nil.prems(1,4) obtain p' w' where s': "o_next C t (p, w\<lparr>w_mem := m\<rparr>) = Inr (False, p', w')" "w_mem w' = m" "Q (p', w')"
    by fastforce
  then show ?case using Nil.prems(2,3) by (simp add: n)
next
  case (Cons r rs)
  then obtain n where n: "fuel = Suc n" "length rs < n" by (cases fuel) auto
  from Cons.prems(2) obtain vs vss' where vss: "vss = vs # vss'" "sort_reads types projs r vs" "list_all2 (sort_reads types projs) rs vss'"
    by (auto simp: list_all2_Cons1)
  from Cons.prems(1,4) obtain p' w' where s': "o_next C t (p, w\<lparr>w_mem := m\<rparr>) = Inr (True, p', w')" "w_mem w' = m"
    "o_getResult C (p', w') = r" "delivers_amid own (o_next C t) (o_getResult C) (p', w') rs Q" by fastforce
  have vals: "traverseR (sort_value C (p', w') types) (zip [0..<length projs] projs) = Inr vs"
    using vss(2) s'(3) by (intro sort_values) simp
  have ok: "list_all2 column_ok types vs" using vss(2) by (simp add: sort_reads_def)
  obtain res eb' m' where c: "copyRow L limit vs types eb m = (res, eb', m')" by (metis prod_cases3)
  show ?case
  proof (cases res)
    case (Inl e)
    have "memory_error e" using Cons.prems(3) by (intro copyRow_error [OF c [unfolded Inl] ok, of "rev rows"]) (simp add: filled_def)
    then show ?thesis using s'(1,2) vals c Inl by (simp add: n)
  next
    case (Inr row)
    from filled_copy [OF Cons.prems(3) ok c [unfolded Inr]] have
      f: "filled limit own types m' eb' (rows @ [row]) (vals @ [map2 stored_column types vs])" "mem_keeps own (w_mem w') m'"
      by (simp_all add: s'(2))
    have "sort_fill fuel L limit C t types projs (p, w\<lparr>w_mem := m\<rparr>) rows eb =
      sort_fill n L limit C t types projs (p', w'\<lparr>w_mem := m'\<rparr>) (rows @ [row]) eb'"
      using s'(1,2) vals c Inr by (simp add: n)
    then show ?thesis using Cons.IH [OF s'(4) vss(3) f n(2)] by (simp add: vss(1))
  qed
qed


section \<open>The order of a sort\<close>

lemma three_way_flip: "three_way f ok \<Longrightarrow> three_way (\<lambda>x y. - f x y) ok"
  by unfold_locales
    (auto simp: three_way.cmp_refl, metis minus_equation_iff three_way.cmp_antisym,
      smt (verit) three_way.cmp_antisym three_way.cmp_trans)

lemma three_way_on:
  "three_way f ok \<Longrightarrow> (\<And>x. ok' x \<Longrightarrow> ok (g x)) \<Longrightarrow> three_way (\<lambda>x y. f (g x) (g y)) ok'"
  by unfold_locales (blast intro: three_way.cmp_refl three_way.cmp_antisym three_way.cmp_trans)+

definition spec_column :: "DBDataType list \<Rightarrow> sort_spec \<Rightarrow> eresult \<Rightarrow> eresult \<Rightarrow> int" where
  "spec_column types spec x y =
     (let n = type_cmp (types ! ss_index spec) x y in if ss_order spec = Descend then - n else n)"

lemma three_way_spec: "three_way (spec_column types spec) (type_comparable (types ! ss_index spec))"
  using three_way_type [of "types ! ss_index spec"] three_way_flip [OF three_way_type [of "types ! ss_index spec"]]
  by (cases "ss_order spec = Descend") (simp_all add: spec_column_def [abs_def] Let_def)

lemma spec_cmp_lex:
  "spec_cmp types specs a b = lex_compare (spec_column types) specs (map (\<lambda>s. a ! ss_index s) specs) (map (\<lambda>s. b ! ss_index s) specs)"
  by (induction specs) (auto simp: Let_def spec_column_def)

lemma spec_cmp_three_way:
  assumes "\<forall>spec \<in> set specs. ss_index spec < length types"
  shows "three_way (spec_cmp types specs) (list_all2 type_comparable types)"
proof -
  have "list_all2 (\<lambda>spec. type_comparable (types ! ss_index spec)) specs (map (\<lambda>s. a ! ss_index s) specs)"
    if "list_all2 type_comparable types a" for a
    using that assms by (auto simp: list_all2_conv_all_nth)
  then show ?thesis
    unfolding spec_cmp_lex [abs_def] by (intro three_way_on [OF three_way_lex [OF three_way_spec]])
qed

lemma eb_compare_values:
  assumes "keeps_values types h x a" "keeps_values types h y b" "i < length types"
  shows "eb_compare L h types x y i = Inr (type_cmp (types ! i) (a ! i) (b ! i))"
proof -
  from assms have "type_comparable (types ! i) (a ! i)" "type_comparable (types ! i) (b ! i)"
    by (auto simp: keeps_values_def list_all2_conv_all_nth)
  then obtain hd where "getHandler (types ! i) = Some hd" "comparable hd (a ! i)" "comparable hd (b ! i)"
    by (auto simp: type_comparable_def split: option.splits)
  then have "r_compare L (a ! i) (b ! i) (types ! i) = Inr (type_cmp (types ! i) (a ! i) (b ! i))"
    by (simp add: r_compare_def with_handler_def type_cmp_def h_compare_cmp_val)
  moreover have "row_getResult types (row_bytes h x) i = Inr (a ! i)" "row_getResult types (row_bytes h y) i = Inr (b ! i)"
    using assms by (auto simp: keeps_values_def intro: row_getResults_nth)
  ultimately show ?thesis by (simp add: eb_compare_def row_compareAt_def)
qed

lemma sort_less_values:
  assumes "keeps_values types h x a" "keeps_values types h y b" "\<forall>spec \<in> set specs. ss_index spec < length types"
  shows "sort_less L h types (length types) specs x y = Inr (spec_cmp types specs a b < 0)"
  using assms(3)
  by (induction specs) (auto simp: eb_compare_values [OF assms(1,2)] Let_def)

text \<open>Sorting the row pointers sorts the values.\<close>

definition row_values_of :: "DBDataType list \<Rightarrow> heap \<Rightarrow> data_row \<Rightarrow> eresult list" where
  "row_values_of types h r = (case row_getResults types (row_bytes h r) of Inr vs \<Rightarrow> vs | Inl _ \<Rightarrow> [])"

lemma keeps_values_of: "keeps_values types h r vs \<Longrightarrow> row_values_of types h r = vs"
  by (simp add: keeps_values_def row_values_of_def)

lemma sorter_sorts:
  assumes "sort_law sorter" "list_all2 (keeps_values types h) rows vals" "\<forall>spec \<in> set specs. ss_index spec < length types"
  obtains sorted out where "sorter (sort_less L h types (length types) specs) rows = Inr sorted" "set sorted = set rows"
    "list_all2 (keeps_values types h) sorted out" "mset out = mset vals" "sorted_wrt (\<lambda>a b. spec_cmp types specs a b \<le> 0) out"
proof -
  let ?v = "row_values_of types h"
  have kv: "keeps_values types h r (?v r)" if "r \<in> set rows" for r
    using list_all2_in1 [OF assms(2) that] keeps_values_of by metis
  have vals: "vals = map ?v rows"
    using assms(2) by (auto simp: list_all2_conv_all_nth keeps_values_of intro!: nth_equalityI)
  have tw: "three_way (\<lambda>x y. spec_cmp types specs (?v x) (?v y)) (\<lambda>x. x \<in> set rows)"
    by (rule three_way_on [OF spec_cmp_three_way [OF assms(3)]]) (use kv in \<open>simp add: keeps_values_def\<close>)
  have less: "\<forall>x \<in> set rows. \<forall>y \<in> set rows. sort_less L h types (length types) specs x y = Inr (spec_cmp types specs (?v x) (?v y) < 0)"
    using kv by (auto intro!: sort_less_values assms(3))
  from assms(1) [unfolded sort_law_def, THEN spec, THEN spec, THEN spec, THEN mp, OF tw, THEN mp, OF less] obtain ys where
    ys: "sorter (sort_less L h types (length types) specs) rows = Inr ys" "mset ys = mset rows"
      "sorted_wrt (\<lambda>x y. spec_cmp types specs (?v x) (?v y) \<le> 0) ys" by blast
  have "set ys = set rows" using ys(2) by (rule mset_eq_setD)
  moreover have "list_all2 (keeps_values types h) ys (map ?v ys)"
    using kv calculation by (auto simp: list_all2_conv_all_nth) (metis nth_mem)
  moreover have "mset (map ?v ys) = mset vals" by (simp add: vals ys(2))
  moreover have "sorted_wrt (\<lambda>a b. spec_cmp types specs a b \<le> 0) (map ?v ys)" using ys(3) by (simp add: sorted_wrt_map)
  ultimately show ?thesis using ys(1) that by blast
qed


section \<open>Rows in order\<close>

lemma freeAll_held:
  assumes "set bs \<subseteq> bp_held p" "distinct bs"
  shows "bp_held p - set bs \<subseteq> bp_held (bp_freeAll (map Some bs) p)"
    "bp_inv limit p \<Longrightarrow> bp_inv limit (bp_freeAll (map Some bs) p)"
proof -
  show "bp_held p - set bs \<subseteq> bp_held (bp_freeAll (map Some bs) p)"
  proof (induction bs arbitrary: p)
    case (Cons b bs)
    have "bp_held p - set (b # bs) \<subseteq> bp_held (bp_free (Some b) p) - set bs" by (auto simp: bp_free_def bp_held_def)
    then show ?case using Cons.IH [of "bp_free (Some b) p"] by (auto simp: bp_freeAll_def)
  qed (simp add: bp_freeAll_def)
  show "bp_inv limit (bp_freeAll (map Some bs) p)" if "bp_inv limit p"
    using pool.release_all [OF that assms] by (simp add: bp_freeAll_def)
qed

lemma drop_buffer_releases:
  assumes "set (eb_blocks eb) \<subseteq> bp_held (m_pool (w_mem w))" "distinct (eb_blocks eb)"
  shows "mem_releases limit (set (eb_blocks eb)) (w_mem w) (w_mem (drop_buffer (Some eb) w))"
  using freeAll_held [OF assms] by (simp add: mem_releases_def drop_buffer_def deleteExecutionBuffer_def)

text \<open>The state of a plan and its child, paired, beside the shared world.\<close>

definition paired :: "('a \<times> 'p \<times> 'w \<Rightarrow> err + 'b \<times> 'a \<times> 'p \<times> 'w) \<Rightarrow> ('a \<times> 'p) \<times> 'w \<Rightarrow> err + 'b \<times> ('a \<times> 'p) \<times> 'w" where
  "paired f = (\<lambda>((a, p), w). mapR (\<lambda>(b, a', p', w'). (b, (a', p'), w')) (f (a, p, w)))"

definition sort_row :: "DBDataType list \<Rightarrow> (sort_plan \<times> 'p) \<times> ('db, 'it) world \<Rightarrow> eresult res list" where
  "sort_row types = (\<lambda>((sp, p), w). map (\<lambda>i. sort_getResult (sp, p, w) i (types ! i)) [0..<length types])"

lemma sort_delivers:
  assumes "list_all2 (keeps_values types (m_heap (w_mem w))) (so_rows sp) out" "so_types sp = types"
    and "so_buffer sp = Some eb" "\<forall>r \<in> set (so_rows sp). dr_block r \<in> set (eb_blocks eb)" "drop (so_current sp) out = vss"
  shows "delivers_amid (set (eb_blocks eb)) (paired (sort_next False)) (sort_row types) ((sp, p), w) (map (map Inr) vss)
    (\<lambda>s. set (eb_blocks eb) \<subseteq> bp_held (m_pool (w_mem (snd s))) \<and> so_buffer (fst (fst s)) = Some eb)"
  using assms
proof (induction vss arbitrary: sp w)
  case Nil
  then have "so_current sp \<ge> length (so_rows sp)" by (simp add: list_all2_lengthD)
  then show ?case using Nil.prems(3) by (simp add: paired_def sort_next_def CheckCancellation_def mem_keeps_def)
next
  case (Cons vs vss)
  then have lt: "so_current sp < length out" by (cases "so_current sp < length out") simp_all
  then have vs: "out ! so_current sp = vs" "drop (Suc (so_current sp)) out = vss"
    using Cons.prems(5) Cons_nth_drop_Suc [OF lt] by simp_all
  have len: "so_current sp < length (so_rows sp)" using lt Cons.prems(1) by (simp add: list_all2_lengthD)
  let ?sp = "sp\<lparr>so_current := Suc (so_current sp)\<rparr>" and ?row = "so_rows sp ! so_current sp"
  have "\<exists>s'. paired (sort_next False) ((sp, p), w\<lparr>w_mem := m\<rparr>) = Inr (True, s') \<and> w_mem (snd s') = m \<and>
      sort_row types s' = map Inr vs \<and> delivers_amid (set (eb_blocks eb)) (paired (sort_next False)) (sort_row types) s' (map (map Inr) vss)
        (\<lambda>s. set (eb_blocks eb) \<subseteq> bp_held (m_pool (w_mem (snd s))) \<and> so_buffer (fst (fst s)) = Some eb)"
    if m: "mem_keeps (set (eb_blocks eb)) (w_mem w) m" for m
  proof -
    have bytes: "row_bytes (m_heap m) r = row_bytes (m_heap (w_mem w)) r" if "r \<in> set (so_rows sp)" for r
      using m Cons.prems(4) that by (simp add: mem_keeps_def row_bytes_def)
    have all: "list_all2 (keeps_values types (m_heap m)) (so_rows sp) out"
      by (rule keeps_values_heap [OF Cons.prems(1) bytes])
    then have kv: "keeps_values types (m_heap m) ?row vs" using len vs(1) by (auto simp: list_all2_conv_all_nth)
    then have "sort_row types ((?sp, p), w\<lparr>w_mem := m\<rparr>) = map Inr vs"
      using len Cons.prems(2) row_getResults_nth row_getResults_length
      by (fastforce simp: sort_row_def sort_getResult_def eb_getResult_def keeps_values_def intro!: nth_equalityI)
    moreover have "paired (sort_next False) ((sp, p), w\<lparr>w_mem := m\<rparr>) = Inr (True, (?sp, p), w\<lparr>w_mem := m\<rparr>)"
      using len by (simp add: paired_def sort_next_def CheckCancellation_def)
    moreover have "delivers_amid (set (eb_blocks eb)) (paired (sort_next False)) (sort_row types) ((?sp, p), w\<lparr>w_mem := m\<rparr>) (map (map Inr) vss)
        (\<lambda>s. set (eb_blocks eb) \<subseteq> bp_held (m_pool (w_mem (snd s))) \<and> so_buffer (fst (fst s)) = Some eb)"
      using Cons.prems vs(2) all by (intro Cons.IH) simp_all
    ultimately show ?thesis by simp
  qed
  then show ?case by simp
qed


text \<open>
  C12. \<open>SortPlan\<close>: \<open>begin\<close> reads every row of the plan below and either fails for want of memory or
  leaves a plan that delivers the stored values of these rows, each exactly once, in an order no
  column of the sort specifications contradicts, whatever happens to other plans' memory between
  two calls of \<open>next\<close>; and its \<open>end\<close> gives back exactly the blocks that hold them.
\<close>

theorem sort_orders_rows:
  fixes s1 :: "'p \<times> ('db, 'it) world"
  assumes "o_begin C False (p, w) = Inr s1"
    and "traverseR (\<lambda>proj. o_getResultType C s1 (sp_subIndex proj)) projs = Inr types"
    and "delivers_amid own (o_next C False) (o_getResult C) s1 rows
      (\<lambda>s2. \<exists>p3 w3. o_end C s2 = Inr (p3, w3) \<and> mem_releases limit own (w_mem (snd s2)) (w_mem w3))"
    and "list_all2 (sort_reads types projs) rows vss" "length rows < fuel"
    and "bp_inv limit (m_pool (w_mem (snd s1)))" "own \<subseteq> bp_held (m_pool (w_mem (snd s1)))"
    and "\<forall>spec \<in> set specs. ss_index spec < length projs" "sort_law sorter"
    and "ops = sort_ops fuel L limit sorter C"
  shows "(\<exists>e. o_begin ops False (newSortPlan\<lparr>so_proj := projs, so_sort := specs\<rparr>, p, w) = Inl e \<and> memory_error e) \<or>
    (\<exists>sp p' w' mine out. o_begin ops False (newSortPlan\<lparr>so_proj := projs, so_sort := specs\<rparr>, p, w) = Inr (sp, p', w') \<and>
      mset out = mset (map (map2 stored_column types) vss) \<and> sorted_wrt (\<lambda>a b. spec_cmp types specs a b \<le> 0) out \<and>
      mine \<subseteq> bp_held (m_pool (w_mem w')) \<and>
      delivers_amid mine (paired (o_next ops False)) (sort_row types) ((sp, p'), w') (map (map Inr) out)
        (\<lambda>s. \<exists>se. o_end ops (fst (fst s), snd (fst s), snd s) = Inr se \<and> mem_releases limit mine (w_mem (snd s)) (w_mem (snd (snd se)))))"
proof -
  let ?sp = "newSortPlan\<lparr>so_proj := projs, so_sort := specs\<rparr>"
  obtain p1 w1 where s1: "s1 = (p1, w1)" by (cases s1)
  let ?Q = "\<lambda>s2. \<exists>p3 w3. o_end C s2 = Inr (p3, w3) \<and> mem_releases limit own (w_mem (snd s2)) (w_mem w3)"
  let ?fill = "sort_fill fuel L limit C False types projs (p1, w1) [] (newExecutionBuffer SORT_BUFFER_SIZE)"
  have b0: "o_begin ops False (?sp, p, w) = bindR ?fill (\<lambda>(s2, rows, eb). bindR (o_end C s2) (\<lambda>(p3, w3).
      mapR (\<lambda>sorted. (?sp\<lparr>so_buffer := Some eb, so_types := types, so_rows := sorted, so_current := 0\<rparr>, p3, w3))
        (sorter (sort_less L (m_heap (w_mem w3)) types (length projs) specs) rows)))"
    using assms(1,2) by (simp add: assms(10) sort_ops_def sort_begin_def newSortPlan_def drop_buffer_def s1)
  have "filled limit own types (w_mem w1) (newExecutionBuffer SORT_BUFFER_SIZE) [] []"
    using assms(6,7) newExecutionBuffer_inv by (simp add: filled_def s1 newExecutionBuffer_def)
  from sort_fill_rows [OF assms(3) [unfolded s1] assms(4) this mem_keeps_refl assms(5)] assms(7)
  have "(\<exists>e. ?fill = Inl e \<and> memory_error e) \<or> (\<exists>s2 rows' eb. ?fill = Inr (s2, rows', eb) \<and> ?Q s2 \<and>
      filled limit own types (w_mem (snd s2)) eb rows' (map (map2 stored_column types) vss))" by (simp add: s1)
  then show ?thesis
  proof (elim disjE exE conjE)
    fix e
    assume "?fill = Inl e" "memory_error e"
    then show ?thesis using b0 by simp
  next
    fix s2 rows' eb p3 w3
    assume fill: "?fill = Inr (s2, rows', eb)" and f: "filled limit own types (w_mem (snd s2)) eb rows' (map (map2 stored_column types) vss)"
      and e: "o_end C s2 = Inr (p3, w3)" and rel: "mem_releases limit own (w_mem (snd s2)) (w_mem w3)"
    note f = f [unfolded filled_def]
    let ?mine = "set (eb_blocks eb)" and ?h = "m_heap (w_mem w3)"
    have inv: "?mine \<subseteq> bp_held (m_pool (w_mem (snd s2))) - own" "distinct (eb_blocks eb)" "\<forall>r \<in> set rows'. dr_block r \<in> ?mine"
      using f by (auto simp: eb_inv_def row_inside_def)
    then have kept: "?mine \<subseteq> bp_held (m_pool (w_mem w3))" "\<forall>b \<in> ?mine. ?h b = m_heap (w_mem (snd s2)) b"
      using rel by (auto simp: mem_releases_def)
    have bytes: "row_bytes ?h r = row_bytes (m_heap (w_mem (snd s2))) r" if "r \<in> set rows'" for r
      using kept(2) inv(3) that by (simp add: row_bytes_def)
    have "list_all2 (keeps_values types (m_heap (w_mem (snd s2)))) rows' (map (map2 stored_column types) vss)"
      using f by blast
    from keeps_values_heap [OF this bytes]
    have kv: "list_all2 (keeps_values types ?h) rows' (map (map2 stored_column types) vss)" .
    have len: "length types = length projs" using traverseR_length [OF assms(2)] .
    have idx: "\<forall>spec \<in> set specs. ss_index spec < length types" using assms(8) len by simp
    obtain sorted out where
      so: "sorter (sort_less L ?h types (length types) specs) rows' = Inr sorted" "set sorted = set rows'"
        "list_all2 (keeps_values types ?h) sorted out" "mset out = mset (map (map2 stored_column types) vss)"
        "sorted_wrt (\<lambda>a b. spec_cmp types specs a b \<le> 0) out" by (rule sorter_sorts [OF assms(9) kv idx, of L])
    let ?sp' = "?sp\<lparr>so_buffer := Some eb, so_types := types, so_rows := sorted, so_current := 0\<rparr>"
    have b: "o_begin ops False (?sp, p, w) = Inr (?sp', p3, w3)" using b0 fill e so(1) len by simp
    have "delivers_amid ?mine (paired (sort_next False)) (sort_row types) ((?sp', p3), w3) (map (map Inr) out)
        (\<lambda>s. ?mine \<subseteq> bp_held (m_pool (w_mem (snd s))) \<and> so_buffer (fst (fst s)) = Some eb)"
      using so inv(3) by (intro sort_delivers) simp_all
    then have "delivers_amid ?mine (paired (o_next ops False)) (sort_row types) ((?sp', p3), w3) (map (map Inr) out)
        (\<lambda>s. \<exists>se. o_end ops (fst (fst s), snd (fst s), snd s) = Inr se \<and> mem_releases limit ?mine (w_mem (snd s)) (w_mem (snd (snd se))))"
      unfolding assms(10)
      by (simp add: sort_ops_def, elim delivers_amid_mono)
        (auto simp: sort_end_def intro!: drop_buffer_releases inv(2))
    then show ?thesis using b so(4,5) kept(1) by blast
  qed
qed


text \<open>The values 1, 2, 3 in descending order.\<close>

lemma lift_leaf_ignores_memory: "ignores_memory (o_next (lift_leaf P) t) (o_getResult (lift_leaf P))"
  by (auto simp: ignores_memory_def lift_leaf_def)

definition ex_order :: "sort_spec list" where
  "ex_order = [\<lparr>ss_index = 0, ss_subIndex = 0, ss_column = ''c1'', ss_order = Descend\<rparr>]"

definition ex_sort_ops :: "(sort_plan \<times> const_plan \<times> (unit, unit) world) plan_ops" where
  "ex_sort_ops = sort_ops 4 ex_lib BLOCK_SIZE insertion_sort (lift_leaf (const_ops ex_lib))"

definition ex_empty_world :: "(unit, unit) world" where
  "ex_empty_world = \<lparr>w_mem = \<lparr>m_pool = newPool, m_heap = (\<lambda>_ _. 0)\<rparr>, w_handlers = [], w_iters = []\<rparr>"

definition ex_unsorted :: sort_plan where
  "ex_unsorted = newSortPlan\<lparr>so_proj := [\<lparr>sp_subIndex = 0, sp_name = ''c1''\<rparr>], so_sort := ex_order\<rparr>"

theorem sort_orders_rows_witness:
  "(\<exists>e. o_begin ex_sort_ops False (ex_unsorted, ex_values, ex_empty_world) = Inl e \<and> memory_error e) \<or>
    (\<exists>sp p' w' mine out. o_begin ex_sort_ops False (ex_unsorted, ex_values, ex_empty_world) = Inr (sp, p', w') \<and>
      mset out = {#[R_Int 1], [R_Int 2], [R_Int 3]#} \<and> sorted_wrt (\<lambda>a b. spec_cmp [DT_INT64] ex_order a b \<le> 0) out \<and>
      mine \<subseteq> bp_held (m_pool (w_mem w')) \<and>
      delivers_amid mine (paired (o_next ex_sort_ops False)) (sort_row [DT_INT64]) ((sp, p'), w') (map (map Inr) out)
        (\<lambda>s. \<exists>se. o_end ex_sort_ops (fst (fst s), snd (fst s), snd s) = Inr se \<and>
          mem_releases BLOCK_SIZE mine (w_mem (snd s)) (w_mem (snd (snd se)))))"
proof -
  let ?C = "lift_leaf (const_ops ex_lib) :: (const_plan \<times> (unit, unit) world) plan_ops" and ?s = "(ex_values, ex_empty_world)"
  let ?Q = "\<lambda>s2. \<exists>p3 w3. o_end ?C s2 = Inr (p3, w3) \<and> mem_releases BLOCK_SIZE {} (w_mem (snd s2)) (w_mem w3)"
  let ?projs = "[\<lparr>sp_subIndex = 0, sp_name = ''c1''\<rparr>]" and ?vss = "[[R_Int 1], [R_Int 2], [R_Int 3]]"
  have b: "o_begin ?C False ?s = Inr ?s"
    by (simp add: lift_leaf_def const_ops_def empty_ops_def const_begin_def ex_values_def)
  have types: "traverseR (\<lambda>proj. o_getResultType ?C ?s (sp_subIndex proj)) ?projs = Inr [DT_INT64]"
    by (simp add: lift_leaf_def const_ops_def const_eval)
  have q: "?Q s2" for s2
    by (cases s2) (simp add: lift_leaf_def const_ops_def empty_ops_def)
  have cur: "(\<lambda>(p, w). fst (frame_of (const_ops ex_lib) p)) = o_getResult ?C"
    by (auto simp: lift_leaf_def frame_of_def)
  have d': "delivers_to (o_next ?C False) (o_getResult ?C) ?s (map fst ex_frames) ?Q"
    using lift_leaf_delivers [OF delivers_to_map [OF ex_values_delivers, of fst], of ex_empty_world] unfolding cur
    by (rule delivers_to_mono) (rule q)
  have d: "delivers_amid {} (o_next ?C False) (o_getResult ?C) ?s (map fst ex_frames) ?Q"
    by (rule ignores_memory_amid [OF lift_leaf_ignores_memory d']) (rule q)
  have reads: "list_all2 (sort_reads [DT_INT64] ?projs) (map fst ex_frames) ?vss"
    using ex_values_row(2) unfolding ex_frames_def ex_values_def
    by (simp add: sort_reads_def column_ok_def getHandler_def value_ok_def int_min_def int_max_def sized_def)
  have n: "length (map fst ex_frames) < 4" by (simp add: ex_frames_def ex_values_def)
  have m: "bp_inv BLOCK_SIZE (m_pool (w_mem (snd ?s)))" "{} \<subseteq> bp_held (m_pool (w_mem (snd ?s)))"
    by (simp_all add: ex_empty_world_def newPool_inv)
  have idx: "\<forall>spec \<in> set ex_order. ss_index spec < length ?projs" by (simp add: ex_order_def)
  have ms: "mset (map (map2 stored_column [DT_INT64]) ?vss) = {#[R_Int 1], [R_Int 2], [R_Int 3]#}"
    by (simp add: stored_column_def getHandler_def stored_def)
  show ?thesis
    using sort_orders_rows [OF b types d reads n m idx insertion_sort_law ex_sort_ops_def] unfolding ms ex_unsorted_def .
qed

end
