(* ===== verification/PgWire.thy ===== *)
theory PgWire
  imports PlanBase
begin

text \<open>
  \<^verbatim>\<open>src/server/PgDataWriter\<close> and \<^verbatim>\<open>src/server/PgDataReader\<close>: messages of the PostgreSQL wire protocol
  are written into and read from the one memory block of a session.  The theorems: what a
  sequence of writes leaves in the buffer when it fits and what a reader then reads of it.
\<close>

section \<open>The writer\<close>

text \<open>\<open>pw_data\<close> are the bytes of \<open>*m_pData\<close>; a write replaces bytes in place.\<close>

record pg_writer =
  pw_data :: "byte list"
  pw_written :: nat
  pw_lastPrepare :: nat
  pw_bufferFull :: bool

definition newPgDataWriter :: "byte list \<Rightarrow> pg_writer" where
  "newPgDataWriter d = \<lparr>pw_data = d, pw_written = 0, pw_lastPrepare = 0, pw_bufferFull = False\<rparr>"

text \<open>
  A store; the block keeps its size.  What would lie behind the block is undefined in the source,
  and dropped here: it takes a text of \<open>2 ^ 32\<close> bytes, whose length \<open>check\<close> gets wrong.
\<close>

definition put_bytes :: "nat \<Rightarrow> byte list \<Rightarrow> byte list \<Rightarrow> byte list" where
  "put_bytes off bs d = take (length d) (take off d @ bs @ drop (off + length bs) d)"

text \<open>The parameter of \<open>check\<close> is a \<open>uint32_t\<close>.\<close>

definition pw_check :: "nat \<Rightarrow> pg_writer \<Rightarrow> bool \<times> pg_writer" where
  "pw_check iSize w =
     (if pw_bufferFull w then (False, w)
      else if pw_written w + iSize mod 2 ^ 32 \<le> length (pw_data w) then (True, w)
      else (False, w\<lparr>pw_bufferFull := True\<rparr>))"

text \<open>Bytes stored from \<open>m_iWritten\<close> on, which then moves past them.\<close>

definition pw_store :: "byte list \<Rightarrow> pg_writer \<Rightarrow> pg_writer" where
  "pw_store bs w = w\<lparr>pw_data := put_bytes (pw_written w) bs (pw_data w), pw_written := pw_written w + length bs\<rparr>"

definition addInt32 :: "int \<Rightarrow> pg_writer \<Rightarrow> bool \<times> pg_writer" where
  "addInt32 value w = (case pw_check 4 w of
     (False, w') \<Rightarrow> (False, w') | (True, w') \<Rightarrow> (True, pw_store (be_bytes 4 value) w'))"

definition pw_int32 :: "int \<Rightarrow> pg_writer \<Rightarrow> pg_writer" where
  "pw_int32 t w = snd (addInt32 t w)"

definition pw_null :: "pg_writer \<Rightarrow> pg_writer" where
  "pw_null w = snd (addInt32 (-1) w)"

definition pw_int8 :: "byte \<Rightarrow> pg_writer \<Rightarrow> pg_writer" where
  "pw_int8 value w = (case pw_check 1 w of (False, w') \<Rightarrow> w' | (True, w') \<Rightarrow> pw_store [value] w')"

definition pw_int16 :: "int \<Rightarrow> pg_writer \<Rightarrow> pg_writer" where
  "pw_int16 value w = (case pw_check 2 w of (False, w') \<Rightarrow> w' | (True, w') \<Rightarrow> pw_store (be_bytes 2 value) w')"

text \<open>The two halves of a 64-bit value, the high one first; a double goes by its bits.\<close>

definition pw_int64 :: "int \<Rightarrow> pg_writer \<Rightarrow> pg_writer" where
  "pw_int64 value w = (case addInt32 (value div 2 ^ 32) w of
     (False, w') \<Rightarrow> w' | (True, w') \<Rightarrow> snd (addInt32 value w'))"

definition pw_double :: "double \<Rightarrow> pg_writer \<Rightarrow> pg_writer" where
  "pw_double value w = (case addInt32 (uint value div 2 ^ 32) w of
     (False, w') \<Rightarrow> w' | (True, w') \<Rightarrow> snd (addInt32 (uint value) w'))"

definition pw_float :: "float32 \<Rightarrow> pg_writer \<Rightarrow> pg_writer" where
  "pw_float value w = snd (addInt32 (uint value) w)"

definition addStringZeroEnd :: "byte list \<Rightarrow> pg_writer \<Rightarrow> bool \<times> pg_writer" where
  "addStringZeroEnd s w = (case pw_check (length s + 1) w of
     (False, w') \<Rightarrow> (False, w') | (True, w') \<Rightarrow> (True, pw_store (s @ [0]) w'))"

definition pw_string :: "byte list \<Rightarrow> pg_writer \<Rightarrow> pg_writer" where
  "pw_string s w = snd (addStringZeroEnd s w)"

definition addString :: "byte list \<Rightarrow> pg_writer \<Rightarrow> pg_writer" where
  "addString s w = (case addInt32 (int (length s)) w of
     (False, w') \<Rightarrow> w'
   | (True, w') \<Rightarrow> (case pw_check (length s) w' of (False, w'') \<Rightarrow> w'' | (True, w'') \<Rightarrow> pw_store s w''))"

definition DIGITS :: string where "DIGITS = ''0123456789ABCDEF''"

definition hex_digits :: "byte \<Rightarrow> byte list" where
  "hex_digits c = [byte_of_char (DIGITS ! (unat c div 16)), byte_of_char (DIGITS ! (unat c mod 16))]"

definition addBytesString :: "byte list \<Rightarrow> pg_writer \<Rightarrow> pg_writer" where
  "addBytesString s w = (let len = 2 + length s * 2 in
     case addInt32 (int len) w of
       (False, w') \<Rightarrow> w'
     | (True, w') \<Rightarrow> (case pw_check len w' of
           (False, w'') \<Rightarrow> w''
         | (True, w'') \<Rightarrow> pw_store (bytes_of [CHR 0x5C, CHR ''x''] @ concat (map hex_digits s)) w''))"

text \<open>
  \<open>snprintf\<close> writes what fits of \<open>text\<close> and a final 0 behind the place of the length and returns
  the length of the whole text.
\<close>

definition addValueAsString :: "byte list \<Rightarrow> pg_writer \<Rightarrow> bool \<times> pg_writer" where
  "addValueAsString text w = (case pw_check 4 w of
     (False, w') \<Rightarrow> (False, w')
   | (True, w') \<Rightarrow>
       (let iValueStart = pw_written w' + 4; iAvailable = length (pw_data w') - iValueStart;
            printed = (if iAvailable = 0 then [] else take (iAvailable - 1) text @ [0]);
            w'' = w'\<lparr>pw_data := put_bytes iValueStart printed (pw_data w')\<rparr> in
        if length text > 0 \<and> length text < iAvailable
        then (case addInt32 (int (length text)) w'' of
            (True, w3) \<Rightarrow> (True, w3\<lparr>pw_written := pw_written w3 + length text\<rparr>)
          | (False, w3) \<Rightarrow> (False, w3\<lparr>pw_bufferFull := True\<rparr>))
        else (False, w''\<lparr>pw_bufferFull := True\<rparr>)))"

text \<open>\<open>strftime\<close> stores the text and a final 0, or returns 0 when they do not fit.\<close>

definition addDateTimeAsString :: "byte list \<Rightarrow> nat \<Rightarrow> pg_writer \<Rightarrow> pg_writer res" where
  "addDateTimeAsString text len w = (case addInt32 (int len) w of
     (False, w') \<Rightarrow> Inr w'
   | (True, w') \<Rightarrow> (case pw_check (len + 1) w' of
         (False, w'') \<Rightarrow> Inr w''
       | (True, w'') \<Rightarrow>
           (if length text + 1 \<le> length (pw_data w'') - pw_written w'' \<and> length text = len
            then Inr ((pw_store (text @ [0]) w'')\<lparr>pw_written := pw_written w'' + len\<rparr>)
            else Inl (Stuck ''iWritten == len''))))"

definition pw_begin :: "byte \<Rightarrow> pg_writer \<Rightarrow> pg_writer" where
  "pw_begin cMsgType w = pw_int32 0 (pw_int8 cMsgType (w\<lparr>pw_bufferFull := False\<rparr>))"

definition pw_end :: "pg_writer \<Rightarrow> pg_writer res" where
  "pw_end w =
     (if pw_bufferFull w then Inr w
      else if pw_lastPrepare w + 5 \<le> pw_written w
      then Inr (w\<lparr>pw_data := put_bytes (pw_lastPrepare w + 1) (be_bytes 4 (int (pw_written w) - int (pw_lastPrepare w) - 1)) (pw_data w),
                  pw_lastPrepare := pw_written w\<rparr>)
      else Inl (Stuck ''m_iLastPrepare + 5 <= m_iWritten''))"

section \<open>The reader\<close>

text \<open>
  A reader sees the first \<open>rd_len\<close> bytes of the block, but \<open>strlen\<close> and the integer loads go on into
  the rest of it; \<open>rd_data\<close> is the whole block.
\<close>

record pg_reader =
  rd_data :: "byte list"
  rd_len :: nat
  rd_current :: nat

definition newPgDataReader :: "byte list \<Rightarrow> nat \<Rightarrow> pg_reader" where
  "newPgDataReader d len = \<lparr>rd_data = d, rd_len = len, rd_current = 0\<rparr>"

definition rd_hasData :: "pg_reader \<Rightarrow> bool" where
  "rd_hasData r \<longleftrightarrow> rd_current r < rd_len r"

text \<open>The assertion of every function of the reader, and a load of \<open>n\<close> bytes.\<close>

definition rd_bytes :: "nat \<Rightarrow> pg_reader \<Rightarrow> byte list res" where
  "rd_bytes n r =
     (if \<not> rd_hasData r then Inl (Stuck ''m_iCurrent < m_buffer.size()'')
      else if rd_current r + n > length (rd_data r) then Inl (Stuck ''read outside the buffer'')
      else Inr (take n (drop (rd_current r) (rd_data r))))"

definition getNextByte :: "pg_reader \<Rightarrow> err + byte \<times> pg_reader" where
  "getNextByte r = mapR (\<lambda>bs. (hd bs, r\<lparr>rd_current := rd_current r + 1\<rparr>)) (rd_bytes 1 r)"

definition getNextShort :: "pg_reader \<Rightarrow> err + int \<times> pg_reader" where
  "getNextShort r = mapR (\<lambda>bs. (to_signed 2 (be_uint bs), r\<lparr>rd_current := rd_current r + 2\<rparr>)) (rd_bytes 2 r)"

definition getNextInt :: "pg_reader \<Rightarrow> err + int \<times> pg_reader" where
  "getNextInt r = mapR (\<lambda>bs. (to_signed 4 (be_uint bs), r\<lparr>rd_current := rd_current r + 4\<rparr>)) (rd_bytes 4 r)"

definition getNextString :: "pg_reader \<Rightarrow> err + byte list \<times> pg_reader" where
  "getNextString r =
     (if \<not> rd_hasData r then Inl (Stuck ''m_iCurrent < m_buffer.size()'')
      else let rest = drop (rd_current r) (rd_data r); s = takeWhile (\<lambda>b. b \<noteq> 0) rest in
        if length s < length rest then Inr (s, r\<lparr>rd_current := rd_current r + length s + 1\<rparr>)
        else Inl (Stuck ''strlen outside the buffer''))"

text \<open>The string with a length in front: the width of the length is the only difference of the two.\<close>

definition rd_counted :: "nat \<Rightarrow> pg_reader \<Rightarrow> err + byte list \<times> pg_reader" where
  "rd_counted width r =
     bindR (rd_bytes width r) (\<lambda>bs. let len = to_signed width (be_uint bs); start = rd_current r + width in
       if len < 0 then Inl (IOException ''null string is not supported'')
       else if start + nat len > length (rd_data r) then Inl (Stuck ''string outside the buffer'')
       else Inr (take (nat len) (drop start (rd_data r)), r\<lparr>rd_current := start + nat len\<rparr>))"

definition getNextStringWithLen :: "pg_reader \<Rightarrow> err + byte list \<times> pg_reader" where
  "getNextStringWithLen r = rd_counted 4 r"

definition getNextStringWithShortLen :: "pg_reader \<Rightarrow> err + byte list \<times> pg_reader" where
  "getNextStringWithShortLen r = rd_counted 2 r"

section \<open>The size of the block\<close>

lemma put_size [simp]: "length (put_bytes off bs d) = length d"
  by (simp add: put_bytes_def)

lemma check_data: "pw_check n w = (b, w') \<Longrightarrow> length (pw_data w') = length (pw_data w)"
  by (auto simp: pw_check_def split: if_splits)

lemma store_size [simp]: "length (pw_data (pw_store bs w)) = length (pw_data w)"
  by (simp add: pw_store_def)

lemma addInt32_size: "addInt32 v w = (b, w') \<Longrightarrow> length (pw_data w') = length (pw_data w)"
  by (auto simp: addInt32_def dest!: check_data split: prod.splits bool.splits)

lemma write_size [simp]:
  "length (pw_data (snd (addInt32 v w))) = length (pw_data w)"
  "length (pw_data (pw_int32 v w)) = length (pw_data w)"
  "length (pw_data (pw_null w)) = length (pw_data w)"
  "length (pw_data (pw_int8 c w)) = length (pw_data w)"
  "length (pw_data (pw_int16 v w)) = length (pw_data w)"
  "length (pw_data (pw_string s w)) = length (pw_data w)"
  by (auto simp: addInt32_def pw_int32_def pw_null_def pw_int8_def pw_int16_def pw_string_def addStringZeroEnd_def
      dest!: check_data split: prod.splits bool.splits)

lemma text_size [simp]:
  "length (pw_data (addString s w)) = length (pw_data w)"
  "length (pw_data (addBytesString s w)) = length (pw_data w)"
  "length (pw_data (snd (addValueAsString s w))) = length (pw_data w)"
  by (auto simp: addString_def addBytesString_def addValueAsString_def Let_def dest!: addInt32_size check_data
      split: prod.splits bool.splits if_splits)

lemma time_size: "addDateTimeAsString s n w = Inr w' \<Longrightarrow> length (pw_data w') = length (pw_data w)"
  by (auto simp: addDateTimeAsString_def dest!: addInt32_size check_data split: prod.splits bool.splits if_splits)

lemma begin_size [simp]: "length (pw_data (pw_begin c w)) = length (pw_data w)"
  by (simp add: pw_begin_def)

lemma end_size: "pw_end w = Inr w' \<Longrightarrow> length (pw_data w') = length (pw_data w)"
  by (auto simp: pw_end_def split: if_splits)

section \<open>What a write does\<close>

text \<open>
  \<open>emits bs f\<close>: on a full buffer \<open>f\<close> does nothing; otherwise it appends exactly \<open>bs\<close>, which it
  certainly does when one more byte would fit, or it marks the buffer as full and leaves the bytes
  written before alone.
\<close>

definition written_bytes :: "pg_writer \<Rightarrow> byte list" where
  "written_bytes w = take (pw_written w) (pw_data w)"

definition pw_ok :: "pg_writer \<Rightarrow> bool" where
  "pw_ok w \<longleftrightarrow> pw_written w \<le> length (pw_data w) \<and> pw_lastPrepare w \<le> pw_written w \<and> length (pw_data w) < 2 ^ 32"

definition appended :: "byte list \<Rightarrow> pg_writer \<Rightarrow> pg_writer \<Rightarrow> bool" where
  "appended bs w w' \<longleftrightarrow> \<not> pw_bufferFull w' \<and> length (pw_data w') = length (pw_data w) \<and> pw_lastPrepare w' = pw_lastPrepare w \<and>
     pw_written w' = pw_written w + length bs \<and> pw_written w' \<le> length (pw_data w') \<and> written_bytes w' = written_bytes w @ bs"

definition overflowed :: "pg_writer \<Rightarrow> pg_writer \<Rightarrow> bool" where
  "overflowed w w' \<longleftrightarrow> pw_bufferFull w' \<and> length (pw_data w') = length (pw_data w) \<and> pw_lastPrepare w' = pw_lastPrepare w \<and>
     pw_written w \<le> pw_written w' \<and> pw_written w' \<le> length (pw_data w') \<and> take (pw_written w) (pw_data w') = written_bytes w"

definition emits :: "byte list \<Rightarrow> (pg_writer \<Rightarrow> pg_writer) \<Rightarrow> bool" where
  "emits bs f \<longleftrightarrow> (\<forall>w. pw_ok w \<longrightarrow>
     (if pw_bufferFull w then f w = w
      else appended bs w (f w) \<or> overflowed w (f w) \<and> length (pw_data w) \<le> pw_written w + length bs))"

lemma appended_ok: "appended bs w w' \<Longrightarrow> pw_ok w \<Longrightarrow> pw_ok w'"
  by (auto simp: appended_def pw_ok_def)

lemma overflowed_ok: "overflowed w w' \<Longrightarrow> pw_ok w \<Longrightarrow> pw_ok w'"
  by (auto simp: overflowed_def pw_ok_def)

lemma appended_trans: "appended bs w w' \<Longrightarrow> appended cs w' w'' \<Longrightarrow> appended (bs @ cs) w w''"
  by (auto simp: appended_def)

lemma appended_overflowed: "appended bs w w' \<Longrightarrow> overflowed w' w'' \<Longrightarrow> overflowed w w''"
  by (auto simp: appended_def overflowed_def written_bytes_def min_def dest: arg_cong [where f = "take (pw_written w)"])

lemma emits_comp:
  assumes "emits bs f" "emits cs g"
  shows "emits (bs @ cs) (\<lambda>w. g (f w))"
  unfolding emits_def
proof (intro allI impI)
  fix w assume ok: "pw_ok w"
  show "if pw_bufferFull w then g (f w) = w
    else appended (bs @ cs) w (g (f w)) \<or> overflowed w (g (f w)) \<and> length (pw_data w) \<le> pw_written w + length (bs @ cs)"
  proof (cases "pw_bufferFull w")
    case True
    then show ?thesis using assms ok by (simp add: emits_def)
  next
    case False
    then have "appended bs w (f w) \<or> overflowed w (f w) \<and> length (pw_data w) \<le> pw_written w + length bs"
      using assms(1) ok by (simp add: emits_def)
    then show ?thesis
    proof (elim disjE conjE)
      assume a: "appended bs w (f w)"
      then have "appended cs (f w) (g (f w)) \<or> overflowed (f w) (g (f w)) \<and> length (pw_data (f w)) \<le> pw_written (f w) + length cs"
        using assms(2) appended_ok [OF a ok] conjunct1 [OF a [unfolded appended_def]] by (simp add: emits_def)
      then show ?thesis using a False appended_trans [OF a] appended_overflowed [OF a]
        by (auto simp: appended_def)
    next
      assume o: "overflowed w (f w)" and l: "length (pw_data w) \<le> pw_written w + length bs"
      have "g (f w) = f w" using assms(2) overflowed_ok [OF o ok] o by (simp add: emits_def overflowed_def)
      then show ?thesis using o l False by simp
    qed
  qed
qed

lemma emits_ok: "emits bs f \<Longrightarrow> pw_ok w \<Longrightarrow> pw_ok (f w)"
  using appended_ok [of bs w "f w"] overflowed_ok [of w "f w"] by (auto simp: emits_def split: if_splits)

lemma emits_cong: "emits bs f \<Longrightarrow> (\<And>w. pw_ok w \<Longrightarrow> g w = f w) \<Longrightarrow> emits bs g"
  by (simp add: emits_def)

lemma emits_id [simp]: "emits [] (\<lambda>w. w)"
  by (auto simp: emits_def appended_def pw_ok_def)

lemma emits_fold:
  "(\<And>x. x \<in> set xs \<Longrightarrow> emits (e x) (f x)) \<Longrightarrow> emits (concat (map e xs)) (\<lambda>w. foldl (\<lambda>w x. f x w) w xs)"
proof (induction xs)
  case (Cons x xs)
  from emits_comp [OF Cons.prems [of x] Cons.IH] Cons.prems show ?case by simp
qed simp

section \<open>The single writes\<close>

lemma put_bytes_inside: "off + length bs \<le> length d \<Longrightarrow> put_bytes off bs d = take off d @ bs @ drop (off + length bs) d"
  by (simp add: put_bytes_def)

lemma take_put_bytes: "off + length bs \<le> length d \<Longrightarrow> take (off + length bs) (put_bytes off bs d) = take off d @ bs"
  by (simp add: put_bytes_inside)

lemma take_put_bytes_before: "n \<le> off \<Longrightarrow> off \<le> length d \<Longrightarrow> take n (put_bytes off bs d) = take n d"
  by (simp add: put_bytes_def min_def)

lemma pw_store_appended:
  "pw_ok w \<Longrightarrow> \<not> pw_bufferFull w \<Longrightarrow> pw_written w + length bs \<le> length (pw_data w) \<Longrightarrow> appended bs w (pw_store bs w)"
  by (simp add: appended_def pw_store_def written_bytes_def take_put_bytes)

lemma checked_emits:
  assumes "length bs < 2 ^ 32"
  shows "emits bs (\<lambda>w. case pw_check (length bs) w of (False, w') \<Rightarrow> w' | (True, w') \<Rightarrow> pw_store bs w')"
  unfolding emits_def
proof (intro allI impI)
  fix w assume "pw_ok w"
  then show "if pw_bufferFull w then (case pw_check (length bs) w of (False, w') \<Rightarrow> w' | (True, w') \<Rightarrow> pw_store bs w') = w
    else appended bs w (case pw_check (length bs) w of (False, w') \<Rightarrow> w' | (True, w') \<Rightarrow> pw_store bs w') \<or>
      overflowed w (case pw_check (length bs) w of (False, w') \<Rightarrow> w' | (True, w') \<Rightarrow> pw_store bs w') \<and>
      length (pw_data w) \<le> pw_written w + length bs"
    using pw_store_appended [of w bs] assms by (auto simp: pw_check_def overflowed_def written_bytes_def pw_ok_def)
qed

lemma addInt32_cases:
  obtains (ok) w' where "addInt32 v w = (True, w')" "pw_check 4 w = (True, w)" "w' = pw_store (be_bytes 4 v) w"
  | (full) w' where "addInt32 v w = (False, w')" "pw_check 4 w = (False, w')" "pw_bufferFull w'"
  by (cases "pw_check 4 w"; cases "fst (pw_check 4 w)") (auto simp: addInt32_def pw_check_def split: if_splits)

lemma addInt32_emits: "emits (be_bytes 4 v) (\<lambda>w. snd (addInt32 v w))"
proof -
  have "snd (addInt32 v w) = (case pw_check (length (be_bytes 4 v)) w of (False, w') \<Rightarrow> w' | (True, w') \<Rightarrow> pw_store (be_bytes 4 v) w')" for w
    by (rule addInt32_cases [of v w]) simp_all
  then show ?thesis by (intro emits_cong [OF checked_emits [of "be_bytes 4 v"]]) simp_all
qed

text \<open>A length and what it counts: after a length that did not fit nothing else is written.\<close>

lemma after_int32_emits:
  assumes "emits bs f"
  shows "emits (be_bytes 4 v @ bs) (\<lambda>w. case addInt32 v w of (False, w') \<Rightarrow> w' | (True, w') \<Rightarrow> f w')"
proof -
  have e: "emits (be_bytes 4 v @ bs) (\<lambda>w. f (snd (addInt32 v w)))" by (rule emits_comp [OF addInt32_emits assms])
  have "(case addInt32 v w of (False, w') \<Rightarrow> w' | (True, w') \<Rightarrow> f w') = f (snd (addInt32 v w))" if "pw_ok w" for w
  proof (rule addInt32_cases [of v w])
    fix w' assume w': "addInt32 v w = (False, w')" "pw_check 4 w = (False, w')" "pw_bufferFull w'"
    then have "pw_ok w'" using that by (auto simp: pw_check_def pw_ok_def split: if_splits)
    then show ?thesis using w' assms by (simp add: emits_def)
  qed simp
  then show ?thesis by (rule emits_cong [OF e])
qed

lemmas pw_int_emits = addInt32_emits [folded pw_int32_def] addInt32_emits [of "-1", folded pw_null_def]

lemma pw_int8_emits: "emits [c] (pw_int8 c)"
  using checked_emits [of "[c]"] by (simp add: pw_int8_def [abs_def])

lemma pw_int16_emits: "emits (be_bytes 2 v) (pw_int16 v)"
  using checked_emits [of "be_bytes 2 v"] by (simp add: pw_int16_def [abs_def])

lemma pw_string_emits:
  assumes "length s + 1 < 2 ^ 32"
  shows "emits (s @ [0]) (pw_string s)"
proof -
  have "pw_string s w = (case pw_check (length (s @ [0 :: byte])) w of (False, w') \<Rightarrow> w' | (True, w') \<Rightarrow> pw_store (s @ [0]) w')" for w
    by (simp add: pw_string_def addStringZeroEnd_def split: prod.split bool.split)
  then show ?thesis using assms by (intro emits_cong [OF checked_emits [of "s @ [0]"]]) simp_all
qed

lemma addString_emits: "length s < 2 ^ 32 \<Longrightarrow> emits (be_bytes 4 (int (length s)) @ s) (addString s)"
  using after_int32_emits [OF checked_emits [of s]] by (simp add: addString_def [abs_def])

lemma length_hex_digits [simp]: "length (concat (map hex_digits s)) = 2 * length s"
  by (induction s) (simp_all add: hex_digits_def)

lemma addBytesString_emits:
  assumes "2 + length s * 2 < 2 ^ 32"
  defines "out \<equiv> bytes_of [CHR 0x5C, CHR ''x''] @ concat (map hex_digits s)"
  shows "emits (be_bytes 4 (int (length out)) @ out) (addBytesString s)"
proof -
  have len: "length out = 2 + length s * 2" by (simp add: out_def)
  show ?thesis
    using after_int32_emits [OF checked_emits [of out], of "int (length out)"] assms(1)
    unfolding addBytesString_def [abs_def] Let_def len [symmetric] out_def [symmetric] by simp
qed

lemma pw_int64_emits: "emits (be_bytes 4 (v div 2 ^ 32) @ be_bytes 4 v) (pw_int64 v)"
  using after_int32_emits [OF addInt32_emits] by (simp add: pw_int64_def [abs_def])

lemma be_bytes_split: "be_bytes 4 (v div 2 ^ 32) @ be_bytes 4 v = be_bytes 8 v"
  by (simp add: be_bytes_def eval_nat_numeral flip: zdiv_zmult2_eq)

lemma addDateTimeAsString_emits:
  assumes "length out = len" "len + 1 < 2 ^ 32"
  shows "\<exists>f. emits (be_bytes 4 (int len) @ out) f \<and> (\<forall>w. pw_ok w \<longrightarrow> addDateTimeAsString out len w = Inr (f w))"
proof -
  let ?g = "\<lambda>w. case pw_check (len + 1) w of (False, w'') \<Rightarrow> w'' | (True, w'') \<Rightarrow> (pw_store (out @ [0]) w'')\<lparr>pw_written := pw_written w'' + len\<rparr>"
  let ?f = "\<lambda>w. case addInt32 (int len) w of (False, w') \<Rightarrow> w' | (True, w') \<Rightarrow> ?g w'"
  have "emits out ?g"
    unfolding emits_def
  proof (intro allI impI)
    fix w assume ok: "pw_ok w"
    have "appended out w ((pw_store (out @ [0]) w)\<lparr>pw_written := pw_written w + len\<rparr>)"
      if "\<not> pw_bufferFull w" "pw_written w + len + 1 \<le> length (pw_data w)"
    proof -
      have "take (pw_written w + len) (put_bytes (pw_written w) (out @ [0]) (pw_data w)) = take (pw_written w) (pw_data w) @ out"
        using that assms(1) by (simp add: put_bytes_inside)
      then show ?thesis using that assms by (simp add: appended_def pw_store_def written_bytes_def)
    qed
    then show "if pw_bufferFull w then ?g w = w
      else appended out w (?g w) \<or> overflowed w (?g w) \<and> length (pw_data w) \<le> pw_written w + length out"
      using ok assms by (auto simp: pw_check_def overflowed_def written_bytes_def pw_ok_def)
  qed
  from after_int32_emits [OF this, of "int len"] have "emits (be_bytes 4 (int len) @ out) ?f" .
  moreover have "addDateTimeAsString out len w = Inr (?f w)" if "pw_ok w" for w
    using that assms
    by (cases rule: addInt32_cases [of "int len" w]) (auto simp: addDateTimeAsString_def pw_check_def pw_store_def pw_ok_def)
  ultimately show ?thesis by blast
qed


lemma addValueAsString_emits:
  assumes "out \<noteq> []"
  shows "emits (be_bytes 4 (int (length out)) @ out) (\<lambda>w. snd (addValueAsString out w))"
  unfolding emits_def
proof (intro allI impI)
  fix w assume ok: "pw_ok w"
  let ?w' = "snd (addValueAsString out w)" and ?start = "pw_written w + 4" and ?n = "length (pw_data w)"
  show "if pw_bufferFull w then ?w' = w
    else appended (be_bytes 4 (int (length out)) @ out) w ?w' \<or>
      overflowed w ?w' \<and> ?n \<le> pw_written w + length (be_bytes 4 (int (length out)) @ out)"
  proof (cases "\<not> pw_bufferFull w \<and> ?start \<le> ?n")
    case False
    then show ?thesis using ok by (auto simp: addValueAsString_def pw_check_def overflowed_def written_bytes_def pw_ok_def)
  next
    case True
    let ?printed = "if ?n - ?start = 0 then [] else take (?n - ?start - 1) out @ [0]"
    let ?d = "put_bytes ?start ?printed (pw_data w)"
    have len: "length ?d = ?n" using True by simp
    have before: "take (pw_written w) ?d = written_bytes w"
      using True by (simp add: take_put_bytes_before written_bytes_def)
    show ?thesis
    proof (cases "length out < ?n - ?start")
      case fits: True
      have w': "?w' = w\<lparr>pw_data := put_bytes (pw_written w) (be_bytes 4 (int (length out))) ?d, pw_written := ?start + length out\<rparr>"
        using True fits assms len by (simp add: addValueAsString_def pw_check_def Let_def addInt32_def pw_store_def)
      have d: "?d = take ?start (pw_data w) @ out @ 0 # drop (?start + length out + 1) (pw_data w)"
        using fits by (simp add: put_bytes_inside)
      have "take (?start + length out) (put_bytes (pw_written w) (be_bytes 4 (int (length out))) ?d) =
          written_bytes w @ be_bytes 4 (int (length out)) @ out"
      proof -
        have in4: "pw_written w + length (be_bytes 4 (int (length out))) \<le> length (take ?start (pw_data w) @ out @ 0 # drop (?start + length out + 1) (pw_data w))"
          using True by simp
        show ?thesis unfolding d put_bytes_inside [OF in4] using True fits by (simp add: written_bytes_def min_def)
      qed
      moreover have "length (put_bytes (pw_written w) (be_bytes 4 (int (length out))) ?d) = ?n" using True len by simp
      ultimately have "appended (be_bytes 4 (int (length out)) @ out) w ?w'"
        using True fits unfolding w' by (simp add: appended_def written_bytes_def [of "_\<lparr>pw_written := _\<rparr>"])
      then show ?thesis using True by simp
    next
      case False
      then have w': "?w' = w\<lparr>pw_data := ?d, pw_bufferFull := True\<rparr>"
        using True by (simp add: addValueAsString_def pw_check_def Let_def)
      have "overflowed w ?w'" using True ok before len unfolding w' by (simp add: overflowed_def)
      moreover have "?n \<le> pw_written w + 4 + length out" using False by arith
      ultimately show ?thesis using True by simp
    qed
  qed
qed

section \<open>Messages\<close>

text \<open>A message: its type, its length and its fields.\<close>

definition frame :: "byte \<Rightarrow> byte list \<Rightarrow> byte list" where
  "frame c payload = c # be_bytes 4 (4 + int (length payload)) @ payload"

lemma length_frame [simp]: "length (frame c payload) = 5 + length payload"
  by (simp add: frame_def)

definition pw_ready :: "pg_writer \<Rightarrow> bool" where
  "pw_ready w \<longleftrightarrow> pw_ok w \<and> pw_lastPrepare w = pw_written w"

text \<open>The messages completed so far: what the session sends.\<close>

definition prepared :: "pg_writer \<Rightarrow> byte list" where
  "prepared w = take (pw_lastPrepare w) (pw_data w)"

definition pw_message :: "byte \<Rightarrow> (pg_writer \<Rightarrow> pg_writer) \<Rightarrow> pg_writer \<Rightarrow> pg_writer res" where
  "pw_message c body w = pw_end (body (pw_begin c w))"

lemma begin_emits:
  assumes "emits payload body" "pw_ok w"
  shows "appended (c # be_bytes 4 0 @ payload) w (body (pw_begin c w)) \<or>
    overflowed w (body (pw_begin c w)) \<and> length (pw_data w) \<le> pw_written w + 5 + length payload"
proof -
  let ?w = "w\<lparr>pw_bufferFull := False\<rparr>"
  have "emits (([c] @ be_bytes 4 0) @ payload) (\<lambda>w. body (pw_int32 0 (pw_int8 c w)))"
    by (intro emits_comp [OF emits_comp [OF pw_int8_emits] assms(1)] pw_int_emits)
  moreover have "pw_ok ?w" using assms(2) by (simp add: pw_ok_def)
  ultimately have "appended (([c] @ be_bytes 4 0) @ payload) ?w (body (pw_begin c w)) \<or>
    overflowed ?w (body (pw_begin c w)) \<and> length (pw_data ?w) \<le> pw_written ?w + length (([c] @ be_bytes 4 0) @ payload)"
    unfolding pw_begin_def emits_def by (metis (no_types, lifting) pg_writer.select_convs(4) pg_writer.surjective pg_writer.update_convs(4))
  then show ?thesis by (auto simp: appended_def overflowed_def written_bytes_def)
qed

text \<open>\<open>end\<close> writes the length over the four bytes behind the type.\<close>

lemma end_frame:
  assumes "pw_ok w" "\<not> pw_bufferFull w" "written_bytes w = prepared w @ c # x @ payload" "length x = 4"
  obtains w' where "pw_end w = Inr w'" "pw_ready w'" "\<not> pw_bufferFull w'" "length (pw_data w') = length (pw_data w)"
    "prepared w' = prepared w @ frame c payload" "pw_written w' = pw_written w"
proof -
  let ?len = "be_bytes 4 (int (pw_written w) - int (pw_lastPrepare w) - 1)"
  let ?w' = "w\<lparr>pw_data := put_bytes (pw_lastPrepare w + 1) ?len (pw_data w), pw_lastPrepare := pw_written w\<rparr>"
  have lens: "length (prepared w) = pw_lastPrepare w" "length (written_bytes w) = pw_written w" "pw_written w \<le> length (pw_data w)"
    using assms(1) by (auto simp: prepared_def written_bytes_def pw_ok_def)
  then have n: "pw_written w = pw_lastPrepare w + 5 + length payload" using assms(3,4) by simp
  have d: "pw_data w = (prepared w @ c # x @ payload) @ drop (pw_written w) (pw_data w)"
    using assms(3) by (metis append_take_drop_id written_bytes_def)
  have "put_bytes (pw_lastPrepare w + 1) ?len (pw_data w) = (prepared w @ c # ?len @ payload) @ drop (pw_written w) (pw_data w)"
    by (subst d) (simp add: put_bytes_inside lens(1) [symmetric] assms(4))
  moreover have "length (prepared w @ c # ?len @ payload) = pw_written w" using lens(1) n by simp
  ultimately have "take (pw_written w) (put_bytes (pw_lastPrepare w + 1) ?len (pw_data w)) = prepared w @ c # ?len @ payload"
    by (metis append_eq_conv_conj)
  moreover have "int (pw_written w) - int (pw_lastPrepare w) - 1 = 4 + int (length payload)" using n by simp
  ultimately have p: "prepared ?w' = prepared w @ frame c payload" by (simp add: prepared_def frame_def)
  have "pw_end w = Inr ?w'" using assms(2) n by (simp add: pw_end_def)
  moreover have len: "length (pw_data ?w') = length (pw_data w)" using n lens(3) by simp
  moreover have "pw_ready ?w'" using assms(1) len by (simp add: pw_ready_def pw_ok_def)
  ultimately show ?thesis using assms(2) by (intro that [OF _ _ _ _ p]) simp_all
qed

lemma begin_ok: "pw_ok w \<Longrightarrow> pw_ok (pw_begin c w)"
  using begin_emits [OF emits_id, of w c] appended_ok [of _ w] overflowed_ok [of w] by auto

lemma message_cases:
  assumes "emits payload body" "pw_ready w"
  obtains (fits) w' where "pw_message c body w = Inr w'" "pw_ready w'" "\<not> pw_bufferFull w'" "length (pw_data w') = length (pw_data w)"
      "prepared w' = prepared w @ frame c payload" "pw_written w' = pw_written w + 5 + length payload"
  | (full) w' where "pw_message c body w = Inr w'" "pw_ok w'" "pw_bufferFull w'" "length (pw_data w') = length (pw_data w)"
      "prepared w' = prepared w" "pw_lastPrepare w' = pw_lastPrepare w" "length (pw_data w) \<le> pw_written w + 5 + length payload"
proof -
  let ?w = "body (pw_begin c w)"
  have ok: "pw_ok w" "pw_lastPrepare w = pw_written w" using assms(2) by (simp_all add: pw_ready_def)
  have pw: "prepared w = written_bytes w" using ok(2) by (simp add: prepared_def written_bytes_def)
  from begin_emits [OF assms(1) ok(1), of c] show ?thesis
  proof (elim disjE conjE)
    assume a: "appended (c # be_bytes 4 0 @ payload) w ?w"
    note a' = a [unfolded appended_def]
    have "prepared ?w = prepared w"
      using a' ok by (auto simp: prepared_def written_bytes_def pw_ok_def min_def dest: arg_cong [where f = "take (pw_written w)"])
    with a' have "written_bytes ?w = prepared ?w @ c # be_bytes 4 0 @ payload" by (simp add: pw)
    from end_frame [OF appended_ok [OF a ok(1)] _ this] a' obtain w' where
      "pw_end ?w = Inr w'" "pw_ready w'" "\<not> pw_bufferFull w'" "length (pw_data w') = length (pw_data ?w)"
      "prepared w' = prepared ?w @ frame c payload" "pw_written w' = pw_written ?w" by auto
    then show ?thesis using a' \<open>prepared ?w = prepared w\<close> by (intro fits [of w']) (simp_all add: pw_message_def)
  next
    assume o: "overflowed w ?w" and l: "length (pw_data w) \<le> pw_written w + 5 + length payload"
    note o' = o [unfolded overflowed_def]
    have "prepared ?w = prepared w" using o' ok(2) by (simp add: prepared_def written_bytes_def)
    then show ?thesis using o' l overflowed_ok [OF o ok(1)] by (intro full [of ?w]) (simp_all add: pw_message_def pw_end_def)
  qed
qed

section \<open>Reading what was written\<close>

text \<open>\<open>rd_at pre rest r\<close>: the reader stands between \<open>pre\<close> and \<open>rest\<close>, inside the bytes it was given.\<close>

definition rd_at :: "byte list \<Rightarrow> byte list \<Rightarrow> pg_reader \<Rightarrow> bool" where
  "rd_at pre rest r \<longleftrightarrow> rd_data r = pre @ rest \<and> rd_current r = length pre"

lemma rd_bytes_at: "rd_at pre (bs @ rest) r \<Longrightarrow> rd_hasData r \<Longrightarrow> rd_bytes (length bs) r = Inr bs"
  by (simp add: rd_at_def rd_bytes_def)

lemma rd_at_step: "rd_at pre (bs @ rest) r \<Longrightarrow> n = length pre + length bs \<Longrightarrow> rd_at (pre @ bs) rest (r\<lparr>rd_current := n\<rparr>)"
  by (simp add: rd_at_def)

lemma rd_at_current: "rd_at pre rest r \<Longrightarrow> rd_current r = length pre"
  by (simp add: rd_at_def)

text \<open>Each function of the reader on bytes that encode a value: the value, and the reader moves past them.\<close>

lemma getNextByte_at:
  assumes "rd_at pre (c # rest) r" "rd_hasData r"
  shows "\<exists>r'. getNextByte r = Inr (c, r') \<and> rd_at (pre @ [c]) rest r' \<and> rd_len r' = rd_len r"
  using rd_bytes_at [of pre "[c]"] rd_at_step [of pre "[c]" rest r] assms by (simp add: getNextByte_def rd_at_current)

lemma getNextShort_at:
  assumes "rd_at pre (be_bytes 2 v @ rest) r" "rd_hasData r" "- (2 ^ 15) \<le> v" "v < 2 ^ 15"
  shows "\<exists>r'. getNextShort r = Inr (v, r') \<and> rd_at (pre @ be_bytes 2 v) rest r' \<and> rd_len r' = rd_len r"
  using rd_bytes_at [OF assms(1,2)] rd_at_step [OF assms(1)] to_signed_be_bytes [of 2 v] assms(3,4)
  by (simp add: getNextShort_def rd_at_current [OF assms(1)])

lemma getNextInt_at:
  assumes "rd_at pre (be_bytes 4 v @ rest) r" "rd_hasData r" "- (2 ^ 31) \<le> v" "v < 2 ^ 31"
  shows "\<exists>r'. getNextInt r = Inr (v, r') \<and> rd_at (pre @ be_bytes 4 v) rest r' \<and> rd_len r' = rd_len r"
  using rd_bytes_at [OF assms(1,2)] rd_at_step [OF assms(1)] to_signed_be_bytes [of 4 v] assms(3,4)
  by (simp add: getNextInt_def rd_at_current [OF assms(1)])

lemma getNextString_at:
  assumes "rd_at pre (s @ 0 # rest) r" "rd_hasData r" "0 \<notin> set s"
  shows "\<exists>r'. getNextString r = Inr (s, r') \<and> rd_at (pre @ s @ [0]) rest r' \<and> rd_len r' = rd_len r"
proof -
  have "takeWhile (\<lambda>b. b \<noteq> 0) (s @ 0 # rest) = s" using assms(3) by (auto simp: takeWhile_append)
  then show ?thesis using assms(1,2) by (simp add: getNextString_def rd_at_def)
qed

lemma getNextStringWithLen_at:
  assumes "rd_at pre (be_bytes 4 (int (length s)) @ s @ rest) r" "rd_hasData r" "length s < 2 ^ 31"
  shows "\<exists>r'. getNextStringWithLen r = Inr (s, r') \<and> rd_at (pre @ be_bytes 4 (int (length s)) @ s) rest r' \<and> rd_len r' = rd_len r"
  using rd_bytes_at [OF assms(1,2)] to_signed_be_bytes [of 4 "int (length s)"] assms
  by (simp add: getNextStringWithLen_def rd_counted_def Let_def rd_at_def)

lemma getNextString_progress:
  "getNextString r = Inr (s, r') \<Longrightarrow> rd_current r < rd_current r' \<and> rd_len r' = rd_len r"
  by (auto simp: getNextString_def Let_def split: if_splits)

end
