(* ===== verification/PgProtocol.thy ===== *)
theory PgProtocol
  imports PgWire
begin

text \<open>
  \<^verbatim>\<open>src/server/PostgresProtocol\<close>: the messages of the protocol.  The theorems: parameters of a Bind
  message are read as they were sent, rows and errors become the messages the client expects, and
  what becomes of an error text that does not fit into the buffer.
\<close>

section \<open>Library functions\<close>

text \<open>
  \<open>snprintf\<close> with \<open>%f\<close> of a double, and \<open>strftime\<close> of what \<open>gmtime\<close> makes of a time in the formats of
  dates and of date-times; \<open>None\<close> where \<open>gmtime\<close> fails.
\<close>

record wire_lib =
  printDouble :: "double \<Rightarrow> byte list"
  printDate :: "int \<Rightarrow> byte list option"
  printDatetime :: "int \<Rightarrow> byte list option"

text \<open>Documented: \<open>%f\<close> prints at least one digit; a year of four digits gives texts of fixed length.\<close>

definition wire_lib_ok :: "wire_lib \<Rightarrow> bool" where
  "wire_lib_ok W \<longleftrightarrow> (\<forall>d. printDouble W d \<noteq> [])"

section \<open>Codes\<close>

definition ascii :: "char \<Rightarrow> byte" where "ascii = byte_of_char"

definition PG_PROTOCOL :: "int \<Rightarrow> int \<Rightarrow> int" where "PG_PROTOCOL m n = m * 2 ^ 16 + n"

text \<open>The parameter of \<open>PG_PROTOCOL_MAJOR\<close> is a signed \<open>int\<close>, its result unsigned.\<close>

definition PG_PROTOCOL_MAJOR :: "int \<Rightarrow> int" where
  "PG_PROTOCOL_MAJOR v = (to_signed 4 (v mod 2 ^ 32) div 2 ^ 16) mod 2 ^ 32"

definition CANCEL_REQUEST_CODE :: int where "CANCEL_REQUEST_CODE = PG_PROTOCOL 1234 5678"
definition NEGOTIATE_SSL_CODE :: int where "NEGOTIATE_SSL_CODE = PG_PROTOCOL 1234 5679"
definition AUTH_REQ_OK :: int where "AUTH_REQ_OK = 0"
definition PARAM_TEXT_MODE :: int where "PARAM_TEXT_MODE = 0"
definition PARAM_BINARY_MODE :: int where "PARAM_BINARY_MODE = 1"

datatype StartupAction = SSL | Normal

section \<open>Messages of the client\<close>

definition readQueryInfo :: "byte list \<Rightarrow> nat \<Rightarrow> byte list res" where
  "readQueryInfo d len = mapR fst (getNextString (newPgDataReader d len))"

text \<open>The number of parameters goes from an \<open>int16_t\<close> to a \<open>size_t\<close>.\<close>

definition readCount :: "pg_reader \<Rightarrow> err + nat \<times> pg_reader" where
  "readCount r = mapR (\<lambda>(v, r'). (nat (v mod 2 ^ 64), r')) (getNextShort r)"

definition readParseInfo :: "byte list \<Rightarrow> nat \<Rightarrow> err + byte list \<times> nat" where
  "readParseInfo d len =
     bindR (getNextString (newPgDataReader d len)) (\<lambda>(sStmt, r1).
     bindR (getNextString r1) (\<lambda>(sql, r2).
     mapR (\<lambda>(iParamNum, r3). (sql, iParamNum)) (readCount r2)))"

definition readColumnDescribeInfo :: "byte list \<Rightarrow> nat \<Rightarrow> unit res" where
  "readColumnDescribeInfo d len =
     bindR (getNextByte (newPgDataReader d len)) (\<lambda>(type, r1). mapR (\<lambda>_. ()) (getNextString r1))"

definition readMode :: "pg_reader \<Rightarrow> err + bool \<times> pg_reader" where
  "readMode r = bindR (getNextShort r) (\<lambda>(type, r').
     if type = PARAM_TEXT_MODE then Inr (False, r')
     else if type = PARAM_BINARY_MODE then Inr (True, r')
     else Inl (IOException (''Unexpected bind parameter mode: '' @ int_to_string type)))"

definition readBindParam :: "byte list \<Rightarrow> nat \<Rightarrow> nat \<Rightarrow> err + (bool \<times> byte list) list" where
  "readBindParam d len params =
     bindR (getNextString (newPgDataReader d len)) (\<lambda>(portal, r1).
     bindR (getNextString r1) (\<lambda>(stmt, r2).
     bindR (readCount r2) (\<lambda>(iExpectNum, r3).
       if iExpectNum \<noteq> params
       then Inl (IOException (''Parameter format number unmatch!, expect '' @ nat_to_string iExpectNum @ '', actual '' @ nat_to_string params))
       else bindR (traverseS (\<lambda>_. readMode) [0..<iExpectNum] r3) (\<lambda>(modes, r4).
       bindR (readCount r4) (\<lambda>(iExpectNum, r5).
         if iExpectNum \<noteq> params
         then Inl (IOException (''Parameter number unmatch!, expect '' @ nat_to_string iExpectNum @ '', actual '' @ nat_to_string params))
         else mapR (\<lambda>(values, r6). zip modes values) (traverseS (\<lambda>_. getNextStringWithLen) [0..<iExpectNum] r5))))))"

text \<open>The options of a start-up message; each name takes at least one byte.\<close>

function readOptions :: "pg_reader \<Rightarrow> pg_reader res" where
  "readOptions r =
     (if \<not> rd_hasData r then Inr r
      else bindR (getNextString r) (\<lambda>(sName, r1).
        if sName = [] then Inr r1
        else bindR (getNextString r1) (\<lambda>(sValue, r2). readOptions r2)))"
  by pat_completeness auto
termination
  by (relation "measure (\<lambda>r. rd_len r - rd_current r)")
    (auto simp: rd_hasData_def dest!: getNextString_progress)

text \<open>
  The outcome of a start-up message, and the session it asks to cancel.  \<open>sessions\<close> is the number of
  sessions, which \<open>getSession\<close> checks with an assertion.
\<close>

definition readStartup :: "nat \<Rightarrow> byte list \<Rightarrow> nat \<Rightarrow> nat option \<times> StartupAction res" where
  "readStartup sessions d len =
     (case getNextInt (newPgDataReader d len) of
        Inl e \<Rightarrow> (None, Inl e)
      | Inr (v, r1) \<Rightarrow> let proto = v mod 2 ^ 32 in
          if proto = CANCEL_REQUEST_CODE then
            (case bindR (getNextInt r1) (\<lambda>(pid, r2). mapR (\<lambda>(code, r3). nat (pid mod 2 ^ 32)) (getNextInt r2)) of
               Inl e \<Rightarrow> (None, Inl e)
             | Inr iBackendPID \<Rightarrow>
                 if iBackendPID < sessions
                 then (Some iBackendPID, Inl (IOException (''Cancel WorkerID='' @ nat_to_string iBackendPID)))
                 else (None, Inl (Stuck ''i < m_sessions.size()'')))
          else if proto = NEGOTIATE_SSL_CODE then (None, Inr SSL)
          else if PG_PROTOCOL_MAJOR proto < 3
          then (None, Inl (IOException (''Unsupported pg version:'' @ int_to_string (PG_PROTOCOL_MAJOR proto))))
          else (None, mapR (\<lambda>_. Normal) (readOptions r1)))"

section \<open>Messages of the server\<close>

text \<open>What a function of the protocol leaves: how much is to be sent, and the buffer.\<close>

definition pw_result :: "pg_writer \<Rightarrow> nat \<times> byte list" where
  "pw_result w = (pw_lastPrepare w, pw_data w)"

definition pw_text :: "string \<Rightarrow> pg_writer \<Rightarrow> pg_writer" where
  "pw_text s = pw_string (bytes_of s)"

text \<open>\<open>writeShortMessage(writer, 'Z', 'I')\<close>: the server is ready for the next query.\<close>

definition write_ready :: "pg_writer \<Rightarrow> pg_writer res" where
  "write_ready w = pw_message (ascii (CHR ''Z'')) (pw_int8 (ascii (CHR ''I''))) w"

definition write_status :: "string \<Rightarrow> string \<Rightarrow> pg_writer \<Rightarrow> pg_writer res" where
  "write_status name val w = pw_message (ascii (CHR ''S'')) (\<lambda>w. pw_text val (pw_text name w)) w"

text \<open>The assertion at the end of the messages that always fit.\<close>

definition not_full :: "pg_writer \<Rightarrow> err + nat \<times> byte list" where
  "not_full w = (if pw_bufferFull w then Inl (Stuck ''!writer.isBufferFull()'') else Inr (pw_result w))"

definition buildSync :: "byte list \<Rightarrow> err + nat \<times> byte list" where
  "buildSync d = bindR (write_ready (newPgDataWriter d)) not_full"

definition buildStartupResponse :: "byte list \<Rightarrow> int \<Rightarrow> err + nat \<times> byte list" where
  "buildStartupResponse d iSessionIndex =
     bindR (pw_message (ascii (CHR ''R'')) (pw_int32 AUTH_REQ_OK) (newPgDataWriter d)) (\<lambda>w1.
     bindR (write_status ''server_encoding'' ''UTF8'' w1) (\<lambda>w2.
     bindR (write_status ''client_encoding'' ''UTF8'' w2) (\<lambda>w3.
     bindR (write_status ''server_version'' ''9.0.4'' w3) (\<lambda>w4.
     bindR (pw_message (ascii (CHR ''K'')) (\<lambda>w. pw_int32 0 (pw_int32 iSessionIndex w)) w4) (\<lambda>w5.
     bindR (write_ready w5) not_full)))))"

definition error_fields :: "byte list \<Rightarrow> int \<Rightarrow> pg_writer \<Rightarrow> pg_writer" where
  "error_fields msg startPos w =
     (let w1 = pw_string msg (pw_int8 (ascii (CHR ''M'')) (pw_text ''00000'' (pw_int8 (ascii (CHR ''C''))
                (pw_text ''ERROR'' (pw_int8 (ascii (CHR ''S'')) w)))));
          w2 = (if startPos \<ge> 0 then pw_text (int_to_string startPos) (pw_int8 (ascii (CHR ''P'')) w1) else w1)
      in pw_int8 0 w2)"

text \<open>\<open>pBuffer->size() - 100\<close> is a \<open>size_t\<close>; each further attempt takes a unit of fuel.\<close>

fun buildException :: "nat \<Rightarrow> byte list \<Rightarrow> byte list \<Rightarrow> int \<Rightarrow> bool \<Rightarrow> err + nat \<times> byte list" where
  "buildException 0 d msg startPos sync = Inl OutOfFuel"
| "buildException (Suc fuel) d msg startPos sync =
     bindR (pw_message (ascii (CHR ''E'')) (error_fields msg startPos) (newPgDataWriter d)) (\<lambda>w1.
     bindR (if sync then write_ready w1 else Inr w1) (\<lambda>w2.
       if pw_bufferFull w2
       then buildException fuel (pw_data w2) (take (nat ((int (length d) - 100) mod 2 ^ 64)) msg) startPos sync
       else Inr (pw_result w2)))"

definition buildExecutionDone :: "byte list \<Rightarrow> bool \<Rightarrow> bool \<Rightarrow> byte list \<Rightarrow> bool \<Rightarrow> err + nat \<times> byte list" where
  "buildExecutionDone d parsed bind sInfo sync =
     bindR (if parsed then pw_message (ascii (CHR ''1'')) (\<lambda>w. w) (newPgDataWriter d) else Inr (newPgDataWriter d)) (\<lambda>w1.
     bindR (if bind then pw_message (ascii (CHR ''2'')) (\<lambda>w. w) w1 else Inr w1) (\<lambda>w2.
     bindR (pw_message (ascii (CHR ''C'')) (pw_string sInfo) w2) (\<lambda>w3.
     bindR (if sync then write_ready w3 else Inr w3) not_full)))"

section \<open>Rows\<close>

text \<open>\<open>m_typeHandler\<close>: the code of a type on the wire, and how its values are printed.\<close>

definition pg_type :: "DBDataType \<Rightarrow> int option" where
  "pg_type type = (case type of
       DT_BYTES \<Rightarrow> Some 17 | DT_BOOL \<Rightarrow> Some 16 | DT_INT16 \<Rightarrow> Some 21 | DT_INT32 \<Rightarrow> Some 23 | DT_INT64 \<Rightarrow> Some 20
     | DT_STRING \<Rightarrow> Some 1043 | DT_FLOAT \<Rightarrow> Some 700 | DT_DOUBLE \<Rightarrow> Some 701 | DT_DATE \<Rightarrow> Some 1082
     | DT_DATETIME \<Rightarrow> Some 1114 | DT_UNKNOWN \<Rightarrow> None)"

definition write_time :: "byte list option \<Rightarrow> nat \<Rightarrow> pg_writer \<Rightarrow> pg_writer res" where
  "write_time pTime len w = (case pTime of None \<Rightarrow> Inr (pw_null w) | Some s \<Rightarrow> addDateTimeAsString s len w)"

definition write_value :: "wire_lib \<Rightarrow> lib \<Rightarrow> DBDataType \<Rightarrow> eresult \<Rightarrow> pg_writer \<Rightarrow> pg_writer res" where
  "write_value W L type result w = (case type of
       DT_BYTES \<Rightarrow> mapR (\<lambda>s. addBytesString (bytes_of s) w) (getString L result)
     | DT_BOOL \<Rightarrow> mapR (\<lambda>v. addString (bytes_of (if v \<noteq> 0 then ''true'' else ''false'')) w) (getInt L result)
     | DT_INT16 \<Rightarrow> mapR (\<lambda>v. snd (addValueAsString (bytes_of (int_to_string v)) w)) (getInt L result)
     | DT_INT32 \<Rightarrow> mapR (\<lambda>v. snd (addValueAsString (bytes_of (int_to_string v)) w)) (getInt L result)
     | DT_INT64 \<Rightarrow> mapR (\<lambda>v. snd (addValueAsString (bytes_of (int_to_string v)) w)) (getInt L result)
     | DT_STRING \<Rightarrow> mapR (\<lambda>s. addString (bytes_of s) w) (getString L result)
     | DT_FLOAT \<Rightarrow> mapR (\<lambda>v. snd (addValueAsString (printDouble W v) w)) (getDouble L result)
     | DT_DOUBLE \<Rightarrow> mapR (\<lambda>v. snd (addValueAsString (printDouble W v) w)) (getDouble L result)
     | DT_DATE \<Rightarrow> bindR (getInt L result) (\<lambda>v. write_time (printDate W v) 10 w)
     | DT_DATETIME \<Rightarrow> bindR (getInt L result) (\<lambda>v. write_time (printDatetime W v) 19 w)
     | DT_UNKNOWN \<Rightarrow> Inl (IOException (''Unexpected data type:'' @ getTypeName type)))"

definition describe_column :: "'s plan_ops \<Rightarrow> 's \<Rightarrow> nat \<Rightarrow> pg_writer \<Rightarrow> pg_writer res" where
  "describe_column C s i w =
     bindR (o_getProjectionName C s i) (\<lambda>sName.
     bindR (o_getResultType C s i) (\<lambda>dataType. case pg_type dataType of
         None \<Rightarrow> Inl (IOException (''Unexpected data type:'' @ getTypeName dataType))
       | Some t \<Rightarrow> Inr (pw_int16 PARAM_TEXT_MODE (pw_int32 (-1) (pw_int16 (-1) (pw_int32 t
           (pw_int16 (int i + 1) (pw_int32 0 (pw_text sName w)))))))))"

fun describe_columns :: "'s plan_ops \<Rightarrow> 's \<Rightarrow> nat list \<Rightarrow> pg_writer \<Rightarrow> (err + unit) \<times> pg_writer" where
  "describe_columns C s [] w = (Inr (), w)"
| "describe_columns C s (i # is) w = (case describe_column C s i w of
     Inl e \<Rightarrow> (Inl e, w)
   | Inr w' \<Rightarrow> describe_columns C s is w')"

definition buildColumnDescription :: "'s plan_ops \<Rightarrow> 's \<Rightarrow> nat \<Rightarrow> byte list \<Rightarrow> (err + nat) \<times> byte list" where
  "buildColumnDescription C s columnNum d =
     (case describe_columns C s [0..<columnNum] (pw_int16 (int columnNum) (pw_begin (ascii (CHR ''T'')) (newPgDataWriter d))) of
        (Inl e, w) \<Rightarrow> (Inl e, pw_data w)
      | (Inr (), w) \<Rightarrow> (case pw_end w of
            Inl e \<Rightarrow> (Inl e, pw_data w)
          | Inr w' \<Rightarrow> (if pw_bufferFull w' then Inl (IOException ''not enough network buffer-1'') else Inr (pw_lastPrepare w'), pw_data w')))"

definition data_column :: "wire_lib \<Rightarrow> lib \<Rightarrow> 's plan_ops \<Rightarrow> 's \<Rightarrow> nat \<Rightarrow> pg_writer \<Rightarrow> pg_writer res" where
  "data_column W L C s i w =
     bindR (o_getResultType C s i) (\<lambda>type.
     bindR (o_getResult C s i type) (\<lambda>result.
       if isNull result then Inr (pw_null w) else write_value W L type result w))"

text \<open>
  The columns of a row; when one throws, it and those after it are written as null before the
  exception goes on.
\<close>

fun data_columns ::
  "wire_lib \<Rightarrow> lib \<Rightarrow> 's plan_ops \<Rightarrow> 's \<Rightarrow> nat list \<Rightarrow> pg_writer \<Rightarrow> (err + unit) \<times> pg_writer" where
  "data_columns W L C s [] w = (Inr (), w)"
| "data_columns W L C s (i # is) w = (case data_column W L C s i w of
     Inr w' \<Rightarrow> data_columns W L C s is w'
   | Inl e \<Rightarrow> (Inl e, foldl (\<lambda>w _. pw_null w) w (i # is)))"

definition buildData ::
  "wire_lib \<Rightarrow> lib \<Rightarrow> 's plan_ops \<Rightarrow> 's \<Rightarrow> nat \<Rightarrow> pg_writer \<Rightarrow> (err + unit) \<times> pg_writer" where
  "buildData W L C s columnNum w =
     (case data_columns W L C s [0..<columnNum] (pw_int16 (int columnNum) (pw_begin (ascii (CHR ''D'')) w)) of
        (Inl e, w') \<Rightarrow> (Inl e, w')
      | (Inr (), w') \<Rightarrow> (case pw_end w' of Inl e \<Rightarrow> (Inl e, w') | Inr w'' \<Rightarrow> (Inr (), w'')))"

section \<open>Bind messages\<close>

text \<open>A Bind message as a client writes it: portal, statement, modes, values.\<close>

definition bind_message :: "byte list \<Rightarrow> byte list \<Rightarrow> (bool \<times> byte list) list \<Rightarrow> byte list" where
  "bind_message portal stmt ps = portal @ [0] @ stmt @ [0] @
     be_bytes 2 (int (length ps)) @ concat (map (\<lambda>p. be_bytes 2 (if fst p then 1 else 0)) ps) @
     be_bytes 2 (int (length ps)) @ concat (map (\<lambda>p. be_bytes 4 (int (length (snd p))) @ snd p) ps)"

lemma traverseS_read:
  assumes "\<And>x pre rest r. x \<in> set xs \<Longrightarrow> rd_at pre (enc x @ rest) r \<Longrightarrow> rd_hasData r \<Longrightarrow>
      \<exists>r'. f r = Inr (out x, r') \<and> rd_at (pre @ enc x) rest r' \<and> rd_len r' = rd_len r"
    and "\<And>x. x \<in> set xs \<Longrightarrow> enc x \<noteq> []"
    and "length ks = length xs" "rd_at pre (concat (map enc xs) @ rest) r" "length pre + length (concat (map enc xs)) \<le> rd_len r"
  shows "\<exists>r'. traverseS (\<lambda>_. f) ks r = Inr (map out xs, r') \<and> rd_at (pre @ concat (map enc xs)) rest r' \<and> rd_len r' = rd_len r"
  using assms
proof (induction xs arbitrary: ks pre r)
  case (Cons x xs)
  obtain k ks' where ks: "ks = k # ks'" "length ks' = length xs" using Cons.prems(3) by (cases ks) auto
  have at: "rd_at pre (enc x @ concat (map enc xs) @ rest) r" using Cons.prems(4) by simp
  have "rd_hasData r" using Cons.prems(2) [of x] Cons.prems(5) rd_at_current [OF at] by (cases "enc x") (simp_all add: rd_hasData_def)
  with Cons.prems(1) [OF _ at] obtain r1 where r1: "f r = Inr (out x, r1)" "rd_at (pre @ enc x) (concat (map enc xs) @ rest) r1" "rd_len r1 = rd_len r"
    by auto
  have "\<exists>r'. traverseS (\<lambda>_. f) ks' r1 = Inr (map out xs, r') \<and> rd_at ((pre @ enc x) @ concat (map enc xs)) rest r' \<and> rd_len r' = rd_len r1"
    using Cons.prems r1 by (intro Cons.IH ks(2)) auto
  then show ?case using r1 ks by auto
qed simp


lemma be_bytes_empty: "be_bytes n v = [] \<longleftrightarrow> n = 0"
  using length_be_bytes [of n v] by (cases "be_bytes n v") auto

lemma readCount_at:
  assumes "rd_at pre (be_bytes 2 (int n) @ rest) r" "rd_hasData r" "n < 2 ^ 15"
  shows "\<exists>r'. readCount r = Inr (n, r') \<and> rd_at (pre @ be_bytes 2 (int n)) rest r' \<and> rd_len r' = rd_len r"
  using getNextShort_at [OF assms(1,2)] assms(3) by (auto simp: readCount_def)

lemma readMode_at:
  assumes "rd_at pre (be_bytes 2 (if b then 1 else 0) @ rest) r" "rd_hasData r"
  shows "\<exists>r'. readMode r = Inr (b, r') \<and> rd_at (pre @ be_bytes 2 (if b then 1 else 0)) rest r' \<and> rd_len r' = rd_len r"
  using getNextShort_at [OF assms] by (auto simp: readMode_def PARAM_TEXT_MODE_def PARAM_BINARY_MODE_def)

text \<open>
  C28. A Bind message read back: whatever the session's block holds behind the message, the server
  gets the modes and values of the parameters exactly as the client wrote them; a message with
  another number of parameters than the statement has is refused.
\<close>

theorem bind_message_read:
  assumes "0 \<notin> set portal" "0 \<notin> set stmt" "length ps < 2 ^ 15" "\<forall>p \<in> set ps. length (snd p) < 2 ^ 31"
  shows "readBindParam (bind_message portal stmt ps @ stale) (length (bind_message portal stmt ps)) params =
    (if params = length ps then Inr ps
     else Inl (IOException (''Parameter format number unmatch!, expect '' @ nat_to_string (length ps) @ '', actual '' @ nat_to_string params)))"
proof -
  let ?n = "length ps" and ?modes = "concat (map (\<lambda>p. be_bytes 2 (if fst p then 1 else 0)) ps)"
    and ?vals = "concat (map (\<lambda>p. be_bytes 4 (int (length (snd p))) @ snd p) ps)" and ?cnt = "be_bytes 2 (int (length ps))"
    and ?len = "length (bind_message portal stmt ps)"
  let ?r0 = "newPgDataReader (bind_message portal stmt ps @ stale) ?len"
  have len: "?len = length portal + length stmt + 6 + length ?modes + length ?vals" by (simp add: bind_message_def)
  have "rd_at [] (portal @ 0 # stmt @ [0] @ ?cnt @ ?modes @ ?cnt @ ?vals @ stale) ?r0" "rd_hasData ?r0"
    by (simp_all add: rd_at_def newPgDataReader_def bind_message_def rd_hasData_def)
  from getNextString_at [OF this assms(1)] obtain r1 where
    r1: "getNextString ?r0 = Inr (portal, r1)" "rd_at (portal @ [0]) (stmt @ 0 # ?cnt @ ?modes @ ?cnt @ ?vals @ stale) r1" "rd_len r1 = ?len"
    by (auto simp: newPgDataReader_def)
  have "rd_hasData r1" using rd_at_current [OF r1(2)] r1(3) len by (simp add: rd_hasData_def)
  from getNextString_at [OF r1(2) this assms(2)] obtain r2 where
    r2: "getNextString r1 = Inr (stmt, r2)" "rd_at (portal @ [0] @ stmt @ [0]) (?cnt @ ?modes @ ?cnt @ ?vals @ stale) r2" "rd_len r2 = ?len"
    using r1(3) by auto
  have "rd_hasData r2" using rd_at_current [OF r2(2)] r2(3) len by (simp add: rd_hasData_def)
  from readCount_at [OF r2(2) this assms(3)] obtain r3 where
    r3: "readCount r2 = Inr (?n, r3)" "rd_at (portal @ [0] @ stmt @ [0] @ ?cnt) (?modes @ ?cnt @ ?vals @ stale) r3" "rd_len r3 = ?len"
    using r2(3) by auto
  show ?thesis
  proof (cases "params = ?n")
    case False
    then show ?thesis using r1(1) r2(1) r3(1) by (simp add: readBindParam_def)
  next
    case True
    have "\<exists>r'. traverseS (\<lambda>_. readMode) [0..<?n] r3 = Inr (map fst ps, r') \<and>
        rd_at ((portal @ [0] @ stmt @ [0] @ ?cnt) @ ?modes) (?cnt @ ?vals @ stale) r' \<and> rd_len r' = rd_len r3"
      using r3(3) len
      by (intro traverseS_read [OF readMode_at _ _ r3(2)]) (auto simp: be_bytes_empty)
    then obtain r4 where r4: "traverseS (\<lambda>_. readMode) [0..<?n] r3 = Inr (map fst ps, r4)"
      "rd_at (portal @ [0] @ stmt @ [0] @ ?cnt @ ?modes) (?cnt @ ?vals @ stale) r4" "rd_len r4 = ?len" using r3(3) by auto
    have "rd_hasData r4" using rd_at_current [OF r4(2)] r4(3) len by (simp add: rd_hasData_def)
    from readCount_at [OF r4(2) this assms(3)] obtain r5 where
      r5: "readCount r4 = Inr (?n, r5)" "rd_at (portal @ [0] @ stmt @ [0] @ ?cnt @ ?modes @ ?cnt) (?vals @ stale) r5" "rd_len r5 = ?len"
      using r4(3) by auto
    have "\<exists>r'. traverseS (\<lambda>_. getNextStringWithLen) [0..<?n] r5 = Inr (map snd ps, r') \<and>
        rd_at ((portal @ [0] @ stmt @ [0] @ ?cnt @ ?modes @ ?cnt) @ ?vals) stale r' \<and> rd_len r' = rd_len r5"
      using r5(3) len assms(4)
      by (intro traverseS_read [OF _ _ _ r5(2)] getNextStringWithLen_at) (auto simp: be_bytes_empty)
    then obtain r6 where r6: "traverseS (\<lambda>_. getNextStringWithLen) [0..<?n] r5 = Inr (map snd ps, r6)" by blast
    show ?thesis using r1(1) r2(1) r3(1) r4(1) r5(1) r6 True by (simp add: readBindParam_def zip_map_fst_snd)
  qed
qed


theorem bind_message_read_witness:
  "readBindParam (bind_message [] (bytes_of ''s'') [(True, [0, 7]), (False, bytes_of ''x'')] @ [9])
     (length (bind_message [] (bytes_of ''s'') [(True, [0, 7]), (False, bytes_of ''x'')])) 2 =
   Inr [(True, [0, 7]), (False, bytes_of ''x'')]"
  using bind_message_read [of "[]" "bytes_of ''s''" "[(True, [0, 7]), (False, bytes_of ''x'')]" "[9]" 2]
  by (simp add: bytes_of_def byte_of_char_def)

section \<open>Errors\<close>

definition error_payload :: "byte list \<Rightarrow> int \<Rightarrow> byte list" where
  "error_payload msg startPos =
     ascii (CHR ''S'') # bytes_of ''ERROR'' @ 0 # ascii (CHR ''C'') # bytes_of ''00000'' @ 0 # ascii (CHR ''M'') # msg @ 0 #
     (if startPos \<ge> 0 then ascii (CHR ''P'') # bytes_of (int_to_string startPos) @ [0] else []) @ [0]"

lemma length_nat_to_string: "n < 10 ^ Suc k \<Longrightarrow> length (nat_to_string n) \<le> Suc k"
proof (induction k arbitrary: n)
  case 0
  then show ?case by (subst nat_to_string.simps) simp
next
  case (Suc k)
  then have "n div 10 < 10 ^ Suc k" by (simp add: less_mult_imp_div_less)
  then have "length (nat_to_string (n div 10)) \<le> Suc k" by (rule Suc.IH)
  then show ?case by (subst nat_to_string.simps) simp
qed

lemma length_position:
  assumes "startPos < 2 ^ 31"
  shows "0 \<le> startPos \<Longrightarrow> length (int_to_string startPos) \<le> 10"
  using length_nat_to_string [of "nat startPos" 9] assms by (simp add: int_to_string_def nat_less_iff)

lemma length_error_payload:
  "startPos < 2 ^ 31 \<Longrightarrow> length (error_payload msg startPos) \<le> length msg + 30"
  using length_position [of startPos] by (auto simp: error_payload_def)

lemma error_fields_emits:
  assumes "length msg + 1 < 2 ^ 32" "startPos < 2 ^ 31"
  shows "emits (error_payload msg startPos) (error_fields msg startPos)"
proof -
  have short: "emits (bytes_of t @ [0]) (pw_text t)" if "length t \<le> 10" for t
    unfolding pw_text_def using that by (intro pw_string_emits) simp
  have five: "length ''ERROR'' \<le> 10" "length ''00000'' \<le> 10" by simp_all
  note start = emits_comp [OF pw_int8_emits [of "ascii (CHR ''S'')"] short [OF five(1)]]
  note code = emits_comp [OF emits_comp [OF start pw_int8_emits [of "ascii (CHR ''C'')"]] short [OF five(2)]]
  note msg = emits_comp [OF emits_comp [OF code pw_int8_emits [of "ascii (CHR ''M'')"]] pw_string_emits [OF assms(1)]]
  show ?thesis
  proof (cases "startPos \<ge> 0")
    case True
    note pos = emits_comp [OF emits_comp [OF msg pw_int8_emits [of "ascii (CHR ''P'')"]] short [OF length_position [OF assms(2) True]]]
    from emits_comp [OF pos pw_int8_emits [of 0]] show ?thesis
      using True by (simp add: error_fields_def [abs_def] error_payload_def Let_def)
  next
    case False
    from emits_comp [OF msg pw_int8_emits [of 0]] show ?thesis
      using False by (simp add: error_fields_def [abs_def] error_payload_def Let_def)
  qed
qed

definition ready_frame :: "byte list" where
  "ready_frame = frame (ascii (CHR ''Z'')) [ascii (CHR ''I'')]"

definition sync_frame :: "bool \<Rightarrow> byte list" where
  "sync_frame sync = (if sync then ready_frame else [])"

lemma newPgDataWriter_ready: "length d < 2 ^ 32 \<Longrightarrow> pw_ready (newPgDataWriter d)"
  by (simp add: pw_ready_def pw_ok_def newPgDataWriter_def)

lemma newPgDataWriter_simps [simp]:
  "pw_data (newPgDataWriter d) = d" "pw_written (newPgDataWriter d) = 0" "pw_lastPrepare (newPgDataWriter d) = 0"
  "prepared (newPgDataWriter d) = []" "\<not> pw_bufferFull (newPgDataWriter d)"
  by (simp_all add: newPgDataWriter_def prepared_def)

text \<open>A message that certainly fits.\<close>

lemma message_fits:
  assumes "emits payload body" "pw_ready w" "pw_written w + 5 + length payload < length (pw_data w)"
  obtains w' where "pw_message c body w = Inr w'" "pw_ready w'" "\<not> pw_bufferFull w'" "length (pw_data w') = length (pw_data w)"
    "prepared w' = prepared w @ frame c payload" "pw_written w' = pw_written w + 5 + length payload"
proof (rule message_cases [OF assms(1,2), of c])
  fix w' assume "length (pw_data w) \<le> pw_written w + 5 + length payload"
  then show thesis using assms(3) by simp
qed (rule that)

lemma ready_fits:
  assumes "pw_ready w" "\<not> pw_bufferFull w" "sync \<longrightarrow> pw_written w + 6 < length (pw_data w)"
  obtains w' where "(if sync then write_ready w else Inr w) = Inr w'" "pw_ready w'" "\<not> pw_bufferFull w'"
    "length (pw_data w') = length (pw_data w)" "prepared w' = prepared w @ sync_frame sync"
proof (cases sync)
  case True
  then have "pw_written w + 5 + length [ascii (CHR ''I'')] < length (pw_data w)" using assms(3) by simp
  from message_fits [OF pw_int8_emits assms(1) this, of "ascii (CHR ''Z'')"] obtain w' where
    w': "write_ready w = Inr w'" "pw_ready w'" "\<not> pw_bufferFull w'" "length (pw_data w') = length (pw_data w)"
      "prepared w' = prepared w @ ready_frame" unfolding write_ready_def ready_frame_def .
  show ?thesis by (rule that [of w']) (use w' True in \<open>simp_all add: sync_frame_def\<close>)
next
  case False
  show ?thesis by (rule that [of w]) (use assms False in \<open>simp_all add: sync_frame_def\<close>)
qed

lemma pw_result_prepared: "pw_ok w \<Longrightarrow> take (fst (pw_result w)) (snd (pw_result w)) = prepared w"
  by (simp add: pw_result_def prepared_def)


section \<open>What becomes of an error\<close>

lemma take_pos: "int (length d) \<ge> 100 \<Longrightarrow> length d < 2 ^ 32 \<Longrightarrow> nat ((int (length d) - 100) mod 2 ^ 64) = length d - 100"
  by (simp add: nat_diff_distrib)

text \<open>An error that certainly fits, ready message and all.\<close>

lemma buildException_fits:
  assumes "length d < 2 ^ 32" "length msg + 1 < 2 ^ 32" "startPos < 2 ^ 31"
    and "5 + length (error_payload msg startPos) + (if sync then 6 else 0) < length d"
  shows "\<exists>k d'. buildException (Suc n) d msg startPos sync = Inr (k, d') \<and> length d' = length d \<and> k \<le> length d \<and>
    take k d' = frame (ascii (CHR ''E'')) (error_payload msg startPos) @ sync_frame sync"
proof -
  have "pw_written (newPgDataWriter d) + 5 + length (error_payload msg startPos) < length (pw_data (newPgDataWriter d))"
    using assms(4) by (simp split: if_splits)
  from message_fits [OF error_fields_emits [OF assms(2,3)] newPgDataWriter_ready [OF assms(1)] this, of "ascii (CHR ''E'')"]
  obtain w1 where w1: "pw_message (ascii (CHR ''E'')) (error_fields msg startPos) (newPgDataWriter d) = Inr w1" "pw_ready w1"
    "\<not> pw_bufferFull w1" "length (pw_data w1) = length d" "prepared w1 = frame (ascii (CHR ''E'')) (error_payload msg startPos)"
    "pw_written w1 = 5 + length (error_payload msg startPos)" by auto
  have "sync \<longrightarrow> pw_written w1 + 6 < length (pw_data w1)" using assms(4) w1(4,6) by (simp split: if_splits)
  from ready_fits [OF w1(2,3) this] obtain w2 where w2: "(if sync then write_ready w1 else Inr w1) = Inr w2" "pw_ready w2"
    "\<not> pw_bufferFull w2" "length (pw_data w2) = length (pw_data w1)" "prepared w2 = prepared w1 @ sync_frame sync" .
  then have "buildException (Suc n) d msg startPos sync = Inr (pw_result w2)" using w1(1) by simp
  then show ?thesis using w2 w1(4,5) by (simp add: pw_result_def prepared_def pw_ready_def pw_ok_def)
qed

lemma buildException_attempts:
  assumes "146 \<le> length d" "length d < 2 ^ 32" "length msg + 1 < 2 ^ 32" "startPos < 2 ^ 31"
    and "sync \<longrightarrow> 5 + length (error_payload msg startPos) < length d"
  shows "\<exists>k d' m. buildException (Suc (Suc n)) d msg startPos sync = Inr (k, d') \<and> k \<le> length d \<and>
    take k d' = frame (ascii (CHR ''E'')) (error_payload m startPos) @ sync_frame sync \<and>
    (m = msg \<or> m = take (length d - 100) msg \<and> length d \<le> 11 + length (error_payload msg startPos))"
proof (cases "5 + length (error_payload msg startPos) + (if sync then 6 else 0) < length d")
  case True
  from buildException_fits [OF assms(2-4) this, of "Suc n"] show ?thesis by blast
next
  case False
  let ?E = "ascii (CHR ''E'')" and ?w = "newPgDataWriter d" and ?m = "take (length d - 100) msg"
  have retry: "\<exists>k d'. buildException (Suc n) d1 ?m startPos sync = Inr (k, d') \<and> length d' = length d1 \<and> k \<le> length d1 \<and>
      take k d' = frame ?E (error_payload ?m startPos) @ sync_frame sync" if "length d1 = length d" for d1
  proof (rule buildException_fits)
    have "length (error_payload ?m startPos) \<le> length d - 100 + 30"
      using length_error_payload [OF assms(4), of ?m] by simp
    then show "5 + length (error_payload ?m startPos) + (if sync then 6 else 0) < length d1" using that assms(1) by auto
  qed (use assms that in simp_all)
  have again: "?thesis" if w1: "pw_message ?E (error_fields msg startPos) ?w = Inr w1"
    and w2: "(if sync then write_ready w1 else Inr w1) = Inr w2" "pw_bufferFull w2" "length (pw_data w2) = length d" for w1 w2
  proof -
    have "buildException (Suc (Suc n)) d msg startPos sync = buildException (Suc n) (pw_data w2) ?m startPos sync"
      using w1 w2 take_pos [of d] assms(1,2) by (subst buildException.simps) simp
    then show ?thesis using retry [OF w2(3)] False w2(3) by (auto split: if_splits)
  qed
  from error_fields_emits [OF assms(3,4)] newPgDataWriter_ready [OF assms(2)] show ?thesis
  proof (cases rule: message_cases [where c = ?E])
    case (full w')
    then have "\<not> sync" using assms(5) by auto
    then show ?thesis using full by (intro again [of w' w']) simp_all
  next
    case (fits w1)
    show ?thesis
    proof (cases sync)
      case no: False
      then have "buildException (Suc (Suc n)) d msg startPos sync = Inr (pw_result w1)"
        using fits by (subst buildException.simps) simp
      then show ?thesis using fits no by (auto simp: pw_result_def prepared_def sync_frame_def pw_ready_def pw_ok_def)
    next
      case True
      from pw_int8_emits [of "ascii (CHR ''I'')"] fits(2) show ?thesis
      proof (cases rule: message_cases [where c = "ascii (CHR ''Z'')"])
        case (full w2)
        then show ?thesis using fits True by (intro again [of w1 w2]) (simp_all add: write_ready_def)
      next
        case sent: (fits w2)
        then have "buildException (Suc (Suc n)) d msg startPos sync = Inr (pw_result w2)"
          using fits True by (subst buildException.simps) (simp add: write_ready_def)
        then show ?thesis using fits sent True
          by (auto simp: pw_result_def prepared_def sync_frame_def ready_frame_def pw_ready_def pw_ok_def)
      qed
    qed
  qed
qed

text \<open>
  C29. An error always reaches the client, after at most two attempts to build it: with its whole
  text, or with its first \<open>size - 100\<close> bytes when it does not fit; where the client waits for it, the
  message that the server is ready follows.  With the ready message this needs an error message that
  fits by itself; the next theorem shows what happens otherwise.
\<close>

theorem exception_reported:
  assumes "146 \<le> length d" "length d < 2 ^ 32" "length msg + 1 < 2 ^ 32" "startPos < 2 ^ 31"
    and "sync \<longrightarrow> 5 + length (error_payload msg startPos) < length d"
  shows "\<exists>k d' m. buildException (Suc (Suc n)) d msg startPos sync = Inr (k, d') \<and> k \<le> length d \<and>
    take k d' = frame (ascii (CHR ''E'')) (error_payload m startPos) @ sync_frame sync \<and>
    (m = msg \<or> m = take (length d - 100) msg \<and> length d \<le> 11 + length (error_payload msg startPos))"
  by (rule buildException_attempts [OF assms])

theorem exception_reported_witness:
  "\<exists>k d' m. buildException (Suc (Suc 0)) (replicate 200 0) (bytes_of ''canceled'') (-1) True = Inr (k, d') \<and> k \<le> length (replicate 200 (0 :: byte)) \<and>
    take k d' = frame (ascii (CHR ''E'')) (error_payload m (-1)) @ sync_frame True \<and>
    (m = bytes_of ''canceled'' \<or> m = take (length (replicate 200 (0 :: byte)) - 100) (bytes_of ''canceled'') \<and>
      length (replicate 200 (0 :: byte)) \<le> 11 + length (error_payload (bytes_of ''canceled'') (-1)))"
  by (rule exception_reported) (simp_all add: error_payload_def)

text \<open>
  The writer keeps the bytes of an unfinished message when its buffer is full, and \<open>begin\<close> of the
  next message clears the mark.
\<close>

lemma emits_full: "emits bs f \<Longrightarrow> pw_ok w \<Longrightarrow> pw_bufferFull w \<Longrightarrow> f w = w"
  by (simp add: emits_def)

lemma emits_fits: "emits bs f \<Longrightarrow> pw_ok w \<Longrightarrow> \<not> pw_bufferFull w \<Longrightarrow> pw_written w + length bs < length (pw_data w) \<Longrightarrow> appended bs w (f w)"
  by (auto simp: emits_def)

definition error_head :: "byte list" where
  "error_head = ascii (CHR ''S'') # bytes_of ''ERROR'' @ 0 # ascii (CHR ''C'') # bytes_of ''00000'' @ 0 # [ascii (CHR ''M'')]"

definition lost_ready :: "byte list" where
  "lost_ready = ascii (CHR ''Z'') # be_bytes 4 0 @ [ascii (CHR ''I'')]"

lemma error_fields_overflow:
  assumes "pw_ok w" "\<not> pw_bufferFull w" "pw_written w + 15 < length (pw_data w)" "length (pw_data w) < pw_written w + 16 + length msg"
    and "length msg + 1 < 2 ^ 32" "startPos < 2 ^ 31"
  shows "\<exists>w'. error_fields msg startPos w = w'\<lparr>pw_bufferFull := True\<rparr> \<and> appended error_head w w'"
proof -
  have short: "emits (bytes_of t @ [0]) (pw_text t)" if "length t \<le> 10" for t
    unfolding pw_text_def using that by (intro pw_string_emits) simp
  have five: "length ''ERROR'' \<le> 10" "length ''00000'' \<le> 10" by simp_all
  note start = emits_comp [OF pw_int8_emits [of "ascii (CHR ''S'')"] short [OF five(1)]]
  note code = emits_comp [OF emits_comp [OF start pw_int8_emits [of "ascii (CHR ''C'')"]] short [OF five(2)]]
  note head = emits_comp [OF code pw_int8_emits [of "ascii (CHR ''M'')"]]
  let ?w' = "pw_int8 (ascii (CHR ''M'')) (pw_text ''00000'' (pw_int8 (ascii (CHR ''C'')) (pw_text ''ERROR'' (pw_int8 (ascii (CHR ''S'')) w))))"
  have a: "appended error_head w ?w'"
    using emits_fits [OF head assms(1,2)] assms(3) by (simp add: error_head_def)
  then have ok: "pw_ok ?w'" and w': "\<not> pw_bufferFull ?w'" "pw_written ?w' = pw_written w + 15" "length (pw_data ?w') = length (pw_data w)"
    using appended_ok [OF a assms(1)] by (simp_all add: appended_def error_head_def)
  let ?full = "?w'\<lparr>pw_bufferFull := True\<rparr>"
  have "pw_string msg ?w' = ?full"
    using w' assms(4,5) by (simp add: pw_string_def addStringZeroEnd_def pw_check_def)
  moreover have full: "pw_ok ?full" "pw_bufferFull ?full" using ok by (simp_all add: pw_ok_def)
  have "pw_int8 c ?full = ?full" for c by (rule emits_full [OF pw_int8_emits full])
  moreover have "pw_text (int_to_string startPos) ?full = ?full" if "startPos \<ge> 0"
    by (rule emits_full [OF short [OF length_position [OF assms(6) that]] full])
  ultimately have "error_fields msg startPos w = ?full" by (simp add: error_fields_def Let_def)
  with a show ?thesis by blast
qed

text \<open>
  C35. An error text that does not fit into the session's block, where the client waits for the ready
  message: the ready message is written into the unfinished error message, and both are sent as one
  error message with a mangled text.  No ready message is sent at all.
\<close>

theorem long_exception_loses_ready:
  assumes "26 < length d" "length d < 21 + length msg" "length d < 2 ^ 32" "length msg + 1 < 2 ^ 32" "startPos < 2 ^ 31"
  shows "\<exists>k d'. buildException (Suc n) d msg startPos True = Inr (k, d') \<and>
    take k d' = frame (ascii (CHR ''E'')) (error_head @ lost_ready)"
proof -
  let ?E = "ascii (CHR ''E'')" and ?Z = "ascii (CHR ''Z'')" and ?I = "ascii (CHR ''I'')"
  have ok: "pw_ok (newPgDataWriter d)" using newPgDataWriter_ready [OF assms(3)] by (simp add: pw_ready_def)
  from begin_emits [OF emits_id ok, of ?E] assms(1)
  have b: "appended (?E # be_bytes 4 0) (newPgDataWriter d) (pw_begin ?E (newPgDataWriter d))" by auto
  let ?w0 = "pw_begin ?E (newPgDataWriter d)"
  have w0: "pw_ok ?w0" "\<not> pw_bufferFull ?w0" "pw_written ?w0 = 5" "length (pw_data ?w0) = length d"
    using appended_ok [OF b ok] b by (simp_all add: appended_def)
  from error_fields_overflow [OF w0(1,2), of msg startPos] assms w0 obtain w1 where
    w1: "error_fields msg startPos ?w0 = w1\<lparr>pw_bufferFull := True\<rparr>" "appended error_head ?w0 w1" by auto
  have m1: "pw_message ?E (error_fields msg startPos) (newPgDataWriter d) = Inr (w1\<lparr>pw_bufferFull := True\<rparr>)"
    by (simp add: pw_message_def w1(1) pw_end_def)
  have ok1: "pw_ok w1" "\<not> pw_bufferFull w1" by (rule appended_ok [OF w1(2) w0(1)]) (use w1(2) in \<open>simp add: appended_def\<close>)
  have begin1: "pw_begin c (w1\<lparr>pw_bufferFull := True\<rparr>) = pw_begin c w1" for c
    by (simp add: pw_begin_def)
  have len1: "pw_written w1 = 20" "length (pw_data w1) = length d" "pw_lastPrepare w1 = 0"
    using w1(2) w0 b by (simp_all add: appended_def error_head_def)
  let ?w2 = "pw_int8 ?I (pw_begin ?Z w1)"
  from begin_emits [OF pw_int8_emits [of ?I] ok1(1), of ?Z] assms(1) len1
  have a2: "appended (?Z # be_bytes 4 0 @ [?I]) w1 ?w2" by auto
  have "appended ((?E # be_bytes 4 0) @ error_head @ lost_ready) (newPgDataWriter d) ?w2"
    using appended_trans [OF appended_trans [OF b w1(2)] a2] by (simp add: lost_ready_def)
  then have "written_bytes ?w2 = prepared ?w2 @ ?E # be_bytes 4 0 @ (error_head @ lost_ready)" "\<not> pw_bufferFull ?w2"
    by (auto simp: appended_def written_bytes_def prepared_def)
  from end_frame [OF appended_ok [OF a2 ok1(1)] this(2,1)] obtain w3 where w3: "pw_end ?w2 = Inr w3" "pw_ready w3" "\<not> pw_bufferFull w3"
    "prepared w3 = prepared ?w2 @ frame ?E (error_head @ lost_ready)" by auto
  have "prepared ?w2 = []" using a2 len1 by (simp add: appended_def prepared_def)
  moreover have "write_ready (w1\<lparr>pw_bufferFull := True\<rparr>) = Inr w3" by (simp add: write_ready_def pw_message_def begin1 w3(1))
  ultimately show ?thesis using m1 w3 by (auto simp: pw_result_def prepared_def)
qed

theorem long_exception_loses_ready_witness:
  "\<exists>k d'. buildException (Suc 0) (replicate 100 0) (replicate 80 (ascii (CHR ''x''))) (-1) True = Inr (k, d') \<and>
    take k d' = frame (ascii (CHR ''E'')) (error_head @ lost_ready)"
  by (rule long_exception_loses_ready) simp_all


section \<open>The row of a Data message\<close>

text \<open>The text a value is sent as; \<open>None\<close> is null.\<close>

definition hex_text :: "byte list \<Rightarrow> byte list" where
  "hex_text s = bytes_of [CHR 0x5C, CHR ''x''] @ concat (map hex_digits s)"

definition wire_text :: "wire_lib \<Rightarrow> lib \<Rightarrow> DBDataType \<Rightarrow> eresult \<Rightarrow> byte list option res" where
  "wire_text W L type r = (if isNull r then Inr None else case type of
       DT_BYTES \<Rightarrow> mapR (\<lambda>s. Some (hex_text (bytes_of s))) (getString L r)
     | DT_BOOL \<Rightarrow> mapR (\<lambda>v. Some (bytes_of (if v \<noteq> 0 then ''true'' else ''false''))) (getInt L r)
     | DT_STRING \<Rightarrow> mapR (\<lambda>s. Some (bytes_of s)) (getString L r)
     | DT_FLOAT \<Rightarrow> mapR (\<lambda>v. Some (printDouble W v)) (getDouble L r)
     | DT_DOUBLE \<Rightarrow> mapR (\<lambda>v. Some (printDouble W v)) (getDouble L r)
     | DT_DATE \<Rightarrow> mapR (printDate W) (getInt L r)
     | DT_DATETIME \<Rightarrow> mapR (printDatetime W) (getInt L r)
     | DT_UNKNOWN \<Rightarrow> Inl (IOException (''Unexpected data type:'' @ getTypeName type))
     | _ \<Rightarrow> mapR (\<lambda>v. Some (bytes_of (int_to_string v))) (getInt L r))"

text \<open>A date needs a year of four digits: the code asserts that its text has a fixed length.\<close>

definition sendable :: "DBDataType \<Rightarrow> byte list option \<Rightarrow> bool" where
  "sendable type t = (case t of None \<Rightarrow> True | Some s \<Rightarrow> length s < 2 ^ 31 \<and>
     (type = DT_DATE \<longrightarrow> length s = 10) \<and> (type = DT_DATETIME \<longrightarrow> length s = 19))"

definition field_bytes :: "byte list option \<Rightarrow> byte list" where
  "field_bytes t = (case t of None \<Rightarrow> be_bytes 4 (-1) | Some s \<Rightarrow> be_bytes 4 (int (length s)) @ s)"

definition row_payload :: "byte list option list \<Rightarrow> byte list" where
  "row_payload ts = be_bytes 2 (int (length ts)) @ concat (map field_bytes ts)"

text \<open>A write that may throw, but does not: it emits its bytes.\<close>

definition sends :: "byte list \<Rightarrow> (pg_writer \<Rightarrow> pg_writer res) \<Rightarrow> bool" where
  "sends bs g \<longleftrightarrow> (\<exists>f. emits bs f \<and> (\<forall>w. pw_ok w \<longrightarrow> g w = Inr (f w)))"

lemma sendsI: "emits bs f \<Longrightarrow> (\<And>w. pw_ok w \<Longrightarrow> g w = Inr (f w)) \<Longrightarrow> sends bs g"
  by (auto simp: sends_def)

lemma int_to_string_nonempty [simp]: "int_to_string v \<noteq> []"
  by (simp add: int_to_string_def)

lemma bytes_of_empty [simp]: "bytes_of s = [] \<longleftrightarrow> s = []"
  by (simp add: bytes_of_def)

lemma field_emits:
  "emits (field_bytes None) pw_null"
  "out \<noteq> [] \<Longrightarrow> emits (field_bytes (Some out)) (\<lambda>w. snd (addValueAsString out w))"
  using pw_int_emits(2) addValueAsString_emits by (simp_all add: field_bytes_def)

lemma write_time_sends:
  assumes "t \<noteq> None \<longrightarrow> length (the t) = len" "len + 1 < 2 ^ 32"
  shows "sends (field_bytes t) (write_time t len)"
proof (cases t)
  case None
  then show ?thesis by (auto simp: write_time_def intro: sendsI [OF field_emits(1)])
next
  case (Some s)
  with addDateTimeAsString_emits [of s len] assms show ?thesis
    by (auto simp: sends_def field_bytes_def write_time_def)
qed

lemma write_value_sends:
  assumes "wire_text W L type r = Inr t" "sendable type t" "wire_lib_ok W" "\<not> isNull r"
  shows "sends (field_bytes t) (write_value W L type r)"
proof -
  have int: "sends (field_bytes (Some (bytes_of (int_to_string v)))) (\<lambda>w. Inr (snd (addValueAsString (bytes_of (int_to_string v)) w)))" for v
    by (rule sendsI [OF field_emits(2)]) simp_all
  have dbl: "sends (field_bytes (Some (printDouble W v))) (\<lambda>w. Inr (snd (addValueAsString (printDouble W v) w)))" for v
    using assms(3) by (intro sendsI [OF field_emits(2)]) (simp_all add: wire_lib_ok_def)
  have str: "sends (field_bytes (Some s)) (\<lambda>w. Inr (addString s w))" if "length s < 2 ^ 31" for s
    using addString_emits [of s] that by (auto simp: sends_def field_bytes_def)
  have byt: "sends (field_bytes (Some (hex_text s))) (\<lambda>w. Inr (addBytesString s w))" if "length (hex_text s) < 2 ^ 31" for s
    using addBytesString_emits [of s] that by (auto simp: sends_def field_bytes_def hex_text_def)
  show ?thesis
    using assms(1,2,4) int dbl str byt
    by (cases type) (auto simp: wire_text_def write_value_def [abs_def] sendable_def intro!: write_time_sends)
qed

lemma data_column_sends:
  assumes "o_getResultType C s i = Inr type" "o_getResult C s i type = Inr r" "wire_text W L type r = Inr t"
    and "sendable type t" "wire_lib_ok W"
  shows "sends (field_bytes t) (data_column W L C s i)"
proof (cases "isNull r")
  case True
  then have "t = None" using assms(3) by (simp add: wire_text_def)
  then show ?thesis using True assms(1,2)
    by (auto simp: data_column_def intro: sendsI [OF field_emits(1)])
next
  case False
  then have "data_column W L C s i = write_value W L type r" using assms(1,2) by (simp add: data_column_def fun_eq_iff)
  then show ?thesis using write_value_sends [OF assms(3-5) False] by simp
qed

text \<open>What a client reads of the current row of a plan with \<open>n\<close> columns.\<close>

definition row_texts :: "wire_lib \<Rightarrow> lib \<Rightarrow> 's plan_ops \<Rightarrow> nat \<Rightarrow> 's \<Rightarrow> byte list option list res" where
  "row_texts W L C n s = traverseR (\<lambda>i. bindR (o_getResultType C s i) (\<lambda>type. bindR (o_getResult C s i type) (\<lambda>r.
     bindR (wire_text W L type r) (\<lambda>t. if sendable type t then Inr t else Inl (Stuck ''iWritten == len''))))) [0..<n]"

lemma data_columns_sends:
  assumes "list_all2 (\<lambda>i t. sends (field_bytes t) (data_column W L C s i)) is ts"
  shows "\<exists>f. emits (concat (map field_bytes ts)) f \<and> (\<forall>w. pw_ok w \<longrightarrow> data_columns W L C s is w = (Inr (), f w))"
  using assms
proof (induction rule: list_all2_induct)
  case (Cons i is' t ts)
  then obtain f g where f: "emits (field_bytes t) f" "\<forall>w. pw_ok w \<longrightarrow> data_column W L C s i w = Inr (f w)"
    and g: "emits (concat (map field_bytes ts)) g" "\<forall>w. pw_ok w \<longrightarrow> data_columns W L C s is' w = (Inr (), g w)"
    by (auto simp: sends_def)
  have "pw_ok (f w)" if "pw_ok w" for w by (rule emits_ok [OF f(1) that])
  then show ?case using f g emits_comp [OF f(1) g(1)] by (intro exI [of _ "\<lambda>w. g (f w)"]) simp
qed (intro exI [of _ "\<lambda>w. w"], simp)


lemma row_texts_columns:
  assumes "row_texts W L C n s = Inr ts" "wire_lib_ok W"
  shows "list_all2 (\<lambda>i t. sends (field_bytes t) (data_column W L C s i)) [0..<n] ts"
proof -
  have "sends (field_bytes t) (data_column W L C s i)"
    if "bindR (o_getResultType C s i) (\<lambda>type. bindR (o_getResult C s i type) (\<lambda>r.
       bindR (wire_text W L type r) (\<lambda>t. if sendable type t then Inr t else Inl (Stuck ''iWritten == len'')))) = Inr t" for i t
    using that assms(2) by (auto split: if_splits intro: data_column_sends)
  then show ?thesis using assms(1) unfolding row_texts_def traverseR_Inr_iff by (rule list_all2_mono [rotated])
qed

lemma buildData_cases:
  assumes "row_texts W L C n s = Inr ts" "wire_lib_ok W" "pw_ready w"
  obtains (fits) w' where "buildData W L C s n w = (Inr (), w')" "pw_ready w'" "\<not> pw_bufferFull w'"
      "length (pw_data w') = length (pw_data w)" "prepared w' = prepared w @ frame (ascii (CHR ''D'')) (row_payload ts)"
      "pw_written w' = pw_written w + 5 + length (row_payload ts)"
  | (full) w' where "buildData W L C s n w = (Inr (), w')" "pw_bufferFull w'"
      "length (pw_data w') = length (pw_data w)" "prepared w' = prepared w" "pw_lastPrepare w' = pw_lastPrepare w"
      "length (pw_data w) \<le> pw_written w + 5 + length (row_payload ts)"
proof -
  let ?D = "ascii (CHR ''D'')"
  from data_columns_sends [OF row_texts_columns [OF assms(1,2)]] obtain f where
    f: "emits (concat (map field_bytes ts)) f" "\<And>w. pw_ok w \<Longrightarrow> data_columns W L C s [0..<n] w = (Inr (), f w)" by blast
  have n: "length ts = n" using traverseR_length [OF assms(1) [unfolded row_texts_def]] by simp
  have e: "emits (row_payload ts) (\<lambda>w. f (pw_int16 (int n) w))"
    using emits_comp [OF pw_int16_emits [of "int n"] f(1)] by (simp add: row_payload_def n)
  have "pw_ok (pw_int16 (int n) (pw_begin ?D w))"
    using assms(3) by (intro emits_ok [OF pw_int16_emits] begin_ok) (simp add: pw_ready_def)
  then have b: "buildData W L C s n w = (case pw_message ?D (\<lambda>w. f (pw_int16 (int n) w)) w of
      Inl e \<Rightarrow> (Inl e, f (pw_int16 (int n) (pw_begin ?D w))) | Inr w'' \<Rightarrow> (Inr (), w''))"
    using f(2) by (simp add: buildData_def pw_message_def split: unit.split)
  from e assms(3) show ?thesis
  proof (cases rule: message_cases [where c = ?D])
    case (fits w')
    then show ?thesis using b by (intro that(1) [of w']) simp_all
  next
    case (full w')
    then show ?thesis using b by (intro that(2) [of w']) simp_all
  qed
qed


section \<open>The size of the block\<close>

lemma message_size:
  assumes "pw_message c body w = Inr w'" "\<And>w. length (pw_data (body w)) = length (pw_data w)"
  shows "length (pw_data w') = length (pw_data w)"
  using end_size [OF assms(1) [unfolded pw_message_def]] assms(2) by simp

lemma ready_size: "write_ready w = Inr w' \<Longrightarrow> length (pw_data w') = length (pw_data w)"
  unfolding write_ready_def by (erule message_size) simp

lemma status_size: "write_status n v w = Inr w' \<Longrightarrow> length (pw_data w') = length (pw_data w)"
  unfolding write_status_def by (erule message_size) (simp add: pw_text_def)

lemma not_full_size: "not_full w = Inr (n, d') \<Longrightarrow> length d' = length (pw_data w)"
  by (auto simp: not_full_def pw_result_def split: if_splits)

lemma buildSync_size: "buildSync d = Inr (n, d') \<Longrightarrow> length d' = length d"
  by (auto simp: buildSync_def dest!: ready_size not_full_size)

lemma buildStartupResponse_size: "buildStartupResponse d i = Inr (n, d') \<Longrightarrow> length d' = length d"
  by (auto simp: buildStartupResponse_def dest!: ready_size not_full_size status_size message_size)

lemma error_fields_size [simp]: "length (pw_data (error_fields msg pos w)) = length (pw_data w)"
  by (simp add: error_fields_def Let_def pw_text_def)

lemma buildException_size: "buildException fuel d msg pos sync = Inr (n, d') \<Longrightarrow> length d' = length d"
proof (induction fuel d msg pos sync rule: buildException.induct)
  case (2 fuel d msg pos sync)
  from "2.prems" obtain w1 w2 where
    w1: "pw_message (ascii (CHR ''E'')) (error_fields msg pos) (newPgDataWriter d) = Inr w1"
    and w2: "(if sync then write_ready w1 else Inr w1) = Inr w2" by auto
  have len: "length (pw_data w2) = length d"
    using message_size [OF w1] w2 by (auto dest: ready_size split: if_splits)
  show ?case
  proof (cases "pw_bufferFull w2")
    case True
    then show ?thesis using "2.IH" [OF w1 w2 True] "2.prems" w1 w2 len by simp
  next
    case False
    then show ?thesis using "2.prems" w1 w2 len by (auto simp: pw_result_def)
  qed
qed simp

lemma buildExecutionDone_size: "buildExecutionDone d p b s sync = Inr (n, d') \<Longrightarrow> length d' = length d"
proof -
  assume *: "buildExecutionDone d p b s sync = Inr (n, d')"
  have opt: "length (pw_data w') = length (pw_data w)" if "(if x then pw_message c body w else Inr w) = Inr w'"
    "\<And>w. length (pw_data (body w)) = length (pw_data w)" for x c body w w'
    using that message_size [of c body w w'] by (auto split: if_splits)
  have sync: "length (pw_data w') = length (pw_data w)" if "(if sync then write_ready w else Inr w) = Inr w'" for w w'
    using that ready_size by (auto split: if_splits)
  from * obtain w1 w2 w3 w4 where w: "(if p then pw_message (ascii (CHR ''1'')) (\<lambda>w. w) (newPgDataWriter d) else Inr (newPgDataWriter d)) = Inr w1"
    "(if b then pw_message (ascii (CHR ''2'')) (\<lambda>w. w) w1 else Inr w1) = Inr w2"
    "pw_message (ascii (CHR ''C'')) (pw_string s) w2 = Inr w3" "(if sync then write_ready w3 else Inr w3) = Inr w4" "not_full w4 = Inr (n, d')"
    unfolding buildExecutionDone_def by (elim bindR_InrE)
  from opt [OF w(1)] opt [OF w(2)] message_size [OF w(3)] sync [OF w(4)] not_full_size [OF w(5)] show ?thesis by simp
qed

lemma describe_columns_size: "describe_columns C s is w = (r, w') \<Longrightarrow> length (pw_data w') = length (pw_data w)"
  by (induction C s "is" w rule: describe_columns.induct)
    (auto simp: describe_column_def pw_text_def split: sum.splits option.splits)

lemma buildColumnDescription_size:
  assumes "buildColumnDescription C s n d = (r, d')"
  shows "length d' = length d"
proof -
  obtain r1 w1 where w1: "describe_columns C s [0..<n] (pw_int16 (int n) (pw_begin (ascii (CHR ''T'')) (newPgDataWriter d))) = (r1, w1)"
    by (metis surj_pair)
  from describe_columns_size [OF w1] have len: "length (pw_data w1) = length d" by simp
  show ?thesis
  proof (cases "pw_end w1")
    case (Inl e)
    then show ?thesis using assms w1 len by (cases r1) (auto simp: buildColumnDescription_def split: unit.splits)
  next
    case (Inr w2)
    from end_size [OF this] show ?thesis using assms w1 len Inr by (cases r1) (auto simp: buildColumnDescription_def split: unit.splits if_splits)
  qed
qed

lemma write_value_size: "write_value W L type r w = Inr w' \<Longrightarrow> length (pw_data w') = length (pw_data w)"
  by (auto simp: write_value_def write_time_def split: DBDataType.splits option.splits dest!: time_size)

lemma data_column_size: "data_column W L C s i w = Inr w' \<Longrightarrow> length (pw_data w') = length (pw_data w)"
  by (auto simp: data_column_def split: if_splits dest!: write_value_size)

lemma nulls_size: "length (pw_data (foldl (\<lambda>w _. pw_null w) w is)) = length (pw_data w)"
  by (induction "is" arbitrary: w) simp_all

lemma data_columns_size: "data_columns W L C s is w = (r, w') \<Longrightarrow> length (pw_data w') = length (pw_data w)"
proof (induction "is" arbitrary: w)
  case (Cons i is')
  show ?case
  proof (cases "data_column W L C s i w")
    case (Inl e)
    then show ?thesis using Cons.prems nulls_size [of w "i # is'"] by auto
  next
    case (Inr w1)
    then have "data_columns W L C s is' w1 = (r, w')" using Cons.prems by simp
    from Cons.IH [OF this] data_column_size [OF Inr] show ?thesis by simp
  qed
qed simp

lemma buildData_size:
  assumes "buildData W L C s n w = (r, w')"
  shows "length (pw_data w') = length (pw_data w)"
proof -
  obtain r1 w1 where w1: "data_columns W L C s [0..<n] (pw_int16 (int n) (pw_begin (ascii (CHR ''D'')) w)) = (r1, w1)"
    by (metis surj_pair)
  from data_columns_size [OF w1] have len: "length (pw_data w1) = length (pw_data w)" by simp
  show ?thesis
  proof (cases "pw_end w1")
    case (Inl e)
    then show ?thesis using assms w1 len by (cases r1) (auto simp: buildData_def split: unit.splits)
  next
    case (Inr w2)
    from end_size [OF this] show ?thesis using assms w1 len Inr by (cases r1) (auto simp: buildData_def split: unit.splits if_splits)
  qed
qed

end
