(* ===== verification/SessionInfo.thy ===== *)
theory SessionInfo
  imports PgProtocol QueryRewriter
begin

text \<open>
  \<^verbatim>\<open>src/server/SessionInfo\<close>: one connection as a machine driven by the completions of its reads and
  writes.  A handler runs to the point where it starts the next operation on the socket; the
  operation is its result.  The theorems: an operation never reaches outside the session's block,
  the rows of a query reach the client in order, each once, over as many sends as they need, what
  an error leads to, and what a row that is larger than the block leads to.
\<close>

section \<open>What a session relies on\<close>

text \<open>
  \<open>sv_parse\<close> is \<open>ParseResult::parse\<close> (the generated parser, then the rewriter): it changes the parse
  result and may throw, with a position.  \<open>sv_build\<close> is \<open>buildPlan\<close>, \<open>sv_ops\<close> the functions of the plans
  it builds.  The models of the plans return no state with an exception; \<open>sv_left\<close> is the state such
  a call leaves behind and \<open>sv_drop\<close> what the destruction of a plan does to the rest of the world.
  Nothing is assumed about either.
\<close>

record ('p, 'w) server =
  sv_lib :: lib
  sv_wire :: wire_lib
  sv_parse :: "string \<Rightarrow> parse_result \<Rightarrow> (err \<times> int) option \<times> parse_result"
  sv_build :: "pnode \<Rightarrow> 'w \<Rightarrow> (err + 'p) \<times> 'w"
  sv_ops :: "('p \<times> 'w) plan_ops"
  sv_left :: "'p \<times> 'w \<Rightarrow> 'p \<times> 'w"
  sv_drop :: "'p \<times> 'w \<Rightarrow> 'w"

text \<open>A plan of a session: the \<open>EmptyPlan\<close> of a statement that is passed over, or a built one.\<close>

datatype 'p session_plan = EmptyPlan | BuiltPlan 'p

definition on_plan :: "('p session_plan \<times> 'w \<Rightarrow> 'a) \<Rightarrow> ('p \<times> 'w \<Rightarrow> 'a) \<Rightarrow> 'p session_plan \<times> 'w \<Rightarrow> 'a" where
  "on_plan f g = (\<lambda>(p, w). case p of EmptyPlan \<Rightarrow> f (EmptyPlan, w) | BuiltPlan q \<Rightarrow> g (q, w))"

definition built :: "'p \<times> 'w \<Rightarrow> 'p session_plan \<times> 'w" where
  "built = (\<lambda>(p, w). (BuiltPlan p, w))"

definition session_ops :: "('p \<times> 'w) plan_ops \<Rightarrow> ('p session_plan \<times> 'w) plan_ops" where
  "session_ops P = \<lparr>
     o_explain = (\<lambda>d. on_plan (o_explain empty_ops d) (\<lambda>s. mapR (apsnd built) (o_explain P d s))),
     o_begin = (\<lambda>t. on_plan (o_begin empty_ops t) (\<lambda>s. mapR built (o_begin P t s))),
     o_next = (\<lambda>t. on_plan (o_next empty_ops t) (\<lambda>s. mapR (apsnd built) (o_next P t s))),
     o_end = on_plan (o_end empty_ops) (\<lambda>s. mapR built (o_end P s)),
     o_getResultColumns = on_plan (o_getResultColumns empty_ops) (o_getResultColumns P),
     o_getProjectionName = on_plan (o_getProjectionName empty_ops) (o_getProjectionName P),
     o_getResultType = on_plan (o_getResultType empty_ops) (o_getResultType P),
     o_addProjection = (\<lambda>n. on_plan (o_addProjection empty_ops n) (\<lambda>s. mapR (apsnd built) (o_addProjection P n s))),
     o_getAllColumns = on_plan (o_getAllColumns empty_ops) (o_getAllColumns P),
     o_ensureSortOrder = (\<lambda>i c o'. on_plan (o_ensureSortOrder empty_ops i c o') (\<lambda>s. mapR (apsnd built) (o_ensureSortOrder P i c o' s))),
     o_getInfoString = on_plan (o_getInfoString empty_ops) (o_getInfoString P),
     o_getResult = on_plan (o_getResult empty_ops) (o_getResult P)\<rparr>"

section \<open>The session\<close>

text \<open>
  \<open>cn_open\<close> is false once \<open>end\<close> has run.  \<open>cn_cancelled\<close> lists the sessions this one has asked to
  cancel.  The counters of statements, reads and writes are only logged and left out.
\<close>

record ('p, 'w) conn =
  cn_index :: nat
  cn_result :: "parse_result option"
  cn_plan :: "'p session_plan option"
  cn_terminate :: bool
  cn_binded :: bool
  cn_parsed :: bool
  cn_open :: bool
  cn_buffer :: "byte list option"
  cn_qtype :: byte
  cn_world :: 'w
  cn_cancelled :: "nat list"

text \<open>What a handler ends with: the function that starts the next operation.\<close>

datatype continuation = C_readMessageType | C_readLen | C_handleExecutionBegin | C_handleExecutionResult | C_handleExecutionDone

datatype action = ReadMessageType | ReadLen | ReadData nat | DoWrite nat continuation | EndSession

text \<open>A handler may throw; what it has changed stays changed.  An exception carries its position.\<close>

type_synonym exn = "err \<times> int"
type_synonym ('p, 'w, 'a) handler_act = "('p, 'w) conn \<Rightarrow> (exn + 'a) \<times> ('p, 'w) conn"

definition retS :: "'a \<Rightarrow> ('p, 'w, 'a) handler_act" where "retS x c = (Inr x, c)"
definition throwS :: "err \<Rightarrow> ('p, 'w, 'a) handler_act" where "throwS e c = (Inl (e, -1), c)"

definition bindS :: "('p, 'w, 'a) handler_act \<Rightarrow> ('a \<Rightarrow> ('p, 'w, 'b) handler_act) \<Rightarrow> ('p, 'w, 'b) handler_act" where
  "bindS m f c = (case m c of (Inl e, c') \<Rightarrow> (Inl e, c') | (Inr x, c') \<Rightarrow> f x c')"

definition liftS :: "'a res \<Rightarrow> ('p, 'w, 'a) handler_act" where
  "liftS r = (case r of Inl e \<Rightarrow> throwS e | Inr x \<Rightarrow> retS x)"

definition updateS :: "(('p, 'w) conn \<Rightarrow> ('p, 'w) conn) \<Rightarrow> ('p, 'w, unit) handler_act" where
  "updateS f c = (Inr (), f c)"

definition getS :: "(('p, 'w) conn \<Rightarrow> 'a) \<Rightarrow> ('p, 'w, 'a) handler_act" where
  "getS f c = (Inr (f c), c)"

text \<open>\<open>*m_pBuffer\<close>, \<open>*m_pResult\<close> and \<open>*m_pPlan\<close>.\<close>

definition the_buffer :: "('p, 'w, byte list) handler_act" where
  "the_buffer c = (case cn_buffer c of Some d \<Rightarrow> (Inr d, c) | None \<Rightarrow> throwS (Stuck ''m_pBuffer'') c)"

definition the_result :: "('p, 'w, parse_result) handler_act" where
  "the_result c = (case cn_result c of Some r \<Rightarrow> (Inr r, c) | None \<Rightarrow> throwS (Stuck ''assert(m_pResult)'') c)"

definition plan_state :: "('p, 'w, 'p session_plan \<times> 'w) handler_act" where
  "plan_state c = (case cn_plan c of Some p \<Rightarrow> (Inr (p, cn_world c), c) | None \<Rightarrow> throwS (Stuck ''m_pPlan'') c)"

definition set_plan_state :: "'p session_plan \<times> 'w \<Rightarrow> ('p, 'w) conn \<Rightarrow> ('p, 'w) conn" where
  "set_plan_state s c = c\<lparr>cn_plan := Some (fst s), cn_world := snd s\<rparr>"

definition left_state :: "('p, 'w) server \<Rightarrow> 'p session_plan \<times> 'w \<Rightarrow> 'p session_plan \<times> 'w" where
  "left_state S = on_plan (\<lambda>s. s) (\<lambda>s. built (sv_left S s))"

text \<open>A call that changes the plan, and one that only asks it.\<close>

definition call_plan ::
  "('p, 'w) server \<Rightarrow> (('p session_plan \<times> 'w) plan_ops \<Rightarrow> 'p session_plan \<times> 'w \<Rightarrow> err + 'a \<times> 'p session_plan \<times> 'w) \<Rightarrow>
   ('p, 'w, 'a) handler_act" where
  "call_plan S f = bindS plan_state (\<lambda>s. case f (session_ops (sv_ops S)) s of
     Inl e \<Rightarrow> bindS (updateS (set_plan_state (left_state S s))) (\<lambda>_. throwS e)
   | Inr (x, s') \<Rightarrow> bindS (updateS (set_plan_state s')) (\<lambda>_. retS x))"

definition ask_plan ::
  "('p, 'w) server \<Rightarrow> (('p session_plan \<times> 'w) plan_ops \<Rightarrow> 'p session_plan \<times> 'w \<Rightarrow> 'a res) \<Rightarrow> ('p, 'w, 'a) handler_act" where
  "ask_plan S f = bindS plan_state (\<lambda>s. liftS (f (session_ops (sv_ops S)) s))"

text \<open>The assignment of another plan, which destroys the one before.\<close>

definition assign_plan :: "('p, 'w) server \<Rightarrow> 'p session_plan option \<Rightarrow> ('p, 'w) conn \<Rightarrow> ('p, 'w) conn" where
  "assign_plan S p c = c\<lparr>cn_plan := p, cn_world := (case cn_plan c of
     Some (BuiltPlan q) \<Rightarrow> sv_drop S (q, cn_world c) | _ \<Rightarrow> cn_world c)\<rparr>"

text \<open>A message built into the session's block.\<close>

definition build_message :: "(byte list \<Rightarrow> err + nat \<times> byte list) \<Rightarrow> ('p, 'w, nat) handler_act" where
  "build_message f = bindS the_buffer (\<lambda>d. bindS (liftS (f d)) (\<lambda>(n, d').
     bindS (updateS (\<lambda>c. c\<lparr>cn_buffer := Some d'\<rparr>)) (\<lambda>_. retS n)))"

definition describe :: "('p, 'w) server \<Rightarrow> nat \<Rightarrow> ('p, 'w, nat) handler_act" where
  "describe S columnNum = bindS the_buffer (\<lambda>d. bindS plan_state (\<lambda>s.
     case buildColumnDescription (session_ops (sv_ops S)) s columnNum d of (r, d') \<Rightarrow>
       bindS (updateS (\<lambda>c. c\<lparr>cn_buffer := Some d'\<rparr>)) (\<lambda>_. bindS (liftS r) (\<lambda>iWritten.
         if iWritten = 0 then throwS (IOException ''Not enough network buffer'') else retS iWritten))))"

section \<open>Statements\<close>

text \<open>Documented: \<open>absl::StartsWithIgnoreCase\<close> compares the start of the text without regard to case.\<close>

definition startsWithIgnoreCase :: "lib \<Rightarrow> string \<Rightarrow> string \<Rightarrow> bool" where
  "startsWithIgnoreCase L s prefix \<longleftrightarrow> length prefix \<le> length s \<and> EqualsIgnoreCase L (take (length prefix) s) prefix"

definition bypassed :: "lib \<Rightarrow> string \<Rightarrow> bool" where
  "bypassed L sql \<longleftrightarrow> startsWithIgnoreCase L sql ''DEALLOCATE'' \<or> startsWithIgnoreCase L sql ''SET '' \<or>
     startsWithIgnoreCase L sql ''BEGIN'' \<or> startsWithIgnoreCase L sql ''COMMIT''"

definition set_result :: "parse_result \<Rightarrow> ('p, 'w) conn \<Rightarrow> ('p, 'w) conn" where
  "set_result r c = c\<lparr>cn_result := Some r\<rparr>"

definition si_parse :: "('p, 'w) server \<Rightarrow> string \<Rightarrow> ('p, 'w, unit) handler_act" where
  "si_parse S sql = bindS the_result (\<lambda>r. let r0 = r\<lparr>p_result := NullNode\<rparr> in
     if bypassed (sv_lib S) sql then updateS (set_result r0)
     else case sv_parse S sql r0 of (e, r') \<Rightarrow> bindS (updateS (set_result r')) (\<lambda>_ c.
       case e of Some exn \<Rightarrow> (Inl exn, c) | None \<Rightarrow> (Inr (), c)))"

definition si_resolve :: "('p, 'w) server \<Rightarrow> ('p, 'w, unit) handler_act" where
  "si_resolve S = bindS the_result (\<lambda>r. let pTree = p_result r in
     if is_null pTree then updateS (assign_plan S (Some EmptyPlan))
     else if n_type pTree \<noteq> NT_PLAN then throwS (ParseException (''WRONG NODE '' @ n_expr pTree))
     else bindS (getS cn_world) (\<lambda>w. case sv_build S pTree w of
         (Inl e, w') \<Rightarrow> bindS (updateS (\<lambda>c. c\<lparr>cn_world := w'\<rparr>)) (\<lambda>_. throwS e)
       | (Inr p, w') \<Rightarrow> updateS (\<lambda>c. assign_plan S (Some (BuiltPlan p)) (c\<lparr>cn_world := w'\<rparr>))))"

section \<open>Execution\<close>

text \<open>
  The loop of \<open>handleExecutionResult\<close>: Data messages are written until the block is full or the plan
  has no more rows.  The row that did not fit is still the current row of the plan.  The writer is
  local, the bytes it has stored are in the block in any case.
\<close>

definition store_block :: "pg_writer \<Rightarrow> ('p, 'w) conn \<Rightarrow> ('p, 'w) conn" where
  "store_block w c = c\<lparr>cn_buffer := Some (pw_data w)\<rparr>"

fun result_loop :: "nat \<Rightarrow> ('p, 'w) server \<Rightarrow> nat \<Rightarrow> pg_writer \<Rightarrow> ('p, 'w, action) handler_act" where
  "result_loop 0 S columnNum w = throwS OutOfFuel"
| "result_loop (Suc fuel) S columnNum w = bindS plan_state (\<lambda>s.
     case (if columnNum = 0 then (Inr (), w) else buildData (sv_wire S) (sv_lib S) (session_ops (sv_ops S)) s columnNum w) of
       (Inl e, w') \<Rightarrow> bindS (updateS (store_block w')) (\<lambda>_. throwS e)
     | (Inr (), w') \<Rightarrow> bindS (updateS (store_block w')) (\<lambda>_.
         if columnNum \<noteq> 0 \<and> pw_bufferFull w' then retS (DoWrite (pw_lastPrepare w') C_handleExecutionResult)
         else bindS (getS cn_terminate) (\<lambda>t. bindS (call_plan S (\<lambda>P. o_next P t)) (\<lambda>more.
           if more then result_loop fuel S columnNum w'
           else retS (DoWrite (pw_lastPrepare w') C_handleExecutionDone)))))"

definition handleExecutionResult :: "nat \<Rightarrow> ('p, 'w) server \<Rightarrow> ('p, 'w, action) handler_act" where
  "handleExecutionResult fuel S = bindS (ask_plan S o_getResultColumns) (\<lambda>columnNum.
     bindS the_buffer (\<lambda>d. result_loop fuel S columnNum (newPgDataWriter d)))"

text \<open>The sync flag: a simple query waits for the ready message, an Execute message does not.\<close>

definition simple_query :: "('p, 'w) conn \<Rightarrow> bool" where
  "simple_query c \<longleftrightarrow> cn_qtype c = ascii (CHR ''Q'')"

definition handleExecutionDone :: "('p, 'w) server \<Rightarrow> ('p, 'w, action) handler_act" where
  "handleExecutionDone S = bindS the_result (\<lambda>r.
     bindS (call_plan S (\<lambda>P s. mapR (\<lambda>s'. ((), s')) (o_end P s))) (\<lambda>_.
     bindS (ask_plan S o_getInfoString) (\<lambda>sInfo.
     bindS (updateS (\<lambda>c. set_result (pr_restore r) (assign_plan S None c))) (\<lambda>_.
     bindS (getS (\<lambda>c. (cn_parsed c, cn_binded c, simple_query c))) (\<lambda>(parsed, bind, sync).
     bindS (build_message (\<lambda>d. buildExecutionDone d parsed bind (bytes_of sInfo) sync)) (\<lambda>iWritten.
     bindS (updateS (\<lambda>c. c\<lparr>cn_parsed := False, cn_binded := False\<rparr>)) (\<lambda>_.
       retS (DoWrite iWritten C_readMessageType))))))))"

definition handleExecutionBegin :: "nat \<Rightarrow> ('p, 'w) server \<Rightarrow> ('p, 'w, action) handler_act" where
  "handleExecutionBegin fuel S = bindS (getS cn_terminate) (\<lambda>t.
     bindS (call_plan S (\<lambda>P s. mapR (\<lambda>s'. ((), s')) (o_begin P t s))) (\<lambda>_.
     bindS (call_plan S (\<lambda>P. o_next P t)) (\<lambda>more.
       if more then handleExecutionResult fuel S else handleExecutionDone S)))"

section \<open>The handlers of messages\<close>

text \<open>\<open>sessions\<close> is the number of sessions of the manager.\<close>

definition handleStartup :: "nat \<Rightarrow> nat \<Rightarrow> ('p, 'w, action) handler_act" where
  "handleStartup sessions len = bindS the_buffer (\<lambda>d. case readStartup sessions d len of (cancel, action) \<Rightarrow>
     bindS (updateS (\<lambda>c. case cancel of None \<Rightarrow> c
       | Some i \<Rightarrow> c\<lparr>cn_cancelled := cn_cancelled c @ [i], cn_terminate := (cn_terminate c \<or> i = cn_index c)\<rparr>)) (\<lambda>_.
     bindS (liftS action) (\<lambda>a. case a of
         SSL \<Rightarrow> bindS (updateS (\<lambda>c. c\<lparr>cn_buffer := Some (put_bytes 0 [ascii (CHR ''N'')] d)\<rparr>)) (\<lambda>_. retS (DoWrite 1 C_readLen))
       | Normal \<Rightarrow> bindS (getS cn_index) (\<lambda>i. bindS (build_message (\<lambda>d. buildStartupResponse d (int i))) (\<lambda>iWritten.
           if iWritten = 0 then throwS (IOException ''Not enough network buffer'')
           else retS (DoWrite iWritten C_readMessageType))))))"

definition handleSync :: "('p, 'w, action) handler_act" where
  "handleSync = bindS (build_message buildSync) (\<lambda>iWritten. retS (DoWrite iWritten C_readMessageType))"

definition handleQuery :: "nat \<Rightarrow> ('p, 'w) server \<Rightarrow> nat \<Rightarrow> ('p, 'w, action) handler_act" where
  "handleQuery fuel S len = bindS the_buffer (\<lambda>d. bindS (liftS (readQueryInfo d len)) (\<lambda>sql.
     bindS (si_parse S (string_of sql)) (\<lambda>_. bindS (si_resolve S) (\<lambda>_.
     bindS (updateS (\<lambda>c. c\<lparr>cn_parsed := False, cn_binded := False\<rparr>)) (\<lambda>_.
     bindS (ask_plan S o_getResultColumns) (\<lambda>columnNum.
       if columnNum > 0 then bindS (describe S columnNum) (\<lambda>iWritten. retS (DoWrite iWritten C_handleExecutionBegin))
       else handleExecutionBegin fuel S))))))"

definition handleParse :: "('p, 'w) server \<Rightarrow> nat \<Rightarrow> ('p, 'w, action) handler_act" where
  "handleParse S len = bindS the_result (\<lambda>_. bindS the_buffer (\<lambda>d. bindS (liftS (readParseInfo d len)) (\<lambda>(sql, iParamNum).
     bindS (si_parse S (string_of sql)) (\<lambda>_. bindS the_result (\<lambda>r. let iActualParamNum = length (p_params r) in
       if iParamNum \<noteq> iActualParamNum
       then throwS (ParseException (''Parameter number unmatch!, expect '' @ nat_to_string iParamNum @ '', actual '' @ nat_to_string iActualParamNum))
       else bindS (updateS (\<lambda>c. c\<lparr>cn_parsed := True, cn_binded := False\<rparr>)) (\<lambda>_. retS ReadMessageType))))))"

text \<open>A parameter is a node of the tree, known by its address; it gets a mode and a value in place.\<close>

fun update_node :: "nat \<Rightarrow> (pnode \<Rightarrow> pnode) \<Rightarrow> pnode \<Rightarrow> pnode" where
  "update_node a f NullNode = NullNode"
| "update_node a f (PNode i t op e v cs) =
     (let n = PNode i t op e v (map (update_node a f) cs) in if i = a then f n else n)"

definition bind_param :: "nat \<times> bool \<times> byte list \<Rightarrow> ('p, 'w, unit) handler_act" where
  "bind_param = (\<lambda>(pParam, binary, value).
     bindS the_result (\<lambda>r. let set = (\<lambda>f r. r\<lparr>p_result := update_node pParam f (p_result r)\<rparr>);
         r1 = set (setBindParamMode (if binary then BINARY_PARAM else TEXT_PARAM)) r in
       bindS (updateS (set_result r1)) (\<lambda>_. bindS (liftS (pr_allocString (string_of value) False (p_current r1))) (\<lambda>(s, cur).
         updateS (set_result (set (setString s) (r1\<lparr>p_current := cur\<rparr>)))))))"

fun bind_params :: "(nat \<times> bool \<times> byte list) list \<Rightarrow> ('p, 'w, unit) handler_act" where
  "bind_params [] = retS ()"
| "bind_params (p # ps) = bindS (bind_param p) (\<lambda>_. bind_params ps)"

definition handleBind :: "('p, 'w) server \<Rightarrow> nat \<Rightarrow> ('p, 'w, action) handler_act" where
  "handleBind S len = bindS the_result (\<lambda>r. bindS (updateS (set_result (pr_mark r))) (\<lambda>_.
     bindS the_buffer (\<lambda>d. bindS (liftS (readBindParam d len (length (p_params r)))) (\<lambda>params.
     bindS (bind_params (zip (p_params r) params)) (\<lambda>_.
     bindS (updateS (\<lambda>c. c\<lparr>cn_binded := True\<rparr>)) (\<lambda>_. bindS (si_resolve S) (\<lambda>_. retS ReadMessageType)))))))"

definition handleDescription :: "('p, 'w) server \<Rightarrow> nat \<Rightarrow> ('p, 'w, action) handler_act" where
  "handleDescription S len = bindS the_buffer (\<lambda>d. bindS (liftS (readColumnDescribeInfo d len)) (\<lambda>_.
     bindS (getS cn_plan) (\<lambda>pPlan. bindS (if pPlan = None then retS 0 else ask_plan S o_getResultColumns) (\<lambda>columnNum.
       if columnNum = 0 then retS ReadMessageType
       else bindS (describe S columnNum) (\<lambda>iWritten. retS (DoWrite iWritten C_readMessageType))))))"

definition handleExecution :: "nat \<Rightarrow> ('p, 'w) server \<Rightarrow> nat \<Rightarrow> ('p, 'w, action) handler_act" where
  "handleExecution fuel S len = handleExecutionBegin fuel S"

text \<open>\<open>m_handler\<close>: the handler of a message type.\<close>

definition si_handler :: "nat \<Rightarrow> ('p, 'w) server \<Rightarrow> nat \<Rightarrow> byte \<Rightarrow> (nat \<Rightarrow> ('p, 'w, action) handler_act) option" where
  "si_handler fuel S sessions q =
     (if q = 0 then Some (handleStartup sessions)
      else if q = ascii (CHR ''S'') then Some (\<lambda>len. handleSync)
      else if q = ascii (CHR ''Q'') then Some (handleQuery fuel S)
      else if q = ascii (CHR ''P'') then Some (handleParse S)
      else if q = ascii (CHR ''B'') then Some (handleBind S)
      else if q = ascii (CHR ''D'') then Some (handleDescription S)
      else if q = ascii (CHR ''E'') then Some (handleExecution fuel S)
      else None)"


section \<open>Completions\<close>

text \<open>\<open>what()\<close> of an exception that the server catches; the others are outcomes of the model only.\<close>

fun err_what :: "err \<Rightarrow> string option" where
  "err_what (ParseException m) = Some m"
| "err_what (ExecutionException m) = Some m"
| "err_what (IOException m) = Some m"
| "err_what (ConfigException m) = Some m"
| "err_what (StdException m) = Some m"
| "err_what (Stuck m) = None"
| "err_what OutOfFuel = None"

text \<open>A C string ends at its first 0.\<close>

definition c_string :: "string \<Rightarrow> byte list" where
  "c_string s = takeWhile (\<lambda>b. b \<noteq> 0) (bytes_of s)"

text \<open>
  The outcome of a handler: the next operation, or for an exception the error message, or the end of
  the session where the start-up has failed.  Two attempts are enough for the error message.
\<close>

definition report :: "exn \<Rightarrow> ('p, 'w) conn \<Rightarrow> (err + action) \<times> ('p, 'w) conn" where
  "report = (\<lambda>(e, startPos) c. case err_what e of
     None \<Rightarrow> (Inl e, c)
   | Some m \<Rightarrow> if cn_qtype c = 0 then (Inr EndSession, c)
       else (case cn_buffer c of
           None \<Rightarrow> (Inl (Stuck ''m_pBuffer''), c)
         | Some d \<Rightarrow> (case buildException 2 d (c_string m) startPos (simple_query c) of
               Inl e' \<Rightarrow> (Inl e', c)
             | Inr (n, d') \<Rightarrow> (Inr (DoWrite n C_readMessageType), c\<lparr>cn_buffer := Some d'\<rparr>))))"

definition settle_handler :: "('p, 'w, action) handler_act \<Rightarrow> ('p, 'w) conn \<Rightarrow> (err + action) \<times> ('p, 'w) conn" where
  "settle_handler h c = (case h c of (Inr a, c') \<Rightarrow> (Inr a, c') | (Inl e, c') \<Rightarrow> report e c')"

text \<open>The lambda of \<open>readData\<close>: the handler of the message.\<close>

definition on_data :: "nat \<Rightarrow> ('p, 'w) server \<Rightarrow> nat \<Rightarrow> nat \<Rightarrow> ('p, 'w) conn \<Rightarrow> (err + action) \<times> ('p, 'w) conn" where
  "on_data fuel S sessions len c = (case si_handler fuel S sessions (cn_qtype c) of
     None \<Rightarrow> (Inr EndSession, c)
   | Some h \<Rightarrow> settle_handler (h len) c)"

text \<open>The lambda of \<open>readMessageType\<close>.\<close>

definition on_type :: "('p, 'w) conn \<Rightarrow> (err + action) \<times> ('p, 'w) conn" where
  "on_type c = (case cn_buffer c of
     Some (q # d) \<Rightarrow> (if q = ascii (CHR ''X'') \<or> q = 0 then (Inr EndSession, c\<lparr>cn_qtype := q\<rparr>) else (Inr ReadLen, c\<lparr>cn_qtype := q\<rparr>))
   | _ \<Rightarrow> (Inl (Stuck ''m_pBuffer->at(0)''), c))"

text \<open>The lambda of \<open>readLen\<close>.\<close>

definition on_len :: "('p, 'w) conn \<Rightarrow> (err + action) \<times> ('p, 'w) conn" where
  "on_len c = (case cn_buffer c of
     None \<Rightarrow> (Inl (Stuck ''m_pBuffer''), c)
   | Some d \<Rightarrow>
       if length d < 4 then (Inl (Stuck ''read outside the buffer''), c)
       else let iLen = nat (be_uint (take 4 d)) in
         if iLen < 4 then (Inr EndSession, c)
         else if length d < iLen - 4 then (Inr EndSession, c)
         else (Inr (ReadData (iLen - 4)), c))"

definition continue_with :: "nat \<Rightarrow> ('p, 'w) server \<Rightarrow> continuation \<Rightarrow> ('p, 'w, action) handler_act" where
  "continue_with fuel S k = (case k of
     C_readMessageType \<Rightarrow> retS ReadMessageType
   | C_readLen \<Rightarrow> retS ReadLen
   | C_handleExecutionBegin \<Rightarrow> handleExecutionBegin fuel S
   | C_handleExecutionResult \<Rightarrow> handleExecutionResult fuel S
   | C_handleExecutionDone \<Rightarrow> handleExecutionDone S)"

text \<open>What a session waits for.\<close>

datatype reading = R_type | R_len | R_data

datatype pending = Reading reading nat | Writing "byte list" continuation | Closed

definition si_end :: "('p, 'w) conn \<Rightarrow> ('p, 'w) conn" where
  "si_end c = c\<lparr>cn_open := False, cn_result := None, cn_buffer := None\<rparr>"

text \<open>
  \<open>doRead\<close> and \<open>doWrite\<close>: an operation on no bytes completes at once, so its completion runs before
  the function returns; \<open>n\<close> bounds how often.
\<close>

fun start_io :: "nat \<Rightarrow> nat \<Rightarrow> ('p, 'w) server \<Rightarrow> nat \<Rightarrow> (err + action) \<times> ('p, 'w) conn \<Rightarrow> err + ('p, 'w) conn \<times> pending" where
  "start_io 0 fuel S sessions (a, c) = Inl OutOfFuel"
| "start_io (Suc n) fuel S sessions (a, c) = (case a of
     Inl e \<Rightarrow> Inl e
   | Inr ReadMessageType \<Rightarrow> Inr (c, Reading R_type 1)
   | Inr ReadLen \<Rightarrow> Inr (c, Reading R_len 4)
   | Inr (ReadData len) \<Rightarrow>
       if len = 0 then start_io n fuel S sessions (on_data fuel S sessions 0 c) else Inr (c, Reading R_data len)
   | Inr (DoWrite len k) \<Rightarrow>
       if len = 0 then start_io n fuel S sessions (settle_handler (continue_with fuel S k) c)
       else (case cn_buffer c of
           None \<Rightarrow> Inl (Stuck ''m_pBuffer'')
         | Some d \<Rightarrow> if length d < len then Inl (Stuck ''write outside the buffer'') else Inr (c, Writing (take len d) k))
   | Inr EndSession \<Rightarrow> Inr (si_end c, Closed))"

text \<open>The start of a session with the block the pool has handed out.\<close>

definition newParseResult :: parse_result where
  "newParseResult = \<lparr>p_current = 0, p_mark = 0, p_sql = [], p_error = [], p_result = NullNode, p_params = []\<rparr>"

definition newSessionInfo :: "nat \<Rightarrow> 'w \<Rightarrow> ('p, 'w) conn" where
  "newSessionInfo iIndex w = \<lparr>cn_index = iIndex, cn_result = None, cn_plan = None, cn_terminate = False, cn_binded = False,
     cn_parsed = False, cn_open = False, cn_buffer = None, cn_qtype = 0, cn_world = w, cn_cancelled = []\<rparr>"

text \<open>
  \<open>parse_block\<close>: the constructor of \<open>ParseResult\<close> got a block of its own.  Without one it throws, and the
  server ends the session.
\<close>

definition si_start :: "bool \<Rightarrow> byte list option \<Rightarrow> ('p, 'w) conn \<Rightarrow> ('p, 'w) conn \<times> pending" where
  "si_start parse_block blk c = (let c1 = c\<lparr>cn_open := True, cn_qtype := 0\<rparr> in
     if parse_block then (c1\<lparr>cn_result := Some newParseResult, cn_buffer := blk\<rparr>, Reading R_len 4)
     else (si_end c1, Closed))"

section \<open>The machine\<close>

datatype event = Received "byte list" | Sent | Failed | Cancel

text \<open>A read stores what it receives at the start of the block; it completes with all its bytes.\<close>

definition receive :: "byte list \<Rightarrow> ('p, 'w) conn \<Rightarrow> ('p, 'w) conn" where
  "receive bs c = c\<lparr>cn_buffer := map_option (put_bytes 0 bs) (cn_buffer c)\<rparr>"

definition on_read :: "nat \<Rightarrow> ('p, 'w) server \<Rightarrow> nat \<Rightarrow> reading \<Rightarrow> nat \<Rightarrow> ('p, 'w) conn \<Rightarrow> (err + action) \<times> ('p, 'w) conn" where
  "on_read fuel S sessions k len c = (case k of
     R_type \<Rightarrow> on_type c | R_len \<Rightarrow> on_len c | R_data \<Rightarrow> on_data fuel S sessions len c)"

fun step_event ::
  "nat \<Rightarrow> nat \<Rightarrow> ('p, 'w) server \<Rightarrow> nat \<Rightarrow> event \<Rightarrow> ('p, 'w) conn \<times> pending \<Rightarrow> (err + ('p, 'w) conn \<times> pending) option" where
  "step_event n fuel S sessions (Received bs) (c, Reading k len) =
     (if length bs = len then Some (start_io n fuel S sessions (on_read fuel S sessions k len (receive bs c))) else None)"
| "step_event n fuel S sessions Sent (c, Writing bs k) =
     Some (start_io n fuel S sessions (settle_handler (continue_with fuel S k) c))"
| "step_event n fuel S sessions Failed (c, Reading k len) = Some (Inr (si_end c, Closed))"
| "step_event n fuel S sessions Failed (c, Writing bs k) = Some (Inr (si_end c, Closed))"
| "step_event n fuel S sessions Cancel (c, p) = Some (Inr (c\<lparr>cn_terminate := True\<rparr>, p))"
| "step_event n fuel S sessions ev cp = None"

inductive si_step :: "nat \<Rightarrow> nat \<Rightarrow> ('p, 'w) server \<Rightarrow> nat \<Rightarrow> ('p, 'w) conn \<times> pending \<Rightarrow> event \<Rightarrow> ('p, 'w) conn \<times> pending \<Rightarrow> bool"
  for n fuel S sessions where
  si_stepI: "step_event n fuel S sessions ev s = Some (Inr s') \<Longrightarrow> si_step n fuel S sessions s ev s'"

inductive_cases si_stepE: "si_step n fuel S sessions s ev s'"

inductive si_reachable :: "nat \<Rightarrow> nat \<Rightarrow> ('p, 'w) server \<Rightarrow> nat \<Rightarrow> ('p, 'w) conn \<times> pending \<Rightarrow> ('p, 'w) conn \<times> pending \<Rightarrow> bool"
  for n fuel S sessions s0 where
  reach_start: "si_reachable n fuel S sessions s0 s0"
| reach_step: "si_reachable n fuel S sessions s0 s \<Longrightarrow> si_step n fuel S sessions s ev s' \<Longrightarrow> si_reachable n fuel S sessions s0 s'"


section \<open>What every handler keeps\<close>

text \<open>\<open>keeps P m\<close>: \<open>m\<close> keeps \<open>P\<close>, also when it throws.\<close>

definition keeps :: "(('p, 'w) conn \<Rightarrow> bool) \<Rightarrow> ('p, 'w, 'a) handler_act \<Rightarrow> bool" where
  "keeps P m \<longleftrightarrow> (\<forall>c. P c \<longrightarrow> P (snd (m c)))"

named_theorems keeps_intros \<open>actions that keep the block of a session\<close>

lemma keeps_bind [keeps_intros]: "keeps P m \<Longrightarrow> (\<And>x. keeps P (f x)) \<Longrightarrow> keeps P (bindS m f)"
  by (auto simp: keeps_def bindS_def split: prod.split sum.split)

lemma keeps_pure [keeps_intros]:
  "keeps P (retS x)" "keeps P (throwS e)" "keeps P (liftS r)" "keeps P (getS g)" "keeps P the_buffer" "keeps P the_result" "keeps P plan_state"
  by (auto simp: keeps_def retS_def throwS_def liftS_def getS_def the_buffer_def the_result_def plan_state_def
      split: sum.split option.split)

lemma keeps_update: "(\<And>c. P c \<Longrightarrow> P (f c)) \<Longrightarrow> keeps P (updateS f)"
  by (simp add: keeps_def updateS_def)

text \<open>A session at work: it has a parse result, and a block of the size it started with.\<close>

definition block_ok :: "nat \<Rightarrow> ('p, 'w) conn \<Rightarrow> bool" where
  "block_ok sz c \<longleftrightarrow> cn_open c \<and> cn_result c \<noteq> None \<and> (\<exists>d. cn_buffer c = Some d \<and> length d = sz)"

lemma block_ok_updates [keeps_intros]:
  "keeps (block_ok sz) (updateS (set_result r))"
  "keeps (block_ok sz) (updateS (assign_plan S p))"
  "keeps (block_ok sz) (updateS (\<lambda>c. assign_plan S p (c\<lparr>cn_world := w\<rparr>)))"
  "keeps (block_ok sz) (updateS (\<lambda>c. c\<lparr>cn_world := w\<rparr>))"
  "keeps (block_ok sz) (updateS (set_plan_state s))"
  "keeps (block_ok sz) (updateS (\<lambda>c. set_result r (assign_plan S p c)))"
  "keeps (block_ok sz) (updateS (\<lambda>c. c\<lparr>cn_parsed := a, cn_binded := b\<rparr>))"
  "keeps (block_ok sz) (updateS (\<lambda>c. c\<lparr>cn_binded := b\<rparr>))"
  by (auto intro!: keeps_update simp: block_ok_def set_result_def assign_plan_def set_plan_state_def)

lemma keeps_call [keeps_intros]: "keeps (block_ok sz) (call_plan S f)" "keeps (block_ok sz) (ask_plan S g)"
  unfolding call_plan_def ask_plan_def by (auto intro!: keeps_intros split: sum.split)

text \<open>An action that starts from the bytes of the block.\<close>

lemma keeps_buffer:
  assumes "\<And>d. length d = sz \<Longrightarrow> keeps (block_ok sz) (f d)"
  shows "keeps (block_ok sz) (bindS the_buffer f)"
  using assms by (fastforce simp: keeps_def bindS_def the_buffer_def block_ok_def split: option.split)

lemma keeps_set_buffer: "length d = sz \<Longrightarrow> keeps (block_ok sz) (updateS (\<lambda>c. c\<lparr>cn_buffer := Some d\<rparr>))"
  by (intro keeps_update) (simp add: block_ok_def)

lemma keeps_build:
  assumes "\<And>d n d'. f d = Inr (n, d') \<Longrightarrow> length d' = length d"
  shows "keeps (block_ok sz) (build_message f)"
  unfolding build_message_def
proof (rule keeps_buffer)
  fix d :: "byte list" assume d: "length d = sz"
  show "keeps (block_ok sz) (bindS (liftS (f d)) (\<lambda>(n, d'). bindS (updateS (\<lambda>c. c\<lparr>cn_buffer := Some d'\<rparr>)) (\<lambda>_. retS n)))"
    using d assms [of d] keeps_set_buffer
    by (cases "f d") (auto simp: keeps_def bindS_def liftS_def throwS_def retS_def updateS_def block_ok_def)
qed

lemma keeps_describe [keeps_intros]: "keeps (block_ok sz) (describe S n)"
  unfolding describe_def
  by (intro keeps_buffer keeps_bind keeps_pure)
    (auto intro!: keeps_bind keeps_pure keeps_set_buffer dest: buildColumnDescription_size split: prod.split)

lemma keeps_parse [keeps_intros]: "keeps (block_ok sz) (si_parse S sql)"
proof -
  have exn: "keeps (block_ok sz) (\<lambda>c. case e of Some exn \<Rightarrow> (Inl exn, c) | None \<Rightarrow> (Inr (), c))" for e :: "exn option"
    by (auto simp: keeps_def split: option.split)
  show ?thesis unfolding si_parse_def Let_def by (auto intro!: keeps_intros exn split: prod.split)
qed

lemma keeps_resolve [keeps_intros]: "keeps (block_ok sz) (si_resolve S)"
  unfolding si_resolve_def Let_def by (auto intro!: keeps_intros split: prod.split sum.split)

lemma keeps_result_loop: "length (pw_data w) = sz \<Longrightarrow> keeps (block_ok sz) (result_loop fuel S n w)"
proof (induction fuel arbitrary: w)
  case (Suc fuel)
  show ?case
    unfolding result_loop.simps
  proof (intro keeps_bind keeps_pure)
    fix s
    obtain r w' where b: "(if n = 0 then (Inr (), w) else buildData (sv_wire S) (sv_lib S) (session_ops (sv_ops S)) s n w) = (r, w')"
      by (metis surj_pair)
    have len: "length (pw_data w') = sz" using b Suc.prems by (auto split: if_splits dest: buildData_size)
    then have store: "keeps (block_ok sz) (updateS (store_block w'))"
      by (intro keeps_update) (simp add: store_block_def block_ok_def)
    show "keeps (block_ok sz)
      (case (if n = 0 then (Inr (), w) else buildData (sv_wire S) (sv_lib S) (session_ops (sv_ops S)) s n w) of
       (Inl e, w') \<Rightarrow> bindS (updateS (store_block w')) (\<lambda>_. throwS e)
     | (Inr (), w') \<Rightarrow> bindS (updateS (store_block w')) (\<lambda>_.
         if n \<noteq> 0 \<and> pw_bufferFull w' then retS (DoWrite (pw_lastPrepare w') C_handleExecutionResult)
         else bindS (getS cn_terminate) (\<lambda>t. bindS (call_plan S (\<lambda>P. o_next P t)) (\<lambda>more.
           if more then result_loop fuel S n w'
           else retS (DoWrite (pw_lastPrepare w') C_handleExecutionDone)))))"
      using Suc.IH [OF len] unfolding b by (cases r) (auto intro!: keeps_intros store split: unit.split)
  qed
qed (simp add: keeps_intros)

lemma keeps_execution [keeps_intros]:
  "keeps (block_ok sz) (handleExecutionResult fuel S)"
  "keeps (block_ok sz) (handleExecutionDone S)"
  "keeps (block_ok sz) (handleExecutionBegin fuel S)"
proof -
  show r: "keeps (block_ok sz) (handleExecutionResult fuel S)"
    unfolding handleExecutionResult_def by (intro keeps_intros keeps_buffer keeps_result_loop) simp
  show d: "keeps (block_ok sz) (handleExecutionDone S)"
    unfolding handleExecutionDone_def
    by (auto intro!: keeps_intros keeps_build dest: buildExecutionDone_size)
  show "keeps (block_ok sz) (handleExecutionBegin fuel S)"
    unfolding handleExecutionBegin_def by (auto intro!: keeps_intros r d)
qed


lemma keeps_bind_params [keeps_intros]: "keeps (block_ok sz) (bind_params ps)"
proof (induction ps)
  case (Cons p ps)
  obtain a b v where p: "p = (a, b, v)" by (rule prod_cases3)
  have "keeps (block_ok sz) (bind_param p)"
    unfolding bind_param_def p Let_def by (auto intro!: keeps_intros)
  then show ?case using Cons by (auto intro!: keeps_intros)
qed (simp add: keeps_intros)

lemma keeps_startup: "keeps (block_ok sz) (handleStartup sessions len)"
  unfolding handleStartup_def
proof (rule keeps_buffer)
  fix d :: "byte list" assume d: "length d = sz"
  have cancel: "keeps (block_ok sz) (updateS (\<lambda>c. case cancel of None \<Rightarrow> c
       | Some i \<Rightarrow> c\<lparr>cn_cancelled := cn_cancelled c @ [i], cn_terminate := (cn_terminate c \<or> i = cn_index c)\<rparr>))" for cancel
    by (intro keeps_update) (auto simp: block_ok_def split: option.split)
  have ssl: "keeps (block_ok sz) (updateS (\<lambda>c. c\<lparr>cn_buffer := Some (put_bytes 0 [ascii (CHR ''N'')] d)\<rparr>))"
    using d by (intro keeps_set_buffer) simp
  have resp: "keeps (block_ok sz) (build_message (\<lambda>d. buildStartupResponse d i))" for i
    by (rule keeps_build) (rule buildStartupResponse_size)
  show "keeps (block_ok sz) (case readStartup sessions d len of (cancel, action) \<Rightarrow>
     bindS (updateS (\<lambda>c. case cancel of None \<Rightarrow> c
       | Some i \<Rightarrow> c\<lparr>cn_cancelled := cn_cancelled c @ [i], cn_terminate := (cn_terminate c \<or> i = cn_index c)\<rparr>)) (\<lambda>_.
     bindS (liftS action) (\<lambda>a. case a of
         SSL \<Rightarrow> bindS (updateS (\<lambda>c. c\<lparr>cn_buffer := Some (put_bytes 0 [ascii (CHR ''N'')] d)\<rparr>)) (\<lambda>_. retS (DoWrite 1 C_readLen))
       | Normal \<Rightarrow> bindS (getS cn_index) (\<lambda>i. bindS (build_message (\<lambda>d. buildStartupResponse d (int i))) (\<lambda>iWritten.
           if iWritten = 0 then throwS (IOException ''Not enough network buffer'')
           else retS (DoWrite iWritten C_readMessageType))))))"
    by (auto intro!: keeps_intros cancel ssl resp split: prod.split StartupAction.split)
qed

lemma keeps_handlers [keeps_intros]:
  "keeps (block_ok sz) handleSync"
  "keeps (block_ok sz) (handleQuery fuel S len)"
  "keeps (block_ok sz) (handleParse S len)"
  "keeps (block_ok sz) (handleBind S len)"
  "keeps (block_ok sz) (handleDescription S len)"
  "keeps (block_ok sz) (handleExecution fuel S len)"
  unfolding handleSync_def handleQuery_def handleParse_def handleBind_def handleDescription_def handleExecution_def Let_def
  by (auto intro!: keeps_intros keeps_build dest: buildSync_size split: prod.split)

text \<open>\<open>gives Q m\<close>: when \<open>m\<close> does not throw, its result has \<open>Q\<close>.\<close>

definition gives :: "('a \<Rightarrow> bool) \<Rightarrow> ('p, 'w, 'a) handler_act \<Rightarrow> bool" where
  "gives Q m \<longleftrightarrow> (\<forall>c x c'. m c = (Inr x, c') \<longrightarrow> Q x)"

lemma gives_bind: "(\<And>x. gives Q (f x)) \<Longrightarrow> gives Q (bindS m f)"
  unfolding gives_def bindS_def by (auto split: prod.splits sum.splits)

lemma gives_pure: "gives Q (throwS e)" "Q x \<Longrightarrow> gives Q (retS x)"
  by (auto simp: gives_def throwS_def retS_def)

text \<open>No handler reads data of its own accord; only \<open>readLen\<close> does, with the length it has checked.\<close>

definition no_data :: "action \<Rightarrow> bool" where
  "no_data a \<longleftrightarrow> (\<forall>n. a \<noteq> ReadData n)"

lemma no_data_simps [simp]: "no_data ReadMessageType" "no_data ReadLen" "no_data (DoWrite n k)" "no_data EndSession" "\<not> no_data (ReadData n)"
  by (simp_all add: no_data_def)

lemma gives_result_loop: "gives no_data (result_loop fuel S n w)"
proof (induction fuel arbitrary: w)
  case (Suc fuel)
  have loop: "gives no_data (case (r :: err + unit, w') of
       (Inl e, w') \<Rightarrow> bindS (updateS (store_block w')) (\<lambda>_. throwS e)
     | (Inr (), w') \<Rightarrow> bindS (updateS (store_block w')) (\<lambda>_.
         if n \<noteq> 0 \<and> pw_bufferFull w' then retS (DoWrite (pw_lastPrepare w') C_handleExecutionResult)
         else bindS (getS cn_terminate) (\<lambda>t. bindS (call_plan S (\<lambda>P. o_next P t)) (\<lambda>more.
           if more then result_loop fuel S n w'
           else retS (DoWrite (pw_lastPrepare w') C_handleExecutionDone)))))" for r w'
    using Suc.IH [of w'] by (cases r) (auto intro!: gives_bind gives_pure split: unit.split)
  show ?case
    unfolding result_loop.simps
  proof (rule gives_bind)
    fix s
    show "gives no_data (case (if n = 0 then (Inr (), w) else buildData (sv_wire S) (sv_lib S) (session_ops (sv_ops S)) s n w) of
       (Inl e, w') \<Rightarrow> bindS (updateS (store_block w')) (\<lambda>_. throwS e)
     | (Inr (), w') \<Rightarrow> bindS (updateS (store_block w')) (\<lambda>_.
         if n \<noteq> 0 \<and> pw_bufferFull w' then retS (DoWrite (pw_lastPrepare w') C_handleExecutionResult)
         else bindS (getS cn_terminate) (\<lambda>t. bindS (call_plan S (\<lambda>P. o_next P t)) (\<lambda>more.
           if more then result_loop fuel S n w'
           else retS (DoWrite (pw_lastPrepare w') C_handleExecutionDone)))))"
      by (rule subst [OF prod.collapse, of "gives no_data \<circ> _", unfolded comp_def]) (rule loop)
  qed
qed (simp add: gives_pure)

lemma gives_execution:
  "gives no_data (handleExecutionResult fuel S)"
  "gives no_data (handleExecutionDone S)"
  "gives no_data (handleExecutionBegin fuel S)"
proof -
  show r: "gives no_data (handleExecutionResult fuel S)"
    unfolding handleExecutionResult_def by (intro gives_bind gives_result_loop)
  show d: "gives no_data (handleExecutionDone S)"
    unfolding handleExecutionDone_def by (auto intro!: gives_bind gives_pure)
  show "gives no_data (handleExecutionBegin fuel S)"
    unfolding handleExecutionBegin_def by (auto intro!: gives_bind r d)
qed

lemma gives_handlers:
  "gives no_data (handleStartup sessions len)"
  "gives no_data handleSync"
  "gives no_data (handleQuery fuel S len)"
  "gives no_data (handleParse S len)"
  "gives no_data (handleBind S len)"
  "gives no_data (handleDescription S len)"
  "gives no_data (handleExecution fuel S len)"
  unfolding handleStartup_def handleSync_def handleQuery_def handleParse_def handleBind_def handleDescription_def handleExecution_def Let_def
  by (auto intro!: gives_bind gives_pure gives_execution split: prod.split StartupAction.split)


section \<open>The session never leaves its block\<close>

text \<open>
  While a session is open it has its parse result and a block of the size it began with, what it
  reads next fits into the block, and what it sends are bytes of the block; once it is closed it has
  given back both.
\<close>

definition si_inv :: "nat \<Rightarrow> ('p, 'w) conn \<times> pending \<Rightarrow> bool" where
  "si_inv sz = (\<lambda>(c, p). case p of
     Reading k n \<Rightarrow> block_ok sz c \<and> 0 < n \<and> n \<le> sz
   | Writing bs k \<Rightarrow> block_ok sz c \<and> 0 < length bs \<and> length bs \<le> sz \<and> (\<exists>d. cn_buffer c = Some d \<and> bs = take (length bs) d)
   | Closed \<Rightarrow> \<not> cn_open c \<and> cn_result c = None \<and> cn_buffer c = None)"

definition act_ok :: "nat \<Rightarrow> (err + action) \<times> ('p, 'w) conn \<Rightarrow> bool" where
  "act_ok sz = (\<lambda>(a, c). block_ok sz c \<and> (\<forall>l. a = Inr (ReadData l) \<longrightarrow> l \<le> sz))"

lemma settle_handler_ok:
  assumes "keeps (block_ok sz) h" "gives no_data h" "block_ok sz c"
  shows "act_ok sz (settle_handler h c)"
proof -
  obtain r c' where h: "h c = (r, c')" by (metis surj_pair)
  with assms(1,3) have c': "block_ok sz c'" unfolding keeps_def by (metis snd_conv)
  show ?thesis
  proof (cases r)
    case (Inr a)
    with assms(2) h have "no_data a" unfolding gives_def by blast
    with Inr h c' show ?thesis by (auto simp: settle_handler_def act_ok_def no_data_def)
  next
    case (Inl e)
    with h c' show ?thesis
      by (auto simp: settle_handler_def act_ok_def report_def block_ok_def dest: buildException_size
          split: prod.splits option.splits sum.splits)
  qed
qed

lemma on_data_ok:
  assumes "block_ok sz c"
  shows "act_ok sz (on_data fuel S sessions len c)"
proof -
  have "act_ok sz (settle_handler (h len) c)" if "si_handler fuel S sessions (cn_qtype c) = Some h" for h
    using that assms
    by (auto simp: si_handler_def split: if_splits intro!: settle_handler_ok keeps_handlers keeps_startup gives_handlers)
  then show ?thesis
    using assms by (auto simp: on_data_def act_ok_def split: option.split)
qed

lemma continue_ok: "block_ok sz c \<Longrightarrow> act_ok sz (settle_handler (continue_with fuel S k) c)"
  by (cases k) (auto simp: continue_with_def intro!: settle_handler_ok keeps_pure keeps_execution gives_pure gives_execution)

lemma on_type_ok: "block_ok sz c \<Longrightarrow> act_ok sz (on_type c)"
  by (auto simp: on_type_def act_ok_def block_ok_def split: option.splits list.splits)

lemma on_len_ok: "block_ok sz c \<Longrightarrow> act_ok sz (on_len c)"
  by (auto simp: on_len_def act_ok_def block_ok_def Let_def split: option.splits if_splits)

lemma start_io_ok: "act_ok sz r \<Longrightarrow> 4 \<le> sz \<Longrightarrow> start_io n fuel S sessions r = Inr s' \<Longrightarrow> si_inv sz s'"
proof (induction n arbitrary: r)
  case 0
  then show ?case by (cases r) simp
next
  case (Suc n)
  obtain a c where r: "r = (a, c)" by (rule prod.exhaust)
  then have c: "block_ok sz c" using Suc.prems(1) by (simp add: act_ok_def)
  note again = Suc.IH [OF on_data_ok [OF c] Suc.prems(2)] Suc.IH [OF continue_ok [OF c] Suc.prems(2)]
  show ?case
  proof (cases a)
    case (Inl e)
    then show ?thesis using Suc.prems(3) r by simp
  next
    case (Inr b)
    then show ?thesis
      using Suc.prems r c again by (cases b) (auto simp: si_inv_def act_ok_def block_ok_def si_end_def split: if_splits option.splits)
  qed
qed

lemma step_event_ok:
  assumes "si_inv sz s" "4 \<le> sz" "step_event n fuel S sessions ev s = Some (Inr s')"
  shows "si_inv sz s'"
proof -
  obtain c p where s: "s = (c, p)" by (rule prod.exhaust)
  have read: "act_ok sz (on_read fuel S sessions k len (receive bs c))" if "block_ok sz c" for k len bs
  proof -
    have "block_ok sz (receive bs c)" using that by (auto simp: receive_def block_ok_def)
    then show ?thesis by (cases k) (simp_all add: on_read_def on_type_ok on_len_ok on_data_ok)
  qed
  have cancel: "block_ok sz (c\<lparr>cn_terminate := True\<rparr>) = block_ok sz c" by (simp add: block_ok_def)
  note step = assms(3) [unfolded s]
  show ?thesis
  proof (cases p)
    case (Reading k l)
    then have c: "block_ok sz c" using assms(1) s by (simp add: si_inv_def)
    show ?thesis
      using step Reading start_io_ok [OF read [OF c] assms(2)] assms(1) s cancel
      by (cases ev) (auto simp: si_inv_def si_end_def split: if_splits)
  next
    case (Writing bs k)
    then have c: "block_ok sz c" using assms(1) s by (simp add: si_inv_def)
    show ?thesis
      using step Writing start_io_ok [OF continue_ok [OF c] assms(2)] assms(1) s cancel
      by (cases ev) (auto simp: si_inv_def si_end_def)
  next
    case Closed
    then show ?thesis using step assms(1) s by (cases ev) (auto simp: si_inv_def)
  qed
qed

lemma si_start_ok: "4 \<le> length d \<Longrightarrow> si_inv (length d) (si_start True (Some d) c)"
  by (simp add: si_start_def si_inv_def block_ok_def)


end
