(* ===== verification/SessionRows.thy ===== *)
theory SessionRows
  imports SessionInfo GroupPlans
begin

text \<open>
  The path of a statement through \<^verbatim>\<open>src/server/SessionInfo\<close>: the rows of its plan are put into the
  block of the session as long as they fit, the block is sent, and so on until the plan has no more
  rows; then the closing message is sent.  The theorems: the client receives every row once and in
  order, then the closing message, and the session reads the next message; and a row that is larger
  than the block makes the server call itself without end.
\<close>

section \<open>The closing message\<close>

text \<open>What the client reads when a statement has been executed.\<close>

definition done_bytes :: "bool \<Rightarrow> bool \<Rightarrow> byte list \<Rightarrow> bool \<Rightarrow> byte list" where
  "done_bytes parsed bind sInfo sync =
     (if parsed then frame (ascii (CHR ''1'')) [] else []) @ (if bind then frame (ascii (CHR ''2'')) [] else []) @
     frame (ascii (CHR ''C'')) (sInfo @ [0]) @ sync_frame sync"

text \<open>A message that is sent only in some cases.\<close>

lemma optional_fits:
  assumes "emits payload body" "pw_ready w" "\<not> pw_bufferFull w" "pw_written w + 5 + length payload < length (pw_data w)"
  obtains w' where "(if b then pw_message c body w else Inr w) = Inr w'" "pw_ready w'" "\<not> pw_bufferFull w'"
    "length (pw_data w') = length (pw_data w)" "prepared w' = prepared w @ (if b then frame c payload else [])"
    "pw_written w' = pw_written w + (if b then 5 + length payload else 0)"
proof (cases b)
  case True
  from message_fits [OF assms(1,2,4), of c] obtain w' where "pw_message c body w = Inr w'" "pw_ready w'" "\<not> pw_bufferFull w'"
    "length (pw_data w') = length (pw_data w)" "prepared w' = prepared w @ frame c payload"
    "pw_written w' = pw_written w + 5 + length payload" .
  then show ?thesis using that [of w'] True by simp
next
  case False
  then show ?thesis using that [of w] assms by simp
qed

lemma buildExecutionDone_fits:
  assumes "length d < 2 ^ 32" "length (done_bytes parsed bind sInfo sync) < length d"
  shows "\<exists>k d'. buildExecutionDone d parsed bind sInfo sync = Inr (k, d') \<and> 0 < k \<and> length d' = length d \<and>
    k \<le> length d \<and> take k d' = done_bytes parsed bind sInfo sync"
proof -
  let ?one = "if parsed then frame (ascii (CHR ''1'')) [] else []" and ?two = "if bind then frame (ascii (CHR ''2'')) [] else []"
  let ?w = "newPgDataWriter d"
  have len: "length (done_bytes parsed bind sInfo sync) = length ?one + length ?two + 6 + length sInfo + (if sync then 6 else 0)"
    by (simp add: done_bytes_def sync_frame_def ready_frame_def)
  from len assms(2) have l1: "pw_written ?w + 5 + length ([] :: byte list) < length (pw_data ?w)" by simp
  have new: "pw_ready ?w" "\<not> pw_bufferFull ?w" using newPgDataWriter_ready [OF assms(1)] by simp_all
  from optional_fits [OF emits_id new l1, of parsed "ascii (CHR ''1'')"] obtain w1 where
    w1: "(if parsed then pw_message (ascii (CHR ''1'')) (\<lambda>w. w) ?w else Inr ?w) = Inr w1" "pw_ready w1" "\<not> pw_bufferFull w1"
      "length (pw_data w1) = length (pw_data ?w)" "prepared w1 = prepared ?w @ ?one"
      "pw_written w1 = pw_written ?w + (if parsed then 5 + length ([] :: byte list) else 0)" .
  have n1: "length (pw_data w1) = length d" "pw_written w1 = length ?one" using w1(4,6) by simp_all
  from len assms(2) n1 have l2: "pw_written w1 + 5 + length ([] :: byte list) < length (pw_data w1)" by simp
  from optional_fits [OF emits_id w1(2,3) l2, of bind "ascii (CHR ''2'')"] obtain w2 where
    w2: "(if bind then pw_message (ascii (CHR ''2'')) (\<lambda>w. w) w1 else Inr w1) = Inr w2" "pw_ready w2" "\<not> pw_bufferFull w2"
      "length (pw_data w2) = length (pw_data w1)" "prepared w2 = prepared w1 @ ?two"
      "pw_written w2 = pw_written w1 + (if bind then 5 + length ([] :: byte list) else 0)" .
  have n2: "length (pw_data w2) = length d" "pw_written w2 = length ?one + length ?two" using w2(4,6) n1 by simp_all
  from len assms(2) n2 have l3: "pw_written w2 + 5 + length (sInfo @ [0 :: byte]) < length (pw_data w2)" by simp
  have "length sInfo + 1 < 2 ^ 32" using len assms by simp
  from message_fits [OF pw_string_emits [OF this] w2(2) l3, of "ascii (CHR ''C'')"] obtain w3 where
    w3: "pw_message (ascii (CHR ''C'')) (pw_string sInfo) w2 = Inr w3" "pw_ready w3" "\<not> pw_bufferFull w3"
      "length (pw_data w3) = length (pw_data w2)" "prepared w3 = prepared w2 @ frame (ascii (CHR ''C'')) (sInfo @ [0])"
      "pw_written w3 = pw_written w2 + 5 + length (sInfo @ [0 :: byte])" .
  have "sync \<longrightarrow> pw_written w3 + 6 < length (pw_data w3)" using len assms(2) n2 w3(4,6) by (simp split: if_splits)
  from ready_fits [OF w3(2,3) this] obtain w4 where w4: "(if sync then write_ready w3 else Inr w3) = Inr w4" "pw_ready w4"
    "\<not> pw_bufferFull w4" "length (pw_data w4) = length (pw_data w3)" "prepared w4 = prepared w3 @ sync_frame sync" .
  have p: "prepared w4 = done_bytes parsed bind sInfo sync" using w4(5) w3(5) w2(5) w1(5) by (simp add: done_bytes_def)
  have l: "pw_lastPrepare w4 \<le> length d" using w4(2,4) w3(4) n2(1) by (simp add: pw_ready_def pw_ok_def)
  have "length (prepared w4) = pw_lastPrepare w4" using l w4(4) w3(4) n2(1) by (simp add: prepared_def)
  then have "0 < pw_lastPrepare w4" using p by (cases "pw_lastPrepare w4") (simp_all add: done_bytes_def frame_def)
  moreover have "buildExecutionDone d parsed bind sInfo sync = Inr (pw_result w4)"
    using w1(1) w2(1) w3(1) w4(1,3) by (simp add: buildExecutionDone_def not_full_def del: newPgDataWriter_simps)
  ultimately show ?thesis using p l w4(4) w3(4) n2(1) by (auto simp: pw_result_def prepared_def)
qed


section \<open>A session with a plan\<close>

text \<open>The plan and the world of a session, and what no part of an execution changes.\<close>

definition at_plan :: "nat \<Rightarrow> ('p, 'w) conn \<Rightarrow> 'p session_plan \<times> 'w \<Rightarrow> bool" where
  "at_plan sz c s \<longleftrightarrow> cn_plan c = Some (fst s) \<and> cn_world c = snd s \<and> \<not> cn_terminate c \<and> block_ok sz c"

definition flags :: "('p, 'w) conn \<Rightarrow> bool \<times> bool \<times> byte" where
  "flags c = (cn_parsed c, cn_binded c, cn_qtype c)"

lemma plan_state_at: "at_plan sz c s \<Longrightarrow> plan_state c = (Inr s, c)"
  by (cases s) (simp add: at_plan_def plan_state_def)

lemma set_plan_at: "at_plan sz c s \<Longrightarrow> at_plan sz (set_plan_state s' c) s' \<and> flags (set_plan_state s' c) = flags c"
  by (auto simp: at_plan_def set_plan_state_def block_ok_def flags_def)

lemma store_block_at:
  "at_plan sz c s \<Longrightarrow> length (pw_data w) = sz \<Longrightarrow>
    at_plan sz (store_block w c) s \<and> flags (store_block w c) = flags c \<and> cn_buffer (store_block w c) = Some (pw_data w)"
  by (auto simp: at_plan_def store_block_def block_ok_def flags_def)

lemma call_plan_at:
  assumes "at_plan sz c s" "f (session_ops (sv_ops S)) s = Inr (x, s')"
  shows "call_plan S f c = (Inr x, set_plan_state s' c)"
  by (simp add: call_plan_def bindS_def plan_state_at [OF assms(1)] assms(2) updateS_def retS_def)

lemma ask_plan_at: "at_plan sz c s \<Longrightarrow> f (session_ops (sv_ops S)) s = Inr x \<Longrightarrow> ask_plan S f c = (Inr x, c)"
  by (simp add: ask_plan_def bindS_def plan_state_at liftS_def retS_def)

section \<open>Rows into the block\<close>

text \<open>The current row of a plan as a client reads it.\<close>

definition wire_row :: "wire_lib \<Rightarrow> lib \<Rightarrow> 's plan_ops \<Rightarrow> 's \<Rightarrow> byte list option list res" where
  "wire_row W L P s = bindR (o_getResultColumns P s) (\<lambda>n. row_texts W L P n s)"

lemma wire_row_columns: "wire_row W L P s = Inr ts \<Longrightarrow> o_getResultColumns P s = Inr (length ts) \<and> row_texts W L P (length ts) s = Inr ts"
  using traverseR_length [of _ "[0..<_]" ts] by (fastforce simp: wire_row_def row_texts_def)

definition row_frames :: "byte list option list list \<Rightarrow> byte list" where
  "row_frames rows = concat (map (\<lambda>ts. frame (ascii (CHR ''D'')) (row_payload ts)) rows)"

lemma row_frames_simps [simp]:
  "row_frames [] = []" "row_frames (ts # rows) = frame (ascii (CHR ''D'')) (row_payload ts) @ row_frames rows"
  "row_frames (rows @ rows') = row_frames rows @ row_frames rows'"
  by (simp_all add: row_frames_def)

text \<open>
  One run of the loop: it stops at a row that does not fit, which stays the current one, or at the
  end of the plan.
\<close>

lemma result_loop_run:
  fixes S :: "('p, 'w) server"
  defines "P \<equiv> session_ops (sv_ops S)"
  defines "cur \<equiv> wire_row (sv_wire S) (sv_lib S) P"
  assumes "wire_lib_ok (sv_wire S)" "n \<noteq> 0" "at_plan sz c s" "pw_ready w" "length (pw_data w) = sz" "length rs < fuel"
    and "cur s = Inr ts" "delivers_to (o_next P False) cur s (map Inr rs) Q" "\<forall>r \<in> set (ts # rs). length r = n"
  shows "\<exists>a c' w' s'. result_loop fuel S n w c = (Inr a, c') \<and> flags c' = flags c \<and> at_plan sz c' s' \<and>
    cn_buffer c' = Some (pw_data w') \<and> length (pw_data w') = sz \<and> pw_lastPrepare w' \<le> sz \<and>
    ((\<exists>sent ts' rs'. ts # rs = sent @ ts' # rs' \<and> a = DoWrite (pw_lastPrepare w') C_handleExecutionResult \<and> cur s' = Inr ts' \<and>
        delivers_to (o_next P False) cur s' (map Inr rs') Q \<and> prepared w' = prepared w @ row_frames sent \<and>
        (sent = [] \<longrightarrow> sz \<le> pw_written w + 5 + length (row_payload ts))) \<or>
     a = DoWrite (pw_lastPrepare w') C_handleExecutionDone \<and> Q s' \<and> prepared w' = prepared w @ row_frames (ts # rs))"
  using assms(5-)
proof (induction fuel arbitrary: c s w ts rs)
  case 0
  then show ?case by simp
next
  case (Suc fuel)
  note at = Suc.prems(1)
  have n: "length ts = n" and texts: "row_texts (sv_wire S) (sv_lib S) P n s = Inr ts"
    using Suc.prems(7) wire_row_columns [of "sv_wire S" "sv_lib S" P s ts] Suc.prems(5) by (auto simp: cur_def)
  from texts assms(3) Suc.prems(2) show ?case
  proof (cases rule: buildData_cases)
    case (full w')
    have "result_loop (Suc fuel) S n w c = (Inr (DoWrite (pw_lastPrepare w') C_handleExecutionResult), store_block w' c)"
      using full(1,2) assms(4) by (simp add: bindS_def plan_state_at [OF at] updateS_def retS_def flip: P_def split: unit.split)
    moreover have "pw_lastPrepare w' \<le> sz" using full(5) Suc.prems(2,3) by (simp add: pw_ready_def pw_ok_def)
    ultimately show ?thesis
      using full Suc.prems(3,5,6) store_block_at [OF at, of w']
      by (intro exI [of _ "DoWrite (pw_lastPrepare w') C_handleExecutionResult"] exI [of _ "store_block w' c"] exI [of _ w'] exI [of _ s])
        (auto intro: exI [of _ "[]"])
  next
    case (fits w')
    let ?c = "store_block w' c"
    have at': "at_plan sz ?c s" "flags ?c = flags c" "cn_buffer ?c = Some (pw_data w')" "\<not> cn_terminate ?c"
      using store_block_at [OF at, of w'] fits(4) Suc.prems(3) by (simp_all add: at_plan_def)
    have loop: "result_loop (Suc fuel) S n w c = (if more then result_loop fuel S n w' (set_plan_state s' ?c)
        else (Inr (DoWrite (pw_lastPrepare w') C_handleExecutionDone), set_plan_state s' ?c))"
      if "o_next P False s = Inr (more, s')" for more s'
      using fits(1,3) assms(4) at'(4) call_plan_at [OF at'(1), of "\<lambda>P. o_next P False" S, folded P_def, OF that]
      by (simp add: bindS_def plan_state_at [OF at] updateS_def getS_def retS_def flip: P_def split: unit.split)
    show ?thesis
    proof (cases rs)
      case Nil
      with Suc.prems(6) obtain s' where s': "o_next P False s = Inr (False, s')" "Q s'" by auto
      have "pw_lastPrepare w' \<le> sz" using fits(2,4) Suc.prems(3) by (simp add: pw_ready_def pw_ok_def)
      then show ?thesis
        using loop [OF s'(1)] set_plan_at [OF at'(1), of s'] at' fits(4,5) Suc.prems(3) s'(2) Nil
        by (intro exI [of _ "DoWrite (pw_lastPrepare w') C_handleExecutionDone"] exI [of _ "set_plan_state s' ?c"] exI [of _ w'] exI [of _ s'])
          (auto simp: set_plan_state_def)
    next
      case (Cons t rs1)
      with Suc.prems(6) obtain s' where s': "o_next P False s = Inr (True, s')" "cur s' = Inr t"
        "delivers_to (o_next P False) cur s' (map Inr rs1) Q" by auto
      from set_plan_at [OF at'(1), of s'] have at2: "at_plan sz (set_plan_state s' ?c) s'" "flags (set_plan_state s' ?c) = flags c"
        using at'(2) by simp_all
      have len: "length (pw_data w') = sz" "length rs1 < fuel" "\<forall>r \<in> set (t # rs1). length r = n"
        using fits(4) Suc.prems(3,4,7) Cons by auto
      from Suc.IH [OF at2(1) fits(2) len(1,2) s'(2,3) len(3)] obtain a c' w2 s2 where
        r: "result_loop fuel S n w' (set_plan_state s' ?c) = (Inr a, c')" "flags c' = flags c" "at_plan sz c' s2"
          "cn_buffer c' = Some (pw_data w2)" "length (pw_data w2) = sz" "pw_lastPrepare w2 \<le> sz"
        and alt: "(\<exists>sent ts' rs'. t # rs1 = sent @ ts' # rs' \<and> a = DoWrite (pw_lastPrepare w2) C_handleExecutionResult \<and> cur s2 = Inr ts' \<and>
            delivers_to (o_next P False) cur s2 (map Inr rs') Q \<and> prepared w2 = prepared w' @ row_frames sent) \<or>
          a = DoWrite (pw_lastPrepare w2) C_handleExecutionDone \<and> Q s2 \<and> prepared w2 = prepared w' @ row_frames (t # rs1)"
        unfolding at2(2) by blast
      have pre: "prepared w2 = prepared w' @ bs \<Longrightarrow> prepared w2 = prepared w @ frame (ascii (CHR ''D'')) (row_payload ts) @ bs" for bs
        using fits(5) by simp
      have split: "t # rs1 = sent @ ts' # rs' \<Longrightarrow> ts # rs = (ts # sent) @ ts' # rs'" for sent ts' rs' using Cons by simp
      show ?thesis
        unfolding loop [OF s'(1)] if_True using r alt pre split Cons
        by (intro exI [of _ a] exI [of _ c'] exI [of _ w2] exI [of _ s2]) (fastforce intro: exI [of _ "ts # _"])
    qed
  qed
qed


section \<open>What a client receives\<close>

text \<open>\<open>si_sends s out s'\<close>: the sends that \<open>s\<close> leads to complete one after the other; they are of the bytes \<open>out\<close>.\<close>

inductive si_sends :: "nat \<Rightarrow> nat \<Rightarrow> ('p, 'w) server \<Rightarrow> nat \<Rightarrow> ('p, 'w) conn \<times> pending \<Rightarrow> byte list \<Rightarrow> ('p, 'w) conn \<times> pending \<Rightarrow> bool"
  for n fuel S sessions where
  sends_none: "si_sends n fuel S sessions s [] s"
| sends_more: "step_event n fuel S sessions Sent (c, Writing bs k) = Some (Inr s) \<Longrightarrow> si_sends n fuel S sessions s out s' \<Longrightarrow>
    si_sends n fuel S sessions (c, Writing bs k) (bs @ out) s'"

text \<open>A handler that ends with a send of bytes of the block, and then the completion of the send.\<close>

lemma start_write:
  assumes "h c = (Inr (DoWrite k cont), c')" "cn_buffer c' = Some d" "0 < k" "k \<le> length d"
  shows "start_io (Suc n) fuel S sessions (settle_handler h c) = Inr (c', Writing (take k d) cont)"
  using assms by (simp add: settle_handler_def)

lemma sends_then:
  assumes "start_io n fuel S sessions (settle_handler (continue_with fuel S k) c) = Inr s" "si_sends n fuel S sessions s out s'"
  shows "si_sends n fuel S sessions (c, Writing bs k) (bs @ out) s'"
  using assms by (intro sends_more [where s = s]) simp_all

definition closing :: "('p, 'w) conn \<Rightarrow> string \<Rightarrow> byte list" where
  "closing c info = done_bytes (cn_parsed c) (cn_binded c) (bytes_of info) (simple_query c)"

lemma closing_cong: "flags c' = flags c \<Longrightarrow> closing c' info = closing c info"
  by (simp add: flags_def closing_def simple_query_def)

text \<open>The plan has no more rows: the closing message, then the next message is read.\<close>

lemma done_sent:
  assumes "at_plan sz c s" "sz < 2 ^ 32" "length (closing c info) < sz"
    and "o_end (session_ops (sv_ops S)) s = Inr s2" "o_getInfoString (session_ops (sv_ops S)) s2 = Inr info"
  shows "\<exists>s' c'. start_io (Suc n) fuel S sessions (settle_handler (handleExecutionDone S) c) = Inr s' \<and> cn_plan c' = None \<and>
    si_sends (Suc n) fuel S sessions s' (closing c info) (c', Reading R_type 1)"
proof -
  let ?c1 = "set_plan_state s2 c"
  have at1: "at_plan sz ?c1 s2" "flags ?c1 = flags c" using set_plan_at [OF assms(1)] by simp_all
  from assms(1) obtain d r where d: "cn_buffer c = Some d" "length d = sz" "cn_result c = Some r"
    by (auto simp: at_plan_def block_ok_def)
  let ?c2 = "set_result (pr_restore r) (assign_plan S None ?c1)"
  have c2: "flags ?c2 = flags c" "cn_buffer ?c2 = Some d" "cn_plan ?c2 = None"
    using at1(2) d(1) by (simp_all add: set_result_def assign_plan_def set_plan_state_def flags_def)
  have c2': "cn_parsed ?c2 = cn_parsed c" "cn_binded ?c2 = cn_binded c" "simple_query ?c2 = simple_query c"
    using c2(1) by (simp_all add: flags_def simple_query_def)
  from buildExecutionDone_fits [of d "cn_parsed c" "cn_binded c" "bytes_of info" "simple_query c"] assms(2,3) d(2)
  obtain k d' where k: "buildExecutionDone d (cn_parsed c) (cn_binded c) (bytes_of info) (simple_query c) = Inr (k, d')"
    "0 < k" "length d' = sz" "k \<le> sz" "take k d' = closing c info" by (auto simp: closing_def)
  let ?c3 = "?c2\<lparr>cn_buffer := Some d', cn_parsed := False, cn_binded := False\<rparr>"
  have res: "the_result c = (Inr r, c)" by (simp add: the_result_def d(3))
  have buf: "the_buffer ?c2 = (Inr d, ?c2)" by (simp add: the_buffer_def c2(2))
  have "call_plan S (\<lambda>P s. mapR (\<lambda>s'. ((), s')) (o_end P s)) c = (Inr (), ?c1)"
    by (rule call_plan_at [OF assms(1)]) (simp add: assms(4))
  moreover have "ask_plan S o_getInfoString ?c1 = (Inr info, ?c1)"
    by (rule ask_plan_at [OF at1(1)]) (rule assms(5))
  ultimately have "handleExecutionDone S c = (Inr (DoWrite k C_readMessageType), ?c3)"
    using k(1) by (simp add: handleExecutionDone_def bindS_def res updateS_def getS_def build_message_def liftS_def retS_def buf c2')
  from start_write [where h = "handleExecutionDone S", OF this _ k(2)] k(3,4)
  have st: "start_io (Suc n) fuel S sessions (settle_handler (handleExecutionDone S) c) = Inr (?c3, Writing (closing c info) C_readMessageType)"
    using k(5) by simp
  have "start_io (Suc n) fuel S sessions (settle_handler (continue_with fuel S C_readMessageType) ?c3) = Inr (?c3, Reading R_type 1)"
    by (simp add: settle_handler_def continue_with_def retS_def)
  from sends_then [OF this sends_none, of "closing c info"]
  have "si_sends (Suc n) fuel S sessions (?c3, Writing (closing c info) C_readMessageType) (closing c info) (?c3, Reading R_type 1)" by simp
  moreover have "cn_plan ?c3 = None" using c2(3) by simp
  ultimately show ?thesis using st by blast
qed


text \<open>From a current row on: the rows in order, each once, over as many sends as they need, then the closing message.\<close>

lemma rows_sent:
  fixes S :: "('p, 'w) server" and info :: string
  defines "P \<equiv> session_ops (sv_ops S)"
  defines "cur \<equiv> wire_row (sv_wire S) (sv_lib S) P"
  defines "Q \<equiv> \<lambda>s'. \<exists>s2. o_end P s' = Inr s2 \<and> o_getInfoString P s2 = Inr info"
  assumes "wire_lib_ok (sv_wire S)" "m \<noteq> 0" "sz < 2 ^ 32" "at_plan sz c s" "length rs < fuel" "length (closing c info) < sz"
    and "cur s = Inr ts" "delivers_to (o_next P False) cur s (map Inr rs) Q"
    and "\<forall>r \<in> set (ts # rs). length r = m \<and> 5 + length (row_payload r) < sz"
  shows "\<exists>s' c'. start_io (Suc n) fuel S sessions (settle_handler (handleExecutionResult fuel S) c) = Inr s' \<and> cn_plan c' = None \<and>
    si_sends (Suc n) fuel S sessions s' (row_frames (ts # rs) @ closing c info) (c', Reading R_type 1)"
  using assms(7-)
proof (induction "length rs" arbitrary: c s ts rs rule: less_induct)
  case less
  note at = less.prems(1)
  from at obtain d where d: "cn_buffer c = Some d" "length d = sz" by (auto simp: at_plan_def block_ok_def)
  let ?w = "newPgDataWriter d"
  have w: "pw_ready ?w" "length (pw_data ?w) = sz" using newPgDataWriter_ready assms(6) d(2) by simp_all
  have all: "\<forall>r \<in> set (ts # rs). length r = m" using less.prems(6) by blast
  from result_loop_run [OF assms(4,5) at w less.prems(2) less.prems(4) [unfolded cur_def P_def]
      less.prems(5) [unfolded cur_def P_def] all, folded P_def, folded cur_def,
      unfolded newPgDataWriter_simps append_Nil add_0]
  obtain a c1 w1 s1 where r: "result_loop fuel S m ?w c = (Inr a, c1)" "flags c1 = flags c" "at_plan sz c1 s1"
      "cn_buffer c1 = Some (pw_data w1)" "length (pw_data w1) = sz" "pw_lastPrepare w1 \<le> sz"
    and alt: "(\<exists>sent ts' rs'. ts # rs = sent @ ts' # rs' \<and> a = DoWrite (pw_lastPrepare w1) C_handleExecutionResult \<and> cur s1 = Inr ts' \<and>
        delivers_to (o_next P False) cur s1 (map Inr rs') Q \<and> prepared w1 = row_frames sent \<and>
        (sent = [] \<longrightarrow> sz \<le> 5 + length (row_payload ts))) \<or>
      a = DoWrite (pw_lastPrepare w1) C_handleExecutionDone \<and> Q s1 \<and> prepared w1 = row_frames (ts # rs)"
    by blast
  have "o_getResultColumns P s = Inr m"
    using wire_row_columns less.prems(4,6) unfolding cur_def by (metis list.set_intros(1))
  then have cols: "ask_plan S o_getResultColumns c = (Inr m, c)" unfolding P_def by (rule ask_plan_at [OF at])
  have h: "handleExecutionResult fuel S c = (Inr a, c1)"
    by (simp add: handleExecutionResult_def bindS_def cols the_buffer_def d(1) r(1))
  have pos: "0 < pw_lastPrepare w1" if "prepared w1 = row_frames (x # xs)" for x xs
    using that by (cases "pw_lastPrepare w1") (simp_all add: prepared_def frame_def)
  note start = start_write [where h = "handleExecutionResult fuel S", OF _ r(4) _ r(6) [folded r(5)], folded prepared_def]
  have cl: "closing c1 info = closing c info" by (rule closing_cong [OF r(2)])
  from alt show ?case
  proof (elim disjE exE conjE)
    fix sent ts' rs'
    assume split: "ts # rs = sent @ ts' # rs'" and a: "a = DoWrite (pw_lastPrepare w1) C_handleExecutionResult"
      and cur: "cur s1 = Inr ts'" "delivers_to (o_next P False) cur s1 (map Inr rs') Q"
      and p: "prepared w1 = row_frames sent" "sent = [] \<longrightarrow> sz \<le> 5 + length (row_payload ts)"
    from p(2) less.prems(6) obtain x xs where sent: "sent = x # xs" by (cases sent) auto
    then have rs: "rs = xs @ ts' # rs'" using split by simp
    have fits: "\<forall>r \<in> set (ts' # rs'). length r = m \<and> 5 + length (row_payload r) < sz" using less.prems(6) rs by simp
    have "length rs' < length rs" "length rs' < fuel" using rs less.prems(2) by simp_all
    from less.hyps [OF this(1) r(3) this(2) _ cur fits] less.prems(3) obtain s' c' where
      s': "start_io (Suc n) fuel S sessions (settle_handler (handleExecutionResult fuel S) c1) = Inr s'" "cn_plan c' = None"
        "si_sends (Suc n) fuel S sessions s' (row_frames (ts' # rs') @ closing c info) (c', Reading R_type 1)"
      unfolding cl by blast
    have "si_sends (Suc n) fuel S sessions (c1, Writing (prepared w1) C_handleExecutionResult)
        (prepared w1 @ row_frames (ts' # rs') @ closing c info) (c', Reading R_type 1)"
      by (rule sends_then [OF _ s'(3)]) (simp add: continue_with_def s'(1))
    moreover have "prepared w1 @ row_frames (ts' # rs') = row_frames (ts # rs)" unfolding split p(1) by simp
    ultimately have "si_sends (Suc n) fuel S sessions (c1, Writing (prepared w1) C_handleExecutionResult)
        (row_frames (ts # rs) @ closing c info) (c', Reading R_type 1)" by (metis append.assoc)
    with start [OF h [unfolded a] pos [OF p(1) [unfolded sent]]] s'(2) show ?thesis by blast
  next
    assume a: "a = DoWrite (pw_lastPrepare w1) C_handleExecutionDone" and q: "Q s1" and p: "prepared w1 = row_frames (ts # rs)"
    from q obtain s2 where s2: "o_end P s1 = Inr s2" "o_getInfoString P s2 = Inr info" by (auto simp: Q_def)
    from done_sent [OF r(3) assms(6) _ s2 [unfolded P_def], unfolded cl, OF less.prems(3)] obtain s' c' where
      s': "start_io (Suc n) fuel S sessions (settle_handler (handleExecutionDone S) c1) = Inr s'" "cn_plan c' = None"
        "si_sends (Suc n) fuel S sessions s' (closing c info) (c', Reading R_type 1)" by blast
    have "si_sends (Suc n) fuel S sessions (c1, Writing (prepared w1) C_handleExecutionDone)
        (prepared w1 @ closing c info) (c', Reading R_type 1)"
      by (rule sends_then [OF _ s'(3)]) (simp add: continue_with_def s'(1))
    with start [OF h [unfolded a] pos [OF p]] s'(2) show ?thesis unfolding p by blast
  qed
qed


text \<open>
  C8. A statement whose plan has columns, from the beginning of its execution: the client receives
  the Data messages of all rows of the plan, in order and each exactly once, however many sends they
  take, then the closing message (with the ready message where the client waits for it), and then
  the session is reading the next message and has no plan any more.  Every row has to fit into the
  block by itself.
\<close>

theorem rows_reach_client:
  fixes S :: "('p, 'w) server" and info :: string
  assumes "at_plan sz c s0" "o_begin (session_ops (sv_ops S)) False s0 = Inr s1" "wire_lib_ok (sv_wire S)"
    and "delivers_to (o_next (session_ops (sv_ops S)) False) (wire_row (sv_wire S) (sv_lib S) (session_ops (sv_ops S))) s1 (map Inr rows)
      (\<lambda>s'. \<exists>s2. o_end (session_ops (sv_ops S)) s' = Inr s2 \<and> o_getInfoString (session_ops (sv_ops S)) s2 = Inr info)"
    and "\<forall>ts \<in> set rows. length ts = m \<and> 5 + length (row_payload ts) < sz" "m \<noteq> 0"
    and "length rows < fuel" "sz < 2 ^ 32" "length (closing c info) < sz"
  shows "\<exists>s' c'. start_io (Suc n) fuel S sessions (settle_handler (handleExecutionBegin fuel S) c) = Inr s' \<and> cn_plan c' = None \<and>
    si_sends (Suc n) fuel S sessions s' (row_frames rows @ closing c info) (c', Reading R_type 1)"
proof -
  let ?P = "session_ops (sv_ops S)" and ?c1 = "set_plan_state s1 c"
  have tm: "getS cn_terminate c = (Inr False, c)" using assms(1) by (simp add: at_plan_def getS_def)
  have beg: "call_plan S (\<lambda>P s. mapR (\<lambda>s'. ((), s')) (o_begin P False s)) c = (Inr (), ?c1)"
    by (rule call_plan_at [OF assms(1)]) (simp add: assms(2))
  have at1: "at_plan sz ?c1 s1" "flags ?c1 = flags c" using set_plan_at [OF assms(1)] by simp_all
  have next1: "settle_handler (handleExecutionBegin fuel S) c =
      settle_handler (if more then handleExecutionResult fuel S else handleExecutionDone S) (set_plan_state s ?c1)"
    if "o_next ?P False s1 = Inr (more, s)" for more s
    using call_plan_at [OF at1(1), of "\<lambda>P. o_next P False" S, OF that]
    by (simp add: settle_handler_def handleExecutionBegin_def bindS_def tm beg)
  have cl: "closing (set_plan_state s ?c1) info = closing c info" "at_plan sz (set_plan_state s ?c1) s" for s
    using set_plan_at [OF at1(1)] at1(2) closing_cong by metis+
  show ?thesis
  proof (cases rows)
    case Nil
    with assms(4) obtain s s2 where s: "o_next ?P False s1 = Inr (False, s)" "o_end ?P s = Inr s2" "o_getInfoString ?P s2 = Inr info" by auto
    from done_sent [OF cl(2) assms(8) _ s(2,3), unfolded cl(1), OF assms(9)] show ?thesis
      by (simp add: next1 [OF s(1)] Nil)
  next
    case (Cons t rs)
    with assms(4) obtain s where s: "o_next ?P False s1 = Inr (True, s)" "wire_row (sv_wire S) (sv_lib S) ?P s = Inr t"
      "delivers_to (o_next ?P False) (wire_row (sv_wire S) (sv_lib S) ?P) s (map Inr rs)
        (\<lambda>s'. \<exists>s2. o_end ?P s' = Inr s2 \<and> o_getInfoString ?P s2 = Inr info)" by auto
    have "length rs < fuel" using assms(7) Cons by simp
    from rows_sent [OF assms(3,6,8) cl(2) this _ s(2,3) assms(5) [unfolded Cons], unfolded cl(1), OF assms(9)] show ?thesis
      by (simp add: next1 [OF s(1)] Cons)
  qed
qed


section \<open>A row that is larger than the block\<close>

text \<open>
  C34. A row that does not fit into the empty block: nothing is sent, and the send of no bytes is
  completed at once by the same function on the same row, so that no number of completions is
  enough: the server calls itself until its stack is exhausted.
\<close>

theorem oversized_row_never_sent:
  fixes S :: "('p, 'w) server"
  assumes "at_plan sz c s" "wire_lib_ok (sv_wire S)" "sz < 2 ^ 32"
    and "wire_row (sv_wire S) (sv_lib S) (session_ops (sv_ops S)) s = Inr ts" "ts \<noteq> []" "sz < 5 + length (row_payload ts)"
  shows "start_io n (Suc fuel) S sessions (settle_handler (handleExecutionResult (Suc fuel) S) c) = Inl OutOfFuel"
  using assms(1)
proof (induction n arbitrary: c)
  case 0
  then show ?case by (cases "settle_handler (handleExecutionResult (Suc fuel) S) c") simp
next
  case (Suc n)
  let ?P = "session_ops (sv_ops S)"
  from Suc.prems obtain d where d: "cn_buffer c = Some d" "length d = sz" by (auto simp: at_plan_def block_ok_def)
  from wire_row_columns [OF assms(4)] have cols: "ask_plan S o_getResultColumns c = (Inr (length ts), c)"
    and texts: "row_texts (sv_wire S) (sv_lib S) ?P (length ts) s = Inr ts"
    using ask_plan_at [where f = o_getResultColumns, OF Suc.prems] by blast+
  have w: "pw_ready (newPgDataWriter d)" using newPgDataWriter_ready assms(3) d(2) by simp
  from texts assms(2) w show ?case
  proof (cases rule: buildData_cases)
    case (fits w')
    then have "5 + length (row_payload ts) \<le> length d" by (simp add: pw_ready_def pw_ok_def)
    then show ?thesis using assms(6) d(2) by simp
  next
    case (full w')
    let ?c = "store_block w' c"
    have "handleExecutionResult (Suc fuel) S c = (Inr (DoWrite 0 C_handleExecutionResult), ?c)"
      using full(1,2,5) assms(5)
      by (simp add: handleExecutionResult_def bindS_def cols the_buffer_def d(1) plan_state_at [OF Suc.prems] updateS_def retS_def
          split: unit.split)
    moreover have "at_plan sz ?c s" using store_block_at [OF Suc.prems, of w'] full(3) d(2) by simp
    from Suc.IH [OF this] have "start_io n (Suc fuel) S sessions (settle_handler (continue_with (Suc fuel) S C_handleExecutionResult) ?c) = Inl OutOfFuel"
      by (simp add: continue_with_def)
    ultimately show ?thesis by (simp add: settle_handler_def)
  qed
qed


section \<open>A session at work\<close>

text \<open>A \<open>VALUES\<close> list as the plan of a session, in a block of 26 bytes: it holds two rows, not three.\<close>

definition ex_wire :: wire_lib where
  "ex_wire = \<lparr>printDouble = (\<lambda>d. bytes_of ''0.000000''), printDate = (\<lambda>t. None), printDatetime = (\<lambda>t. None)\<rparr>"

definition ex_server :: "(const_plan, unit) server" where
  "ex_server = \<lparr>sv_lib = ex_lib, sv_wire = ex_wire, sv_parse = (\<lambda>sql r. (None, r)), sv_build = (\<lambda>t w. (Inr ex_values, w)),
     sv_ops = lift_leaf (const_ops ex_lib), sv_left = (\<lambda>s. s), sv_drop = snd\<rparr>"

definition ex_conn :: "nat \<Rightarrow> const_plan \<Rightarrow> (const_plan, unit) conn" where
  "ex_conn sz p = (newSessionInfo 0 ())\<lparr>cn_open := True, cn_result := Some newParseResult, cn_plan := Some (BuiltPlan p),
     cn_buffer := Some (replicate sz 0), cn_qtype := ascii (CHR ''Q'')\<rparr>"

definition ex_rows :: "byte list option list list" where
  "ex_rows = map (\<lambda>v. [Some (bytes_of v)]) [''1'', ''2'', ''3'']"

lemma ex_at_plan: "at_plan sz (ex_conn sz p) (BuiltPlan p, ())"
  by (simp add: at_plan_def ex_conn_def newSessionInfo_def block_ok_def)

lemma ex_wire_ok: "wire_lib_ok (sv_wire ex_server)"
  by (simp add: wire_lib_ok_def ex_server_def ex_wire_def)

lemma ex_session_ops:
  "session_ops (sv_ops ex_server) = session_ops (lift_leaf (const_ops ex_lib))"
  by (simp add: ex_server_def)

lemma ex_next: "o_next (session_ops (sv_ops ex_server)) t (BuiltPlan p, ()) = mapR (\<lambda>(b, p'). (b, BuiltPlan p', ())) (const_next t p)"
  by (simp add: ex_server_def session_ops_def on_plan_def lift_leaf_def const_ops_def built_def const_next_def CheckCancellation_def)

lemma ex_wire_row:
  assumes "k < 3"
  shows "wire_row (sv_wire ex_server) (sv_lib ex_server) (session_ops (sv_ops ex_server)) (BuiltPlan (ex_values\<lparr>cp_current := Suc k\<rparr>), ()) =
    Inr [Some (bytes_of ([''1'', ''2'', ''3''] ! k))]"
proof -
  from assms have "k \<in> {0, 1, 2}" by auto
  then show ?thesis
    by (elim insertE emptyE)
      (simp_all add: wire_row_def row_texts_def ex_server_def session_ops_def on_plan_def lift_leaf_def const_ops_def const_eval
        const_getResult_def wire_text_def int_to_string_def nat_to_string.simps digit_char_def sendable_def
        isNull_def getInt_def bytes_of_def byte_of_char_def)
qed


lemma ex_delivers:
  "delivers_to (o_next (session_ops (sv_ops ex_server)) False)
     (wire_row (sv_wire ex_server) (sv_lib ex_server) (session_ops (sv_ops ex_server))) (BuiltPlan ex_values, ()) (map Inr ex_rows)
     (\<lambda>s'. \<exists>s2. o_end (session_ops (sv_ops ex_server)) s' = Inr s2 \<and> o_getInfoString (session_ops (sv_ops ex_server)) s2 = Inr (''SELECT '' @ nat_to_string 3))"
proof -
  have nx: "o_next (session_ops (sv_ops ex_server)) False (BuiltPlan (ex_values\<lparr>cp_current := k\<rparr>), ()) =
      Inr (k < 3, BuiltPlan (ex_values\<lparr>cp_current := Suc k\<rparr>), ())" for k
    by (simp add: ex_next const_next_def CheckCancellation_def ex_values_def eval_nat_numeral)
  have zero: "ex_values = ex_values\<lparr>cp_current := 0\<rparr>" by (simp add: ex_values_def)
  show ?thesis
    by (subst zero)
      (simp add: ex_rows_def nx ex_wire_row, simp add: ex_server_def session_ops_def on_plan_def lift_leaf_def const_ops_def empty_ops_def
        const_getInfoString_def ex_values_def built_def eval_nat_numeral)
qed

theorem rows_reach_client_witness:
  "\<exists>s' c'. start_io (Suc 0) 4 ex_server 1 (settle_handler (handleExecutionBegin 4 ex_server) (ex_conn 26 ex_values)) = Inr s' \<and>
    cn_plan c' = None \<and>
    si_sends (Suc 0) 4 ex_server 1 s' (row_frames ex_rows @ closing (ex_conn 26 ex_values) (''SELECT '' @ nat_to_string 3)) (c', Reading R_type 1)"
proof (rule rows_reach_client [OF ex_at_plan _ ex_wire_ok ex_delivers])
  show "o_begin (session_ops (sv_ops ex_server)) False (BuiltPlan ex_values, ()) = Inr (BuiltPlan ex_values, ())"
    by (simp add: ex_server_def session_ops_def on_plan_def lift_leaf_def const_ops_def const_begin_def ex_values_def built_def)
  show "\<forall>ts \<in> set ex_rows. length ts = 1 \<and> 5 + length (row_payload ts) < 26"
    by (simp add: ex_rows_def row_payload_def field_bytes_def)
qed (simp_all add: ex_rows_def closing_def done_bytes_def ex_conn_def newSessionInfo_def simple_query_def sync_frame_def
  ready_frame_def nat_to_string.simps)

theorem oversized_row_never_sent_witness:
  "start_io 9 (Suc 0) ex_server 1 (settle_handler (handleExecutionResult (Suc 0) ex_server) (ex_conn 8 (ex_values\<lparr>cp_current := Suc 0\<rparr>))) =
    Inl OutOfFuel"
  by (rule oversized_row_never_sent [OF ex_at_plan ex_wire_ok _ ex_wire_row])
    (simp_all add: row_payload_def field_bytes_def)



section \<open>What an error leads to\<close>

lemma c_string_length: "length (c_string m) \<le> length m"
  using length_takeWhile_le [of "\<lambda>b. b \<noteq> 0" "bytes_of m"] by (simp add: c_string_def)

lemma report_closes: "err_what e = Some m \<Longrightarrow> cn_qtype c = 0 \<Longrightarrow> report (e, pos) c = (Inr EndSession, c)"
  by (simp add: report_def)

lemma report_writes:
  assumes "err_what e = Some m" "cn_qtype c \<noteq> 0" "block_ok sz c" "146 \<le> sz" "sz < 2 ^ 32" "length m + 1 < 2 ^ 32" "pos < 2 ^ 31"
    and "simple_query c \<longrightarrow> 5 + length (error_payload (c_string m) pos) < sz"
  shows "\<exists>k d' t. report (e, pos) c = (Inr (DoWrite k C_readMessageType), c\<lparr>cn_buffer := Some d'\<rparr>) \<and> 0 < k \<and> k \<le> length d' \<and>
    length d' = sz \<and> take k d' = frame (ascii (CHR ''E'')) (error_payload t pos) @ sync_frame (simple_query c) \<and>
    (t = c_string m \<or> t = take (sz - 100) (c_string m))"
proof -
  from assms(3) obtain d where d: "cn_buffer c = Some d" "length d = sz" by (auto simp: block_ok_def)
  have m: "length (c_string m) + 1 < 2 ^ 32" using c_string_length [of m] assms(6) by linarith
  from buildException_attempts [of d "c_string m" pos "simple_query c" 0] assms(4,5,7,8) d(2) m obtain k d' t where
    k: "buildException (Suc (Suc 0)) d (c_string m) pos (simple_query c) = Inr (k, d')" "k \<le> length d"
      "take k d' = frame (ascii (CHR ''E'')) (error_payload t pos) @ sync_frame (simple_query c)"
      "t = c_string m \<or> t = take (sz - 100) (c_string m)" by auto
  have len: "length d' = sz" using buildException_size [OF k(1)] d(2) by simp
  have bound: "k \<le> length d'" using k(2) d(2) len by simp
  have "0 < k" using k(3) by (cases k) (simp_all add: frame_def)
  then show ?thesis
    using k bound len d(1) assms(1,2) by (auto simp: report_def numeral_2_eq_2 simp del: buildException.simps)
qed

text \<open>
  C19. What becomes of an exception of a handler.  While the connection is being started the session
  is closed without a message.  Otherwise the client is sent an error message with the text (or its
  first \<open>size - 100\<close> bytes), followed by the ready message exactly when it waits for one, and then the
  session reads the next message: its plan, its statement and its flags are as the handler left them.
\<close>

theorem session_answers_errors:
  assumes "h c = (Inl (e, pos), c')" "err_what e = Some m" "block_ok sz c'" "146 \<le> sz" "sz < 2 ^ 32" "length m + 1 < 2 ^ 32" "pos < 2 ^ 31"
    and "simple_query c' \<longrightarrow> 5 + length (error_payload (c_string m) pos) < sz"
  shows "(cn_qtype c' = 0 \<longrightarrow> start_io (Suc n) fuel S sessions (settle_handler h c) = Inr (si_end c', Closed)) \<and>
    (cn_qtype c' \<noteq> 0 \<longrightarrow> (\<exists>d t. (t = c_string m \<or> t = take (sz - 100) (c_string m)) \<and>
      start_io (Suc n) fuel S sessions (settle_handler h c) = Inr (c'\<lparr>cn_buffer := Some d\<rparr>,
        Writing (frame (ascii (CHR ''E'')) (error_payload t pos) @ sync_frame (simple_query c')) C_readMessageType) \<and>
      step_event (Suc n) fuel S sessions Sent (c'\<lparr>cn_buffer := Some d\<rparr>,
        Writing (frame (ascii (CHR ''E'')) (error_payload t pos) @ sync_frame (simple_query c')) C_readMessageType) =
        Some (Inr (c'\<lparr>cn_buffer := Some d\<rparr>, Reading R_type 1))))"
proof (intro conjI impI)
  assume "cn_qtype c' = 0"
  then show "start_io (Suc n) fuel S sessions (settle_handler h c) = Inr (si_end c', Closed)"
    by (simp add: settle_handler_def assms(1) report_closes [OF assms(2)])
next
  assume q: "cn_qtype c' \<noteq> 0"
  from report_writes [OF assms(2) q assms(3-8)] obtain k d' t where
    k: "report (e, pos) c' = (Inr (DoWrite k C_readMessageType), c'\<lparr>cn_buffer := Some d'\<rparr>)" "0 < k" "k \<le> length d'"
      "take k d' = frame (ascii (CHR ''E'')) (error_payload t pos) @ sync_frame (simple_query c')"
      "t = c_string m \<or> t = take (sz - 100) (c_string m)" by blast
  have "settle_handler h c = (Inr (DoWrite k C_readMessageType), c'\<lparr>cn_buffer := Some d'\<rparr>)"
    by (simp add: settle_handler_def assms(1) k(1))
  then have io: "start_io (Suc n) fuel S sessions (settle_handler h c) =
      Inr (c'\<lparr>cn_buffer := Some d'\<rparr>, Writing (take k d') C_readMessageType)"
    using k(2,3) by simp
  have "step_event (Suc n) fuel S sessions Sent (c'\<lparr>cn_buffer := Some d'\<rparr>, Writing bs C_readMessageType) =
      Some (Inr (c'\<lparr>cn_buffer := Some d'\<rparr>, Reading R_type 1))" for bs
    by (simp add: continue_with_def settle_handler_def retS_def)
  with io k(4,5) show "\<exists>d t. (t = c_string m \<or> t = take (sz - 100) (c_string m)) \<and>
      start_io (Suc n) fuel S sessions (settle_handler h c) = Inr (c'\<lparr>cn_buffer := Some d\<rparr>,
        Writing (frame (ascii (CHR ''E'')) (error_payload t pos) @ sync_frame (simple_query c')) C_readMessageType) \<and>
      step_event (Suc n) fuel S sessions Sent (c'\<lparr>cn_buffer := Some d\<rparr>,
        Writing (frame (ascii (CHR ''E'')) (error_payload t pos) @ sync_frame (simple_query c')) C_readMessageType) =
        Some (Inr (c'\<lparr>cn_buffer := Some d\<rparr>, Reading R_type 1))"
    by metis
qed


theorem session_answers_errors_witness:
  "\<exists>d t. (t = c_string ''canceled'' \<or> t = take (200 - 100) (c_string ''canceled'')) \<and>
      start_io (Suc 0) 4 ex_server 1 (settle_handler (throwS (ExecutionException ''canceled'')) (ex_conn 200 ex_values)) =
        Inr ((ex_conn 200 ex_values)\<lparr>cn_buffer := Some d\<rparr>,
        Writing (frame (ascii (CHR ''E'')) (error_payload t (-1)) @ sync_frame True) C_readMessageType)"
proof -
  let ?c = "ex_conn 200 ex_values"
  have h: "throwS (ExecutionException ''canceled'') ?c = (Inl (ExecutionException ''canceled'', -1), ?c)" by (simp add: throwS_def)
  have ok: "block_ok 200 ?c" using ex_at_plan [of 200 ex_values] by (simp add: at_plan_def)
  have q: "cn_qtype ?c \<noteq> 0" "simple_query ?c = True" by (simp_all add: ex_conn_def simple_query_def ascii_def byte_of_char_def)
  have "simple_query ?c \<longrightarrow> 5 + length (error_payload (c_string ''canceled'') (-1)) < 200"
    using c_string_length [of "''canceled''"] by (simp add: error_payload_def)
  from session_answers_errors [where h = "throwS (ExecutionException ''canceled'')", OF h _ ok _ _ _ _ this, of 0 4 ex_server 1] q
  show ?thesis by auto
qed

end
