(* ===== verification/SessionManager.thy ===== *)
theory SessionManager
  imports SessionRows
begin

text \<open>
  \<^verbatim>\<open>src/server/SessionManager\<close> and the accept loop of \<^verbatim>\<open>src/server/PgServer\<close>: the session objects, which
  of them are free, and how connections come to use them.  The theorems: no session object serves
  two connections, as long as their indices fit into 16 bits; and a session that has been cancelled
  stays so, also for the connections that use it later.
\<close>

section \<open>The manager\<close>

text \<open>\<open>m_free\<close> is used from its back.  The mutex makes every operation one step.\<close>

record 'a session_manager =
  sm_sessions :: "'a list"
  sm_free :: "nat list"

definition newSessionManager :: "'a session_manager" where
  "newSessionManager = \<lparr>sm_sessions = [], sm_free = []\<rparr>"

text \<open>\<open>getIndex\<close> returns the \<open>int\<close> index as an \<open>int16_t\<close>; \<open>m_free\<close> holds it as a \<open>size_t\<close>.\<close>

definition getIndex :: "nat \<Rightarrow> int" where
  "getIndex iIndex = to_signed 2 (int iIndex mod 2 ^ 16)"

definition allocSession :: "(nat \<Rightarrow> 'a) \<Rightarrow> 'a session_manager \<Rightarrow> err + nat \<times> 'a session_manager" where
  "allocSession newSession m =
     (if sm_free m = []
      then Inr (length (sm_sessions m), m\<lparr>sm_sessions := sm_sessions m @ [newSession (length (sm_sessions m))]\<rparr>)
      else let iIndex = last (sm_free m) in
        if iIndex < length (sm_sessions m) then Inr (iIndex, m\<lparr>sm_free := butlast (sm_free m)\<rparr>)
        else Inl (Stuck ''m_sessions[iIndex]''))"

definition freeSession :: "nat \<Rightarrow> 'a session_manager \<Rightarrow> 'a session_manager" where
  "freeSession iIndex m = m\<lparr>sm_free := sm_free m @ [nat (getIndex iIndex mod 2 ^ 64)]\<rparr>"

definition getSessionCount :: "'a session_manager \<Rightarrow> nat" where
  "getSessionCount m = length (sm_sessions m)"

definition getSession :: "nat \<Rightarrow> 'a session_manager \<Rightarrow> 'a res" where
  "getSession i m = (if i < length (sm_sessions m) then Inr (sm_sessions m ! i) else Inl (Stuck ''i < m_sessions.size()''))"

definition set_session :: "nat \<Rightarrow> 'a \<Rightarrow> 'a session_manager \<Rightarrow> 'a session_manager" where
  "set_session i x m = m\<lparr>sm_sessions := (sm_sessions m)[i := x]\<rparr>"

definition si_cancel :: "('p, 'w) conn \<times> pending \<Rightarrow> ('p, 'w) conn \<times> pending" where
  "si_cancel = (\<lambda>(c, p). (c\<lparr>cn_terminate := True\<rparr>, p))"

definition sm_stop :: "(('p, 'w) conn \<times> pending) session_manager \<Rightarrow> (('p, 'w) conn \<times> pending) session_manager" where
  "sm_stop m = m\<lparr>sm_sessions := map si_cancel (sm_sessions m)\<rparr>"

definition sm_clear :: "'a session_manager \<Rightarrow> 'a session_manager" where
  "sm_clear m = m\<lparr>sm_sessions := []\<rparr>"

section \<open>The server\<close>

text \<open>
  All sessions share the world.  \<open>ps_accepting\<close> is the session that waits for the next connection.
\<close>

record ('p, 'w) pg_server =
  ps_manager :: "(('p, 'w) conn \<times> pending) session_manager"
  ps_world :: 'w
  ps_accepting :: "nat option"

definition newPgServer :: "'w \<Rightarrow> ('p, 'w) pg_server" where
  "newPgServer w = \<lparr>ps_manager = newSessionManager, ps_world = w, ps_accepting = None\<rparr>"

definition startAccept :: "('p, 'w) pg_server \<Rightarrow> ('p, 'w) pg_server res" where
  "startAccept s = mapR (\<lambda>(i, m). s\<lparr>ps_manager := m, ps_accepting := Some i\<rparr>)
     (allocSession (\<lambda>i. (newSessionInfo i (ps_world s), Closed)) (ps_manager s))"

text \<open>A session that has come to its end is given back: the last line of \<open>SessionInfo::end\<close>.\<close>

definition put_session :: "nat \<Rightarrow> ('p, 'w) conn \<times> pending \<Rightarrow> ('p, 'w) pg_server \<Rightarrow> ('p, 'w) pg_server" where
  "put_session i cp s = s\<lparr>ps_manager := (let m = set_session i cp (ps_manager s) in
     if snd cp = Closed then freeSession i m else m)\<rparr>"

text \<open>
  The completion of an accept: \<open>Some (parse_block, blk)\<close> for a connection, with the blocks its session
  gets.
\<close>

definition on_accept :: "(bool \<times> byte list option) option \<Rightarrow> ('p, 'w) pg_server \<Rightarrow> ('p, 'w) pg_server res" where
  "on_accept con s = (case ps_accepting s of
     None \<Rightarrow> Inl (Stuck ''no accept'')
   | Some i \<Rightarrow> bindR (getSession i (ps_manager s)) (\<lambda>(c, p). startAccept (put_session i (case con of
         None \<Rightarrow> (si_end c, Closed)
       | Some (parse_block, blk) \<Rightarrow> si_start parse_block blk c) s)))"

text \<open>What a session has asked to be cancelled is cancelled at once.\<close>

definition cancel_session :: "nat \<Rightarrow> ('p, 'w) pg_server \<Rightarrow> ('p, 'w) pg_server" where
  "cancel_session i s = (let m = ps_manager s in s\<lparr>ps_manager := set_session i (si_cancel (sm_sessions m ! i)) m\<rparr>)"

definition on_session ::
  "nat \<Rightarrow> nat \<Rightarrow> ('p, 'w) server \<Rightarrow> nat \<Rightarrow> event \<Rightarrow> ('p, 'w) pg_server \<Rightarrow> ('p, 'w) pg_server res option" where
  "on_session n fuel S i ev s = (let m = ps_manager s in
     if length (sm_sessions m) \<le> i then None
     else case sm_sessions m ! i of (c, p) \<Rightarrow>
       map_option (mapR (\<lambda>(c', p'). foldl (\<lambda>s j. cancel_session j s) ((put_session i (c', p') s)\<lparr>ps_world := cn_world c'\<rparr>) (cn_cancelled c')))
         (step_event n fuel S (getSessionCount m) ev (c\<lparr>cn_world := ps_world s, cn_cancelled := []\<rparr>, p)))"

text \<open>
  The steps of the server: an accept completes, or an operation of a session does.  \<open>stop\<close> is called
  at the end only, when nothing more runs.
\<close>

inductive pg_step :: "nat \<Rightarrow> nat \<Rightarrow> ('p, 'w) server \<Rightarrow> ('p, 'w) pg_server \<Rightarrow> ('p, 'w) pg_server \<Rightarrow> bool"
  for n fuel S where
  step_accept: "on_accept con s = Inr s' \<Longrightarrow> pg_step n fuel S s s'"
| step_session: "ev \<noteq> Cancel \<Longrightarrow> on_session n fuel S i ev s = Some (Inr s') \<Longrightarrow> pg_step n fuel S s s'"

inductive pg_reachable :: "nat \<Rightarrow> nat \<Rightarrow> ('p, 'w) server \<Rightarrow> ('p, 'w) pg_server \<Rightarrow> ('p, 'w) pg_server \<Rightarrow> bool"
  for n fuel S s0 where
  pg_start: "pg_reachable n fuel S s0 s0"
| pg_more: "pg_reachable n fuel S s0 s \<Longrightarrow> pg_step n fuel S s s' \<Longrightarrow> pg_reachable n fuel S s0 s'"

inductive_cases pg_stepE: "pg_step n fuel S s s'"


section \<open>No session for two connections\<close>

lemma getIndex_small: "i < 2 ^ 15 \<Longrightarrow> nat (getIndex i mod 2 ^ 64) = i"
  by (simp add: getIndex_def to_signed_def)

text \<open>
  The free sessions and the one that waits for a connection are at rest, no session is free twice,
  and every session at rest can be used again.
\<close>

definition pg_inv :: "('p, 'w) pg_server \<Rightarrow> bool" where
  "pg_inv s \<longleftrightarrow> (let m = ps_manager s in
     distinct (sm_free m) \<and> (\<forall>i \<in> set (sm_free m). i < length (sm_sessions m) \<and> snd (sm_sessions m ! i) = Closed) \<and>
     (\<exists>a. ps_accepting s = Some a \<and> a < length (sm_sessions m) \<and> a \<notin> set (sm_free m) \<and> snd (sm_sessions m ! a) = Closed \<and>
       (\<forall>i < length (sm_sessions m). snd (sm_sessions m ! i) = Closed \<longrightarrow> i = a \<or> i \<in> set (sm_free m))))"

text \<open>The same while no session waits.\<close>

definition idle_inv :: "('a \<times> pending) session_manager \<Rightarrow> bool" where
  "idle_inv m \<longleftrightarrow> distinct (sm_free m) \<and> (\<forall>i \<in> set (sm_free m). i < length (sm_sessions m) \<and> snd (sm_sessions m ! i) = Closed) \<and>
     (\<forall>i < length (sm_sessions m). snd (sm_sessions m ! i) = Closed \<longrightarrow> i \<in> set (sm_free m))"

lemma startAccept_inv:
  assumes "idle_inv (ps_manager s)" "startAccept s = Inr s'"
  shows "pg_inv s'"
proof (cases "sm_free (ps_manager s) = []")
  case True
  then show ?thesis using assms
    by (auto simp: startAccept_def allocSession_def idle_inv_def pg_inv_def nth_append less_Suc_eq)
next
  case False
  then have "sm_free (ps_manager s) = butlast (sm_free (ps_manager s)) @ [last (sm_free (ps_manager s))]" by simp
  then obtain xs x where x: "sm_free (ps_manager s) = xs @ [x]" by blast
  then show ?thesis using assms
    by (auto simp: startAccept_def allocSession_def idle_inv_def pg_inv_def split: if_splits)
qed

lemma startAccept_length: "startAccept s = Inr s' \<Longrightarrow> length (sm_sessions (ps_manager s)) \<le> length (sm_sessions (ps_manager s'))"
  by (auto simp: startAccept_def allocSession_def Let_def split: if_splits)

lemma put_session_length [simp]: "length (sm_sessions (ps_manager (put_session i cp s))) = length (sm_sessions (ps_manager s))"
  by (simp add: put_session_def set_session_def freeSession_def Let_def)

lemma cancel_session_inv: "pg_inv (cancel_session i s) = pg_inv s"
proof -
  have "snd ((sm_sessions m)[i := si_cancel (sm_sessions m ! i)] ! j) = snd (sm_sessions m ! j)" if "j < length (sm_sessions m)" for m j
    using that by (cases "i = j") (auto simp: si_cancel_def split: prod.split)
  then show ?thesis by (auto simp: cancel_session_def pg_inv_def set_session_def Let_def)
qed

lemma cancel_sessions_inv: "pg_inv (foldl (\<lambda>s j. cancel_session j s) s js) = pg_inv s"
  by (induction js arbitrary: s) (simp_all add: cancel_session_inv)

lemma cancel_sessions_length: "length (sm_sessions (ps_manager (foldl (\<lambda>s j. cancel_session j s) s js))) = length (sm_sessions (ps_manager s))"
  by (induction js arbitrary: s) (simp_all add: cancel_session_def set_session_def Let_def)

lemma world_inv: "pg_inv (s\<lparr>ps_world := w\<rparr>) = pg_inv s"
  by (simp add: pg_inv_def)

text \<open>A session that was at work: it goes on, or it is given back.\<close>

lemma put_session_inv:
  assumes "pg_inv s" "i < length (sm_sessions (ps_manager s))" "snd (sm_sessions (ps_manager s) ! i) \<noteq> Closed" "i < 2 ^ 15"
  shows "pg_inv (put_session i cp s)"
proof (cases "snd cp = Closed")
  case True
  then have "put_session i cp s = s\<lparr>ps_manager := (ps_manager s)\<lparr>sm_sessions := (sm_sessions (ps_manager s))[i := cp],
      sm_free := sm_free (ps_manager s) @ [i]\<rparr>\<rparr>"
    using getIndex_small [OF assms(4)] by (simp add: put_session_def set_session_def freeSession_def)
  then show ?thesis using assms(1-3) True by (auto simp: pg_inv_def Let_def nth_list_update)
next
  case False
  then show ?thesis using assms(1-3) by (auto simp: put_session_def set_session_def pg_inv_def Let_def nth_list_update)
qed

text \<open>The session that waited for a connection gets one, or is given back.\<close>

lemma put_accepted_inv:
  assumes "pg_inv s" "ps_accepting s = Some i" "i < 2 ^ 15"
  shows "idle_inv (ps_manager (put_session i cp s))"
proof (cases "snd cp = Closed")
  case True
  then show ?thesis using assms(1,2) getIndex_small [OF assms(3)]
    by (auto simp: put_session_def set_session_def freeSession_def pg_inv_def idle_inv_def Let_def nth_list_update)
next
  case False
  then show ?thesis using assms(1,2)
    by (auto simp: put_session_def set_session_def pg_inv_def idle_inv_def Let_def nth_list_update)
qed

lemma pg_step_length:
  assumes "pg_step n fuel S s s'"
  shows "length (sm_sessions (ps_manager s)) \<le> length (sm_sessions (ps_manager s'))"
  using assms
proof (rule pg_stepE)
  fix con assume "on_accept con s = Inr s'"
  then show ?thesis by (auto simp: on_accept_def split: option.splits prod.splits dest!: startAccept_length)
next
  fix ev i assume "on_session n fuel S i ev s = Some (Inr s')"
  then show ?thesis by (auto simp: on_session_def Let_def cancel_sessions_length split: if_splits prod.splits)
qed

lemma pg_step_inv:
  assumes "pg_step n fuel S s s'" "pg_inv s" "length (sm_sessions (ps_manager s)) \<le> 2 ^ 15"
  shows "pg_inv s'"
  using assms(1)
proof (rule pg_stepE)
  fix con assume a: "on_accept con s = Inr s'"
  then obtain i where i: "ps_accepting s = Some i" by (auto simp: on_accept_def split: option.splits)
  then have "i < 2 ^ 15" using assms(2,3) by (auto simp: pg_inv_def Let_def)
  from put_accepted_inv [OF assms(2) i this] have idle: "idle_inv (ps_manager (put_session i cp s))" for cp .
  from a i obtain c p where "startAccept (put_session i (case con of None \<Rightarrow> (si_end c, Closed)
      | Some (parse_block, blk) \<Rightarrow> si_start parse_block blk c) s) = Inr s'"
    by (auto simp: on_accept_def split: prod.splits)
  then show ?thesis by (rule startAccept_inv [OF idle])
next
  fix ev i assume ev: "ev \<noteq> Cancel" and a: "on_session n fuel S i ev s = Some (Inr s')"
  obtain c p where cp: "sm_sessions (ps_manager s) ! i = (c, p)" by (metis surj_pair)
  with a have i: "i < length (sm_sessions (ps_manager s))" by (auto simp: on_session_def Let_def split: if_splits)
  have "p \<noteq> Closed" using a ev cp i by (cases ev) (auto simp: on_session_def Let_def)
  then have "pg_inv (put_session i cp' s)" for cp'
    using put_session_inv [OF assms(2) i] cp i assms(3) by simp
  then show ?thesis using a cp i by (auto simp: on_session_def Let_def cancel_sessions_inv world_inv split: prod.splits)
qed

text \<open>
  C18. In every state the server comes to while it has at most \<open>2 ^ 15\<close> session objects: the free ones
  are no longer in use, none is free twice, the one that waits for a connection is neither free nor
  in use, and none is lost: a session object serves one connection at a time and is used again when
  it has ended.
\<close>

theorem session_serves_one_connection:
  assumes "startAccept (newPgServer w) = Inr s0" "pg_reachable n fuel S s0 s" "length (sm_sessions (ps_manager s)) \<le> 2 ^ 15"
  shows "pg_inv s"
  using assms(2,3)
proof (induction rule: pg_reachable.induct)
  case pg_start
  have "idle_inv (ps_manager (newPgServer w))" by (simp add: newPgServer_def newSessionManager_def idle_inv_def)
  from startAccept_inv [OF this assms(1)] show ?case .
next
  case (pg_more s s')
  have "length (sm_sessions (ps_manager s)) \<le> 2 ^ 15" using pg_step_length [OF pg_more.hyps(2)] pg_more.prems by simp
  from pg_step_inv [OF pg_more.hyps(2) pg_more.IH [OF this] this] show ?case .
qed


lemma ex_startAccept: "startAccept (newPgServer () :: (const_plan, unit) pg_server) = Inr
   \<lparr>ps_manager = \<lparr>sm_sessions = [(newSessionInfo 0 (), Closed)], sm_free = []\<rparr>, ps_world = (), ps_accepting = Some 0\<rparr>"
  by (simp add: startAccept_def newPgServer_def newSessionManager_def allocSession_def)

text \<open>The first connection: its session is in use, and a second one waits.\<close>

theorem session_serves_one_connection_witness:
  "\<exists>s0 s. startAccept (newPgServer ()) = Inr s0 \<and> pg_reachable 1 4 ex_server s0 s \<and> pg_inv s \<and>
    length (sm_sessions (ps_manager s)) = 2 \<and> snd (sm_sessions (ps_manager s) ! 0) = Reading R_len 4"
proof -
  let ?first = "\<lparr>ps_manager = \<lparr>sm_sessions = [(newSessionInfo 0 () :: (const_plan, unit) conn, Closed)], sm_free = []\<rparr>, ps_world = (), ps_accepting = Some 0\<rparr>"
  let ?c = "si_start True (Some (replicate 64 0)) (newSessionInfo 0 () :: (const_plan, unit) conn)"
  let ?second = "\<lparr>ps_manager = \<lparr>sm_sessions = [?c, (newSessionInfo 1 (), Closed)], sm_free = []\<rparr>, ps_world = (), ps_accepting = Some 1\<rparr>"
  have s0: "startAccept (newPgServer ()) = Inr ?first" by (rule ex_startAccept)
  have "on_accept (Some (True, Some (replicate 64 0))) ?first = Inr ?second"
    by (simp add: on_accept_def getSession_def put_session_def set_session_def startAccept_def allocSession_def si_start_def Let_def)
  from pg_more [OF pg_start step_accept [OF this]] have r: "pg_reachable 1 4 ex_server ?first ?second" .
  from session_serves_one_connection [OF s0 r] have "pg_inv ?second" by simp
  then show ?thesis using s0 r by (intro exI [of _ ?first] exI [of _ ?second]) (simp add: si_start_def)
qed

section \<open>A cancelled session\<close>

lemma keeps_cancelled_update [intro]: "(\<And>c. cn_terminate c \<Longrightarrow> cn_terminate (f c)) \<Longrightarrow> keeps cn_terminate (updateS f)"
  by (rule keeps_update)

lemma cancelled_updates [simp]:
  "cn_terminate (set_result r c) = cn_terminate c"
  "cn_terminate (assign_plan S p c) = cn_terminate c"
  "cn_terminate (set_plan_state s c) = cn_terminate c"
  "cn_terminate (store_block w c) = cn_terminate c"
  "cn_terminate (si_end c) = cn_terminate c"
  "cn_terminate (receive bs c) = cn_terminate c"
  by (simp_all add: set_result_def assign_plan_def set_plan_state_def store_block_def si_end_def receive_def)

lemma keeps_cancelled_plan:
  "keeps cn_terminate (call_plan S f)" "keeps cn_terminate (ask_plan S g)"
  "keeps cn_terminate (build_message h)" "keeps cn_terminate (describe S k)" "keeps cn_terminate (si_resolve S)"
  unfolding call_plan_def ask_plan_def build_message_def describe_def si_resolve_def Let_def
  by (auto intro!: keeps_bind keeps_pure keeps_cancelled_update split: sum.split prod.split)

lemma keeps_cancelled_parse: "keeps cn_terminate (si_parse S sql)"
proof -
  have exn: "keeps cn_terminate (\<lambda>c. case e of Some exn \<Rightarrow> (Inl exn, c) | None \<Rightarrow> (Inr (), c))" for e :: "exn option"
    by (auto simp: keeps_def split: option.split)
  show ?thesis
    unfolding si_parse_def Let_def by (auto intro!: keeps_bind keeps_pure keeps_cancelled_update exn split: prod.split)
qed

lemma keeps_cancelled_bind: "keeps cn_terminate (bind_params ps)"
proof (induction ps)
  case (Cons p ps)
  have "keeps cn_terminate (bind_param p)"
    unfolding bind_param_def Let_def by (cases p) (auto intro!: keeps_bind keeps_pure keeps_cancelled_update)
  then show ?case using Cons by (auto intro!: keeps_bind)
qed (simp add: keeps_pure)

lemma keeps_cancelled_loop: "keeps cn_terminate (result_loop fuel S n w)"
proof (induction fuel arbitrary: w)
  case (Suc fuel)
  then show ?case
    by (auto intro!: keeps_bind keeps_pure keeps_cancelled_update keeps_cancelled_plan split: prod.split sum.split unit.split)
qed (simp add: keeps_pure)

lemma keeps_cancelled_execution:
  "keeps cn_terminate (handleExecutionResult fuel S)"
  "keeps cn_terminate (handleExecutionDone S)"
  "keeps cn_terminate (handleExecutionBegin fuel S)"
proof -
  show r: "keeps cn_terminate (handleExecutionResult fuel S)"
    unfolding handleExecutionResult_def by (auto intro!: keeps_bind keeps_pure keeps_cancelled_plan keeps_cancelled_loop)
  show d: "keeps cn_terminate (handleExecutionDone S)"
    unfolding handleExecutionDone_def by (auto intro!: keeps_bind keeps_pure keeps_cancelled_plan keeps_cancelled_update)
  show "keeps cn_terminate (handleExecutionBegin fuel S)"
    unfolding handleExecutionBegin_def by (auto intro!: keeps_bind keeps_pure keeps_cancelled_plan r d)
qed

lemmas keeps_cancelled = keeps_bind keeps_pure keeps_cancelled_update keeps_cancelled_plan keeps_cancelled_parse
  keeps_cancelled_bind keeps_cancelled_execution

lemma keeps_cancelled_handlers:
  "keeps cn_terminate (handleStartup sessions len)"
  "keeps cn_terminate handleSync"
  "keeps cn_terminate (handleQuery fuel S len)"
  "keeps cn_terminate (handleParse S len)"
  "keeps cn_terminate (handleBind S len)"
  "keeps cn_terminate (handleDescription S len)"
  "keeps cn_terminate (handleExecution fuel S len)"
  unfolding handleStartup_def handleSync_def handleQuery_def handleParse_def handleBind_def handleDescription_def handleExecution_def Let_def
  by (auto intro!: keeps_cancelled split: prod.split StartupAction.split option.split)


lemma keepsD: "keeps P m \<Longrightarrow> P c \<Longrightarrow> m c = (r, c') \<Longrightarrow> P c'"
  unfolding keeps_def by (metis snd_conv)

lemma report_cancelled: "cn_terminate (snd (report x c)) = cn_terminate c"
  by (cases x) (auto simp: report_def split: option.split sum.split prod.split)

lemma settle_cancelled: "keeps cn_terminate h \<Longrightarrow> cn_terminate c \<Longrightarrow> cn_terminate (snd (settle_handler h c))"
  by (auto simp: settle_handler_def report_cancelled split: prod.split sum.split dest: keepsD)

lemma on_data_cancelled: "cn_terminate c \<Longrightarrow> cn_terminate (snd (on_data fuel S sessions len c))"
  by (auto simp: on_data_def si_handler_def intro!: settle_cancelled keeps_cancelled_handlers split: option.split if_splits)

lemma continue_cancelled: "cn_terminate c \<Longrightarrow> cn_terminate (snd (settle_handler (continue_with fuel S k) c))"
  by (cases k) (auto simp: continue_with_def intro!: settle_cancelled keeps_pure keeps_cancelled_execution)

lemma start_io_cancelled:
  assumes "cn_terminate c" "start_io n fuel S sessions (a, c) = Inr (c', p)"
  shows "cn_terminate c'"
  using assms
proof (induction n arbitrary: a c)
  case (Suc n)
  have again: "cn_terminate c'" if "start_io n fuel S sessions r = Inr (c', p)" "cn_terminate (snd r)" for r
    using Suc.IH [of "snd r" "fst r"] that by simp
  show ?case
  proof (cases a)
    case (Inl e)
    then show ?thesis using Suc.prems by simp
  next
    case (Inr b)
    then show ?thesis
      using Suc.prems again [OF _ on_data_cancelled] again [OF _ continue_cancelled]
      by (cases b) (auto split: if_splits option.splits)
  qed
qed simp

lemma step_event_cancelled:
  assumes "cn_terminate c" "step_event n fuel S sessions ev (c, p) = Some (Inr (c', p'))"
  shows "cn_terminate c'"
proof -
  have io: "cn_terminate c'" if "start_io n fuel S sessions r = Inr (c', p')" "cn_terminate (snd r)" for r
    using start_io_cancelled [of "snd r" n fuel S sessions "fst r"] that by simp
  have read: "cn_terminate (snd (on_read fuel S sessions k l (receive bs c)))" for k l bs
    using assms(1) on_data_cancelled [of "receive bs c" fuel S sessions l]
    by (cases k) (auto simp: on_read_def on_type_def on_len_def Let_def split: option.split list.split)
  from assms show ?thesis
    by (cases ev; cases p) (auto split: if_splits intro: io [OF _ read] io [OF _ continue_cancelled])
qed

text \<open>The flag of session \<open>i\<close>.\<close>

definition cancelled :: "nat \<Rightarrow> ('p, 'w) pg_server \<Rightarrow> bool" where
  "cancelled i s \<longleftrightarrow> i < length (sm_sessions (ps_manager s)) \<and> cn_terminate (fst (sm_sessions (ps_manager s) ! i))"

lemma put_session_cancelled: "cancelled i s \<Longrightarrow> (i = j \<longrightarrow> cn_terminate (fst cp)) \<Longrightarrow> cancelled i (put_session j cp s)"
  by (cases "i = j") (auto simp: cancelled_def put_session_def set_session_def freeSession_def Let_def)

lemma startAccept_cancelled: "cancelled i s \<Longrightarrow> startAccept s = Inr s' \<Longrightarrow> cancelled i s'"
  by (auto simp: cancelled_def startAccept_def allocSession_def nth_append Let_def split: if_splits)

lemma cancel_sessions_cancelled: "cancelled i s \<Longrightarrow> cancelled i (foldl (\<lambda>s j. cancel_session j s) s js)"
proof (induction js arbitrary: s)
  case (Cons j js)
  have "cancelled i (cancel_session j s)"
    using Cons.prems by (cases "i = j") (auto simp: cancelled_def cancel_session_def set_session_def si_cancel_def Let_def split: prod.split)
  then show ?case using Cons.IH by simp
qed simp

lemma pg_step_cancelled:
  assumes "pg_step n fuel S s s'" "cancelled i s"
  shows "cancelled i s'"
  using assms(1)
proof (rule pg_stepE)
  fix con assume a: "on_accept con s = Inr s'"
  then obtain j c p where j: "ps_accepting s = Some j" "getSession j (ps_manager s) = Inr (c, p)"
    and st: "startAccept (put_session j (case con of None \<Rightarrow> (si_end c, Closed)
      | Some (parse_block, blk) \<Rightarrow> si_start parse_block blk c) s) = Inr s'"
    by (auto simp: on_accept_def split: option.splits prod.splits)
  have "i = j \<Longrightarrow> cn_terminate c" using assms(2) j(2) by (auto simp: cancelled_def getSession_def split: if_splits)
  then have "i = j \<longrightarrow> cn_terminate (fst (case con of None \<Rightarrow> (si_end c, Closed)
      | Some (parse_block, blk) \<Rightarrow> si_start parse_block blk c))"
    by (auto simp: si_start_def Let_def split: option.split)
  from startAccept_cancelled [OF put_session_cancelled [OF assms(2) this] st] show ?thesis .
next
  fix ev j assume a: "on_session n fuel S j ev s = Some (Inr s')"
  obtain c p where cp: "sm_sessions (ps_manager s) ! j = (c, p)" by (metis surj_pair)
  with a obtain c' p' where st: "step_event n fuel S (getSessionCount (ps_manager s)) ev (c\<lparr>cn_world := ps_world s, cn_cancelled := []\<rparr>, p) = Some (Inr (c', p'))"
    and s': "s' = foldl (\<lambda>s j. cancel_session j s) ((put_session j (c', p') s)\<lparr>ps_world := cn_world c'\<rparr>) (cn_cancelled c')"
    by (auto simp: on_session_def Let_def split: if_splits prod.splits)
  have "i = j \<longrightarrow> cn_terminate c'" using step_event_cancelled [OF _ st] assms(2) cp by (auto simp: cancelled_def)
  then have "cancelled i (put_session j (c', p') s)" by (intro put_session_cancelled [OF assms(2)]) simp
  then have "cancelled i ((put_session j (c', p') s)\<lparr>ps_world := cn_world c'\<rparr>)" by (simp add: cancelled_def)
  then show ?thesis unfolding s' by (rule cancel_sessions_cancelled)
qed

text \<open>
  C33. A session that has once been cancelled is cancelled for ever: whatever the server does
  afterwards - the connection ends, the session object is freed and serves other connections - the
  flag stays set, so that every plan that asks for it refuses to run for those connections too.
\<close>

theorem cancel_outlives_connection:
  assumes "pg_reachable n fuel S s s'" "i < length (sm_sessions (ps_manager s))" "cn_terminate (fst (sm_sessions (ps_manager s) ! i))"
  shows "i < length (sm_sessions (ps_manager s')) \<and> cn_terminate (fst (sm_sessions (ps_manager s') ! i))"
proof -
  have "cancelled i s'" using assms(1)
  proof (induction rule: pg_reachable.induct)
    case pg_start
    show ?case using assms(2,3) by (simp add: cancelled_def)
  next
    case (pg_more s1 s2)
    show ?case by (rule pg_step_cancelled [OF pg_more.hyps(2) pg_more.IH])
  qed
  then show ?thesis by (simp add: cancelled_def)
qed

text \<open>The session is cancelled, its connection is lost, and another connection gets it.\<close>

theorem cancel_outlives_connection_witness:
  "\<exists>s s'. pg_reachable 1 4 ex_server s s' \<and> snd (sm_sessions (ps_manager s) ! 0) = Reading R_type 1 \<and>
    sm_free (ps_manager s) = [] \<and> ps_accepting s' = Some 0 \<and> cn_terminate (fst (sm_sessions (ps_manager s') ! 0))"
proof -
  let ?c = "(ex_conn 64 ex_values)\<lparr>cn_terminate := True\<rparr>" and ?n = "newSessionInfo 1 () :: (const_plan, unit) conn"
  let ?cp = "(?c, Reading R_type 1)"
  let ?first = "\<lparr>ps_manager = \<lparr>sm_sessions = [?cp, (?n, Closed)], sm_free = []\<rparr>, ps_world = (), ps_accepting = Some 1\<rparr>"
  let ?second = "\<lparr>ps_manager = \<lparr>sm_sessions = [(si_end (?c\<lparr>cn_world := (), cn_cancelled := []\<rparr>), Closed), (?n, Closed)], sm_free = [0]\<rparr>,
    ps_world = (), ps_accepting = Some 1\<rparr>"
  let ?third = "\<lparr>ps_manager = \<lparr>sm_sessions = [(si_end (?c\<lparr>cn_world := (), cn_cancelled := []\<rparr>), Closed),
      si_start True (Some (replicate 64 0)) ?n], sm_free = []\<rparr>, ps_world = (), ps_accepting = Some 0\<rparr>"
  have "on_session 1 4 ex_server 0 Failed ?first = Some (Inr ?second)"
    by (simp add: on_session_def put_session_def set_session_def freeSession_def getIndex_def to_signed_def si_end_def Let_def)
  from step_session [OF _ this] have s1: "pg_step 1 4 ex_server ?first ?second" by simp
  have "on_accept (Some (True, Some (replicate 64 0))) ?second = Inr ?third"
    by (simp add: on_accept_def getSession_def put_session_def set_session_def startAccept_def allocSession_def si_start_def Let_def)
  from pg_more [OF pg_more [OF pg_start s1] step_accept [OF this]] have r: "pg_reachable 1 4 ex_server ?first ?third" .
  from cancel_outlives_connection [OF r, of 0] have "cn_terminate (fst (sm_sessions (ps_manager ?third) ! 0))" by simp
  then show ?thesis using r by (intro exI [of _ ?first] exI [of _ ?third]) simp
qed

end
