(* ===== verification/PlanTree.thy ===== *)
theory PlanTree
  imports WritePlans SortPlan
begin

text \<open>
  The plans of a statement as one tree: an \<open>ExecutionPlanPtr\<close> of \<^verbatim>\<open>src/execution/ExecutionPlan.h\<close> is a
  node of the tree, and a virtual call is the call of the operation of its class.  A node owns the
  plan below it, as the unique pointers of the source do.
\<close>

section \<open>The tree\<close>

text \<open>
  A constructor per class of \<^verbatim>\<open>src/execution\<close>, with the plans below it at the end.  The plans of a union are in
  the order of \<open>m_plans\<close>; its other members are in a record without plans.
\<close>

datatype plan =
    PT_Empty
  | PT_Const const_plan
  | PT_ReadFile readfile_plan
  | PT_ShowTables show_tables
  | PT_ShowColumns show_columns
  | PT_Scan scan_plan
  | PT_Filter filter_plan plan
  | PT_Projection projection_plan plan
  | PT_GroupBy groupby_plan plan
  | PT_Limit limit_plan plan
  | PT_Sort sort_plan plan
  | PT_Explain explain_plan plan
  | PT_Insert insert_plan plan
  | PT_Delete delete_plan plan
  | PT_Union "unit union_plan" "plan list"

definition union_of :: "unit union_plan \<Rightarrow> plan list \<Rightarrow> plan union_plan" where
  "union_of u ps = \<lparr>un_plans = ps, un_currentRow = un_currentRow u, un_currentIndex = un_currentIndex u,
     un_hasOrder = un_hasOrder u, un_order = un_order u\<rparr>"

definition of_union :: "plan union_plan \<Rightarrow> plan" where
  "of_union u = PT_Union \<lparr>un_plans = [], un_currentRow = un_currentRow u, un_currentIndex = un_currentIndex u,
     un_hasOrder = un_hasOrder u, un_order = un_order u\<rparr> (un_plans u)"

text \<open>
  What all plans of a server work with: the catalogue, the files, the databases, \<open>std::sort\<close> and the
  limit of the memory pool; \<open>pe_fuel\<close> bounds the loops over rows, \<open>pe_depth\<close> the height of trees.
\<close>

record ('db, 'it) plan_env =
  pe_lib :: lib
  pe_meta :: meta_config
  pe_files :: "string \<Rightarrow> string list option"
  pe_db :: "('db, 'it) leveldb"
  pe_limit :: nat
  pe_sorter :: sorter
  pe_fuel :: nat
  pe_depth :: nat

section \<open>Virtual calls\<close>

text \<open>The operations of a class, called on the state \<open>x\<close>, with the states they lead to as states of the tree.\<close>

definition at_state :: "'s plan_ops \<Rightarrow> 's \<Rightarrow> ('s \<Rightarrow> 't) \<Rightarrow> 't plan_ops" where
  "at_state P x g = \<lparr>
     o_explain = (\<lambda>d _. mapR (apsnd g) (o_explain P d x)),
     o_begin = (\<lambda>t _. mapR g (o_begin P t x)),
     o_next = (\<lambda>t _. mapR (apsnd g) (o_next P t x)),
     o_end = (\<lambda>_. mapR g (o_end P x)),
     o_getResultColumns = (\<lambda>_. o_getResultColumns P x),
     o_getProjectionName = (\<lambda>_. o_getProjectionName P x),
     o_getResultType = (\<lambda>_. o_getResultType P x),
     o_addProjection = (\<lambda>n _. mapR (apsnd g) (o_addProjection P n x)),
     o_getAllColumns = (\<lambda>_. o_getAllColumns P x),
     o_ensureSortOrder = (\<lambda>i c o' _. mapR (apsnd g) (o_ensureSortOrder P i c o' x)),
     o_getInfoString = (\<lambda>_. o_getInfoString P x),
     o_getResult = (\<lambda>_. o_getResult P x)\<rparr>"

text \<open>The operations that the current state decides on: the call through the table of virtual functions.\<close>

definition virtual :: "('t \<Rightarrow> 't plan_ops) \<Rightarrow> 't plan_ops" where
  "virtual h = \<lparr>
     o_explain = (\<lambda>d s. o_explain (h s) d s),
     o_begin = (\<lambda>t s. o_begin (h s) t s),
     o_next = (\<lambda>t s. o_next (h s) t s),
     o_end = (\<lambda>s. o_end (h s) s),
     o_getResultColumns = (\<lambda>s. o_getResultColumns (h s) s),
     o_getProjectionName = (\<lambda>s. o_getProjectionName (h s) s),
     o_getResultType = (\<lambda>s. o_getResultType (h s) s),
     o_addProjection = (\<lambda>n s. o_addProjection (h s) n s),
     o_getAllColumns = (\<lambda>s. o_getAllColumns (h s) s),
     o_ensureSortOrder = (\<lambda>i c o' s. o_ensureSortOrder (h s) i c o' s),
     o_getInfoString = (\<lambda>s. o_getInfoString (h s) s),
     o_getResult = (\<lambda>s. o_getResult (h s) s)\<rparr>"

text \<open>A leaf, and a node over one plan.\<close>

definition leaf_at :: "'a plan_ops \<Rightarrow> 'a \<Rightarrow> 'w \<Rightarrow> ('a \<Rightarrow> plan) \<Rightarrow> (plan \<times> 'w) plan_ops" where
  "leaf_at P p w K = at_state (lift_leaf P) (p, w) (\<lambda>(p, w). (K p, w))"

definition node_at :: "('a \<times> plan \<times> 'w) plan_ops \<Rightarrow> 'a \<Rightarrow> plan \<Rightarrow> 'w \<Rightarrow> ('a \<Rightarrow> plan \<Rightarrow> plan) \<Rightarrow> (plan \<times> 'w) plan_ops" where
  "node_at P p q w K = at_state P (p, q, w) (\<lambda>(p, q, w). (K p q, w))"

fun node_ops ::
  "('db, 'it) plan_env \<Rightarrow> (plan \<times> ('db, 'it) world) plan_ops \<Rightarrow> plan \<times> ('db, 'it) world \<Rightarrow> (plan \<times> ('db, 'it) world) plan_ops" where
  "node_ops E C (PT_Empty, w) = empty_ops"
| "node_ops E C (PT_Const p, w) = leaf_at (const_ops (pe_lib E)) p w PT_Const"
| "node_ops E C (PT_ReadFile p, w) = leaf_at (readfile_ops (pe_lib E) (pe_files E)) p w PT_ReadFile"
| "node_ops E C (PT_ShowTables p, w) = leaf_at (showtables_ops (pe_lib E) (pe_meta E)) p w PT_ShowTables"
| "node_ops E C (PT_ShowColumns p, w) = leaf_at (showcolumns_ops (pe_lib E) (pe_meta E)) p w PT_ShowColumns"
| "node_ops E C (PT_Scan p, w) = at_state (scan_ops (pe_fuel E) (pe_lib E) (pe_db E)) (p, w) (\<lambda>(p, w). (PT_Scan p, w))"
| "node_ops E C (PT_Filter p q, w) = node_at (filter_ops (pe_fuel E) (pe_lib E) C) p q w PT_Filter"
| "node_ops E C (PT_Projection p q, w) = node_at (projection_ops (pe_lib E) C) p q w PT_Projection"
| "node_ops E C (PT_GroupBy p q, w) = node_at (groupby_ops (pe_fuel E) (pe_lib E) C) p q w PT_GroupBy"
| "node_ops E C (PT_Limit p q, w) = node_at (limit_ops (pe_fuel E) C) p q w PT_Limit"
| "node_ops E C (PT_Sort p q, w) = node_at (sort_ops (pe_fuel E) (pe_lib E) (pe_limit E) (pe_sorter E) C) p q w PT_Sort"
| "node_ops E C (PT_Explain p q, w) = node_at (explain_ops C) p q w PT_Explain"
| "node_ops E C (PT_Insert p q, w) = node_at (insert_ops (pe_lib E) (pe_db E) C) p q w PT_Insert"
| "node_ops E C (PT_Delete p q, w) = node_at (delete_ops (pe_lib E) (pe_db E) C) p q w PT_Delete"
| "node_ops E C (PT_Union u ps, w) = at_state (union_ops C) (union_of u ps, w) (\<lambda>(u, w). (of_union u, w))"

text \<open>\<open>tree_ops E d\<close>: calls on trees of a height up to \<open>d\<close>.\<close>

definition no_ops :: "'s plan_ops" where
  "no_ops = \<lparr>
     o_explain = (\<lambda>_ _. Inl OutOfFuel), o_begin = (\<lambda>_ _. Inl OutOfFuel), o_next = (\<lambda>_ _. Inl OutOfFuel),
     o_end = (\<lambda>_. Inl OutOfFuel), o_getResultColumns = (\<lambda>_. Inl OutOfFuel), o_getProjectionName = (\<lambda>_ _. Inl OutOfFuel),
     o_getResultType = (\<lambda>_ _. Inl OutOfFuel), o_addProjection = (\<lambda>_ _. Inl OutOfFuel), o_getAllColumns = (\<lambda>_. Inl OutOfFuel),
     o_ensureSortOrder = (\<lambda>_ _ _ _. Inl OutOfFuel), o_getInfoString = (\<lambda>_. Inl OutOfFuel), o_getResult = (\<lambda>_ _ _. Inl OutOfFuel)\<rparr>"

primrec tree_ops :: "('db, 'it) plan_env \<Rightarrow> nat \<Rightarrow> (plan \<times> ('db, 'it) world) plan_ops" where
  "tree_ops E 0 = no_ops"
| "tree_ops E (Suc d) = virtual (node_ops E (tree_ops E d))"

definition plan_calls :: "('db, 'it) plan_env \<Rightarrow> (plan \<times> ('db, 'it) world) plan_ops" where
  "plan_calls E = tree_ops E (pe_depth E)"

section \<open>Calls on the nodes of a tree\<close>

lemma tree_calls [simp]:
  "o_begin (tree_ops E (Suc d)) t s = o_begin (node_ops E (tree_ops E d) s) t s"
  "o_next (tree_ops E (Suc d)) t s = o_next (node_ops E (tree_ops E d) s) t s"
  "o_getResult (tree_ops E (Suc d)) s = o_getResult (node_ops E (tree_ops E d) s) s"
  "o_getResultType (tree_ops E (Suc d)) s = o_getResultType (node_ops E (tree_ops E d) s) s"
  "o_addProjection (tree_ops E (Suc d)) n s = o_addProjection (node_ops E (tree_ops E d) s) n s"
  "o_ensureSortOrder (tree_ops E (Suc d)) i c o' s = o_ensureSortOrder (node_ops E (tree_ops E d) s) i c o' s"
  "o_getInfoString (tree_ops E (Suc d)) s = o_getInfoString (node_ops E (tree_ops E d) s) s"
  by (simp_all add: virtual_def)

declare tree_ops.simps(2) [simp del]

text \<open>A plan delivers the same rows as a node of the tree.\<close>

lemma delivers_to_sim:
  assumes "\<And>x. nx' (g x) = mapR (apsnd g) (nx x)" "\<And>x. cur' (g x) = cur x"
    and "delivers_to nx cur x rs Q" "\<And>x. Q x \<Longrightarrow> Q' (g x)"
  shows "delivers_to nx' cur' (g x) rs Q'"
  using assms(3)
proof (induction rs arbitrary: x)
  case Nil
  then show ?case using assms(1,4) by fastforce
next
  case (Cons r rs)
  then obtain x' where "nx x = Inr (True, x')" "cur x' = r" "delivers_to nx cur x' rs Q" by auto
  then show ?case using Cons.IH [of x'] assms(1,2) by fastforce
qed

lemma delivers_to_final:
  "delivers_to nx cur s rs Q \<Longrightarrow> \<exists>s'. delivers_to nx cur s rs (\<lambda>x. x = s') \<and> Q s'"
  by (induction rs arbitrary: s) auto

definition scan_node :: "scan_plan \<times> ('db, 'it) world \<Rightarrow> plan \<times> ('db, 'it) world" where
  "scan_node = (\<lambda>(sc, w). (PT_Scan sc, w))"

definition node_of :: "('a \<Rightarrow> plan \<Rightarrow> plan) \<Rightarrow> 'a \<times> plan \<times> ('db, 'it) world \<Rightarrow> plan \<times> ('db, 'it) world" where
  "node_of K = (\<lambda>(a, q, w). (K a q, w))"

definition union_node :: "plan union_plan \<times> ('db, 'it) world \<Rightarrow> plan \<times> ('db, 'it) world" where
  "union_node = (\<lambda>(u, w). (of_union u, w))"

lemma union_of_union [simp]: "of_union u = PT_Union v ps \<Longrightarrow> union_of v ps = u"
  by (auto simp: of_union_def union_of_def)

lemma scan_node_begin:
  "o_begin (tree_ops E (Suc d)) t (scan_node s) = mapR scan_node (o_begin (scan_ops (pe_fuel E) (pe_lib E) (pe_db E)) t s)"
  by (cases s) (simp add: scan_node_def at_state_def)

lemma filter_node_begin:
  "o_begin (tree_ops E (Suc d)) t (node_of PT_Filter s) =
    mapR (node_of PT_Filter) (o_begin (filter_ops (pe_fuel E) (pe_lib E) (tree_ops E d)) t s)"
  by (cases s) (simp add: node_of_def node_at_def at_state_def)

lemma union_node_begin:
  "o_begin (tree_ops E (Suc d)) t (union_node s) = mapR union_node (o_begin (union_ops (tree_ops E d)) t s)"
proof (cases s)
  case (Pair u w)
  obtain v ps where v: "of_union u = PT_Union v ps" by (simp add: of_union_def)
  then show ?thesis by (simp add: Pair union_node_def at_state_def union_of_union [OF v])
qed

lemma scan_node_calls:
  "o_next (tree_ops E (Suc d)) t (scan_node s) = mapR (apsnd scan_node) (o_next (scan_ops (pe_fuel E) (pe_lib E) (pe_db E)) t s)"
  "o_getResult (tree_ops E (Suc d)) (scan_node s) = o_getResult (scan_ops (pe_fuel E) (pe_lib E) (pe_db E)) s"
  "frame_of (tree_ops E (Suc d)) (scan_node s) = frame_of (scan_ops (pe_fuel E) (pe_lib E) (pe_db E)) s"
  by (cases s; simp add: scan_node_def at_state_def frame_of_def)+

lemma filter_node_calls:
  "o_next (tree_ops E (Suc d)) t (node_of PT_Filter s) =
    mapR (apsnd (node_of PT_Filter)) (o_next (filter_ops (pe_fuel E) (pe_lib E) (tree_ops E d)) t s)"
  "o_getResult (tree_ops E (Suc d)) (node_of PT_Filter s) = o_getResult (filter_ops (pe_fuel E) (pe_lib E) (tree_ops E d)) s"
  by (cases s; simp add: node_of_def node_at_def at_state_def)+

lemma union_node_calls:
  "o_next (tree_ops E (Suc d)) t (union_node s) = mapR (apsnd union_node) (o_next (union_ops (tree_ops E d)) t s)"
  "o_getResult (tree_ops E (Suc d)) (union_node s) = o_getResult (union_ops (tree_ops E d)) s"
proof -
  obtain u w where s: "s = (u, w)" by (cases s)
  obtain v ps where v: "of_union u = PT_Union v ps" by (simp add: of_union_def)
  show "o_next (tree_ops E (Suc d)) t (union_node s) = mapR (apsnd union_node) (o_next (union_ops (tree_ops E d)) t s)"
    "o_getResult (tree_ops E (Suc d)) (union_node s) = o_getResult (union_ops (tree_ops E d)) s"
    by (simp_all add: s union_node_def v at_state_def union_of_union [OF v])
qed

end
