(* ===== verification/PlanBuilder.thy ===== *)
theory PlanBuilder
  imports PlanTree
begin

text \<open>
  \<^verbatim>\<open>src/planbuilder\<close>: the plan of a statement from its parse tree.  A plan under construction is a
  tree with the world: the builders already call its virtual functions.
\<close>

type_synonym ('db, 'it) built_plan = "plan \<times> ('db, 'it) world"

text \<open>A table of the catalogue, with its position, by which its database is known.\<close>

definition find_table :: "meta_config \<Rightarrow> string \<Rightarrow> (nat \<times> table_info) option" where
  "find_table M name = (case map_of (mc_tableMap M) name of
     None \<Rightarrow> None
   | Some p \<Rightarrow> if p < length (mc_store M) then Some (p, mc_store M ! p) else None)"

text \<open>\<open>node->m_type\<close> and the like of a null pointer.\<close>

definition nonnull :: "pnode \<Rightarrow> unit res" where
  "nonnull n = (if n = NullNode then Inl (Stuck ''null ParseNode'') else Inr ())"

section \<open>Scans\<close>

text \<open>
  \<open>ScanPlanInfo\<close>: \<open>m_pScan\<close> points into \<open>m_pPlan\<close>, which is the scan or a filter over it; both are kept
  apart here.
\<close>

record scan_info =
  si_scan :: scan_plan
  si_filter :: "filter_plan option"
  si_solved :: "string list"

definition si_plan :: "scan_info \<Rightarrow> plan" where
  "si_plan i = (case si_filter i of None \<Rightarrow> PT_Scan (si_scan i) | Some f \<Rightarrow> PT_Filter f (PT_Scan (si_scan i)))"

definition isFullScan :: "scan_info \<Rightarrow> bool" where
  "isFullScan i \<longleftrightarrow> si_solved i = []"

text \<open>Is there a comparison that the range does not answer?\<close>

fun needFilter :: "string list \<Rightarrow> pnode \<Rightarrow> bool res"
  and anyNeedsFilter :: "string list \<Rightarrow> pnode list \<Rightarrow> bool res" where
  "needFilter solved NullNode = Inl (Stuck ''pNode->getOp()'')"
| "needFilter solved (PNode a t op e v cs) =
     (if op = OP_OR then Inl (Stuck ''pNode->getOp() != Operation::OR'')
      else if op = OP_AND then anyNeedsFilter solved cs
      else Inr (e \<notin> set solved))"
| "anyNeedsFilter solved [] = Inr False"
| "anyNeedsFilter solved (c # cs) = bindR (needFilter solved c) (\<lambda>b. if b then Inr True else anyNeedsFilter solved cs)"

definition scan_calls :: "('db, 'it) plan_env \<Rightarrow> (scan_plan \<times> ('db, 'it) world) plan_ops" where
  "scan_calls E = scan_ops (pe_fuel E) (pe_lib E) (pe_db E)"

definition newScanPlanInfo ::
  "('db, 'it) plan_env \<Rightarrow> nat \<Rightarrow> table_info \<Rightarrow> pnode \<Rightarrow> ('db, 'it) world \<Rightarrow> err + scan_info \<times> ('db, 'it) world" where
  "newScanPlanInfo E tid T pPredicate w = (let sc = newLevelDBScanPlan tid T in
     if pPredicate = NullNode then Inr (\<lparr>si_scan = sc, si_filter = None, si_solved = []\<rparr>, w)
     else if n_type pPredicate \<noteq> NT_OP then Inl (Stuck ''pPredicate->m_type == NodeType::OP'')
     else if n_op pPredicate = OP_OR then
       mapR (\<lambda>(f, sc', w'). (\<lparr>si_scan = sc', si_filter = Some f, si_solved = []\<rparr>, w'))
         (foldR (\<lambda>st pChild. mapR snd (addPredicate (pe_lib E) (scan_calls E) pChild None st))
           (newFilterPlan, sc, w) (n_children pPredicate))
     else bindR (scan_setPredicate (pe_lib E) pPredicate sc) (\<lambda>(sc1, solved).
       bindR (needFilter solved pPredicate) (\<lambda>need.
         if \<not> need then Inr (\<lparr>si_scan = sc1, si_filter = None, si_solved = solved\<rparr>, w)
         else bindR (addPredicate (pe_lib E) (scan_calls E) pPredicate (Some solved) (newFilterPlan, sc1, w)) (\<lambda>(hasFilter, f, sc2, w').
           if hasFilter then Inr (\<lparr>si_scan = sc2, si_filter = Some f, si_solved = solved\<rparr>, w')
           else Inl (Stuck ''hasFilter'')))))"

definition scan_compareStart :: "lib \<Rightarrow> scan_plan \<Rightarrow> scan_plan \<Rightarrow> int res" where
  "scan_compareStart L sc sc' = (case (sc_range sc, sc_range sc') of
     (Some r, Some q) \<Rightarrow> compareStart L r q
   | _ \<Rightarrow> Inl (Stuck ''m_pSearchRange''))"

definition scan_startAfterEnd :: "lib \<Rightarrow> scan_plan \<Rightarrow> scan_plan \<Rightarrow> bool res" where
  "scan_startAfterEnd L sc sc' = (case (sc_range sc, sc_range sc') of
     (Some r, Some q) \<Rightarrow> startAfterEnd L r q
   | _ \<Rightarrow> Inl (Stuck ''m_pSearchRange''))"

section \<open>Alternatives\<close>

text \<open>The scans of the alternatives; \<open>None\<close> when one of them would be a full scan.\<close>

fun alternative_scans ::
  "('db, 'it) plan_env \<Rightarrow> nat \<Rightarrow> table_info \<Rightarrow> pnode list \<Rightarrow> ('db, 'it) world \<Rightarrow> err + scan_info list option \<times> ('db, 'it) world" where
  "alternative_scans E tid T [] w = Inr (Some [], w)"
| "alternative_scans E tid T (pChild # cs) w =
     (if n_op pChild = OP_OR then Inl (Stuck ''pChild->getOp() != Operation::OR'')
      else bindR (newScanPlanInfo E tid T pChild w) (\<lambda>(i, w1).
        if isFullScan i then Inr (None, w1)
        else mapR (\<lambda>(is, w2). (map_option ((#) i) is, w2)) (alternative_scans E tid T cs w1)))"

text \<open>Neighbours in the order of their starts that do not overlap.\<close>

fun no_overlap :: "lib \<Rightarrow> scan_info list \<Rightarrow> bool res" where
  "no_overlap L (i # j # is) = bindR (scan_startAfterEnd L (si_scan j) (si_scan i)) (\<lambda>b. if b then no_overlap L (j # is) else Inr False)"
| "no_overlap L is = Inr True"

text \<open>\<open>std::sort\<close> of the scans, with the comparison of \<open>buildUnionAll\<close>.\<close>

type_synonym scan_sorter = "(scan_info \<Rightarrow> scan_info \<Rightarrow> bool res) \<Rightarrow> scan_info list \<Rightarrow> scan_info list res"

definition start_less :: "lib \<Rightarrow> scan_info \<Rightarrow> scan_info \<Rightarrow> bool res" where
  "start_less L i j = mapR (\<lambda>n. n < 0) (scan_compareStart L (si_scan i) (si_scan j))"

definition full_scan :: "('db, 'it) plan_env \<Rightarrow> nat \<Rightarrow> table_info \<Rightarrow> pnode \<Rightarrow> ('db, 'it) world \<Rightarrow> ('db, 'it) built_plan res" where
  "full_scan E tid T pPredicate w = mapR (\<lambda>(i, w'). (si_plan i, w')) (newScanPlanInfo E tid T pPredicate w)"

text \<open>The scans in order, on one iterator.\<close>

definition share_iterator :: "nat \<Rightarrow> scan_info \<Rightarrow> scan_info" where
  "share_iterator i s = s\<lparr>si_scan := setLevelDBIterator i (si_scan s)\<rparr>"

definition union_scans ::
  "('db, 'it) plan_env \<Rightarrow> nat \<Rightarrow> table_info \<Rightarrow> scan_info list \<Rightarrow> ('db, 'it) world \<Rightarrow> ('db, 'it) built_plan res" where
  "union_scans E tid T is w =
     mapR (\<lambda>(db, hs). let i = length (w_iters w) in
         (of_union (foldl (\<lambda>u s. addChildPlan (si_plan (share_iterator i s)) u) (newUnionAllPlan True) is),
          w\<lparr>w_handlers := hs, w_iters := w_iters w @ [createIterator (pe_db E) db]\<rparr>))
       (getLevelDBHandler (pe_db E) tid T (w_handlers w))"

definition buildUnionAll ::
  "('db, 'it) plan_env \<Rightarrow> scan_sorter \<Rightarrow> nat \<Rightarrow> table_info \<Rightarrow> pnode \<Rightarrow> ('db, 'it) world \<Rightarrow> ('db, 'it) built_plan res" where
  "buildUnionAll E sorter tid T pPredicate w =
     bindR (alternative_scans E tid T (n_children pPredicate) w) (\<lambda>(rangeScanList, w1).
     case rangeScanList of
       None \<Rightarrow> full_scan E tid T pPredicate w1
     | Some scans \<Rightarrow>
         bindR (sorter (start_less (pe_lib E)) scans) (\<lambda>rangePtrList.
         bindR (no_overlap (pe_lib E) rangePtrList) (\<lambda>apart.
           if apart then union_scans E tid T rangePtrList w1 else full_scan E tid T pPredicate w1)))"

definition buildSelectPlan ::
  "('db, 'it) plan_env \<Rightarrow> scan_sorter \<Rightarrow> nat \<Rightarrow> table_info \<Rightarrow> pnode \<Rightarrow> ('db, 'it) world \<Rightarrow> ('db, 'it) built_plan res" where
  "buildSelectPlan E sorter tid T pPredicate w =
     (if getKeyCount T = 0 then Inl (Stuck ''pTableInfo->getKeyCount() > 0'')
      else if pPredicate = NullNode then Inr (PT_Scan (newLevelDBScanPlan tid T), w)
      else if n_op pPredicate = OP_OR then buildUnionAll E sorter tid T pPredicate w
      else full_scan E tid T pPredicate w)"

section \<open>SelectPlanBuilder\<close>

text \<open>
  \<^verbatim>\<open>src/planbuilder/SelectPlanBuilder.cpp\<close>.  The plan under construction, \<open>m_pPlan\<close>, is the argument of
  every step; an exception drops it.
\<close>

text \<open>The \<open>allChildOf\<close> of \<open>buildPlanForOrderBy\<close>: it stops at the first column the plan is not sorted by.\<close>

definition sort_direction :: "pnode \<Rightarrow> SortOrder res" where
  "sort_direction pChild = bindR (getChild pChild 1) (\<lambda>d. mapR (\<lambda>_. if n_op d = OP_ASC then Ascend else Descend) (nonnull d))"

fun already_sorted :: "('db, 'it) plan_env \<Rightarrow> nat \<Rightarrow> pnode list \<Rightarrow> ('db, 'it) built_plan \<Rightarrow> err + bool \<times> ('db, 'it) built_plan" where
  "already_sorted E i [] s = Inr (True, s)"
| "already_sorted E i (pChild # cs) s =
     (if length (n_children pChild) \<noteq> 2 then Inl (Stuck ''pChild->children() == 2'')
      else bindR (getChild pChild 0) (\<lambda>pColumn. bindR (sort_direction pChild) (\<lambda>order. bindR (nonnull pColumn) (\<lambda>_.
        bindR (o_ensureSortOrder (plan_calls E) i (n_value pColumn) order s) (\<lambda>(b, s').
          if b then already_sorted E (i + 1) cs s' else Inr (False, s'))))))"

definition sort_step :: "('db, 'it) plan_env \<Rightarrow> sort_plan \<times> ('db, 'it) built_plan \<Rightarrow> pnode \<Rightarrow> (sort_plan \<times> ('db, 'it) built_plan) res" where
  "sort_step E st pChild =
     bindR (getChild pChild 0) (\<lambda>pColumn. bindR (sort_direction pChild) (\<lambda>order. bindR (nonnull pColumn) (\<lambda>_.
       addSortSpecification (plan_calls E) pColumn order st)))"

definition put_node :: "('a \<Rightarrow> plan \<Rightarrow> plan) \<Rightarrow> 'a \<times> ('db, 'it) built_plan \<Rightarrow> ('db, 'it) built_plan" where
  "put_node K = (\<lambda>(a, p, w). (K a p, w))"

definition buildPlanForOrderBy :: "('db, 'it) plan_env \<Rightarrow> pnode \<Rightarrow> ('db, 'it) built_plan \<Rightarrow> ('db, 'it) built_plan res" where
  "buildPlanForOrderBy E pNode s =
     (if pNode = NullNode then Inr s
      else if n_children pNode = [] then Inl (Stuck ''pNode->children() > 0'')
      else bindR (already_sorted E 0 (n_children pNode) s) (\<lambda>(bAlreadySorted, s').
        if bAlreadySorted then Inr s'
        else mapR (put_node PT_Sort) (foldR (sort_step E) (newSortPlan, s') (n_children pNode))))"

text \<open>\<open>ProjectionPlan::addGroupBy\<close>: a \<open>GroupByPlan\<close> goes below the projection.\<close>

definition addGroupBy :: "('db, 'it) plan_env \<Rightarrow> projection_plan \<times> ('db, 'it) built_plan \<Rightarrow> err + bool \<times> projection_plan \<times> ('db, 'it) built_plan" where
  "addGroupBy E = (\<lambda>(pp, p, w).
     mapR (\<lambda>(ok, projs, s'). (ok, pp\<lparr>pp_proj := projs\<rparr>, s'))
       (regroup (plan_calls E) (pp_proj pp) (PT_GroupBy newGroupByPlan p, w)))"

text \<open>The name and the expression of a column of the select list.\<close>

definition select_item :: "pnode \<Rightarrow> err + pnode \<times> string" where
  "select_item pColumn =
     bindR (nonnull pColumn) (\<lambda>_.
     bindR (if n_type pColumn = NT_OP \<and> n_op pColumn = OP_AS then
         (if length (n_children pColumn) \<noteq> 2 then Inl (Stuck ''pColumn->children() == 2'')
          else bindR (getChild pColumn 1) (\<lambda>a. bindR (nonnull a) (\<lambda>_. mapR (\<lambda>c. (c, n_value a)) (getChild pColumn 0))))
       else Inr (pColumn, [])) (\<lambda>(c, sAlias).
     mapR (\<lambda>_. (c, if sAlias = [] then n_expr c else sAlias)) (nonnull c)))"

definition select_step ::
  "('db, 'it) plan_env \<Rightarrow> projection_plan \<times> ('db, 'it) built_plan \<Rightarrow> pnode \<Rightarrow> (projection_plan \<times> ('db, 'it) built_plan) res" where
  "select_step E st pItem =
     bindR (select_item pItem) (\<lambda>(pColumn, sAlias).
     bindR (project (plan_calls E) pColumn sAlias st) (\<lambda>(bOK, st1).
     if bOK then Inr st1
     else if n_type pColumn \<noteq> NT_FUNC then Inl (ParseException (''Unrecognized column '' @ n_expr pColumn))
     else bindR (addGroupBy E st1) (\<lambda>(grouped, st2).
       if \<not> grouped then Inl (ParseException (''Unrecognized column '' @ n_expr pColumn))
       else bindR (project (plan_calls E) pColumn sAlias st2) (\<lambda>(bOK2, st3).
         if bOK2 then Inr st3 else Inl (ParseException (''Unrecognized column '' @ n_expr pColumn))))))"

definition star_step ::
  "('db, 'it) plan_env \<Rightarrow> projection_plan \<times> ('db, 'it) built_plan \<Rightarrow> string \<Rightarrow> (projection_plan \<times> ('db, 'it) built_plan) res" where
  "star_step E st column = mapR snd (project (plan_calls E) (PNode 0 NT_NAME OP_NONE column column []) column st)"

definition buildPlanForProjection :: "('db, 'it) plan_env \<Rightarrow> pnode \<Rightarrow> ('db, 'it) built_plan \<Rightarrow> ('db, 'it) built_plan res" where
  "buildPlanForProjection E pNode s =
     (if pNode = NullNode then Inl (Stuck ''pNode'')
      else if n_type pNode = NT_INFO \<and> n_op pNode = OP_ALL_COLUMNS then
        bindR (o_getAllColumns (plan_calls E) s) (\<lambda>columns.
          if columns = [] then Inl (ParseException ''select * is not supported in current projection context'')
          else mapR (put_node PT_Projection) (foldR (star_step E) (newProjectionPlan, s) columns))
      else mapR (put_node PT_Projection) (foldR (select_step E) (newProjectionPlan, s) (n_children pNode)))"

text \<open>The \<open>anyChildOf\<close> of \<open>buildPlanForGroupBy\<close>: is there a column the plan is not sorted by?\<close>

fun needs_sort :: "('db, 'it) plan_env \<Rightarrow> nat \<Rightarrow> pnode list \<Rightarrow> ('db, 'it) built_plan \<Rightarrow> err + bool \<times> ('db, 'it) built_plan" where
  "needs_sort E i [] s = Inr (False, s)"
| "needs_sort E i (pChild # cs) s =
     bindR (nonnull pChild) (\<lambda>_.
       if n_type pChild \<noteq> NT_NAME then Inl (ParseException ''Wrong group by clause!'')
       else bindR (o_ensureSortOrder (plan_calls E) i (n_value pChild) AnyOrder s) (\<lambda>(b, s').
         if b then needs_sort E (i + 1) cs s' else Inr (True, s')))"

definition sort_for_groups :: "('db, 'it) plan_env \<Rightarrow> pnode list \<Rightarrow> ('db, 'it) built_plan \<Rightarrow> ('db, 'it) built_plan res" where
  "sort_for_groups E cs s =
     mapR (put_node PT_Sort)
       (foldR (\<lambda>st pChild. bindR (nonnull pChild) (\<lambda>_. addSortSpecification (plan_calls E) pChild AnyOrder st)) (newSortPlan, s) cs)"

definition buildPlanForGroupBy :: "('db, 'it) plan_env \<Rightarrow> pnode \<Rightarrow> ('db, 'it) built_plan \<Rightarrow> ('db, 'it) built_plan res" where
  "buildPlanForGroupBy E pNode s =
     (if pNode = NullNode then Inr s
      else bindR (needs_sort E 0 (n_children pNode) s) (\<lambda>(bNeedSort, s1).
        bindR (if bNeedSort then sort_for_groups E (n_children pNode) s1 else Inr s1) (\<lambda>s2.
        mapR (put_node PT_GroupBy)
          (foldR (\<lambda>st pChild. addGroupByColumn (plan_calls E) pChild st) (newGroupByPlan, s2) (n_children pNode)))))"

definition nodeValueToInt :: "lib \<Rightarrow> pnode \<Rightarrow> int res" where
  "nodeValueToInt L pNode =
     (if n_type pNode \<noteq> NT_INT then Inl (Stuck ''pNode->m_type == NodeType::INT'')
      else case SimpleAtoi L (n_value pNode) of
        None \<Rightarrow> Inl (ParseException (''Could not convert to int:'' @ n_value pNode))
      | Some v \<Rightarrow> Inr v)"

definition buildPlanForLimit :: "('db, 'it) plan_env \<Rightarrow> pnode \<Rightarrow> ('db, 'it) built_plan \<Rightarrow> ('db, 'it) built_plan res" where
  "buildPlanForLimit E pNode s =
     (if pNode = NullNode then Inr s
      else if length (n_children pNode) \<noteq> 2 then Inl (Stuck ''pNode->children() == 2'')
      else bindR (getChild pNode 0) (\<lambda>pCount. bindR (getChild pNode 1) (\<lambda>pOffset.
        bindR (nodeValueToInt (pe_lib E) pOffset) (\<lambda>iOffset. bindR (nodeValueToInt (pe_lib E) pCount) (\<lambda>iCount.
          Inr (put_node PT_Limit (setLimit iCount iOffset newLimitPlan, s)))))))"

definition buildPlanForFilter :: "('db, 'it) plan_env \<Rightarrow> pnode \<Rightarrow> ('db, 'it) built_plan \<Rightarrow> ('db, 'it) built_plan res" where
  "buildPlanForFilter E pNode s =
     (if pNode = NullNode then Inr s
      else mapR (put_node PT_Filter) (filter_setPredicate (pe_lib E) (plan_calls E) pNode (newFilterPlan, s)))"

definition buildPlanForReadFile :: "lib \<Rightarrow> table_info \<Rightarrow> plan res" where
  "buildPlanForReadFile L T =
     bindR (getAttribute T ''path'') (\<lambda>path.
     bindR (newReadFilePlan path (getAttributeOr T ''seperator'' '','')
         (EqualsIgnoreCase L (getAttributeOr T ''ignore_first_line'' ''false'') ''true'')) (\<lambda>p.
     mapR (\<lambda>columns. PT_ReadFile (foldl (\<lambda>p c. readfile_addColumn c p) p columns)) (getDBColumns T NullNode)))"

text \<open>A predicate that is a constant: \<open>None\<close> when no row satisfies it.\<close>

definition known_predicate :: "pnode \<Rightarrow> pnode option" where
  "known_predicate pPredicate = (if isFalseConst pPredicate then None else if isTrueConst pPredicate then Some NullNode else Some pPredicate)"

text \<open>
  \<open>sub\<close> is \<open>buildPlan\<close>, which the builders call on a child of their node.
\<close>

type_synonym ('db, 'it) sub_builder = "pnode \<Rightarrow> ('db, 'it) world \<Rightarrow> ('db, 'it) built_plan res"

definition build_source ::
  "('db, 'it) plan_env \<Rightarrow> scan_sorter \<Rightarrow> ('db, 'it) sub_builder \<Rightarrow> pnode \<Rightarrow> pnode \<Rightarrow> ('db, 'it) world \<Rightarrow> ('db, 'it) built_plan res" where
  "build_source E sorter sub pTable pPredicate w =
     (if n_type pTable \<noteq> NT_NAME then bindR (sub pTable w) (buildPlanForFilter E pPredicate)
      else case find_table (pe_meta E) (n_value pTable) of
        None \<Rightarrow> Inl (ParseException (''table '' @ n_value pTable @ '' not found''))
      | Some (tid, T) \<Rightarrow>
          if getKeyCount T > 0 then buildSelectPlan E sorter tid T pPredicate w
          else bindR (buildPlanForReadFile (pe_lib E) T) (\<lambda>p. buildPlanForFilter E pPredicate (p, w)))"

definition build_clauses ::
  "('db, 'it) plan_env \<Rightarrow> pnode list \<Rightarrow> ('db, 'it) built_plan \<Rightarrow> ('db, 'it) built_plan res" where
  "build_clauses E cs s =
     bindR (buildPlanForGroupBy E (cs ! 3) s) (\<lambda>s.
     bindR (buildPlanForFilter E (cs ! 4) s) (\<lambda>s.
     bindR (buildPlanForOrderBy E (cs ! 5) s) (\<lambda>s.
     bindR (buildPlanForLimit E (cs ! 6) s) (buildPlanForProjection E (cs ! 0)))))"

definition build ::
  "('db, 'it) plan_env \<Rightarrow> scan_sorter \<Rightarrow> ('db, 'it) sub_builder \<Rightarrow> pnode \<Rightarrow> ('db, 'it) world \<Rightarrow> ('db, 'it) built_plan res" where
  "build E sorter sub pNode w =
     (if length (n_children pNode) \<noteq> 7 then Inl (Stuck ''pNode && pNode->children() == 7'')
      else if n_children pNode ! 1 = NullNode then Inl (Stuck ''pTable'')
      else case known_predicate (n_children pNode ! 2) of
        None \<Rightarrow> Inr (PT_Empty, w)
      | Some pPredicate \<Rightarrow>
          bindR (build_source E sorter sub (n_children pNode ! 1) pPredicate w) (build_clauses E (n_children pNode)))"

section \<open>LevelDBPlanBuilder\<close>

definition buildDeletePlan ::
  "('db, 'it) plan_env \<Rightarrow> scan_sorter \<Rightarrow> pnode \<Rightarrow> ('db, 'it) world \<Rightarrow> ('db, 'it) built_plan res" where
  "buildDeletePlan E sorter pNode w =
     (if length (n_children pNode) \<noteq> 2 then Inl (Stuck ''pNode && pNode->children() == 2'')
      else let pTable = n_children pNode ! 0 in
      if pTable = NullNode then Inl (Stuck ''pTable'')
      else case known_predicate (n_children pNode ! 1) of
        None \<Rightarrow> Inr (PT_Empty, w)
      | Some pPredicate \<Rightarrow>
          if n_type pTable \<noteq> NT_NAME then Inl (Stuck ''pTable->m_type == NodeType::NAME'')
          else (case find_table (pe_meta E) (n_value pTable) of
            None \<Rightarrow> Inl (ParseException (''table '' @ n_value pTable @ '' not found''))
          | Some (tid, T) \<Rightarrow>
              if getKeyCount T = 0 then Inl (ParseException (''DELETE is not supported for table '' @ n_value pTable))
              else mapR (\<lambda>s. put_node PT_Delete (newLevelDBDeletePlan tid T, s)) (buildSelectPlan E sorter tid T pPredicate w)))"

definition buildInsertPlan ::
  "('db, 'it) plan_env \<Rightarrow> ('db, 'it) sub_builder \<Rightarrow> pnode \<Rightarrow> ('db, 'it) world \<Rightarrow> ('db, 'it) built_plan res" where
  "buildInsertPlan E sub pNode w =
     (if length (n_children pNode) < 3 then Inl (Stuck ''pNode && pNode->children() >= 3'')
      else let pTable = n_children pNode ! 0 in
      if n_children pNode ! 1 \<noteq> NullNode then Inl (ParseException ''insert partial columns is not supported'')
      else if n_type pTable \<noteq> NT_NAME then Inl (Stuck ''pTable && pTable->m_type == NodeType::NAME'')
      else (case find_table (pe_meta E) (n_value pTable) of
        None \<Rightarrow> Inl (Stuck ''pTableInfo != nullptr'')
      | Some (tid, T) \<Rightarrow> mapR (\<lambda>s. put_node PT_Insert (newLevelDBInsertPlan tid T, s)) (sub (n_children pNode ! 2) w)))"

section \<open>buildPlan\<close>

definition desc_table :: "pnode \<Rightarrow> string res" where
  "desc_table pTable =
     bindR (nonnull pTable) (\<lambda>_.
       if n_type pTable = NT_NAME then Inr (n_value pTable)
       else case n_children pTable of
         [pDB, pName] \<Rightarrow>
           if n_type pDB = NT_NAME \<and> n_type pName = NT_NAME then Inr (n_value pName)
           else Inl (Stuck ''pTable->m_type == NodeType::NAME'')
       | _ \<Rightarrow> Inl (Stuck ''pTable->children() == 2''))"

definition buildPlanForDesc :: "meta_config \<Rightarrow> pnode \<Rightarrow> plan res" where
  "buildPlanForDesc M pNode = (case n_children pNode of
     [pTable] \<Rightarrow>
       bindR (desc_table pTable) (\<lambda>name.
         case find_table M name of
           None \<Rightarrow> Inl (ParseException (''Undefined table '' @ name))
         | Some (_, T) \<Rightarrow> Inr (PT_ShowColumns (newShowColumns T)))
   | _ \<Rightarrow> Inl (Stuck ''pNode->children() == 1''))"

fun const_rows :: "pnode option \<Rightarrow> pnode list \<Rightarrow> const_plan \<Rightarrow> const_plan res" where
  "const_rows pLastRow [] p = Inr p"
| "const_rows pLastRow (pRow # rows) p =
     bindR (nonnull pRow) (\<lambda>_.
       case pLastRow of
         None \<Rightarrow> const_rows (Some pRow) rows (const_addRow p pRow)
       | Some pLast \<Rightarrow>
           if length (n_children pLast) \<noteq> length (n_children pRow)
           then Inl (ParseException (''Values column number does not match: expect '' @ nat_to_string (length (n_children pLast)) @
                  '' but got '' @ nat_to_string (length (n_children pRow))))
           else const_rows (Some pRow) rows (const_addRow p pRow))"

definition buildPlanForConst :: "pnode \<Rightarrow> plan res" where
  "buildPlanForConst pNode = bindR (nonnull pNode) (\<lambda>_. mapR PT_Const (const_rows None (n_children pNode) newConstPlan))"

text \<open>The builders call \<open>sub\<close> on children of their node only, so \<open>buildPlan\<close> ends.\<close>

lemma build_source_cong:
  "(n_type pTable \<noteq> NT_NAME \<Longrightarrow> sub pTable w = sub' pTable w) \<Longrightarrow>
     build_source E sorter sub pTable pPredicate w = build_source E sorter sub' pTable pPredicate w"
  by (simp add: build_source_def)

lemma build_cong [fundef_cong]:
  assumes "E = E'" "sorter = sorter'" "pNode = pNode'" "w = w'"
    and "\<And>c v. c \<in> set (n_children pNode') \<Longrightarrow> sub c v = sub' c v"
  shows "build E sorter sub pNode w = build E' sorter' sub' pNode' w'"
  using assms by (auto simp: build_def intro!: bindR_cong build_source_cong split: option.splits)

lemma buildInsertPlan_cong [fundef_cong]:
  assumes "E = E'" "pNode = pNode'" "w = w'"
    and "\<And>c v. c \<in> set (n_children pNode') \<Longrightarrow> sub c v = sub' c v"
  shows "buildInsertPlan E sub pNode w = buildInsertPlan E' sub' pNode' w'"
  using assms by (auto simp: buildInsertPlan_def Let_def split: option.splits)

function (sequential) buildPlan ::
  "('db, 'it) plan_env \<Rightarrow> scan_sorter \<Rightarrow> pnode \<Rightarrow> ('db, 'it) world \<Rightarrow> ('db, 'it) built_plan res" where
  "buildPlan E sorter pNode w =
     (if n_type pNode \<noteq> NT_PLAN then Inl (Stuck ''pNode->m_type == NodeType::PLAN'')
      else case n_op pNode of
        OP_SHOW_TABLES \<Rightarrow> Inr (PT_ShowTables newShowTables, w)
      | OP_DESC_TABLE \<Rightarrow> mapR (\<lambda>p. (p, w)) (buildPlanForDesc (pe_meta E) pNode)
      | OP_SELECT \<Rightarrow> build E sorter (buildPlan E sorter) pNode w
      | OP_REMOVE \<Rightarrow> buildDeletePlan E sorter pNode w
      | OP_INSERT \<Rightarrow> buildInsertPlan E (buildPlan E sorter) pNode w
      | OP_EXPLAIN \<Rightarrow>
          if length (n_children pNode) \<noteq> 1 then Inl (Stuck ''pNode->children() == 1'')
          else mapR (\<lambda>s. put_node PT_Explain (newExplainPlan, s)) (buildPlan E sorter (n_children pNode ! 0) w)
      | OP_VALUES \<Rightarrow>
          if length (n_children pNode) \<noteq> 1 then Inl (Stuck ''pNode->children() == 1'')
          else mapR (\<lambda>p. (p, w)) (buildPlanForConst (n_children pNode ! 0))
      | _ \<Rightarrow> Inl (ParseException (''not supported: '' @ n_expr pNode)))"
  by pat_completeness auto
termination
  by (relation "measure (\<lambda>(E, sorter, n, w). size n)") (auto intro!: size_child_less nth_mem)

end
