(* ===== verification/ScanFilter.thy ===== *)
theory ScanFilter
  imports PlanBuilder
begin

text \<open>
  The filter a builder puts over a scan: it holds the comparisons that the range of the scan does
  not answer.  Here: what the filter holds, which columns of the scan it can read, and that a
  comparison the range answers means the same as in a filter.
\<close>

section \<open>The comparisons of a predicate\<close>

fun comparisons :: "pnode \<Rightarrow> pnode list" where
  "comparisons NullNode = []"
| "comparisons (PNode a t op e v cs) =
     (if op = OP_AND \<or> op = OP_OR then concat (map comparisons cs) else [PNode a t op e v cs])"

text \<open>A predicate without \<open>OR\<close>, as \<open>doAddPredicate\<close> takes it.\<close>

fun conjunctive :: "pnode \<Rightarrow> bool" where
  "conjunctive NullNode = False"
| "conjunctive (PNode a t op e v cs) =
     (t = NT_OP \<and> op \<noteq> OP_OR \<and> (if op = OP_AND then list_all conjunctive cs else length cs = 2))"

lemma conjunctive_true:
  "conjunctive p \<Longrightarrow> predicate_true L col ty fr p \<longleftrightarrow> list_all (predicate_true L col ty fr) (comparisons p)"
  by (induction p) (auto simp: list_all_iff)

lemma conjunctive_comparison:
  "conjunctive p \<Longrightarrow> c \<in> set (comparisons p) \<Longrightarrow> n_type c = NT_OP \<and> n_op c \<noteq> OP_AND \<and> n_op c \<noteq> OP_OR \<and> length (n_children c) = 2 \<and> c \<noteq> NullNode"
  by (induction p) (auto simp: list_all_iff split: if_splits)

definition ignored :: "string list option \<Rightarrow> pnode \<Rightarrow> bool" where
  "ignored ig c = (case ig of Some es \<Rightarrow> n_expr c \<in> set es | None \<Rightarrow> False)"

lemma traverseR_append: "traverseR f (xs @ ys) = bindR (traverseR f xs) (\<lambda>us. mapR ((@) us) (traverseR f ys))"
proof (induction xs)
  case Nil
  show ?case by (cases "traverseR f ys") simp_all
next
  case (Cons x xs)
  then show ?case by (cases "f x"; cases "traverseR f xs"; cases "traverseR f ys") simp_all
qed

text \<open>The columns of comparisons can be read; what could be read still can.\<close>

definition infos_seen :: "('s \<Rightarrow> int \<Rightarrow> bool) \<Rightarrow> 's \<Rightarrow> predicate_info list \<Rightarrow> bool" where
  "infos_seen seen s infos \<longleftrightarrow> (\<forall>i \<in> set infos. seen s (pi_leftIndex i) \<and> seen s (pi_rightIndex i))"

definition keeps_seen :: "('s \<Rightarrow> int \<Rightarrow> bool) \<Rightarrow> 's \<Rightarrow> 's \<Rightarrow> bool" where
  "keeps_seen seen s s' \<longleftrightarrow> (\<forall>j. seen s j \<longrightarrow> seen s' j)"

lemma infos_seen_keep: "infos_seen seen s infos \<Longrightarrow> keeps_seen seen s s' \<Longrightarrow> infos_seen seen s' infos"
  by (simp add: infos_seen_def keeps_seen_def)

text \<open>
  A plan that gives columns fixed indices (\<open>column_source\<close>) and can read the columns that were
  asked for: \<open>seen s i\<close>.
\<close>

locale projecting_source = column_source C ok col ty
  for C :: "'s plan_ops" and ok :: "'s \<Rightarrow> bool" and col :: "pnode \<Rightarrow> int res" and ty :: "nat \<Rightarrow> DBDataType res" +
  fixes seen :: "'s \<Rightarrow> int \<Rightarrow> bool"
  assumes addProjection_seen: "ok s \<Longrightarrow> o_addProjection C n s = Inr (i, s') \<Longrightarrow> seen s' i \<and> (\<forall>j. seen s j \<longrightarrow> seen s' j)"
begin

lemma addComparison_seen:
  assumes "ok s" "addComparison L C p (infos, s) = Inr (infos', s')" "infos' = infos @ new"
  shows "keeps_seen seen s s' \<and> infos_seen seen s' new"
proof -
  from assms(2,3) obtain pLeft pRight l s1 r lc rc where l: "o_addProjection C pLeft s = Inr (l, s1)"
    and r: "o_addProjection C pRight s1 = Inr (r, s')"
    and i: "new = [\<lparr>pi_expr = n_expr p, pi_op = n_op p, pi_leftIndex = l, pi_rightIndex = r, pi_leftConst = lc, pi_rightConst = rc\<rparr>]"
    by (auto simp: addComparison_def split: if_splits)
  have "ok s1" using addProjection_col [OF assms(1), of pLeft] l by (cases "col pLeft") auto
  from addProjection_seen [OF assms(1) l] addProjection_seen [OF this r] show ?thesis
    by (auto simp: infos_seen_def keeps_seen_def i)
qed

lemma doAddPredicate_comparisons:
  assumes "ok s" "doAddPredicate L C ig p (infos, s) = Inr (infos', s')"
  shows "ok s' \<and> conjunctive p \<and> keeps_seen seen s s' \<and> (\<exists>new. infos' = infos @ new \<and> infos_seen seen s' new \<and>
    traverseR (comparison_info L col ty) (filter (\<lambda>c. \<not> ignored ig c) (comparisons p)) = Inr new)"
  using assms
proof (induction p arbitrary: infos s infos' s')
  case NullNode
  then show ?case by simp
next
  case (PNode a t op e v cs)
  show ?case
  proof (cases "op = OP_AND")
    case True
    then have t: "t = NT_OP" and "foldR (\<lambda>st c. doAddPredicate L C ig c st) (infos, s) cs = Inr (infos', s')"
      using PNode.prems by (auto split: if_splits)
    from this(2) PNode.IH PNode.prems(1)
    have "ok s' \<and> list_all conjunctive cs \<and> keeps_seen seen s s' \<and> (\<exists>new. infos' = infos @ new \<and> infos_seen seen s' new \<and>
      traverseR (comparison_info L col ty) (filter (\<lambda>c. \<not> ignored ig c) (concat (map comparisons cs))) = Inr new)"
    proof (induction cs arbitrary: infos s)
      case Nil
      then show ?case by (auto simp: keeps_seen_def infos_seen_def)
    next
      case (Cons c cs)
      from Cons.prems(1) obtain is1 s1 where 1: "doAddPredicate L C ig c (infos, s) = Inr (is1, s1)"
        "foldR (\<lambda>st c. doAddPredicate L C ig c st) (is1, s1) cs = Inr (infos', s')" by auto
      have "ok s1 \<and> conjunctive c \<and> keeps_seen seen s s1 \<and> (\<exists>new. is1 = infos @ new \<and> infos_seen seen s1 new \<and>
        traverseR (comparison_info L col ty) (filter (\<lambda>c. \<not> ignored ig c) (comparisons c)) = Inr new)"
        by (rule Cons.prems(2) [OF _ Cons.prems(3) 1(1)]) simp
      then obtain new1 where n1: "ok s1" "conjunctive c" "keeps_seen seen s s1" "is1 = infos @ new1" "infos_seen seen s1 new1"
        "traverseR (comparison_info L col ty) (filter (\<lambda>c. \<not> ignored ig c) (comparisons c)) = Inr new1" by blast
      have "ok s' \<and> list_all conjunctive cs \<and> keeps_seen seen s1 s' \<and> (\<exists>new. infos' = is1 @ new \<and> infos_seen seen s' new \<and>
        traverseR (comparison_info L col ty) (filter (\<lambda>c. \<not> ignored ig c) (concat (map comparisons cs))) = Inr new)"
        by (rule Cons.IH [OF 1(2) _ n1(1)], rule Cons.prems(2)) simp_all
      then obtain new2 where n2: "ok s'" "list_all conjunctive cs" "keeps_seen seen s1 s'" "infos' = is1 @ new2" "infos_seen seen s' new2"
        "traverseR (comparison_info L col ty) (filter (\<lambda>c. \<not> ignored ig c) (concat (map comparisons cs))) = Inr new2" by blast
      have "keeps_seen seen s s'" "infos_seen seen s' (new1 @ new2)"
        using n1(3,5) n2(3,5) infos_seen_keep [OF n1(5) n2(3)] by (auto simp: keeps_seen_def infos_seen_def)
      then show ?case using n1 n2 by (auto simp: traverseR_append)
    qed
    then show ?thesis using True t by simp
  next
    case False
    then have nd: "t = NT_OP" "op \<noteq> OP_OR" "length cs = 2" using PNode.prems by (auto split: if_splits)
    show ?thesis
    proof (cases "ignored ig (PNode a t op e v cs)")
      case True
      then have "infos' = infos" "s' = s" using PNode.prems(2) False nd by (auto simp: ignored_def split: option.splits)
      then show ?thesis using PNode.prems(1) False nd True by (simp add: list_all_iff keeps_seen_def infos_seen_def)
    next
      case not: False
      then have ac: "addComparison L C (PNode a t op e v cs) (infos, s) = Inr (infos', s')"
        using PNode.prems(2) False nd by (auto simp: ignored_def split: option.splits if_splits)
      obtain s1 where "ok s1" "addComparison L C (PNode a t op e v cs) (infos, s) =
          mapR (\<lambda>i. (infos @ [i], s1)) (comparison_info L col ty (PNode a t op e v cs))"
        using addComparison_pure [OF PNode.prems(1)] by blast
      then show ?thesis using ac addComparison_seen [OF PNode.prems(1) ac] False nd not
        by (cases "comparison_info L col ty (PNode a t op e v cs)") auto
    qed
  qed
qed

text \<open>The alternatives of an \<open>OR\<close>, one after the other.\<close>

lemma addPredicates_comparisons:
  assumes "ok s" "foldR (\<lambda>st c. mapR snd (addPredicate L C c None st)) (f, s) cs = Inr (f', s')"
  shows "ok s' \<and> list_all conjunctive cs \<and> keeps_seen seen s s' \<and> (\<exists>new. fl_predicatesInOr f' = fl_predicatesInOr f @ new \<and>
    list_all2 (\<lambda>infos c. infos_seen seen s' infos \<and> traverseR (comparison_info L col ty) (comparisons c) = Inr infos) new cs)"
  using assms
proof (induction cs arbitrary: f s)
  case Nil
  then show ?case by (simp add: keeps_seen_def)
next
  case (Cons c cs)
  from Cons.prems(2) obtain b f1 s1 where 1: "addPredicate L C c None (f, s) = Inr (b, f1, s1)"
    "foldR (\<lambda>st c. mapR snd (addPredicate L C c None st)) (f1, s1) cs = Inr (f', s')" by auto
  from 1(1) obtain infos where i: "doAddPredicate L C None c ([], s) = Inr (infos, s1)"
    "f1 = f\<lparr>fl_predicatesInOr := fl_predicatesInOr f @ [infos]\<rparr>" by (auto simp: addPredicate_def)
  from doAddPredicate_comparisons [OF Cons.prems(1) i(1)] have s1: "ok s1" "conjunctive c" "keeps_seen seen s s1"
    "infos_seen seen s1 infos" "traverseR (comparison_info L col ty) (comparisons c) = Inr infos"
    by (auto simp: ignored_def)
  from Cons.IH [OF s1(1) 1(2)] obtain new where new: "ok s'" "list_all conjunctive cs" "keeps_seen seen s1 s'"
    "fl_predicatesInOr f' = fl_predicatesInOr f1 @ new"
    "list_all2 (\<lambda>infos c. infos_seen seen s' infos \<and> traverseR (comparison_info L col ty) (comparisons c) = Inr infos) new cs" by blast
  have "keeps_seen seen s s'" using s1(3) new(3) by (simp add: keeps_seen_def)
  then show ?case using s1 new i(2) infos_seen_keep [OF s1(4) new(3)] by simp
qed

end

section \<open>The columns of a scan\<close>

text \<open>The index a scan of a table gives to a column, and the types at the indices.\<close>

definition scan_col :: "lib \<Rightarrow> table_info \<Rightarrow> pnode \<Rightarrow> int res" where
  "scan_col L T n = mapR fst (scan_addProjection L n (newLevelDBScanPlan 0 T))"

definition scan_ty :: "table_info \<Rightarrow> nat \<Rightarrow> DBDataType res" where
  "scan_ty T = scan_getResultType (newLevelDBScanPlan 0 T)"

text \<open>A scan that was made from \<open>sc0\<close> by asking for columns.\<close>

definition projected_from :: "scan_plan \<Rightarrow> scan_plan \<Rightarrow> bool" where
  "projected_from sc0 sc \<longleftrightarrow> scan_wf sc \<and> length (sc_columnValues sc) = getColumnCount (sc_table sc) - getKeyCount (sc_table sc) \<and>
     (\<exists>cv pv. sc = sc0\<lparr>sc_columnValues := cv, sc_projectValue := pv\<rparr>)"

definition column_seen :: "nat \<Rightarrow> bool list \<Rightarrow> nat \<Rightarrow> bool" where
  "column_seen kc shape i \<longleftrightarrow> i < kc \<or> kc + length shape \<le> i \<or> shape ! (i - kc)"

definition scan_sees :: "scan_plan \<times> 'w \<Rightarrow> int \<Rightarrow> bool" where
  "scan_sees = (\<lambda>(sc, w) i. i < 0 \<or> column_seen (getKeyCount (sc_table sc)) (shape_of sc) (nat i))"

lemma projected_from_fields:
  assumes "projected_from sc0 sc"
  shows "sc_table sc = sc_table sc0" "sc_range sc = sc_range sc0" "sc_order sc = sc_order sc0" "sc_iter sc = sc_iter sc0"
    "sc_keyTypes sc = sc_keyTypes sc0" "sc_valueTypes sc = sc_valueTypes sc0" "sc_tableId sc = sc_tableId sc0" "scan_wf sc"
    "length (sc_columnValues sc) = getColumnCount (sc_table sc0) - getKeyCount (sc_table sc0)"
  using assms by (auto simp: projected_from_def)

lemma projected_from_refl:
  "scan_wf sc \<Longrightarrow> length (sc_columnValues sc) = getColumnCount (sc_table sc) - getKeyCount (sc_table sc) \<Longrightarrow> projected_from sc sc"
  unfolding projected_from_def by (intro conjI exI [of _ "sc_columnValues sc"] exI [of _ "sc_projectValue sc"]) simp_all

lemma scan_addProjection_cases [consumes 1, case_names rowkey key projected unknown]:
  assumes "scan_addProjection L n sc = Inr (i, sc')"
  obtains (rowkey) "sc' = sc" "i = int (length (sc_columnValues sc) + getKeyCount (sc_table sc))"
    | (key) c where "sc' = sc" "getColumnByName (sc_table sc) (n_value n) = Some c" "c_keyIndex c \<ge> 0" "i = c_keyIndex c"
    | (projected) c :: column_info where "0 \<le> c_valueIndex c" "nat (c_valueIndex c) < length (sc_columnValues sc)"
        "i = int (getKeyCount (sc_table sc)) + c_valueIndex c"
        "sc' = sc\<lparr>sc_projectValue := True, sc_columnValues := (sc_columnValues sc)[nat (c_valueIndex c) := Some R_Null]\<rparr>"
    | (unknown) "sc' = sc" "i = -1"
proof (cases "isRowKeyNode L n")
  case True
  then show ?thesis using assms rowkey by (auto simp: scan_addProjection_def)
next
  case other: False
  show ?thesis
  proof (cases "n_type n = NT_NAME")
    case False
    then show ?thesis using assms other unknown by (simp add: scan_addProjection_def)
  next
    case True
    with assms other obtain c where c: "getColumnByName (sc_table sc) (n_value n) = Some c"
      by (auto simp: scan_addProjection_def split: option.splits)
    show ?thesis
    proof (cases "c_keyIndex c \<ge> 0")
      case key': True
      then show ?thesis using assms other True c key by (simp add: scan_addProjection_def)
    next
      case False
      have "\<not> (c_valueIndex c < 0 \<or> length (sc_columnValues sc) \<le> nat (c_valueIndex c))"
        using assms other True c False by (auto simp: scan_addProjection_def)
      then show ?thesis using assms other True c False projected [of c] by (simp add: scan_addProjection_def)
    qed
  qed
qed

lemma scan_addProjection_col:
  assumes "projected_from sc0 sc" "sc_table sc0 = T"
  shows "\<exists>sc'. projected_from sc0 sc' \<and> scan_addProjection L n sc = mapR (\<lambda>i. (i, sc')) (scan_col L T n)"
proof -
  note f = projected_from_fields [OF assms(1)]
  have T: "sc_table sc = T" "length (sc_columnValues sc) = getColumnCount T - getKeyCount T" using f assms(2) by simp_all
  have new: "sc_table (newLevelDBScanPlan 0 T) = T" "length (sc_columnValues (newLevelDBScanPlan 0 T)) = getColumnCount T - getKeyCount T"
    by (simp_all add: newLevelDBScanPlan_def)
  show ?thesis
  proof (cases "scan_addProjection L n sc")
    case (Inl e)
    then have "scan_col L T n = Inl e"
      unfolding scan_col_def scan_addProjection_def T new by (auto split: if_splits option.splits)
    then show ?thesis using Inl assms(1) by auto
  next
    case (Inr r)
    obtain i sc' where r: "r = (i, sc')" by (cases r)
    have "scan_col L T n = Inr i"
      using Inr unfolding r scan_col_def scan_addProjection_def T new by (auto split: if_splits option.splits)
    moreover have "scan_wf sc'" using scan_addProjection_wf Inr f(8) unfolding r by blast
    moreover obtain cv pv where c: "sc' = sc\<lparr>sc_columnValues := cv, sc_projectValue := pv\<rparr>" "length cv = length (sc_columnValues sc)"
      using Inr [unfolded r]
    proof (cases rule: scan_addProjection_cases)
      case (projected c)
      then show ?thesis by (intro that [of True "(sc_columnValues sc)[nat (c_valueIndex c) := Some R_Null]"]) simp_all
    qed (rule that [of "sc_projectValue sc" "sc_columnValues sc"]; simp)+
    moreover obtain cv0 pv0 where "sc = sc0\<lparr>sc_columnValues := cv0, sc_projectValue := pv0\<rparr>"
      using assms(1) by (auto simp: projected_from_def)
    then have "sc' = sc0\<lparr>sc_columnValues := cv, sc_projectValue := pv\<rparr>" using c(1) by simp
    moreover from this have "\<exists>cv pv. sc' = sc0\<lparr>sc_columnValues := cv, sc_projectValue := pv\<rparr>" by blast
    moreover have "length (sc_columnValues sc') = getColumnCount (sc_table sc') - getKeyCount (sc_table sc')"
      using c f(1,9) by simp
    ultimately have "projected_from sc0 sc'" unfolding projected_from_def by blast
    then show ?thesis using Inr \<open>scan_col L T n = Inr i\<close> unfolding r by auto
  qed
qed

lemma column_seen_update: "column_seen kc (map f xs) i \<Longrightarrow> f x \<Longrightarrow> column_seen kc (map f (xs[j := x])) i"
  by (cases "i - kc < length xs"; cases "i - kc = j") (auto simp: column_seen_def not_less)

text \<open>A table whose columns have the positions they say, with each key column once and no column of the name of the row key.\<close>

definition keyed_table :: "lib \<Rightarrow> table_info \<Rightarrow> bool" where
  "keyed_table L T \<longleftrightarrow> table_wf T \<and> distinct (t_keys T) \<and>
     (\<forall>name c. getColumnByName T name = Some c \<longrightarrow> \<not> EqualsIgnoreCase L name ROWKEY)"

lemma getColumnByName_position:
  assumes "table_wf T" "getColumnByName T name = Some c"
  obtains i where "i < length (t_columns T)" "c = t_columns T ! i" "column_wf T i"
  using assms by (auto simp: getColumnByName_def table_wf_def names_ok_def dest!: map_of_SomeD)

lemma key_position:
  assumes "table_wf T" "getColumnByName T name = Some c" "c_keyIndex c \<ge> 0"
  shows "nat (c_keyIndex c) < getKeyCount T \<and> getKeyColumn T (nat (c_keyIndex c)) = Inr c"
  using assms by (elim getColumnByName_position)
    (auto simp: column_wf_def slot_ok_def getKeyCount_def getKeyColumn_def getColumn_def Let_def)

lemma scan_addProjection_sees:
  assumes "scan_addProjection L n sc = Inr (i, sc')" "table_wf (sc_table sc)"
  shows "scan_sees (sc', w) i \<and> (\<forall>j. scan_sees (sc, w) j \<longrightarrow> scan_sees (sc', w) j)"
  using assms(1)
proof (cases rule: scan_addProjection_cases)
  case (key c)
  then show ?thesis using key_position [OF assms(2) key(2,3)] by (simp add: scan_sees_def column_seen_def)
next
  case (projected c)
  have "nat i - getKeyCount (sc_table sc) = nat (c_valueIndex c)" using projected(1,3) by simp
  then have "column_seen (getKeyCount (sc_table sc)) (shape_of sc') (nat i)" using projected(2,4) by (simp add: column_seen_def shape_of_def)
  moreover have "column_seen (getKeyCount (sc_table sc)) (shape_of sc') j" if "column_seen (getKeyCount (sc_table sc)) (shape_of sc) j" for j
    using column_seen_update [OF that [unfolded shape_of_def], of "Some R_Null"] projected(4) by (simp add: shape_of_def)
  ultimately show ?thesis using projected(4) by (auto simp: scan_sees_def)
qed (auto simp: scan_sees_def column_seen_def shape_of_def)

interpretation scan_columns: projecting_source "scan_ops fuel L D"
    "\<lambda>(sc, w'). w' = w \<and> projected_from sc0 sc \<and> sc_table sc0 = T \<and> table_wf T" "scan_col L T" "scan_ty T" scan_sees
  for fuel L D w sc0 T
proof
  fix s :: "scan_plan \<times> ('a, 'b) world" and n
  assume ok: "case s of (sc, w') \<Rightarrow> w' = w \<and> projected_from sc0 sc \<and> sc_table sc0 = T \<and> table_wf T"
  then obtain sc where s: "s = (sc, w)" "projected_from sc0 sc" "sc_table sc0 = T" "table_wf T" by (cases s) auto
  from scan_addProjection_col [OF s(2,3), of L n] obtain sc' where sc': "projected_from sc0 sc'"
    "scan_addProjection L n sc = mapR (\<lambda>i. (i, sc')) (scan_col L T n)" by blast
  show "\<exists>s'. (case s' of (sc, w') \<Rightarrow> w' = w \<and> projected_from sc0 sc \<and> sc_table sc0 = T \<and> table_wf T) \<and>
      o_addProjection (scan_ops fuel L D) n s = mapR (\<lambda>i. (i, s')) (scan_col L T n)"
    by (rule exI [of _ "(sc', w)"]) (use sc' s in \<open>cases "scan_col L T n"; simp add: scan_ops_def\<close>)
  show "o_getResultType (scan_ops fuel L D) s = scan_ty T"
    using projected_from_fields(1) [OF s(2)] s(3)
    by (simp add: s(1) scan_ops_def scan_ty_def fun_eq_iff scan_getResultType_def newLevelDBScanPlan_def)
  fix i and s' :: "scan_plan \<times> ('a, 'b) world"
  assume "o_addProjection (scan_ops fuel L D) n s = Inr (i, s')"
  then obtain sc1 where sc1: "scan_addProjection L n sc = Inr (i, sc1)" "s' = (sc1, w)" by (auto simp: s(1) scan_ops_def)
  show "scan_sees s' i \<and> (\<forall>j. scan_sees s j \<longrightarrow> scan_sees s' j)"
    using scan_addProjection_sees [OF sc1(1), of w] projected_from_fields(1) [OF s(2)] s(3,4) by (simp add: s(1) sc1(2))
qed

section \<open>Types of the key columns\<close>

lemma scan_type_steps_keep:
  "\<forall>c \<in> set cs. c_keyIndex c \<noteq> int j \<Longrightarrow> fst (foldl scan_type_step (ks, vs) cs) ! j = ks ! j"
proof (induction cs arbitrary: ks vs)
  case (Cons c cs)
  then show ?case by (cases "c_keyIndex c < 0") (auto simp: scan_type_step_def nth_list_update)
qed simp

lemma key_count_le: "keyed_table L T \<Longrightarrow> getKeyCount T \<le> getColumnCount T"
proof -
  assume T: "keyed_table L T"
  then have "\<forall>i \<in> set (t_keys T). i < length (t_columns T)" by (simp add: keyed_table_def table_wf_def)
  then have "set (t_keys T) \<subseteq> {..<length (t_columns T)}" by blast
  from card_mono [OF _ this] have "card (set (t_keys T)) \<le> length (t_columns T)" by simp
  then show ?thesis using T by (simp add: keyed_table_def getKeyCount_def getColumnCount_def distinct_card)
qed

lemma key_type_at:
  assumes "keyed_table L T" and i: "i < length (t_columns T)" "c = t_columns T ! i" "column_wf T i" "c_keyIndex c \<ge> 0"
  defines "j \<equiv> nat (c_keyIndex c)"
  shows "fst (scan_types T) ! j = c_type c" "scan_ty T j = Inr (c_type c)" "j < getKeyCount T" "t_keys T ! j = i"
proof -
  have wf: "table_wf T" using assms(1) by (simp add: keyed_table_def)
  have pos: "t_keys T ! j = i" "j < length (t_keys T)"
    using i(2,3) i(4) by (auto simp: column_wf_def slot_ok_def Let_def j_def)
  show "t_keys T ! j = i" by (rule pos(1))
  show lt: "j < getKeyCount T" using pos(2) by (simp add: getKeyCount_def)
  let ?xs = "take i (t_columns T)" and ?ys = "drop (Suc i) (t_columns T)"
  have "c_keyIndex c' \<noteq> int j" if c': "c' \<in> set ?ys" for c'
  proof
    assume j: "c_keyIndex c' = int j"
    from c' obtain k where k: "k < length (t_columns T) - Suc i" "c' = t_columns T ! (Suc i + k)"
      by (auto simp: in_set_conv_nth)
    then have "column_wf T (Suc i + k)" using wf by (simp add: table_wf_def)
    then have "t_keys T ! j = Suc i + k" using j k(2) by (auto simp: column_wf_def slot_ok_def Let_def)
    then show False using pos(1) by simp
  qed
  moreover have split: "t_columns T = ?xs @ c # ?ys" using id_take_nth_drop [OF i(1)] i(2) by simp
  have "fst (scan_types T) = fst (foldl scan_type_step (scan_type_step (foldl scan_type_step (replicate (getKeyCount T) DT_UNKNOWN, []) ?xs) c) ?ys)"
    unfolding scan_types_def by (subst split) (simp only: foldl_append foldl_Cons)
  moreover obtain ks vs where st: "foldl scan_type_step (replicate (getKeyCount T) DT_UNKNOWN, []) ?xs = (ks, vs)" by fastforce
  moreover have "length ks = getKeyCount T" using scan_type_steps_lengths(1) [of "replicate (getKeyCount T) DT_UNKNOWN" "[]" ?xs] st by simp
  ultimately show "fst (scan_types T) ! j = c_type c"
    using i(4) lt scan_type_steps_keep [of ?ys j "ks[j := c_type c]" vs] by (simp add: scan_type_step_def j_def not_less)
  show "scan_ty T j = Inr (c_type c)"
    using pos i(1,2) lt key_count_le [OF assms(1)]
    by (simp add: scan_ty_def scan_getResultType_def newLevelDBScanPlan_def getKeyColumn_def getColumn_def)
qed

lemma key_type:
  assumes "keyed_table L T" "getColumnByName T name = Some c" "c_keyIndex c \<ge> 0"
  shows "fst (scan_types T) ! nat (c_keyIndex c) = c_type c" "scan_ty T (nat (c_keyIndex c)) = Inr (c_type c)"
    "nat (c_keyIndex c) < getKeyCount T"
proof -
  have wf: "table_wf T" using assms(1) by (simp add: keyed_table_def)
  obtain i where "i < length (t_columns T)" "c = t_columns T ! i" "column_wf T i"
    using getColumnByName_position [OF wf assms(2)] .
  from key_type_at [OF assms(1) this assms(3)]
  show "fst (scan_types T) ! nat (c_keyIndex c) = c_type c" "scan_ty T (nat (c_keyIndex c)) = Inr (c_type c)"
    "nat (c_keyIndex c) < getKeyCount T" by simp_all
qed

lemma key_types:
  assumes "keyed_table L T" "j < getKeyCount T"
  shows "scan_ty T j = Inr (fst (scan_types T) ! j)" "fst (scan_types T) ! j = c_type (t_columns T ! (t_keys T ! j))"
proof -
  let ?i = "t_keys T ! j"
  have wf: "table_wf T" and dist: "distinct (t_keys T)" using assms(1) by (simp_all add: keyed_table_def)
  have mem: "?i \<in> set (t_keys T)" using assms(2) by (simp add: getKeyCount_def)
  then have i: "?i < length (t_columns T)" "column_wf T ?i" using wf by (simp_all add: table_wf_def)
  then have "c_keyIndex (t_columns T ! ?i) \<ge> 0" using mem by (simp add: column_wf_def Let_def)
  note at = key_type_at [OF assms(1) i(1) refl i(2) this]
  have "nat (c_keyIndex (t_columns T ! ?i)) = j"
    using at(3,4) dist assms(2) by (simp add: nth_eq_iff_index_eq getKeyCount_def)
  then show "scan_ty T j = Inr (fst (scan_types T) ! j)" "fst (scan_types T) ! j = c_type (t_columns T ! ?i)" using at(1,2) by simp_all
qed

section \<open>Rows as a filter sees them\<close>

text \<open>
  The row of a table with all its columns, and with those columns only that a scan was asked for.
\<close>

definition shape_frame :: "table_info \<Rightarrow> bool list \<Rightarrow> table_row \<Rightarrow> frame" where
  "shape_frame T shape row = (view_row (getKeyCount T) (row_view shape (snd (scan_types T)) row), scan_ty T)"

definition table_frame :: "table_info \<Rightarrow> table_row \<Rightarrow> frame" where
  "table_frame T = shape_frame T (replicate (getColumnCount T - getKeyCount T) True)"

lemma shape_frame_seen:
  assumes "column_seen (getKeyCount T) shape i" "length shape = getColumnCount T - getKeyCount T"
  shows "fst (shape_frame T shape row) i = fst (table_frame T row) i"
proof -
  obtain e ks vs where row: "row = (e, ks, vs)" by (cases row)
  show ?thesis using assms
    by (auto simp: shape_frame_def table_frame_def view_row_def row_view_def row project_values_def column_seen_def fun_eq_iff)
qed

lemma filter_evaluate_cong:
  assumes "\<And>i. i = pi_leftIndex info \<or> i = pi_rightIndex info \<Longrightarrow> 0 \<le> i \<Longrightarrow> fst fr (nat i) = fst fr' (nat i)" "snd fr = snd fr'"
  shows "filter_evaluate L fr info = filter_evaluate L fr' info"
proof -
  have "info_operand fr (pi_leftIndex info) c t = info_operand fr' (pi_leftIndex info) c t"
    "info_operand fr (pi_rightIndex info) c t = info_operand fr' (pi_rightIndex info) c t" for c t
    using assms by (simp_all add: info_operand_def)
  then show ?thesis by (simp add: filter_evaluate_def)
qed

section \<open>A comparison that the range answers\<close>

lemma scan_col_const: "isConst n \<Longrightarrow> scan_col L T n = Inr (-1)"
  by (auto simp: scan_col_def scan_addProjection_def isRowKeyNode_def isConst_types)

lemma scan_col_key:
  assumes "keyed_table L T" "n_type n = NT_NAME" "getColumnByName T (n_value n) = Some c" "c_keyIndex c \<ge> 0"
  shows "scan_col L T n = Inr (c_keyIndex c)"
  using assms by (auto simp: scan_col_def scan_addProjection_def isRowKeyNode_def keyed_table_def newLevelDBScanPlan_def)

lemma handler_known: "getHandler t = Some h \<Longrightarrow> t \<noteq> DT_UNKNOWN"
  by (auto simp: getHandler_def)

lemma comparable_not_null: "comparable h v \<Longrightarrow> \<not> isNull v"
  by (auto simp: comparable_def isNull_def split: handler.splits eresult.splits)

lemma compare_holds_op: "op \<in> {COMP_EQ, COMP_LE, COMP_LT, COMP_GT, COMP_GE} \<Longrightarrow> compare_holds op n = Some (op_holds op n)"
  by (auto simp: compare_holds_def op_holds_def)

lemma reverseOp_holds:
  "reverseOp op = Some rop \<Longrightarrow> op \<in> {COMP_EQ, COMP_LE, COMP_LT, COMP_GT, COMP_GE} \<and> (op_holds rop (- n) \<longleftrightarrow> op_holds op n)"
  by (cases op) (auto simp: reverseOp_def op_holds_def)

text \<open>The comparison of a key column with a constant, the column on the left or on the right.\<close>

lemma evaluate_key_left:
  assumes "getHandler t = Some h" "comparable h k" "comparable h v" "op \<in> {COMP_EQ, COMP_LE, COMP_LT, COMP_GT, COMP_GE}"
    and "snd fr (nat j) = Inr t" "fst fr (nat j) t = Inr k" "j \<ge> 0"
  shows "filter_evaluate L fr \<lparr>pi_expr = x, pi_op = op, pi_leftIndex = j, pi_rightIndex = -1, pi_leftConst = R_Null, pi_rightConst = v\<rparr> =
    Inr (op_holds op (type_cmp t k v))"
  using assms handler_known [OF assms(1)] comparable_not_null [OF assms(2)] comparable_not_null [OF assms(3)]
    compare_holds_op [OF assms(4)]
  by (auto simp: filter_evaluate_def info_operand_def r_compare_def with_handler_def h_compare_cmp_val type_cmp_def)

lemma evaluate_key_right:
  assumes "getHandler t = Some h" "comparable h k" "comparable h v" "reverseOp op = Some rop"
    and "snd fr (nat j) = Inr t" "fst fr (nat j) t = Inr k" "j \<ge> 0"
  shows "filter_evaluate L fr \<lparr>pi_expr = x, pi_op = op, pi_leftIndex = -1, pi_rightIndex = j, pi_leftConst = v, pi_rightConst = R_Null\<rparr> =
    Inr (op_holds rop (type_cmp t k v))"
proof -
  have "cmp_val h k v = - cmp_val h v k"
    using three_way.cmp_antisym [OF three_way_handler assms(3,2)] by simp
  then show ?thesis
    using assms handler_known [OF assms(1)] comparable_not_null [OF assms(2)] comparable_not_null [OF assms(3)]
      reverseOp_holds [OF assms(4), of "cmp_val h v k"] compare_holds_op [of op "cmp_val h v k"]
    by (auto simp: filter_evaluate_def info_operand_def r_compare_def with_handler_def h_compare_cmp_val type_cmp_def)
qed

lemma table_frame_key:
  assumes "j < getKeyCount T" "list_all2 column_ok (fst (scan_types T)) ks"
  shows "fst (table_frame T (e, ks, vs)) j t = Inr (ks ! j)"
  using assms list_all2_lengthD [OF assms(2)] scan_types_lengths(1) [of T]
  by (simp add: table_frame_def shape_frame_def view_row_def row_view_def)

lemma snd_table_frame [simp]: "snd (table_frame T row) = scan_ty T" "snd (shape_frame T shape row) = scan_ty T"
  by (simp_all add: table_frame_def shape_frame_def)

lemma node_value_handler: "node_value L t node v \<Longrightarrow> with_handler t (\<lambda>h. h_fromNode L h node R_Null) = Inr v"
  by (auto simp: node_value_def with_handler_def)

lemma key_comparison_true:
  assumes T: "keyed_table L T" and c: "(j, op, node, x) \<in> set (comparison_atoms T c)" "length (n_children c) = 2" "c \<noteq> NullNode"
    and v: "node_value L (fst (scan_types T) ! j) node v" "type_comparable (fst (scan_types T) ! j) v"
    and ks: "list_all2 column_ok (fst (scan_types T)) ks"
  shows "predicate_true L (scan_col L T) (scan_ty T) (table_frame T (e, ks, vs)) c \<longleftrightarrow>
    op_holds op (type_cmp (fst (scan_types T) ! j) (ks ! j) v)"
proof -
  let ?kt = "fst (scan_types T)" and ?fr = "table_frame T (e, ks, vs)"
  obtain a t op' ex v' l r where node: "c = PNode a t op' ex v' [l, r]"
    using c(2,3) by (cases c) (auto simp: numeral_2_eq_2 length_Suc_conv)
  from c(1) obtain rop where rop: "reverseOp op' = Some rop"
    by (cases "reverseOp op'") (simp_all add: comparison_atoms_def node)
  then have plain: "op' \<noteq> OP_AND" "op' \<noteq> OP_OR" by (auto simp: reverseOp_def)
  have truth: "predicate_true L (scan_col L T) (scan_ty T) ?fr c \<longleftrightarrow>
      (case comparison_info L (scan_col L T) (scan_ty T) c of Inl err \<Rightarrow> False | Inr info \<Rightarrow> filter_evaluate L ?fr info = Inr True)"
    using plain by (simp add: node)
  obtain h where h: "getHandler (?kt ! j) = Some h" "comparable h v"
    using v(2) by (auto simp: type_comparable_def split: option.splits)
  consider (left) "n_type l = NT_NAME" "isConst r" "(j, op, node, x) \<in> set (atoms_of T op' l r ex)"
    | (right) "n_type r = NT_NAME" "isConst l" "(j, op, node, x) \<in> set (atoms_of T rop r l ex)"
    using c(1) rop by (auto simp: comparison_atoms_def node split: if_splits)
  then show ?thesis
  proof cases
    case left
    then obtain col where col: "getColumnByName T (n_value l) = Some col" "c_keyIndex col \<ge> 0" "j = nat (c_keyIndex col)" "op = op'" "node = r"
      by (cases "getColumnByName T (n_value l)") (auto simp: atoms_of_def split: if_splits)
    note key = key_type [OF T col(1,2), folded col(3)]
    have k: "comparable h (ks ! j)" using list_all2_nthD2 [OF column_ok_comparable [OF ks], of j] key(3) h(1)
        list_all2_lengthD [OF ks] scan_types_lengths(1) [of T] by (simp add: type_comparable_def)
    have "l \<noteq> NullNode" "r \<noteq> NullNode" using left by (auto simp: isConst_def)
    then have "comparison_info L (scan_col L T) (scan_ty T) c = Inr \<lparr>pi_expr = ex, pi_op = op', pi_leftIndex = c_keyIndex col,
        pi_rightIndex = -1, pi_leftConst = R_Null, pi_rightConst = v\<rparr>"
      using scan_col_key [OF T left(1) col(1,2)] scan_col_const [OF left(2)] key(1,2) node_value_handler [OF v(1)] left(2) col(2,3,5)
      by (simp add: comparison_info_def node getChild_def pure_const_def)
    moreover have "filter_evaluate L ?fr \<lparr>pi_expr = ex, pi_op = op', pi_leftIndex = c_keyIndex col, pi_rightIndex = -1,
        pi_leftConst = R_Null, pi_rightConst = v\<rparr> = Inr (op_holds op' (type_cmp (?kt ! j) (ks ! j) v))"
      by (rule evaluate_key_left [OF h(1) k h(2)])
        (use reverseOp_holds [OF rop] key table_frame_key [OF key(3) ks] col(2,3) in simp_all)
    ultimately show ?thesis using truth col(4) by simp
  next
    case right
    then obtain col where col: "getColumnByName T (n_value r) = Some col" "c_keyIndex col \<ge> 0" "j = nat (c_keyIndex col)" "op = rop" "node = l"
      by (cases "getColumnByName T (n_value r)") (auto simp: atoms_of_def split: if_splits)
    note key = key_type [OF T col(1,2), folded col(3)]
    have k: "comparable h (ks ! j)" using list_all2_nthD2 [OF column_ok_comparable [OF ks], of j] key(3) h(1)
        list_all2_lengthD [OF ks] scan_types_lengths(1) [of T] by (simp add: type_comparable_def)
    have "l \<noteq> NullNode" "r \<noteq> NullNode" using right by (auto simp: isConst_def)
    then have "comparison_info L (scan_col L T) (scan_ty T) c = Inr \<lparr>pi_expr = ex, pi_op = op', pi_leftIndex = -1,
        pi_rightIndex = c_keyIndex col, pi_leftConst = v, pi_rightConst = R_Null\<rparr>"
      using scan_col_key [OF T right(1) col(1,2)] scan_col_const [OF right(2)] key(1,2) node_value_handler [OF v(1)] right(2) col(2,3,5)
      by (simp add: comparison_info_def node getChild_def pure_const_def)
    moreover have "filter_evaluate L ?fr \<lparr>pi_expr = ex, pi_op = op', pi_leftIndex = -1, pi_rightIndex = c_keyIndex col,
        pi_leftConst = v, pi_rightConst = R_Null\<rparr> = Inr (op_holds rop (type_cmp (?kt ! j) (ks ! j) v))"
      by (rule evaluate_key_right [OF h(1) k h(2) rop])
        (use key table_frame_key [OF key(3) ks] col(2,3) in simp_all)
    ultimately show ?thesis using truth col(4) by simp
  qed
qed

text \<open>The comparisons of a predicate are told apart by their texts, as the builder tells them apart.\<close>

definition same_comparison :: "pnode \<Rightarrow> pnode \<Rightarrow> bool" where
  "same_comparison c c' \<longleftrightarrow> n_op c = n_op c' \<and>
     list_all2 (\<lambda>a b. n_type a = n_type b \<and> n_op a = n_op b \<and> n_expr a = n_expr b \<and> n_value a = n_value b \<and>
       n_children a = n_children b \<and> (a = NullNode \<longleftrightarrow> b = NullNode)) (n_children c) (n_children c')"

definition told_by_text :: "pnode \<Rightarrow> bool" where
  "told_by_text p \<longleftrightarrow> (\<forall>c \<in> set (comparisons p). \<forall>c' \<in> set (comparisons p). n_expr c = n_expr c' \<longrightarrow> same_comparison c c')"

lemma concat_concat_map: "concat (concat (map f xs)) = concat (map (\<lambda>x. concat (f x)) xs)"
  by (induction xs) simp_all

lemma key_atoms_comparisons: "conjunctive p \<Longrightarrow> key_atoms T p = concat (map (comparison_atoms T) (comparisons p))"
  by (induction p) (auto simp: list_all_iff map_concat concat_concat_map comp_def cong: map_cong)

lemma comparison_atoms_expr: "(j, op, node, x) \<in> set (comparison_atoms T c) \<Longrightarrow> x = n_expr c"
  by (auto simp: comparison_atoms_def atoms_of_def split: option.splits list.splits if_splits)

lemma key_bounds_value:
  "key_bounds i ts ss es si ei us \<Longrightarrow> (j, op, v, x) \<in> set us \<Longrightarrow> i \<le> j \<and> j - i < length ts \<and> (v = ss ! (j - i) \<or> v = es ! (j - i))"
  by (induction rule: key_bounds.induct) (auto simp: nth_Cons' Suc_le_eq)

lemma fromNode_fields:
  assumes "n_type a = n_type b" "n_op a = n_op b" "n_expr a = n_expr b" "n_value a = n_value b"
  shows "h_fromNode L h a R_Null = h_fromNode L h b R_Null"
  unfolding h_fromNode_def int_fromNode_def bool_fromNode_def datetime_fromNode_def float_fromNode_def string_fromNode_def assms ..

lemma same_comparison_true:
  assumes "same_comparison c c'" "n_expr c = n_expr c'" "c \<noteq> NullNode" "c' \<noteq> NullNode" "n_op c \<noteq> OP_AND" "n_op c \<noteq> OP_OR"
  shows "predicate_true L (scan_col L T) (scan_ty T) fr c = predicate_true L (scan_col L T) (scan_ty T) fr c'"
proof -
  have rel: "list_all2 (\<lambda>a b. n_type a = n_type b \<and> n_op a = n_op b \<and> n_expr a = n_expr b \<and> n_value a = n_value b \<and>
       n_children a = n_children b \<and> (a = NullNode \<longleftrightarrow> b = NullNode)) (n_children c) (n_children c')" and op: "n_op c = n_op c'"
    using assms(1) by (simp_all add: same_comparison_def)
  note len = list_all2_lengthD [OF rel]
  have col: "scan_col L T a = scan_col L T b" if "n_type a = n_type b" "n_value a = n_value b" for a b
    using that by (simp add: scan_col_def scan_addProjection_def isRowKeyNode_def split: option.splits)
  have const: "pure_const L (scan_ty T) x a i k = pure_const L (scan_ty T) x b i k"
    if "n_type a = n_type b" "n_op a = n_op b" "n_expr a = n_expr b" "n_value a = n_value b" for a b x i k
    using that fromNode_fields [OF that] by (simp add: pure_const_def isConst_def)
  define G where "G x op l r = (if l = NullNode \<or> r = NullNode then Inl (Stuck ''pLeft->m_type'')
     else bindR (scan_col L T l) (\<lambda>i. bindR (scan_col L T r) (\<lambda>j.
       if i < 0 \<and> j < 0 then Inl (ParseException (''Unrecognized predicate '' @ x))
       else bindR (pure_const L (scan_ty T) x l i j) (\<lambda>lc. bindR (pure_const L (scan_ty T) x r j i) (\<lambda>rc.
         Inr \<lparr>pi_expr = x, pi_op = op, pi_leftIndex = i, pi_rightIndex = j, pi_leftConst = lc, pi_rightConst = rc\<rparr>)))))" for x op l r
  have info: "comparison_info L (scan_col L T) (scan_ty T) d =
      bindR (getChild d 0) (\<lambda>l. bindR (getChild d 1) (\<lambda>r. G (n_expr d) (n_op d) l r))" for d
    by (simp add: comparison_info_def G_def)
  have "comparison_info L (scan_col L T) (scan_ty T) c = comparison_info L (scan_col L T) (scan_ty T) c'"
  proof (cases "length (n_children c) < 2")
    case True
    then have "getChild d 0 = Inl (Stuck ''getChild'') \<or> getChild d 1 = Inl (Stuck ''getChild'') \<and> (\<exists>l. getChild d 0 = Inr l)"
      if "d = c \<or> d = c'" for d using that len by (auto simp: getChild_def)
    then have "comparison_info L (scan_col L T) (scan_ty T) d = Inl (Stuck ''getChild'')" if "d = c \<or> d = c'" for d
      using that unfolding info by fastforce
    then show ?thesis by simp
  next
    case False
    then have n: "0 < length (n_children c)" "1 < length (n_children c)" by linarith+
    note first = list_all2_nthD [OF rel n(1)] and second = list_all2_nthD [OF rel n(2)]
    have "G x op (n_children c ! 0) (n_children c ! 1) = G x op (n_children c' ! 0) (n_children c' ! 1)" for x op
      unfolding G_def using first second
        col [of "n_children c ! 0" "n_children c' ! 0"] col [of "n_children c ! 1" "n_children c' ! 1"]
        const [of "n_children c ! 0" "n_children c' ! 0"] const [of "n_children c ! 1" "n_children c' ! 1"]
      by (simp only:)
    then show ?thesis using n len assms(2) op unfolding info by (simp add: getChild_def)
  qed
  then show ?thesis using assms op by (cases c; cases c') simp_all
qed

text \<open>The keys in the range are those on which the comparisons that the range answers are true.\<close>

lemma range_comparisons:
  assumes T: "keyed_table L T" and desc: "describes L (fst (scan_types T)) T p r us" and exact: "exact_range r"
    and p: "conjunctive p" "told_by_text p" and ks: "list_all2 column_ok (fst (scan_types T)) ks"
  shows "in_range (fst (scan_types T)) r ks \<longleftrightarrow>
    (\<forall>c \<in> set (comparisons p). n_expr c \<in> set (exprs us) \<longrightarrow>
      predicate_true L (scan_col L T) (scan_ty T) (table_frame T (e, ks, vs)) c)"
proof -
  let ?kt = "fst (scan_types T)" and ?true = "predicate_true L (scan_col L T) (scan_ty T) (table_frame T (e, ks, vs))"
  have kb: "key_bounds 0 ?kt (kr_startResults r) (kr_endResults r) (kr_startInclusive r) (kr_endInclusive r) us"
    and types: "kr_keyTypes r = ?kt" using desc by (simp_all add: describes_def)
  have comp_value: "type_comparable (?kt ! j) v" if "(j, op, v, x) \<in> set us" for j op v x
  proof -
    have "list_all2 type_comparable ?kt (kr_startResults r)" "list_all2 type_comparable ?kt (kr_endResults r)"
      using exact_range_comparable [OF exact] types by (simp_all add: comparable_range_def)
    then show ?thesis using key_bounds_value [OF kb that] by (auto dest: list_all2_nthD)
  qed
  have use: "\<exists>c \<in> set (comparisons p). n_expr c = x \<and> (?true c \<longleftrightarrow> use_holds 0 ?kt ks (j, op, v, x))"
    if u: "(j, op, v, x) \<in> set us" for j op v x
  proof -
    from desc u obtain node where n: "j < length ?kt" "(j, op, node, x) \<in> set (key_atoms T p)" "node_value L (?kt ! j) node v"
      by (fastforce simp: describes_def)
    from n(2) obtain c where c: "c \<in> set (comparisons p)" "(j, op, node, x) \<in> set (comparison_atoms T c)"
      unfolding key_atoms_comparisons [OF p(1)] by auto
    have "?true c \<longleftrightarrow> op_holds op (type_cmp (?kt ! j) (ks ! j) v)"
      using conjunctive_comparison [OF p(1) c(1)] by (intro key_comparison_true [OF T c(2) _ _ n(3) comp_value [OF u] ks]) simp_all
    then show ?thesis using c n(1) comparison_atoms_expr [OF c(2)] by (auto simp: use_holds_def)
  qed
  have "in_range ?kt r ks \<longleftrightarrow> (\<forall>u \<in> set us. use_holds 0 ?kt ks u)"
    unfolding in_range_def by (rule key_bounds_iff [OF kb ks])
  also have "\<dots> \<longleftrightarrow> (\<forall>c \<in> set (comparisons p). n_expr c \<in> set (exprs us) \<longrightarrow> ?true c)"
  proof (intro iffI ballI impI)
    fix c assume all: "\<forall>u \<in> set us. use_holds 0 ?kt ks u" and c: "c \<in> set (comparisons p)" "n_expr c \<in> set (exprs us)"
    then obtain j op v where u: "(j, op, v, n_expr c) \<in> set us" by force
    from use [OF u] all u obtain c' where c': "c' \<in> set (comparisons p)" "n_expr c' = n_expr c" "?true c'" by blast
    have "same_comparison c c'" using p(2) c(1) c'(1,2) by (auto simp: told_by_text_def)
    then show "?true c" using same_comparison_true [of c c'] conjunctive_comparison [OF p(1) c(1)] conjunctive_comparison [OF p(1) c'(1)] c'(2,3)
      by simp
  next
    fix u assume all: "\<forall>c \<in> set (comparisons p). n_expr c \<in> set (exprs us) \<longrightarrow> ?true c" and u: "u \<in> set us"
    obtain j op v x where ux: "u = (j, op, v, x)" by (cases u)
    have x: "x \<in> set (exprs us)" using u by (force simp: ux)
    obtain c where "c \<in> set (comparisons p)" "n_expr c = x" "?true c \<longleftrightarrow> use_holds 0 ?kt ks (j, op, v, x)"
      using use [OF u [unfolded ux]] by blast
    with all x show "use_holds 0 ?kt ks u" unfolding ux by blast
  qed
  finally show ?thesis .
qed

end
