(* ===== verification/WherePlans.thy ===== *)
theory WherePlans
  imports ScanFilter
begin

text \<open>
  The plans \<open>LevelDBPlanBuilder::buildSelectPlan\<close> makes for a predicate on a keyed table: a scan, a
  scan with a filter, or a union of such.  However the predicate is split between the ranges of
  the scans and the filters over them, the plan delivers exactly the rows on which it is true.
\<close>

section \<open>The rows of a scan in a plan\<close>

text \<open>What a scan needs of the world: an iterator, or the way to one.\<close>

definition scan_access ::
  "('db, 'it) leveldb \<Rightarrow> ('it \<Rightarrow> (byte list \<times> byte list) list) \<Rightarrow> table_row list \<Rightarrow> scan_plan \<Rightarrow> ('db, 'it) world \<Rightarrow> bool" where
  "scan_access D ents rs sc w \<longleftrightarrow> (case sc_iter sc of
     Some i \<Rightarrow> i < length (w_iters w) \<and> ents (w_iters w ! i) = map fst rs
   | None \<Rightarrow> (\<exists>db hs. getLevelDBHandler D (sc_tableId sc) (sc_table sc) (w_handlers w) = Inr (db, hs) \<and>
        ents (ldb_newIterator D db) = map fst rs))"

text \<open>A scan of a table with the range of a predicate; a scan without a range makes that of no predicate at \<open>begin\<close>.\<close>

definition scan_ranged :: "lib \<Rightarrow> table_info \<Rightarrow> key_range \<Rightarrow> scan_plan \<Rightarrow> bool" where
  "scan_ranged L T r sc \<longleftrightarrow> sc_table sc = T \<and> sc_keyTypes sc = fst (scan_types T) \<and> sc_valueTypes sc = snd (scan_types T) \<and>
     sc_order sc = AnyOrder \<and> scan_wf sc \<and> length (sc_columnValues sc) = getColumnCount T - getKeyCount T \<and>
     (sc_range sc = Some r \<or> sc_range sc = None \<and> (\<exists>solved. newKeySearchRange L (fst (scan_types T)) T NullNode = Inr (r, solved)))"

lemma scan_ops_getResultType: "o_getResultType (scan_ops fuel L D) s = scan_ty (sc_table (fst s))"
  by (simp add: scan_ops_def case_prod_unfold scan_ty_def fun_eq_iff scan_getResultType_def newLevelDBScanPlan_def)

lemma scan_begin_ranged:
  assumes "scan_ranged L T r sc" "scan_access D ents rs sc w"
  obtains sc1 w1 where "o_begin (scan_ops fuel L D) t (sc, w) = Inr (sc1, w1)" "sc_range sc1 = Some r" "sc_rows sc1 = 0"
    "iter_over ents rs (sc_iter sc1) w1" "\<forall>i. sc_iter sc = Some i \<longrightarrow> sc_iter sc1 = Some i"
    "sc_table sc1 = T" "sc_keyTypes sc1 = fst (scan_types T)" "sc_valueTypes sc1 = snd (scan_types T)" "sc_order sc1 = AnyOrder"
    "sc_columnValues sc1 = sc_columnValues sc" "scan_wf sc1"
proof -
  note f = assms(1) [unfolded scan_ranged_def]
  obtain iter hs its where acc: "(if sc_iter sc = None
        then mapR (\<lambda>(db, hs). (sc\<lparr>sc_rows := 0, sc_iter := Some (length (w_iters w))\<rparr>,
                                w\<lparr>w_handlers := hs, w_iters := w_iters w @ [createIterator D db]\<rparr>))
               (getLevelDBHandler D (sc_tableId sc) (sc_table sc) (w_handlers w))
        else Inr (sc\<lparr>sc_rows := 0\<rparr>, w)) = Inr (sc\<lparr>sc_rows := 0, sc_iter := iter\<rparr>, w\<lparr>w_handlers := hs, w_iters := its\<rparr>)"
      "iter_over ents rs iter (w\<lparr>w_handlers := hs, w_iters := its\<rparr>)" "\<forall>i. sc_iter sc = Some i \<longrightarrow> iter = Some i"
  proof (cases "sc_iter sc")
    case None
    then obtain db hs where "getLevelDBHandler D (sc_tableId sc) (sc_table sc) (w_handlers w) = Inr (db, hs)"
      "ents (ldb_newIterator D db) = map fst rs" using assms(2) by (auto simp: scan_access_def)
    then show ?thesis using None
        that [where iter = "Some (length (w_iters w))" and hs = hs and its = "w_iters w @ [ldb_newIterator D db]"]
      by (simp add: iter_over_def createIterator_def)
  next
    case (Some i)
    have "sc\<lparr>sc_rows := 0\<rparr> = sc\<lparr>sc_rows := 0, sc_iter := Some i\<rparr>" by (simp add: Some [symmetric])
    moreover have "iter_over ents rs (Some i) w" using assms(2) Some by (simp add: scan_access_def iter_over_def)
    ultimately show ?thesis using Some
      by (intro that [where iter = "Some i" and hs = "w_handlers w" and its = "w_iters w"]) simp_all
  qed
  let ?sc = "sc\<lparr>sc_rows := 0, sc_iter := iter\<rparr>"
  have "scan_ensureRange L ?sc = Inr (?sc\<lparr>sc_range := Some r\<rparr>)"
    using f by (auto simp: scan_ensureRange_def scan_setPredicate_def)
  then have "o_begin (scan_ops fuel L D) t (sc, w) = Inr (?sc\<lparr>sc_range := Some r\<rparr>, w\<lparr>w_handlers := hs, w_iters := its\<rparr>)"
    using acc(1) by (simp add: scan_ops_def scan_begin_def Let_def split del: if_split cong del: if_weak_cong)
  from that [OF this] show ?thesis using f acc(2,3) by (auto simp: scan_wf_def)
qed

lemma scan_frames:
  assumes sc: "scan_ranged L T r sc" "scan_access D ents rs sc w" and desc: "describes L (fst (scan_types T)) T p r us" "exact_range r"
    and laws: "iter_laws (ldb_iter D) (key_cmp L (fst (scan_types T))) ents pos"
    and rows: "table_rows L (fst (scan_types T)) (snd (scan_types T)) rs" "length rs < fuel" "2 < fuel"
  shows "\<exists>s. o_begin (scan_ops fuel L D) False (sc, w) = Inr s \<and>
    delivers_to (o_next (scan_ops fuel L D) False) (frame_of (scan_ops fuel L D)) s
      (map (shape_frame T (shape_of sc)) (filter (\<lambda>(e, ks, vs). in_range (fst (scan_types T)) r ks) rs))
      (\<lambda>s'. \<forall>i. sc_iter sc = Some i \<longrightarrow> iter_over ents rs (Some i) (snd s'))"
proof -
  let ?kt = "fst (scan_types T)" and ?vt = "snd (scan_types T)"
  obtain sc1 w1 where b: "o_begin (scan_ops fuel L D) False (sc, w) = Inr (sc1, w1)" "sc_range sc1 = Some r" "sc_rows sc1 = 0"
    "iter_over ents rs (sc_iter sc1) w1" "\<forall>i. sc_iter sc = Some i \<longrightarrow> sc_iter sc1 = Some i"
    "sc_table sc1 = T" "sc_keyTypes sc1 = ?kt" "sc_valueTypes sc1 = ?vt" "sc_order sc1 = AnyOrder"
    "sc_columnValues sc1 = sc_columnValues sc" "scan_wf sc1"
    by (rule scan_begin_ranged [OF sc, where fuel = fuel and t = False])
  have at: "scan_at L ?kt ?vt r AnyOrder (shape_of sc) ents pos rs (sc1, w1)"
    using b by (auto simp: scan_at_def scan_ready_def scan_wf_def shape_of_def iter_over_def)
  have "scan_setting fuel L D ?kt ?vt r ents pos rs"
    using desc laws rows by (auto simp: scan_setting_def)
  from delivers_to_map [OF scan_delivers_range [OF at this b(3)], where g = "\<lambda>(T, v). (view_row (getKeyCount T) v, scan_ty T)"] b(6)
  have "delivers_to (o_next (scan_ops fuel L D) False) (frame_of (scan_ops fuel L D)) (sc1, w1)
      (map (shape_frame T (shape_of sc)) (filter (\<lambda>(e, ks, vs). in_range ?kt r ks) rs))
      (\<lambda>s'. o_getInfoString (scan_ops fuel L D) s' =
          Inr (''SELECT '' @ nat_to_string (length (filter (\<lambda>(e, ks, vs). in_range ?kt r ks) rs))) \<and>
        w_handlers (snd s') = w_handlers w1 \<and> iter_over ents rs (sc_iter sc1) (snd s'))"
    by (simp add: comp_def shape_frame_def [abs_def] frame_of_def [abs_def] scan_ops_getResult scan_getResult_def scan_ops_getResultType case_prod_unfold)
  then have
    "delivers_to (o_next (scan_ops fuel L D) False) (frame_of (scan_ops fuel L D)) (sc1, w1)
      (map (shape_frame T (shape_of sc)) (filter (\<lambda>(e, ks, vs). in_range ?kt r ks) rs))
      (\<lambda>s'. \<forall>i. sc_iter sc = Some i \<longrightarrow> iter_over ents rs (Some i) (snd s'))"
    by (rule delivers_to_mono) (use b(5) in auto)
  with b(1) show ?thesis by blast
qed

section \<open>One scan and its filter\<close>

text \<open>The truth of a predicate on a row of the table, with the columns as a scan numbers them.\<close>

definition where_true :: "lib \<Rightarrow> table_info \<Rightarrow> pnode \<Rightarrow> table_row \<Rightarrow> bool" where
  "where_true L T p row = predicate_true L (scan_col L T) (scan_ty T) (table_frame T row) p"

text \<open>The comparisons can be evaluated on the rows (a \<open>LIKE\<close> on a number cannot).\<close>

definition evaluable :: "lib \<Rightarrow> table_info \<Rightarrow> table_row list \<Rightarrow> pnode \<Rightarrow> bool" where
  "evaluable L T rs p \<longleftrightarrow> (\<forall>row \<in> set rs. \<forall>c \<in> set (comparisons p). \<forall>info.
     comparison_info L (scan_col L T) (scan_ty T) c = Inr info \<longrightarrow> (\<exists>b. filter_evaluate L (table_frame T row) info = Inr b))"

text \<open>A scan in its range, with the filter over it, singles out the rows on which the predicate is true.\<close>

definition si_passes :: "lib \<Rightarrow> table_info \<Rightarrow> scan_info \<Rightarrow> table_row \<Rightarrow> bool" where
  "si_passes L T i row \<longleftrightarrow> (case si_filter i of None \<Rightarrow> True
     | Some f \<Rightarrow> accepts L (fl_predicatesInOr f) (shape_frame T (shape_of (si_scan i)) row))"

definition si_decides :: "lib \<Rightarrow> table_info \<Rightarrow> scan_info \<Rightarrow> table_row \<Rightarrow> bool" where
  "si_decides L T i row \<longleftrightarrow> (case si_filter i of None \<Rightarrow> True
     | Some f \<Rightarrow> match_or L (shape_frame T (shape_of (si_scan i)) row) (fl_predicatesInOr f) \<in> {Inr True, Inr False})"

definition si_answers :: "lib \<Rightarrow> table_info \<Rightarrow> table_row list \<Rightarrow> pnode \<Rightarrow> key_range \<Rightarrow> scan_info \<Rightarrow> bool" where
  "si_answers L T rs p r i \<longleftrightarrow> scan_ranged L T r (si_scan i) \<and>
     (\<forall>(e, ks, vs) \<in> set rs. si_decides L T i (e, ks, vs) \<and>
        (in_range (fst (scan_types T)) r ks \<and> si_passes L T i (e, ks, vs) \<longleftrightarrow> where_true L T p (e, ks, vs)))"

lemma node_of_scan: "node_of PT_Filter (f, scan_node (sc, w)) = (PT_Filter f (PT_Scan sc), w)"
  by (simp add: node_of_def scan_node_def)

lemma filter_ops_calls:
  "o_next (filter_ops fuel L C) t = filter_next fuel L C t"
  "o_getResult (filter_ops fuel L C) (f, s) = fst (frame_of C s)"
  "o_begin (filter_ops fuel L C) t (f, s) = mapR (\<lambda>s'. (f\<lparr>fl_current := 0\<rparr>, s')) (o_begin C t s)"
  by (simp_all add: filter_ops_def single_ops_def frame_of_def filter_begin_def)

lemma si_delivers:
  assumes i: "si_answers (pe_lib E) T rs p r i" and acc: "scan_access (pe_db E) ents rs (si_scan i) w"
    and desc: "describes (pe_lib E) (fst (scan_types T)) T q r us" "exact_range r"
    and laws: "iter_laws (ldb_iter (pe_db E)) (key_cmp (pe_lib E) (fst (scan_types T))) ents pos"
    and rows: "table_rows (pe_lib E) (fst (scan_types T)) (snd (scan_types T)) rs" "length rs < pe_fuel E" "2 < pe_fuel E"
  shows "\<exists>s. o_begin (tree_ops E (Suc (Suc d))) False (si_plan i, w) = Inr s \<and>
    delivers_to (o_next (tree_ops E (Suc (Suc d))) False) (o_getResult (tree_ops E (Suc (Suc d)))) s
      (map (\<lambda>row. fst (shape_frame T (shape_of (si_scan i)) row)) (filter (where_true (pe_lib E) T p) rs))
      (\<lambda>s'. \<forall>k. sc_iter (si_scan i) = Some k \<longrightarrow> iter_over ents rs (Some k) (snd s'))"
proof -
  let ?S = "scan_ops (pe_fuel E) (pe_lib E) (pe_db E)" and ?L = "pe_lib E" and ?sc = "si_scan i"
  let ?frame = "shape_frame T (shape_of ?sc)" and ?kt = "fst (scan_types T)"
  let ?Q = "\<lambda>s' :: scan_plan \<times> ('a, 'b) world. \<forall>k. sc_iter ?sc = Some k \<longrightarrow> iter_over ents rs (Some k) (snd s')"
  let ?in = "filter (\<lambda>(e, ks, vs). in_range ?kt r ks) rs"
  obtain s where b: "o_begin ?S False (?sc, w) = Inr s"
    and d: "delivers_to (o_next ?S False) (frame_of ?S) s (map ?frame ?in) ?Q"
    using scan_frames [OF _ acc desc laws rows] i by (auto simp: si_answers_def)
  have answers: "in_range ?kt r (fst (snd row)) \<and> si_passes ?L T i row \<longleftrightarrow> where_true ?L T p row"
    "si_decides ?L T i row" if "row \<in> set rs" for row
    using i that by (auto simp: si_answers_def)
  have hits: "filter (si_passes ?L T i) ?in = filter (where_true ?L T p) rs"
    unfolding filter_filter by (rule filter_cong [OF refl]) (use answers(1) in \<open>simp add: case_prod_unfold\<close>)
  show ?thesis
  proof (cases "si_filter i")
    case None
    then have hits: "?in = filter (where_true ?L T p) rs" using hits by (simp add: si_passes_def)
    have plan: "(si_plan i, w) = scan_node (?sc, w)" using None by (simp add: si_plan_def scan_node_def)
    have "delivers_to (o_next (tree_ops E (Suc (Suc d))) False) (o_getResult (tree_ops E (Suc (Suc d)))) (scan_node s)
      (map fst (map ?frame ?in)) (\<lambda>s'. \<forall>k. sc_iter ?sc = Some k \<longrightarrow> iter_over ents rs (Some k) (snd s'))"
      by (rule delivers_to_sim [OF _ _ delivers_to_map [OF d, of fst]])
        (simp_all only: scan_node_calls frame_of_def fst_conv, auto simp: scan_node_def)
    then show ?thesis unfolding plan scan_node_begin b hits by (simp add: comp_def del: tree_calls)
  next
    case (Some f)
    let ?C = "tree_ops E (Suc d)" and ?f = "f\<lparr>fl_current := 0\<rparr>" and ?pOr = "fl_predicatesInOr f"
    have dC: "delivers_to (o_next ?C False) (frame_of ?C) (scan_node s) (map ?frame ?in)
        (\<lambda>s'. \<forall>k. sc_iter ?sc = Some k \<longrightarrow> iter_over ents rs (Some k) (snd s'))"
      by (rule delivers_to_sim [OF _ _ d]) (simp_all only: scan_node_calls, auto simp: scan_node_def)
    have dec: "decides ?L ?pOr (map ?frame ?in)"
      using answers(2) Some by (auto simp: decides_def list_all_iff si_decides_def)
    have pass: "filter (accepts ?L ?pOr) (map ?frame ?in) = map ?frame (filter (where_true ?L T p) rs)"
      unfolding hits [symmetric] filter_map by (simp add: si_passes_def Some comp_def)
    have df: "delivers_to (filter_next (pe_fuel E) ?L ?C False) (\<lambda>(f, s). frame_of ?C s) (?f, scan_node s)
      (map ?frame (filter (where_true ?L T p) rs))
      (\<lambda>(f', s'). \<forall>k. sc_iter ?sc = Some k \<longrightarrow> iter_over ents rs (Some k) (snd s'))"
    proof (rule delivers_to_mono)
      have "length (map ?frame ?in) < pe_fuel E" using le_less_trans [OF length_filter_le rows(2)] by simp
      from filter_delivers [OF dC _ this, of ?L ?f] show "delivers_to (filter_next (pe_fuel E) ?L ?C False) (\<lambda>(f, s). frame_of ?C s) (?f, scan_node s)
        (map ?frame (filter (where_true ?L T p) rs))
        (\<lambda>(f', s'). (\<forall>k. sc_iter ?sc = Some k \<longrightarrow> iter_over ents rs (Some k) (snd s')) \<and>
          f' = ?f\<lparr>fl_current := fl_current ?f + length (filter (accepts ?L (fl_predicatesInOr ?f)) (map ?frame ?in))\<rparr>)"
        using dec pass by simp
    qed auto
    have "delivers_to (o_next (tree_ops E (Suc (Suc d))) False) (o_getResult (tree_ops E (Suc (Suc d)))) (node_of PT_Filter (?f, scan_node s))
      (map fst (map ?frame (filter (where_true ?L T p) rs))) (\<lambda>s'. \<forall>k. sc_iter ?sc = Some k \<longrightarrow> iter_over ents rs (Some k) (snd s'))"
      by (rule delivers_to_sim [OF _ _ delivers_to_map [OF df, of fst]])
        (simp_all only: filter_node_calls filter_ops_calls, auto simp: node_of_def filter_ops_calls)
    moreover have "o_begin (tree_ops E (Suc (Suc d))) False (node_of PT_Filter (f, scan_node (?sc, w))) = Inr (node_of PT_Filter (?f, scan_node s))"
      unfolding filter_node_begin filter_ops_calls scan_node_begin b by simp
    moreover have "(si_plan i, w) = node_of PT_Filter (f, scan_node (?sc, w))"
      using Some by (simp add: si_plan_def node_of_scan)
    ultimately show ?thesis by (simp add: comp_def del: tree_calls)
  qed
qed

section \<open>What the builder makes of an alternative\<close>

lemma needFilter_comparisons:
  "conjunctive p \<Longrightarrow> needFilter solved p = Inr (\<exists>c \<in> set (comparisons p). n_expr c \<notin> set solved)"
proof (induction p)
  case (PNode a t op e v cs)
  have "anyNeedsFilter solved ds = Inr (\<exists>d \<in> set ds. \<exists>c \<in> set (comparisons d). n_expr c \<notin> set solved)"
    if "set ds \<subseteq> set cs" "op = OP_AND" for ds
    using that
  proof (induction ds)
    case (Cons d ds)
    then have "conjunctive d" using PNode.prems by (auto simp: list_all_iff)
    then show ?case using PNode.IH [of d] Cons by simp
  qed simp
  from this [OF order_refl] show ?case using PNode.prems by auto
qed simp

lemma leaf_true:
  assumes "c \<noteq> NullNode" "n_op c \<noteq> OP_AND" "n_op c \<noteq> OP_OR"
  shows "where_true L T c row \<longleftrightarrow> (case comparison_info L (scan_col L T) (scan_ty T) c of
    Inl err \<Rightarrow> False | Inr info \<Rightarrow> filter_evaluate L (table_frame T row) info = Inr True)"
  using assms by (cases c) (simp_all add: where_true_def)

text \<open>The comparisons of the filter, evaluated on what the scan shows.\<close>

definition sees_infos :: "table_info \<Rightarrow> bool list \<Rightarrow> predicate_info list \<Rightarrow> bool" where
  "sees_infos T shape infos \<longleftrightarrow> length shape = getColumnCount T - getKeyCount T \<and>
     (\<forall>i \<in> set infos. \<forall>k \<in> {pi_leftIndex i, pi_rightIndex i}. k < 0 \<or> column_seen (getKeyCount T) shape (nat k))"

lemma infos_truth:
  assumes "traverseR (comparison_info L (scan_col L T) (scan_ty T)) cs = Inr infos" "sees_infos T shape infos"
    and "\<forall>c \<in> set cs. c \<noteq> NullNode \<and> n_op c \<noteq> OP_AND \<and> n_op c \<noteq> OP_OR"
    and "\<forall>c \<in> set cs. \<forall>info. comparison_info L (scan_col L T) (scan_ty T) c = Inr info \<longrightarrow> (\<exists>b. filter_evaluate L (table_frame T row) info = Inr b)"
  shows "(\<forall>i \<in> set infos. \<exists>b. filter_evaluate L (shape_frame T shape row) i = Inr b) \<and>
    (list_all (\<lambda>i. filter_evaluate L (shape_frame T shape row) i = Inr True) infos \<longleftrightarrow> (\<forall>c \<in> set cs. where_true L T c row))"
  using assms
proof (induction cs arbitrary: infos)
  case (Cons c cs)
  then obtain i is' where i: "comparison_info L (scan_col L T) (scan_ty T) c = Inr i" "infos = i # is'"
    "traverseR (comparison_info L (scan_col L T) (scan_ty T)) cs = Inr is'" by auto
  have "filter_evaluate L (shape_frame T shape row) i = filter_evaluate L (table_frame T row) i"
  proof (rule filter_evaluate_cong)
    fix k assume k: "k = pi_leftIndex i \<or> k = pi_rightIndex i" "0 \<le> k"
    then have "column_seen (getKeyCount T) shape (nat k)" "length shape = getColumnCount T - getKeyCount T"
      using Cons.prems(2) by (auto simp: sees_infos_def i(2))
    then show "fst (shape_frame T shape row) (nat k) = fst (table_frame T row) (nat k)" by (rule shape_frame_seen)
  qed simp
  moreover have "where_true L T c row \<longleftrightarrow> filter_evaluate L (table_frame T row) i = Inr True"
    using leaf_true [of c L T row] Cons.prems(3) i(1) by simp
  moreover have "\<exists>b. filter_evaluate L (table_frame T row) i = Inr b" using Cons.prems(4) i(1) by simp
  moreover have "sees_infos T shape is'" using Cons.prems(2) by (simp add: sees_infos_def i(2))
  from Cons.IH [OF i(3) this] Cons.prems(3,4) have
    "(\<forall>i \<in> set is'. \<exists>b. filter_evaluate L (shape_frame T shape row) i = Inr b) \<and>
     (list_all (\<lambda>i. filter_evaluate L (shape_frame T shape row) i = Inr True) is' \<longleftrightarrow> (\<forall>c \<in> set cs. where_true L T c row))"
    by simp
  ultimately show ?case unfolding i(2) by simp
qed simp

lemma sees_infosI:
  assumes "infos_seen scan_sees (sc, w) infos" "projected_from sc0 sc" "sc_table sc0 = T"
  shows "sees_infos T (shape_of sc) infos"
  using assms projected_from_fields [OF assms(2)]
  by (auto simp: sees_infos_def infos_seen_def scan_sees_def shape_of_def)

text \<open>An \<open>AND\<close> of comparisons: those that the range does not answer are in the filter.\<close>

lemma new_scan:
  assumes "keyed_table L T"
  shows "projected_from (newLevelDBScanPlan tid T\<lparr>sc_range := ro\<rparr>) (newLevelDBScanPlan tid T\<lparr>sc_range := ro\<rparr>)"
    "sc_table (newLevelDBScanPlan tid T) = T"
proof -
  have wf: "table_wf T" and dist: "distinct (t_keys T)" using assms by (simp_all add: keyed_table_def)
  let ?cs = "filter (\<lambda>i. c_keyIndex (t_columns T ! i) \<ge> 0) [0..<length (t_columns T)]"
  have "set ?cs \<subseteq> set (t_keys T)"
  proof
    fix i assume i: "i \<in> set ?cs"
    then have "column_wf T i" using wf by (simp add: table_wf_def)
    then show "i \<in> set (t_keys T)" using i column_wf_positions by fastforce
  qed
  then have "card (set ?cs) \<le> card (set (t_keys T))" by (simp add: card_mono)
  then have "length ?cs \<le> getKeyCount T" using dist by (simp add: getKeyCount_def distinct_card del: set_filter)
  moreover have "t_columns T = map ((!) (t_columns T)) [0..<length (t_columns T)]" by (simp add: map_nth)
  then have "length (filter (\<lambda>c. c_keyIndex c \<ge> 0) (t_columns T)) = length ?cs"
    by (metis (no_types, lifting) comp_apply filter_cong filter_map length_map)
  ultimately have "scan_wf (newLevelDBScanPlan tid T)" by (intro newLevelDBScanPlan_wf) simp
  then show "projected_from (newLevelDBScanPlan tid T\<lparr>sc_range := ro\<rparr>) (newLevelDBScanPlan tid T\<lparr>sc_range := ro\<rparr>)"
    by (intro projected_from_refl) (simp add: scan_wf_def, simp add: newLevelDBScanPlan_def)
  show "sc_table (newLevelDBScanPlan tid T) = T" by (simp add: newLevelDBScanPlan_def)
qed

lemma new_scan_ranged:
  assumes "projected_from (newLevelDBScanPlan tid T\<lparr>sc_range := ro\<rparr>) sc"
    and "ro = Some r \<or> ro = None \<and> (\<exists>solved. newKeySearchRange L (fst (scan_types T)) T NullNode = Inr (r, solved))"
  shows "scan_ranged L T r sc" "sc_iter sc = None" "sc_tableId sc = tid"
  using assms(2) projected_from_fields [OF assms(1)] by (auto simp: scan_ranged_def newLevelDBScanPlan_def)

lemma table_row_keys: "table_rows L kt vt rs \<Longrightarrow> (e, ks, vs) \<in> set rs \<Longrightarrow> list_all2 column_ok kt ks"
  using scan_row_at(1) [of L kt vt rs] by (fastforce simp: in_set_conv_nth)

lemma match_conjunction:
  assumes "\<forall>infos \<in> set pOr. \<forall>i \<in> set infos. \<exists>b. filter_evaluate L fr i = Inr b"
  shows "match_or L fr pOr \<in> {Inr True, Inr False}"
    "accepts L pOr fr \<longleftrightarrow> list_ex (list_all (\<lambda>i. filter_evaluate L fr i = Inr True)) pOr"
  using match_or_evaluable [OF assms] by (simp_all add: accepts_def)

lemma conjunction_answers:
  assumes built: "newScanPlanInfo E tid T p w = Inr (i, w')" and T: "keyed_table (pe_lib E) T"
    and p: "conjunctive p" "told_by_text p" "evaluable (pe_lib E) T rs p"
    and exact: "\<And>r s. newKeySearchRange (pe_lib E) (fst (scan_types T)) T p = Inr (r, s) \<Longrightarrow> exact_range r"
    and rows: "table_rows (pe_lib E) (fst (scan_types T)) vt rs"
  shows "w' = w \<and> (\<exists>r us. describes (pe_lib E) (fst (scan_types T)) T p r us \<and> exact_range r \<and> sc_range (si_scan i) = Some r \<and>
    newKeySearchRange (pe_lib E) (fst (scan_types T)) T p = Inr (r, si_solved i) \<and>
    sc_iter (si_scan i) = None \<and> sc_tableId (si_scan i) = tid \<and> si_answers (pe_lib E) T rs p r i)"
proof -
  let ?L = "pe_lib E" and ?kt = "fst (scan_types T)" and ?sc = "newLevelDBScanPlan tid T"
  have shape: "p \<noteq> NullNode" "n_type p = NT_OP" "n_op p \<noteq> OP_OR" using p(1) by (cases p; simp)+
  have fields: "sc_keyTypes ?sc = ?kt" "sc_table ?sc = T" by (simp_all add: newLevelDBScanPlan_def)
  obtain r solved where r: "newKeySearchRange ?L ?kt T p = Inr (r, solved)"
    and built': "bindR (needFilter solved p) (\<lambda>need.
         if \<not> need then Inr (\<lparr>si_scan = ?sc\<lparr>sc_range := Some r\<rparr>, si_filter = None, si_solved = solved\<rparr>, w)
         else bindR (addPredicate ?L (scan_calls E) p (Some solved) (newFilterPlan, ?sc\<lparr>sc_range := Some r\<rparr>, w)) (\<lambda>(hasFilter, f, sc2, w').
           if hasFilter then Inr (\<lparr>si_scan = sc2, si_filter = Some f, si_solved = solved\<rparr>, w')
           else Inl (Stuck ''hasFilter''))) = Inr (i, w')"
    using built shape fields by (auto simp: newScanPlanInfo_def Let_def scan_setPredicate_def)
  obtain us where us: "describes ?L ?kt T p r us" "solved = exprs us" using newKeySearchRange_describes [OF r] by blast
  have ex: "exact_range r" by (rule exact [OF r])
  let ?sc1 = "?sc\<lparr>sc_range := Some r\<rparr>"
  have self: "projected_from ?sc1 ?sc1" by (rule new_scan(1) [OF T])
  have rng: "in_range ?kt r ks \<longleftrightarrow> (\<forall>c \<in> set (comparisons p). n_expr c \<in> set solved \<longrightarrow> where_true ?L T c (e, ks, vs))"
    if "(e, ks, vs) \<in> set rs" for e ks vs
    using range_comparisons [OF T us(1) ex p(1,2) table_row_keys [OF rows that], of e vs] us(2) by (simp add: where_true_def)
  have whole: "where_true ?L T p row \<longleftrightarrow> (\<forall>c \<in> set (comparisons p). where_true ?L T c row)" for row
    using conjunctive_true [OF p(1)] by (simp add: where_true_def list_all_iff)
  show ?thesis
  proof (cases "\<exists>c \<in> set (comparisons p). n_expr c \<notin> set solved")
    case False
    then have i: "i = \<lparr>si_scan = ?sc1, si_filter = None, si_solved = solved\<rparr>" "w' = w"
      using built' needFilter_comparisons [OF p(1), of solved] by simp_all
    have "si_answers ?L T rs p r i"
      using False rng whole new_scan_ranged(1) [OF self] by (auto simp: si_answers_def si_decides_def si_passes_def i(1))
    then show ?thesis using us(1) ex r i(2) new_scan_ranged [OF self] by (auto simp: i(1))
  next
    case True
    then obtain f sc2 where add: "addPredicate ?L (scan_calls E) p (Some solved) (newFilterPlan, ?sc1, w) = Inr (True, f, sc2, w')"
      and i: "i = \<lparr>si_scan = sc2, si_filter = Some f, si_solved = solved\<rparr>"
      using built' needFilter_comparisons [OF p(1), of solved] by (auto split: if_splits)
    from add obtain infos where infos: "doAddPredicate ?L (scan_calls E) (Some solved) p ([], ?sc1, w) = Inr (infos, sc2, w')"
      "f = newFilterPlan\<lparr>fl_predicatesInOr := [infos]\<rparr>"
      by (auto simp: addPredicate_def newFilterPlan_def)
    have ok: "case (?sc1, w) of (sc, w') \<Rightarrow> w' = w \<and> projected_from ?sc1 sc \<and> sc_table ?sc1 = T \<and> table_wf T"
      using self T fields(2) by (simp add: keyed_table_def)
    from scan_columns.doAddPredicate_comparisons [OF ok infos(1) [unfolded scan_calls_def]]
    have sc2: "w' = w" "projected_from ?sc1 sc2" "infos_seen scan_sees (sc2, w') infos"
      "traverseR (comparison_info ?L (scan_col ?L T) (scan_ty T)) (filter (\<lambda>c. n_expr c \<notin> set solved) (comparisons p)) = Inr infos"
      by (auto simp: ignored_def)
    have sees: "sees_infos T (shape_of sc2) infos" by (rule sees_infosI [OF sc2(3,2)]) (simp add: fields(2))
    have leaf: "\<forall>c \<in> set (filter (\<lambda>c. n_expr c \<notin> set solved) (comparisons p)). c \<noteq> NullNode \<and> n_op c \<noteq> OP_AND \<and> n_op c \<noteq> OP_OR"
      using conjunctive_comparison [OF p(1)] by auto
    have row: "(\<forall>i \<in> set infos. \<exists>b. filter_evaluate ?L (shape_frame T (shape_of sc2) row) i = Inr b) \<and>
        (list_all (\<lambda>i. filter_evaluate ?L (shape_frame T (shape_of sc2) row) i = Inr True) infos \<longleftrightarrow>
          (\<forall>c \<in> set (comparisons p). n_expr c \<notin> set solved \<longrightarrow> where_true ?L T c row))" if "row \<in> set rs" for row
    proof -
      have ev: "\<forall>c \<in> set (filter (\<lambda>c. n_expr c \<notin> set solved) (comparisons p)). \<forall>info.
          comparison_info ?L (scan_col ?L T) (scan_ty T) c = Inr info \<longrightarrow> (\<exists>b. filter_evaluate ?L (table_frame T row) info = Inr b)"
        unfolding set_filter using p(3) that unfolding evaluable_def by blast
      have eq: "(\<forall>c \<in> set (filter (\<lambda>c. n_expr c \<notin> set solved) (comparisons p)). where_true ?L T c row) \<longleftrightarrow>
          (\<forall>c \<in> set (comparisons p). n_expr c \<notin> set solved \<longrightarrow> where_true ?L T c row)" by auto
      show ?thesis using infos_truth [OF sc2(4) sees leaf ev] unfolding eq .
    qed
    have "si_answers ?L T rs p r i"
      unfolding si_answers_def
    proof (intro conjI ballI, goal_cases)
      case 1
      show ?case using new_scan_ranged(1) [OF sc2(2)] by (simp add: i)
    next
      case (2 x)
      obtain e ks vs where x1: "x = (e, ks, vs)" by (cases x)
      then have x: "x = (e, ks, vs)" "(e, ks, vs) \<in> set rs" using 2 by simp_all
      show ?case using row [OF x(2)] rng [OF x(2)] whole [of "(e, ks, vs)"]
          match_conjunction [of "[infos]" ?L "shape_frame T (shape_of sc2) (e, ks, vs)"]
        by (auto simp: x(1) i infos(2) si_decides_def si_passes_def)
    qed
    then show ?thesis using us(1) ex r sc2(1) new_scan_ranged(2,3) [OF sc2(2)] projected_from_fields(2) [OF sc2(2)] by (auto simp: i)
  qed
qed

text \<open>Without a predicate every row is in the range.\<close>

lemma no_predicate_range:
  assumes "newKeySearchRange L kt T NullNode = Inr (r, solved)"
  shows "\<exists>us. describes L kt T NullNode r us" "list_all2 column_ok kt ks \<Longrightarrow> in_range kt r ks"
proof -
  obtain us where us: "describes L kt T NullNode r us" using newKeySearchRange_describes [OF assms] by blast
  then show "\<exists>us. describes L kt T NullNode r us" ..
  have "us = []"
  proof (cases us)
    case (Cons u us')
    obtain j op v x where "u = (j, op, v, x)" by (cases u)
    then show ?thesis using us Cons by (auto simp: describes_def)
  qed simp
  moreover have "key_bounds 0 kt (kr_startResults r) (kr_endResults r) (kr_startInclusive r) (kr_endInclusive r) us"
    using us by (simp add: describes_def)
  ultimately show "in_range kt r ks" if "list_all2 column_ok kt ks"
    using key_bounds_iff [OF _ that] by (simp add: in_range_def)
qed

lemma whole_table_answers:
  assumes T: "keyed_table L T" and r: "newKeySearchRange L (fst (scan_types T)) T NullNode = Inr (r, solved)"
    and rows: "table_rows L (fst (scan_types T)) vt rs"
  shows "si_answers L T rs NullNode r \<lparr>si_scan = newLevelDBScanPlan tid T, si_filter = None, si_solved = []\<rparr>"
proof -
  let ?sc = "newLevelDBScanPlan tid T"
  have "projected_from (?sc\<lparr>sc_range := None\<rparr>) ?sc" using new_scan(1) [OF T, where tid = tid and ro = None] by (simp add: newLevelDBScanPlan_def)
  from new_scan_ranged(1) [OF this, where r = r and L = L] r have "scan_ranged L T r ?sc" by blast
  then show ?thesis
    using no_predicate_range(2) [OF r] table_row_keys [OF rows] by (auto simp: si_answers_def si_decides_def si_passes_def where_true_def)
qed

lemma disjunction_answers:
  assumes built: "newScanPlanInfo E tid T p w = Inr (i, w')" and T: "keyed_table (pe_lib E) T"
    and p: "n_op p = OP_OR" "\<forall>q \<in> set (n_children p). evaluable (pe_lib E) T rs q"
    and r: "newKeySearchRange (pe_lib E) (fst (scan_types T)) T NullNode = Inr (r, solved)"
    and rows: "table_rows (pe_lib E) (fst (scan_types T)) vt rs"
  shows "w' = w \<and> sc_iter (si_scan i) = None \<and> sc_tableId (si_scan i) = tid \<and> si_answers (pe_lib E) T rs p r i"
proof -
  let ?L = "pe_lib E" and ?kt = "fst (scan_types T)" and ?sc = "newLevelDBScanPlan tid T"
  obtain a t e v cs where node: "p = PNode a t OP_OR e v cs" using p(1) by (cases p) auto
  from built obtain f sc where fold: "foldR (\<lambda>st pChild. mapR snd (addPredicate ?L (scan_calls E) pChild None st)) (newFilterPlan, ?sc, w) cs = Inr (f, sc, w')"
    and i: "i = \<lparr>si_scan = sc, si_filter = Some f, si_solved = []\<rparr>"
    by (auto simp: newScanPlanInfo_def Let_def node split: if_splits)
  have self: "projected_from (?sc\<lparr>sc_range := None\<rparr>) ?sc" and none: "?sc\<lparr>sc_range := None\<rparr> = ?sc"
    using new_scan(1) [OF T, where tid = tid and ro = None] by (simp_all add: newLevelDBScanPlan_def)
  have table: "sc_table ?sc = T" by (simp add: newLevelDBScanPlan_def)
  have ok: "case (?sc, w) of (sc, w') \<Rightarrow> w' = w \<and> projected_from ?sc sc \<and> sc_table ?sc = T \<and> table_wf T"
    using self T table unfolding none by (simp add: keyed_table_def)
  from scan_columns.addPredicates_comparisons [OF ok fold [unfolded scan_calls_def]]
  obtain new where sc: "w' = w" "projected_from ?sc sc" "list_all conjunctive cs" "fl_predicatesInOr f = new"
    "list_all2 (\<lambda>infos c. infos_seen scan_sees (sc, w') infos \<and>
      traverseR (comparison_info ?L (scan_col ?L T) (scan_ty T)) (comparisons c) = Inr infos) new cs"
    by (auto simp: newFilterPlan_def)
  let ?fr = "shape_frame T (shape_of sc)" and ?ev = "\<lambda>row i. filter_evaluate ?L (shape_frame T (shape_of sc) row) i"
  have alternative: "(\<forall>i \<in> set infos. \<exists>b. ?ev row i = Inr b) \<and> (list_all (\<lambda>i. ?ev row i = Inr True) infos \<longleftrightarrow> where_true ?L T c row)"
    if "row \<in> set rs" "c \<in> set cs" "infos_seen scan_sees (sc, w') infos"
      "traverseR (comparison_info ?L (scan_col ?L T) (scan_ty T)) (comparisons c) = Inr infos" for row c infos
  proof -
    have c: "conjunctive c" using sc(3) that(2) by (simp add: list_all_iff)
    have ev: "\<forall>d \<in> set (comparisons c). \<forall>info. comparison_info ?L (scan_col ?L T) (scan_ty T) d = Inr info \<longrightarrow>
        (\<exists>b. filter_evaluate ?L (table_frame T row) info = Inr b)"
      using p(2) that(1,2) unfolding evaluable_def node by simp
    have leaf: "\<forall>d \<in> set (comparisons c). d \<noteq> NullNode \<and> n_op d \<noteq> OP_AND \<and> n_op d \<noteq> OP_OR" using conjunctive_comparison [OF c] by auto
    have "where_true ?L T c row \<longleftrightarrow> (\<forall>d \<in> set (comparisons c). where_true ?L T d row)"
      using conjunctive_true [OF c] by (simp add: where_true_def list_all_iff)
    then show ?thesis using infos_truth [OF that(4) sees_infosI [OF that(3) sc(2) table] leaf ev] by simp
  qed
  have rows': "(\<forall>infos \<in> set new. \<forall>i \<in> set infos. \<exists>b. ?ev row i = Inr b) \<and>
      (list_ex (list_all (\<lambda>i. ?ev row i = Inr True)) new \<longleftrightarrow> where_true ?L T p row)" if row: "row \<in> set rs" for row
  proof -
    from sc(5) have "set ds \<subseteq> set cs \<Longrightarrow> list_all2 (\<lambda>infos c. infos_seen scan_sees (sc, w') infos \<and>
      traverseR (comparison_info ?L (scan_col ?L T) (scan_ty T)) (comparisons c) = Inr infos) ns ds \<Longrightarrow>
      (\<forall>infos \<in> set ns. \<forall>i \<in> set infos. \<exists>b. ?ev row i = Inr b) \<and>
      (list_ex (list_all (\<lambda>i. ?ev row i = Inr True)) ns \<longleftrightarrow> list_ex (\<lambda>c. where_true ?L T c row) ds)" for ns ds
    proof (induction ns arbitrary: ds)
      case (Cons infos ns)
      then obtain c ds' where ds: "ds = c # ds'" by (cases ds) auto
      then show ?case using alternative [OF row, of c infos] Cons.IH [of ds'] Cons.prems by simp
    qed simp
    from this [OF order_refl sc(5)] show ?thesis by (simp add: where_true_def node)
  qed
  have "si_answers ?L T rs p r i"
    unfolding si_answers_def
  proof (intro conjI ballI, goal_cases)
    case 1
    show ?case using new_scan_ranged(1) [where tid = tid and T = T and ro = None and sc = sc and r = r and L = ?L] sc(2) r unfolding none by (auto simp: i)
  next
    case (2 x)
    obtain e ks vs where x1: "x = (e, ks, vs)" by (cases x)
    then have x: "x = (e, ks, vs)" "(e, ks, vs) \<in> set rs" using 2 by simp_all
    show ?case using rows' [OF x(2)] match_conjunction [of new ?L "?fr (e, ks, vs)"]
        no_predicate_range(2) [OF r table_row_keys [OF rows x(2)]]
      by (auto simp: x(1) i sc(4) si_decides_def si_passes_def)
  qed
  then show ?thesis using sc(1) new_scan_ranged(2,3) [where tid = tid and T = T and ro = None and sc = sc and r = r and L = ?L] sc(2) r unfolding none by (auto simp: i)
qed

section \<open>Ranges one after the other\<close>

text \<open>
  \<open>startAfterEnd\<close> on bounds that can be compared; a proper range has its start before its end.
\<close>

definition range_before :: "DBDataType list \<Rightarrow> key_range \<Rightarrow> key_range \<Rightarrow> bool" where
  "range_before types r q \<longleftrightarrow> (let n = lex_compare type_cmp types (kr_endResults r) (kr_startResults q) in
     n < 0 \<or> n = 0 \<and> (\<not> kr_endInclusive r \<or> \<not> kr_startInclusive q))"

definition proper_range :: "DBDataType list \<Rightarrow> key_range \<Rightarrow> bool" where
  "proper_range types r \<longleftrightarrow> (let n = lex_compare type_cmp types (kr_startResults r) (kr_endResults r) in
     n < 0 \<or> n = 0 \<and> kr_startInclusive r \<and> kr_endInclusive r)"

lemma startAfterEnd_before:
  assumes "startAfterEnd L q r = Inr True" "comparable_range r" "comparable_range q" "kr_keyTypes q = types" "kr_keyTypes r = types"
  shows "range_before types r q"
proof -
  have c: "list_all2 type_comparable types (kr_startResults q)" "list_all2 type_comparable types (kr_endResults r)"
    using assms(2-5) by (simp_all add: comparable_range_def)
  show ?thesis using assms(1,4) compare_values_lex [OF c, of L] row_order.cmp_antisym [OF c]
    by (auto simp: startAfterEnd_def range_before_def Let_def split: if_splits)
qed

lemma range_before_keys:
  assumes "range_before types r q" "comparable_range r" "comparable_range q" "kr_keyTypes q = types" "kr_keyTypes r = types"
    and "list_all2 column_ok types a" "list_all2 column_ok types b" "in_range types r a" "in_range types q b"
  shows "lex_compare type_cmp types a b < 0"
proof -
  let ?c = "lex_compare type_cmp types" and ?e = "kr_endResults r" and ?s = "kr_startResults q"
  have ok: "list_all2 type_comparable types ?e" "list_all2 type_comparable types ?s"
    "list_all2 type_comparable types a" "list_all2 type_comparable types b"
    using assms(2-5) column_ok_comparable assms(6,7) by (simp_all add: comparable_range_def)
  have ae: "?c a ?e < 0 \<or> ?c a ?e = 0 \<and> kr_endInclusive r" using assms(8) by (auto simp: in_range_def below_def)
  have sb: "?c ?s b < 0 \<or> ?c ?s b = 0 \<and> kr_startInclusive q"
    using assms(9) row_order.cmp_antisym [OF ok(4,2)] by (auto simp: in_range_def above_def)
  have es: "?c ?e ?s < 0 \<or> ?c ?e ?s = 0 \<and> (\<not> kr_endInclusive r \<or> \<not> kr_startInclusive q)"
    using assms(1) by (simp add: range_before_def Let_def)
  note less1 = row_order.cmp_less_trans and less2 = row_order.cmp_le_less_trans
  show ?thesis
  proof (cases "?c a ?e < 0")
    case True
    have "?c ?e b \<le> 0" using row_order.cmp_trans [OF ok(1,2,4)] es sb by linarith
    then show ?thesis using less1 [OF ok(3,1,4) True] by blast
  next
    case False
    then have eq: "?c a ?e \<le> 0" "kr_endInclusive r" using ae by auto
    have "?c ?e b < 0"
    proof (cases "?c ?e ?s < 0")
      case True
      then show ?thesis using less1 [OF ok(1,2,4)] sb by linarith
    next
      case False
      then have "?c ?e ?s \<le> 0" "?c ?s b < 0" using es sb eq(2) by auto
      then show ?thesis using less2 [OF ok(1,2,4)] by blast
    qed
    then show ?thesis using less2 [OF ok(3,1,4) eq(1)] by blast
  qed
qed

lemma range_before_trans:
  assumes "range_before types r q" "proper_range types q" "range_before types q z"
    and "comparable_range r" "comparable_range q" "comparable_range z" "kr_keyTypes r = types" "kr_keyTypes q = types" "kr_keyTypes z = types"
  shows "range_before types r z"
proof -
  let ?c = "lex_compare type_cmp types"
  have ok: "list_all2 type_comparable types (kr_endResults r)" "list_all2 type_comparable types (kr_startResults q)"
    "list_all2 type_comparable types (kr_endResults q)" "list_all2 type_comparable types (kr_startResults z)"
    using assms(4-9) by (simp_all add: comparable_range_def)
  note bnds = assms(1-3) [unfolded range_before_def proper_range_def Let_def]
  note le = row_order.cmp_trans and less1 = row_order.cmp_less_trans and less2 = row_order.cmp_le_less_trans
  have rq: "?c (kr_endResults r) (kr_startResults q) \<le> 0" and qq: "?c (kr_startResults q) (kr_endResults q) \<le> 0"
    and qz: "?c (kr_endResults q) (kr_startResults z) \<le> 0" using bnds by auto
  have sqz: "?c (kr_startResults q) (kr_startResults z) \<le> 0" by (rule le [OF ok(2,3,4) qq qz])
  consider (a) "?c (kr_endResults r) (kr_startResults q) < 0" | (b) "?c (kr_startResults q) (kr_endResults q) < 0"
    | (c) "?c (kr_endResults q) (kr_startResults z) < 0" | (d) "\<not> kr_endInclusive r"
    using bnds by blast
  then have "?c (kr_endResults r) (kr_startResults z) < 0 \<or> \<not> kr_endInclusive r"
  proof cases
    case a
    then show ?thesis using less1 [OF ok(1,2,4) a sqz] by blast
  next
    case b
    then have "?c (kr_startResults q) (kr_startResults z) < 0" using less1 [OF ok(2,3,4) b qz] by blast
    then show ?thesis using less2 [OF ok(1,2,4) rq] by blast
  next
    case c
    then have "?c (kr_startResults q) (kr_startResults z) < 0" using less2 [OF ok(2,3,4) qq] by blast
    then show ?thesis using less2 [OF ok(1,2,4) rq] by blast
  qed simp
  moreover have "?c (kr_endResults r) (kr_startResults z) \<le> 0" by (rule le [OF ok(1,2,4) rq sqz])
  ultimately show ?thesis by (auto simp: range_before_def Let_def)
qed

text \<open>Parts of a sorted list, one after the other, are the part where one of the conditions holds.\<close>

lemma filter_parts:
  assumes "sorted_wrt lt rs" "\<And>x y. x \<in> set rs \<Longrightarrow> y \<in> set rs \<Longrightarrow> P x \<Longrightarrow> Q y \<Longrightarrow> lt x y \<and> \<not> lt y x"
  shows "filter P rs @ filter Q rs = filter (\<lambda>x. P x \<or> Q x) rs"
  using assms
proof (induction rs)
  case (Cons x rs)
  have IH: "filter P rs @ filter Q rs = filter (\<lambda>x. P x \<or> Q x) rs" using Cons.IH Cons.prems by simp
  show ?case
  proof (cases "Q x")
    case True
    have "\<not> P y" if "y \<in> set (x # rs)" for y
      using Cons.prems(2) [OF that, of x] Cons.prems(1) that True by (cases "y = x") auto
    then have "filter P (x # rs) = []" "filter (\<lambda>x. P x \<or> Q x) (x # rs) = filter Q (x # rs)"
      by (auto simp: filter_empty_conv intro!: filter_cong)
    then show ?thesis by simp
  next
    case False
    then show ?thesis using IH by simp
  qed
qed simp

lemma filter_parts_concat:
  assumes "sorted_wrt lt rs"
    and "sorted_wrt (\<lambda>P Q. \<forall>x \<in> set rs. \<forall>y \<in> set rs. P x \<longrightarrow> Q y \<longrightarrow> lt x y \<and> \<not> lt y x) Ps"
  shows "concat (map (\<lambda>P. filter P rs) Ps) = filter (\<lambda>x. \<exists>P \<in> set Ps. P x) rs"
  using assms(2)
proof (induction Ps)
  case (Cons P Ps)
  have "filter P rs @ filter (\<lambda>x. \<exists>P \<in> set Ps. P x) rs = filter (\<lambda>x. P x \<or> (\<exists>P \<in> set Ps. P x)) rs"
    by (rule filter_parts [OF assms(1)]) (use Cons.prems in auto)
  then show ?case using Cons by simp
qed simp

section \<open>The plan of a predicate\<close>

definition alternatives :: "pnode \<Rightarrow> pnode list" where
  "alternatives p = (if p = NullNode then [] else if n_op p = OP_OR then n_children p else [p])"

text \<open>
  The table as a database has it.  \<open>std::sort\<close> permutes; it may fail in the model, if the order
  it is given does.
\<close>

definition stored_table ::
  "('db, 'it) plan_env \<Rightarrow> ('db \<Rightarrow> (byte list \<times> byte list) list) \<Rightarrow> nat \<Rightarrow> table_info \<Rightarrow> ('db, 'it) world \<Rightarrow> table_row list \<Rightarrow> bool" where
  "stored_table E contents tid T w rs \<longleftrightarrow> (\<exists>db hs ents pos.
     getLevelDBHandler (pe_db E) tid T (w_handlers w) = Inr (db, hs) \<and>
     db_laws (pe_db E) (key_cmp (pe_lib E) (fst (scan_types T))) contents ents pos \<and> contents db = map fst rs \<and>
     table_rows (pe_lib E) (fst (scan_types T)) (snd (scan_types T)) rs \<and> length rs < pe_fuel E \<and> 2 < pe_fuel E)"

definition permutes :: "scan_sorter \<Rightarrow> bool" where
  "permutes sorter \<longleftrightarrow> (\<forall>less xs ys. sorter less xs = Inr ys \<longrightarrow> mset ys = mset xs)"

text \<open>The bounds of the ranges are stored without change, and no range ends before it starts.\<close>

definition bounds_ok :: "lib \<Rightarrow> table_info \<Rightarrow> pnode \<Rightarrow> bool" where
  "bounds_ok L T p \<longleftrightarrow>
     (\<exists>r solved. newKeySearchRange L (fst (scan_types T)) T NullNode = Inr (r, solved) \<and> exact_range r) \<and>
     (\<forall>q \<in> set (alternatives p). \<forall>r solved. newKeySearchRange L (fst (scan_types T)) T q = Inr (r, solved) \<longrightarrow>
        exact_range r \<and> proper_range (fst (scan_types T)) r)"

text \<open>A row as a plan shows it: keys and row key, and of the value columns those that were asked for.\<close>

definition shows_row :: "table_info \<Rightarrow> row \<Rightarrow> table_row \<Rightarrow> bool" where
  "shows_row T r row \<longleftrightarrow> (\<forall>i t. r i t = fst (table_frame T row) i t \<or>
     getKeyCount T \<le> i \<and> i < getColumnCount T \<and> r i t = Inl (Stuck ''*m_columnValues[columnIndex]''))"

lemma shape_shows_row:
  assumes "keyed_table L T" "length shape = getColumnCount T - getKeyCount T"
  shows "shows_row T (fst (shape_frame T shape row)) row"
  unfolding shows_row_def
proof (intro allI)
  fix i t
  obtain e ks vs where row: "row = (e, ks, vs)" by (cases row)
  show "fst (shape_frame T shape row) i t = fst (table_frame T row) i t \<or>
     getKeyCount T \<le> i \<and> i < getColumnCount T \<and> fst (shape_frame T shape row) i t = Inl (Stuck ''*m_columnValues[columnIndex]'')"
  proof (cases "column_seen (getKeyCount T) shape i")
    case True
    then show ?thesis using shape_frame_seen [OF True assms(2)] by simp
  next
    case False
    then have "getKeyCount T \<le> i" "i - getKeyCount T < length shape" "\<not> shape ! (i - getKeyCount T)"
      by (auto simp: column_seen_def)
    moreover from this have "i < getColumnCount T" using assms(2) by linarith
    ultimately show ?thesis by (simp add: shape_frame_def view_row_def row_view_def row project_values_def)
  qed
qed

subsection \<open>A union of scans on one iterator\<close>

definition alternative_ok :: "('db, 'it) plan_env \<Rightarrow> table_info \<Rightarrow> table_row list \<Rightarrow> pnode \<Rightarrow> scan_info \<Rightarrow> bool" where
  "alternative_ok E T rs q i \<longleftrightarrow> (\<exists>r us. describes (pe_lib E) (fst (scan_types T)) T q r us \<and> exact_range r \<and>
     proper_range (fst (scan_types T)) r \<and> sc_range (si_scan i) = Some r \<and> si_answers (pe_lib E) T rs q r i)"

lemma alternative_ok_share: "alternative_ok E T rs q i \<Longrightarrow> alternative_ok E T rs q (share_iterator k i)"
proof -
  assume "alternative_ok E T rs q i"
  then obtain r us where r: "describes (pe_lib E) (fst (scan_types T)) T q r us" "exact_range r"
    "proper_range (fst (scan_types T)) r" "sc_range (si_scan i) = Some r" "si_answers (pe_lib E) T rs q r i"
    by (auto simp: alternative_ok_def)
  have eqs: "sc_range (si_scan (share_iterator k i)) = Some r" "scan_ranged (pe_lib E) T r (si_scan (share_iterator k i))"
    "shape_of (si_scan (share_iterator k i)) = shape_of (si_scan i)" "si_filter (share_iterator k i) = si_filter i"
    using r(4,5) by (auto simp: share_iterator_def setLevelDBIterator_def si_answers_def scan_ranged_def scan_wf_def shape_of_def)
  have "si_decides (pe_lib E) T (share_iterator k i) = si_decides (pe_lib E) T i"
    "si_passes (pe_lib E) T (share_iterator k i) = si_passes (pe_lib E) T i"
    unfolding si_decides_def [abs_def] si_passes_def [abs_def] eqs(3,4) by (rule refl)+
  then have "si_answers (pe_lib E) T rs q r (share_iterator k i)" using r(5) eqs(2) by (simp add: si_answers_def)
  then show ?thesis using r(1-3) eqs(1) by (auto simp: alternative_ok_def)
qed

lemma union_plans:
  "un_plans (foldl (\<lambda>u s. addChildPlan (f s) u) u is) = un_plans u @ map f is"
  "un_order (foldl (\<lambda>u s. addChildPlan (f s) u) u is) = un_order u"
  by (induction "is" arbitrary: u) (simp_all add: addChildPlan_def)

lemma shared_scans_deliver:
  assumes "list_all2 (\<lambda>q i. alternative_ok E T rs q i \<and> sc_iter (si_scan i) = Some k) qs is"
    and laws: "iter_laws (ldb_iter (pe_db E)) (key_cmp (pe_lib E) (fst (scan_types T))) ents pos"
    and rows: "table_rows (pe_lib E) (fst (scan_types T)) (snd (scan_types T)) rs" "length rs < pe_fuel E" "2 < pe_fuel E"
    and "iter_over ents rs (Some k) w"
  shows "child_rows (tree_ops E (Suc (Suc d))) False (map si_plan is) w
    (map (\<lambda>(q, i). map (\<lambda>row. fst (shape_frame T (shape_of (si_scan i)) row)) (filter (where_true (pe_lib E) T q) rs)) (zip qs is))"
  using assms(1,6)
proof (induction "is" arbitrary: qs w rule: list.induct)
  case Nil
  then show ?case by simp
next
  case (Cons i "is")
  then obtain q qs' where qs: "qs = q # qs'" "alternative_ok E T rs q i" "sc_iter (si_scan i) = Some k"
    "list_all2 (\<lambda>q i. alternative_ok E T rs q i \<and> sc_iter (si_scan i) = Some k) qs' is" by (auto simp: list_all2_Cons2)
  from qs(2) obtain r us where r: "describes (pe_lib E) (fst (scan_types T)) T q r us" "exact_range r" "si_answers (pe_lib E) T rs q r i"
    by (auto simp: alternative_ok_def)
  have "scan_access (pe_db E) ents rs (si_scan i) w" using Cons.prems(2) qs(3) by (simp add: scan_access_def iter_over_def)
  from si_delivers [OF r(3) this r(1,2) laws rows, of d] obtain s where
    s: "o_begin (tree_ops E (Suc (Suc d))) False (si_plan i, w) = Inr s"
      "delivers_to (o_next (tree_ops E (Suc (Suc d))) False) (o_getResult (tree_ops E (Suc (Suc d)))) s
        (map (\<lambda>row. fst (shape_frame T (shape_of (si_scan i)) row)) (filter (where_true (pe_lib E) T q) rs))
        (\<lambda>s'. iter_over ents rs (Some k) (snd s'))" using qs(3) by auto
  from delivers_to_final [OF s(2)] obtain s' where s': "iter_over ents rs (Some k) (snd s')"
    "delivers_to (o_next (tree_ops E (Suc (Suc d))) False) (o_getResult (tree_ops E (Suc (Suc d)))) s
        (map (\<lambda>row. fst (shape_frame T (shape_of (si_scan i)) row)) (filter (where_true (pe_lib E) T q) rs))
        (\<lambda>x. x = s')" by blast
  have "delivers_to (o_next (tree_ops E (Suc (Suc d))) False) (o_getResult (tree_ops E (Suc (Suc d)))) s
        (map (\<lambda>row. fst (shape_frame T (shape_of (si_scan i)) row)) (filter (where_true (pe_lib E) T q) rs))
        (\<lambda>x. snd x = snd s')" by (rule delivers_to_mono [OF s'(2)]) simp
  then show ?case using s(1) Cons.IH [OF qs(4) s'(1)] unfolding qs(1)
    by (simp del: tree_calls) blast
qed

definition conjunction_ok :: "('db, 'it) plan_env \<Rightarrow> table_info \<Rightarrow> table_row list \<Rightarrow> pnode \<Rightarrow> bool" where
  "conjunction_ok E T rs q \<longleftrightarrow> conjunctive q \<and> told_by_text q \<and> evaluable (pe_lib E) T rs q"

lemma alternative_scans_ok:
  assumes "alternative_scans E tid T cs w = Inr (res, w')" and T: "keyed_table (pe_lib E) T"
    and rows: "table_rows (pe_lib E) (fst (scan_types T)) vt rs"
    and "\<forall>q \<in> set cs. conjunction_ok E T rs q \<and> (\<forall>r solved. newKeySearchRange (pe_lib E) (fst (scan_types T)) T q = Inr (r, solved) \<longrightarrow>
        exact_range r \<and> proper_range (fst (scan_types T)) r)"
  shows "w' = w \<and> (\<forall>is. res = Some is \<longrightarrow>
    list_all2 (\<lambda>q i. alternative_ok E T rs q i \<and> sc_iter (si_scan i) = None \<and> sc_tableId (si_scan i) = tid) cs is)"
  using assms(1,4)
proof (induction cs arbitrary: w res)
  case (Cons q cs)
  from Cons.prems(1) obtain i w1 where i: "newScanPlanInfo E tid T q w = Inr (i, w1)"
    and rest: "(if isFullScan i then Inr (None, w1)
        else mapR (\<lambda>(is, w2). (map_option ((#) i) is, w2)) (alternative_scans E tid T cs w1)) = Inr (res, w')"
    by (auto split: if_splits)
  have "w1 = w \<and> (\<exists>r us. describes (pe_lib E) (fst (scan_types T)) T q r us \<and> exact_range r \<and> sc_range (si_scan i) = Some r \<and>
    newKeySearchRange (pe_lib E) (fst (scan_types T)) T q = Inr (r, si_solved i) \<and>
    sc_iter (si_scan i) = None \<and> sc_tableId (si_scan i) = tid \<and> si_answers (pe_lib E) T rs q r i)"
    by (rule conjunction_answers [OF i T _ _ _ _ rows]) (use Cons.prems(2) in \<open>auto simp: conjunction_ok_def\<close>)
  then have ok: "w1 = w" "alternative_ok E T rs q i" "sc_iter (si_scan i) = None" "sc_tableId (si_scan i) = tid"
    using Cons.prems(2) unfolding alternative_ok_def by auto
  show ?case
  proof (cases "isFullScan i")
    case True
    then show ?thesis using rest ok(1) by simp
  next
    case False
    then obtain is' where is': "alternative_scans E tid T cs w = Inr (is', w')" "res = map_option ((#) i) is'"
      using rest ok(1) by auto
    from Cons.IH [OF is'(1)] Cons.prems(2) have "w' = w" "\<forall>is. is' = Some is \<longrightarrow>
      list_all2 (\<lambda>q i. alternative_ok E T rs q i \<and> sc_iter (si_scan i) = None \<and> sc_tableId (si_scan i) = tid) cs is" by simp_all
    then show ?thesis using is'(2) ok by auto
  qed
qed simp

abbreviation range_of :: "scan_info \<Rightarrow> key_range" where
  "range_of i \<equiv> the (sc_range (si_scan i))"

lemma no_overlap_before:
  assumes "no_overlap L is = Inr True"
    and "\<forall>i \<in> set is. sc_range (si_scan i) \<noteq> None \<and> comparable_range (range_of i) \<and> kr_keyTypes (range_of i) = types \<and> proper_range types (range_of i)"
  shows "sorted_wrt (\<lambda>i j. range_before types (range_of i) (range_of j)) is"
  using assms
proof (induction L "is" rule: no_overlap.induct)
  case (1 L i j "is")
  then have after: "startAfterEnd L (range_of j) (range_of i) = Inr True" and rest: "no_overlap L (j # is) = Inr True"
    by (auto simp: scan_startAfterEnd_def split: if_splits)
  have ij: "range_before types (range_of i) (range_of j)"
    by (rule startAfterEnd_before [OF after]) (use 1 in simp_all)
  have sorted: "sorted_wrt (\<lambda>i j. range_before types (range_of i) (range_of j)) (j # is)"
    using 1(1) [OF _ _ rest] after 1(3) by (auto simp: scan_startAfterEnd_def)
  have "range_before types (range_of i) (range_of k)" if "k \<in> set is" for k
    by (rule range_before_trans [OF ij]) (use 1(3) sorted that in simp_all)
  then show ?case using ij sorted by simp
qed simp_all

text \<open>The rows that a scan with its filter lets through.\<close>

definition si_rows :: "lib \<Rightarrow> table_info \<Rightarrow> scan_info \<Rightarrow> table_row \<Rightarrow> bool" where
  "si_rows L T i = (\<lambda>(e, ks, vs). in_range (fst (scan_types T)) (range_of i) ks \<and> si_passes L T i (e, ks, vs))"

lemma alternative_rows:
  "alternative_ok E T rs q i \<Longrightarrow> row \<in> set rs \<Longrightarrow> si_rows (pe_lib E) T i row \<longleftrightarrow> where_true (pe_lib E) T q row"
  by (auto simp: alternative_ok_def si_answers_def si_rows_def)

lemma apart_rows:
  assumes rows: "table_rows L (fst (scan_types T)) vt rs"
    and sorted: "sorted_wrt (\<lambda>i j. range_before (fst (scan_types T)) (range_of i) (range_of j)) is"
    and ok: "\<forall>i \<in> set is. comparable_range (range_of i) \<and> kr_keyTypes (range_of i) = fst (scan_types T)"
  shows "concat (map (\<lambda>i. filter (si_rows L T i) rs) is) = filter (\<lambda>row. \<exists>i \<in> set is. si_rows L T i row) rs"
proof -
  let ?kt = "fst (scan_types T)" and ?less = "\<lambda>x y :: table_row. lex_compare type_cmp (fst (scan_types T)) (fst (snd x)) (fst (snd y)) < 0"
  have keys: "list_all2 column_ok ?kt (fst (snd row))" if "row \<in> set rs" for row
    using table_row_keys [OF rows, of "fst row" "fst (snd row)" "snd (snd row)"] that by simp
  have order: "sorted_wrt ?less rs"
    using rows by (simp add: table_rows_def table_entries_def keys_of_def sorted_wrt_map)
  have apart: "?less x y \<and> \<not> ?less y x"
    if "range_before ?kt (range_of i) (range_of j)" "i \<in> set is" "j \<in> set is" "x \<in> set rs" "y \<in> set rs" "si_rows L T i x" "si_rows L T j y" for i j x y
  proof -
    have "?less x y"
      by (rule range_before_keys [OF that(1)]) (use ok that keys in \<open>auto simp: si_rows_def case_prod_unfold\<close>)
    moreover have "lex_compare type_cmp ?kt (fst (snd y)) (fst (snd x)) = - lex_compare type_cmp ?kt (fst (snd x)) (fst (snd y))"
      by (rule row_order.cmp_antisym) (use column_ok_comparable keys that(4,5) in blast)+
    ultimately show ?thesis by simp
  qed
  have "sorted_wrt (\<lambda>P Q. \<forall>x \<in> set rs. \<forall>y \<in> set rs. P x \<longrightarrow> Q y \<longrightarrow> ?less x y \<and> \<not> ?less y x) (map (si_rows L T) is)"
    unfolding sorted_wrt_map by (rule sorted_wrt_mono_rel [OF _ sorted]) (use apart in blast)
  from filter_parts_concat [OF order this] show ?thesis by (simp add: comp_def)
qed

subsection \<open>The rows of a plan\<close>

text \<open>A scan of the table, a filter over one, a union of both; and a world that opens the table's database.\<close>

definition scan_over :: "nat \<Rightarrow> table_info \<Rightarrow> scan_plan \<Rightarrow> bool" where
  "scan_over tid T sc \<longleftrightarrow> sc_tableId sc = tid \<and> sc_table sc = T \<and> length (sc_columnValues sc) = getColumnCount T - getKeyCount T"

definition bare_scan :: "nat \<Rightarrow> table_info \<Rightarrow> plan \<Rightarrow> bool" where
  "bare_scan tid T p \<longleftrightarrow> (\<exists>sc. p = PT_Scan sc \<and> scan_over tid T sc)"

definition filtered_scan :: "nat \<Rightarrow> table_info \<Rightarrow> plan \<Rightarrow> bool" where
  "filtered_scan tid T p \<longleftrightarrow> bare_scan tid T p \<or> (\<exists>f q. p = PT_Filter f q \<and> bare_scan tid T q)"

definition clause_plan :: "nat \<Rightarrow> table_info \<Rightarrow> plan \<Rightarrow> bool" where
  "clause_plan tid T p \<longleftrightarrow> filtered_scan tid T p \<or> (\<exists>u ps. p = PT_Union u ps \<and> un_plans u = [] \<and> ps \<noteq> [] \<and> (\<forall>q \<in> set ps. filtered_scan tid T q))"

definition opens :: "('db, 'it) plan_env \<Rightarrow> nat \<Rightarrow> table_info \<Rightarrow> 'db \<Rightarrow> ('db, 'it) world \<Rightarrow> bool" where
  "opens E tid T db w \<longleftrightarrow> (\<exists>hs. getLevelDBHandler (pe_db E) tid T (w_handlers w) = Inr (db, hs))"

text \<open>The plan is one of these; it starts, and delivers the given rows of the table.\<close>

definition plan_shows ::
  "('db, 'it) plan_env \<Rightarrow> nat \<Rightarrow> ('db \<Rightarrow> (byte list \<times> byte list) list) \<Rightarrow> nat \<Rightarrow> table_info \<Rightarrow> table_row list \<Rightarrow>
   ('db, 'it) built_plan \<Rightarrow> table_row list \<Rightarrow> bool" where
  "plan_shows E n contents tid T rs pw hits \<longleftrightarrow> clause_plan tid T (fst pw) \<and>
     (\<exists>db. opens E tid T db (snd pw) \<and> contents db = map fst rs) \<and>
     (\<exists>s rows. o_begin (tree_ops E n) False pw = Inr s \<and>
        delivers (o_next (tree_ops E n) False) (o_getResult (tree_ops E n)) s rows \<and> list_all2 (shows_row T) rows hits)"

lemma filtered_scan_si:
  "scan_ranged L T r (si_scan i) \<Longrightarrow> sc_tableId (si_scan i) = tid \<Longrightarrow> filtered_scan tid T (si_plan i)"
  by (auto simp: filtered_scan_def bare_scan_def scan_over_def scan_ranged_def si_plan_def split: option.splits)

lemma union_node_delivers:
  assumes "un_plans u \<noteq> []" "un_order u \<noteq> Descend" "child_rows (tree_ops E d) False (un_plans u) w rss"
  shows "\<exists>s. o_begin (tree_ops E (Suc d)) False (union_node (u, w)) = Inr s \<and>
    delivers (o_next (tree_ops E (Suc d)) False) (o_getResult (tree_ops E (Suc d))) s (concat rss)"
proof -
  let ?C = "tree_ops E d"
  obtain p ps where ps: "un_plans u = p # ps" using assms(1) by (meson list.exhaust)
  obtain rs rss' q w2 w1 where b: "rss = rs # rss'" "o_begin ?C False (p, w) = Inr (q, w2)"
    "delivers_to (o_next ?C False) (o_getResult ?C) (q, w2) rs (\<lambda>s'. snd s' = w1)" "child_rows ?C False ps w1 rss'"
    using assms(3) unfolding ps by (cases rss) auto
  let ?u = "u\<lparr>un_plans := q # ps, un_currentRow := 0, un_currentIndex := 0\<rparr>"
  have "o_begin (union_ops ?C) False (u, w) = Inr (?u, w2)"
    using b(2) ps assms(2) by (simp add: union_ops_def union_begin_def at_child_def unit_result_def Let_def)
  then have started: "o_begin (tree_ops E (Suc d)) False (union_node (u, w)) = Inr (union_node (?u, w2))"
    unfolding union_node_begin by simp
  have "delivers_to (union_next ?C False) (union_getResult ?C) (?u, w2) (rs @ concat rss')
      (\<lambda>(u', w'). un_currentRow u' = un_currentRow ?u + length (rs @ concat rss'))"
    by (rule union_delivers) (use b in simp_all)
  then have "delivers (o_next (tree_ops E (Suc d)) False) (o_getResult (tree_ops E (Suc d))) (union_node (?u, w2)) (concat rss)"
    unfolding b(1) concat.simps
    by (rule delivers_to_sim [rotated 2]) (simp_all only: union_node_calls, simp_all add: union_ops_def)
  with started show ?thesis by blast
qed

lemma scan_shows:
  assumes E: "n = Suc (Suc d)" and T: "keyed_table (pe_lib E) T" and w: "stored_table E contents tid T w rs"
    and i: "si_answers (pe_lib E) T rs p r i" "sc_iter (si_scan i) = None" "sc_tableId (si_scan i) = tid"
    and desc: "describes (pe_lib E) (fst (scan_types T)) T q r us" "exact_range r"
  shows "plan_shows E n contents tid T rs (si_plan i, w) (filter (where_true (pe_lib E) T p) rs)"
proof -
  obtain db hs ents pos where store:
    "getLevelDBHandler (pe_db E) tid T (w_handlers w) = Inr (db, hs)"
    "db_laws (pe_db E) (key_cmp (pe_lib E) (fst (scan_types T))) contents ents pos" "contents db = map fst rs"
    "table_rows (pe_lib E) (fst (scan_types T)) (snd (scan_types T)) rs" "length rs < pe_fuel E" "2 < pe_fuel E"
    using w by (auto simp: stored_table_def)
  have sc: "scan_ranged (pe_lib E) T r (si_scan i)" using i(1) by (simp add: si_answers_def)
  have "scan_access (pe_db E) ents rs (si_scan i) w"
    using i(2,3) sc store(1-3) by (simp add: scan_access_def scan_ranged_def db_laws_def)
  from si_delivers [OF i(1) this desc _ store(4-6), of pos d] obtain s where
    s: "o_begin (tree_ops E n) False (si_plan i, w) = Inr s"
      "delivers_to (o_next (tree_ops E n) False) (o_getResult (tree_ops E n)) s
        (map (\<lambda>row. fst (shape_frame T (shape_of (si_scan i)) row)) (filter (where_true (pe_lib E) T p) rs))
        (\<lambda>s'. \<forall>k. sc_iter (si_scan i) = Some k \<longrightarrow> iter_over ents rs (Some k) (snd s'))"
    using store(2) unfolding E by (auto simp: db_laws_def simp del: tree_calls)
  have len: "length (shape_of (si_scan i)) = getColumnCount T - getKeyCount T"
    using sc by (simp add: scan_ranged_def shape_of_def)
  have rows: "list_all2 (shows_row T) (map (\<lambda>row. fst (shape_frame T (shape_of (si_scan i)) row)) rs') rs'" for rs'
    using shape_shows_row [OF T len] by (simp add: list_all2_map1 list_all2_same)
  have "delivers (o_next (tree_ops E n) False) (o_getResult (tree_ops E n)) s
      (map (\<lambda>row. fst (shape_frame T (shape_of (si_scan i)) row)) (filter (where_true (pe_lib E) T p) rs))"
    by (rule delivers_to_mono [OF s(2)]) simp
  moreover have "filtered_scan tid T (si_plan i)" by (rule filtered_scan_si [OF sc i(3)])
  ultimately show ?thesis using s(1) rows store(1,3)
    unfolding plan_shows_def clause_plan_def opens_def fst_conv snd_conv by blast
qed

lemma alternative_okD:
  assumes "alternative_ok E T rs q i"
  shows "comparable_range (range_of i)" "kr_keyTypes (range_of i) = fst (scan_types T)" "proper_range (fst (scan_types T)) (range_of i)"
    "sc_range (si_scan i) \<noteq> None" "length (shape_of (si_scan i)) = getColumnCount T - getKeyCount T"
  using assms exact_range_comparable
  by (auto simp: alternative_ok_def describes_def si_answers_def scan_ranged_def shape_of_def)

lemma share_iterator_fields:
  "shape_of (si_scan (share_iterator k i)) = shape_of (si_scan i)" "sc_iter (si_scan (share_iterator k i)) = Some k"
    "sc_tableId (si_scan (share_iterator k i)) = sc_tableId (si_scan i)"
  by (simp_all add: share_iterator_def setLevelDBIterator_def shape_of_def)

lemma rows_concat: "(\<And>x. x \<in> set xs \<Longrightarrow> list_all2 P (f x) (g x)) \<Longrightarrow> list_all2 P (concat (map f xs)) (concat (map g xs))"
  by (induction xs) (auto intro!: list_all2_appendI)

lemma union_scans_show:
  assumes E: "n = Suc (Suc (Suc d))" and T: "keyed_table (pe_lib E) T" and w: "stored_table E contents tid T w rs"
    and built: "union_scans E tid T is w = Inr pw" and "is": "is \<noteq> []" "\<forall>i \<in> set is. \<exists>q. alternative_ok E T rs q i" "\<forall>i \<in> set is. sc_tableId (si_scan i) = tid"
    and apart: "no_overlap (pe_lib E) is = Inr True"
  shows "plan_shows E n contents tid T rs pw (filter (\<lambda>row. \<exists>i \<in> set is. si_rows (pe_lib E) T i row) rs)"
proof -
  obtain db hs ents pos where store:
    "getLevelDBHandler (pe_db E) tid T (w_handlers w) = Inr (db, hs)"
    "db_laws (pe_db E) (key_cmp (pe_lib E) (fst (scan_types T))) contents ents pos" "contents db = map fst rs"
    "table_rows (pe_lib E) (fst (scan_types T)) (snd (scan_types T)) rs" "length rs < pe_fuel E" "2 < pe_fuel E"
    using w by (auto simp: stored_table_def)
  have laws: "iter_laws (ldb_iter (pe_db E)) (key_cmp (pe_lib E) (fst (scan_types T))) ents pos"
    using store(2) by (simp add: db_laws_def)
  define k where "k = length (w_iters w)"
  define w1 where "w1 = w\<lparr>w_handlers := hs, w_iters := w_iters w @ [createIterator (pe_db E) db]\<rparr>"
  define u where "u = foldl (\<lambda>u s. addChildPlan (si_plan (share_iterator k s)) u) (newUnionAllPlan True) is"
  have pw: "pw = union_node (u, w1)"
    using built store(1) by (simp add: union_scans_def union_node_def u_def w1_def k_def Let_def)
  have u: "un_plans u = map si_plan (map (share_iterator k) is)" "un_order u \<noteq> Descend"
    unfolding u_def union_plans by (simp_all add: newUnionAllPlan_def)
  from "is"(2) obtain q where q: "\<forall>i \<in> set is. alternative_ok E T rs (q i) i" by metis
  have shared: "list_all2 (\<lambda>q i. alternative_ok E T rs q i \<and> sc_iter (si_scan i) = Some k) (map q is) (map (share_iterator k) is)"
    using q by (simp add: list_all2_map1 list_all2_map2 list_all2_same share_iterator_fields alternative_ok_share)
  have "iter_over ents rs (Some k) w1"
    using store(2,3) by (simp add: iter_over_def w1_def k_def createIterator_def db_laws_def)
  from shared_scans_deliver [OF shared laws store(4-6) this, of d]
  have "child_rows (tree_ops E (Suc (Suc d))) False (un_plans u) w1
    (map (\<lambda>i. map (\<lambda>row. fst (shape_frame T (shape_of (si_scan i)) row)) (filter (where_true (pe_lib E) T (q i)) rs)) is)"
    by (simp add: u(1) zip_map_map zip_same_conv_map comp_def share_iterator_fields case_prod_unfold del: tree_calls)
  from union_node_delivers [OF _ u(2) this] obtain s where
    s: "o_begin (tree_ops E n) False pw = Inr s"
      "delivers (o_next (tree_ops E n) False) (o_getResult (tree_ops E n)) s
        (concat (map (\<lambda>i. map (\<lambda>row. fst (shape_frame T (shape_of (si_scan i)) row)) (filter (where_true (pe_lib E) T (q i)) rs)) is))"
    using "is"(1) u(1) unfolding E pw by (auto simp del: tree_calls)
  have hits: "filter (where_true (pe_lib E) T (q i)) rs = filter (si_rows (pe_lib E) T i) rs" if "i \<in> set is" for i
    by (rule filter_cong [OF refl]) (use alternative_rows q that in blast)
  have "list_all2 (shows_row T)
      (concat (map (\<lambda>i. map (\<lambda>row. fst (shape_frame T (shape_of (si_scan i)) row)) (filter (where_true (pe_lib E) T (q i)) rs)) is))
      (concat (map (\<lambda>i. filter (si_rows (pe_lib E) T i) rs) is))"
  proof (rule rows_concat)
    fix i assume i: "i \<in> set is"
    then have "shows_row T (fst (shape_frame T (shape_of (si_scan i)) row)) row" for row
      using shape_shows_row [OF T alternative_okD(5)] q by blast
    then show "list_all2 (shows_row T) (map (\<lambda>row. fst (shape_frame T (shape_of (si_scan i)) row)) (filter (where_true (pe_lib E) T (q i)) rs))
        (filter (si_rows (pe_lib E) T i) rs)"
      unfolding hits [OF i] by (simp add: list_all2_map1 list_all2_same)
  qed
  moreover have "\<forall>i \<in> set is. comparable_range (range_of i) \<and> kr_keyTypes (range_of i) = fst (scan_types T)"
    using alternative_okD(1,2) [OF q [rule_format]] by simp
  moreover have "\<forall>i \<in> set is. sc_range (si_scan i) \<noteq> None \<and> comparable_range (range_of i) \<and>
      kr_keyTypes (range_of i) = fst (scan_types T) \<and> proper_range (fst (scan_types T)) (range_of i)"
    using alternative_okD [OF q [rule_format]] by simp
  note no_overlap_before [OF apart this]
  ultimately have "list_all2 (shows_row T)
      (concat (map (\<lambda>i. map (\<lambda>row. fst (shape_frame T (shape_of (si_scan i)) row)) (filter (where_true (pe_lib E) T (q i)) rs)) is))
      (filter (\<lambda>row. \<exists>i \<in> set is. si_rows (pe_lib E) T i row) rs)"
    using apart_rows [OF store(4)] by simp
  moreover have "filtered_scan tid T (si_plan (share_iterator k i))" if "i \<in> set is" for i
  proof (rule filtered_scan_si)
    have "alternative_ok E T rs (q i) (share_iterator k i)" using q that alternative_ok_share by blast
    then show "scan_ranged (pe_lib E) T (range_of (share_iterator k i)) (si_scan (share_iterator k i))"
      by (auto simp: alternative_ok_def si_answers_def)
    show "sc_tableId (si_scan (share_iterator k i)) = tid" using "is"(3) that by (simp add: share_iterator_fields)
  qed
  then have "clause_plan tid T (fst pw)" using "is"(1) by (auto simp: pw union_node_def of_union_def clause_plan_def u(1))
  moreover have "opens E tid T db (snd pw)"
    using getLevelDBHandler_again [OF store(1)] by (auto simp: opens_def pw union_node_def w1_def)
  ultimately show ?thesis using s store(3) unfolding plan_shows_def by blast
qed

subsection \<open>The plan of any predicate\<close>

lemma or_true:
  assumes "n_op p = OP_OR"
  shows "where_true L T p row \<longleftrightarrow> (\<exists>q \<in> set (n_children p). where_true L T q row)"
proof -
  obtain a t e v cs where node: "p = PNode a t OP_OR e v cs" using assms by (cases p) auto
  show ?thesis by (simp add: where_true_def node list_ex_iff)
qed

lemma full_scan_shows:
  assumes E: "n = Suc (Suc d)" and T: "keyed_table (pe_lib E) T" and w: "stored_table E contents tid T w rs"
    and built: "full_scan E tid T p w = Inr pw" and p: "p \<noteq> NullNode" "\<forall>q \<in> set (alternatives p). conjunction_ok E T rs q"
    and ok: "bounds_ok (pe_lib E) T p"
  shows "plan_shows E n contents tid T rs pw (filter (where_true (pe_lib E) T p) rs)"
proof -
  obtain i w' where i: "newScanPlanInfo E tid T p w = Inr (i, w')" "pw = (si_plan i, w')"
    using built by (auto simp: full_scan_def)
  have rows: "table_rows (pe_lib E) (fst (scan_types T)) (snd (scan_types T)) rs" using w by (auto simp: stored_table_def)
  obtain r0 solved0 where r0: "newKeySearchRange (pe_lib E) (fst (scan_types T)) T NullNode = Inr (r0, solved0)" "exact_range r0"
    using ok by (auto simp: bounds_ok_def)
  show ?thesis
  proof (cases "n_op p = OP_OR")
    case True
    then have "\<forall>q \<in> set (n_children p). evaluable (pe_lib E) T rs q"
      using p by (auto simp: alternatives_def conjunction_ok_def)
    from disjunction_answers [OF i(1) T True this r0(1) rows]
    have a: "w' = w" "sc_iter (si_scan i) = None" "sc_tableId (si_scan i) = tid" "si_answers (pe_lib E) T rs p r0 i" by simp_all
    obtain us where "describes (pe_lib E) (fst (scan_types T)) T NullNode r0 us" using no_predicate_range(1) [OF r0(1)] by blast
    from scan_shows [OF E T w a(4,2,3) this r0(2)] show ?thesis unfolding i(2) a(1) .
  next
    case False
    then have p': "conjunctive p" "told_by_text p" "evaluable (pe_lib E) T rs p"
      and exact: "\<And>r s. newKeySearchRange (pe_lib E) (fst (scan_types T)) T p = Inr (r, s) \<Longrightarrow> exact_range r"
      using p ok by (auto simp: alternatives_def conjunction_ok_def bounds_ok_def)
    have "w' = w \<and> (\<exists>r us. describes (pe_lib E) (fst (scan_types T)) T p r us \<and> exact_range r \<and> sc_range (si_scan i) = Some r \<and>
      newKeySearchRange (pe_lib E) (fst (scan_types T)) T p = Inr (r, si_solved i) \<and>
      sc_iter (si_scan i) = None \<and> sc_tableId (si_scan i) = tid \<and> si_answers (pe_lib E) T rs p r i)"
      by (rule conjunction_answers [OF i(1) T p' _ rows]) (rule exact)
    then obtain r us where
      a: "w' = w" "describes (pe_lib E) (fst (scan_types T)) T p r us" "exact_range r" "sc_iter (si_scan i) = None"
        "sc_tableId (si_scan i) = tid" "si_answers (pe_lib E) T rs p r i" by blast
    from scan_shows [OF E T w a(6,4,5,2,3)] show ?thesis unfolding i(2) a(1) .
  qed
qed

lemma alternatives_cover:
  assumes scans: "list_all2 (\<lambda>q i. alternative_ok E T rs q i \<and> sc_iter (si_scan i) = None \<and> sc_tableId (si_scan i) = tid) cs is"
    and "mset is' = mset is" "row \<in> set rs"
  shows "(\<exists>i \<in> set is'. si_rows (pe_lib E) T i row) \<longleftrightarrow> (\<exists>q \<in> set cs. where_true (pe_lib E) T q row)"
proof -
  have "(\<exists>i \<in> set is. si_rows (pe_lib E) T i row) \<longleftrightarrow> (\<exists>q \<in> set cs. where_true (pe_lib E) T q row)"
    using scans
  proof (induction rule: list_all2_induct)
    case (Cons q cs i "is")
    then show ?case using alternative_rows [OF conjunct1 [OF Cons.hyps(1)] assms(3)] by simp
  qed simp
  then show ?thesis using mset_eq_setD [OF assms(2)] by simp
qed

lemma buildUnionAll_shows:
  assumes E: "n = Suc (Suc (Suc d))" and T: "keyed_table (pe_lib E) T" and w: "stored_table E contents tid T w rs"
    and built: "buildUnionAll E sorter tid T p w = Inr pw" and p: "n_op p = OP_OR" "n_children p \<noteq> []"
    "\<forall>q \<in> set (alternatives p). conjunction_ok E T rs q"
    and ok: "bounds_ok (pe_lib E) T p" and sorter: "permutes sorter"
  shows "plan_shows E n contents tid T rs pw (filter (where_true (pe_lib E) T p) rs)"
proof -
  have nonnull: "p \<noteq> NullNode" using p(1) by auto
  have alts: "alternatives p = n_children p" using p(1) nonnull by (simp add: alternatives_def)
  have rows: "table_rows (pe_lib E) (fst (scan_types T)) (snd (scan_types T)) rs" using w by (auto simp: stored_table_def)
  obtain res w1 where scans: "alternative_scans E tid T (n_children p) w = Inr (res, w1)"
    and rest: "(case res of None \<Rightarrow> full_scan E tid T p w1
     | Some scans \<Rightarrow> bindR (sorter (start_less (pe_lib E)) scans) (\<lambda>ps. bindR (no_overlap (pe_lib E) ps) (\<lambda>apart.
           if apart then union_scans E tid T ps w1 else full_scan E tid T p w1))) = Inr pw"
    using built by (auto simp: buildUnionAll_def)
  have "w1 = w \<and> (\<forall>is. res = Some is \<longrightarrow>
    list_all2 (\<lambda>q i. alternative_ok E T rs q i \<and> sc_iter (si_scan i) = None \<and> sc_tableId (si_scan i) = tid) (n_children p) is)"
    by (rule alternative_scans_ok [OF scans T rows]) (use p(3) ok in \<open>simp add: alts bounds_ok_def\<close>)
  then have w1: "w1 = w" and scan_ok: "\<And>is. res = Some is \<Longrightarrow>
    list_all2 (\<lambda>q i. alternative_ok E T rs q i \<and> sc_iter (si_scan i) = None \<and> sc_tableId (si_scan i) = tid) (n_children p) is"
    by simp_all
  have full: "plan_shows E n contents tid T rs pw (filter (where_true (pe_lib E) T p) rs)" if "full_scan E tid T p w = Inr pw"
    by (rule full_scan_shows [OF E T w that nonnull p(3) ok])
  show ?thesis
  proof (cases res)
    case None
    then show ?thesis using rest full w1 by simp
  next
    case (Some scans)
    then obtain ps apart where ps: "sorter (start_less (pe_lib E)) scans = Inr ps" "no_overlap (pe_lib E) ps = Inr apart"
      "(if apart then union_scans E tid T ps w else full_scan E tid T p w) = Inr pw"
      using rest w1 by auto
    show ?thesis
    proof (cases apart)
      case False
      then show ?thesis using ps(3) full by simp
    next
      case True
      have perm: "mset ps = mset scans" using sorter ps(1) by (simp add: permutes_def)
      have each: "\<exists>q. alternative_ok E T rs q i" "sc_tableId (si_scan i) = tid" if "i \<in> set ps" for i
      proof -
        have "i \<in> set scans" using that mset_eq_setD [OF perm] by simp
        then show "\<exists>q. alternative_ok E T rs q i" "sc_tableId (si_scan i) = tid"
          using scan_ok [OF Some] by (auto simp: list_all2_conv_all_nth in_set_conv_nth)
      qed
      have "ps \<noteq> []" using perm list_all2_lengthD [OF scan_ok [OF Some]] p(2) by auto
      from union_scans_show [OF E T w _ this] ps(2,3) True each
      have "plan_shows E n contents tid T rs pw (filter (\<lambda>row. \<exists>i \<in> set ps. si_rows (pe_lib E) T i row) rs)" by simp
      moreover have "filter (\<lambda>row. \<exists>i \<in> set ps. si_rows (pe_lib E) T i row) rs = filter (where_true (pe_lib E) T p) rs"
        by (rule filter_cong [OF refl]) (use alternatives_cover [OF scan_ok [OF Some] perm] or_true [OF p(1)] in blast)
      ultimately show ?thesis by simp
    qed
  qed
qed

lemma buildSelectPlan_shows:
  assumes "buildSelectPlan E sorter tid T p w = Inr pw" "stored_table E contents tid T w rs" "keyed_table (pe_lib E) T"
    and "\<forall>q \<in> set (alternatives p). conjunction_ok E T rs q" "p = NullNode \<or> alternatives p \<noteq> []"
    and "bounds_ok (pe_lib E) T p" "permutes sorter" and n: "n = Suc (Suc (Suc d))"
  shows "plan_shows E n contents tid T rs pw (filter (where_true (pe_lib E) T p) rs)"
proof (cases "p = NullNode")
  case True
  obtain r solved where r: "newKeySearchRange (pe_lib E) (fst (scan_types T)) T NullNode = Inr (r, solved)" "exact_range r"
    using assms(6) by (auto simp: bounds_ok_def)
  obtain us where us: "describes (pe_lib E) (fst (scan_types T)) T NullNode r us" using no_predicate_range(1) [OF r(1)] by blast
  have "table_rows (pe_lib E) (fst (scan_types T)) (snd (scan_types T)) rs" using assms(2) by (auto simp: stored_table_def)
  from scan_shows [OF n assms(3,2) whole_table_answers [OF assms(3) r(1) this, of tid] _ _ us r(2)] True assms(1)
  show ?thesis by (auto simp: buildSelectPlan_def newLevelDBScanPlan_def si_plan_def split: if_splits)
next
  case False
  then have built: "(if n_op p = OP_OR then buildUnionAll E sorter tid T p w else full_scan E tid T p w) = Inr pw"
    using assms(1) by (auto simp: buildSelectPlan_def split: if_splits)
  show ?thesis
  proof (cases "n_op p = OP_OR")
    case True
    then show ?thesis using buildUnionAll_shows [OF n assms(3,2) _ True _ assms(4,6,7)] built assms(5) False
      by (simp add: alternatives_def)
  next
    case or: False
    then show ?thesis using full_scan_shows [OF n assms(3,2) _ False assms(4,6)] built by simp
  qed
qed


subsection \<open>A clause with two alternatives\<close>

lemma newKeySearchRange_eval:
  assumes "doSetPredicate T p (replicate (length types) no_pred, no_pred) = Inr (ps, e)"
    and "scan_predicates 0 ps (initial_flags e) = (ps', f)"
    and "fill_bounds L T (rf_end f) 0 types ps' False True = Inr bounds"
    and "list_all2 bound_column types (map fst bounds)" "list_all2 bound_column types (map snd bounds)"
  shows "\<exists>r. newKeySearchRange L types T p = Inr (r, rf_solved f) \<and> kr_startResults r = map fst bounds \<and>
    kr_endResults r = map snd bounds \<and> kr_keyTypes r = types \<and> kr_startInclusive r = rf_startInclusive f \<and>
    kr_endInclusive r = rf_endInclusive f \<and> kr_seekToFirst r = rf_seekToFirst f \<and> kr_seekToLast r = rf_seekToLast f"
proof -
  obtain sr er where "row_copy L types (map fst bounds) = Inr sr" "row_computeSize L types (map fst bounds) = Inr (length sr)"
    "row_copy L types (map snd bounds) = Inr er" "row_computeSize L types (map snd bounds) = Inr (length er)"
    using assms(4,5) by (metis row_copy_ok)
  then show ?thesis unfolding newKeySearchRange_def assms(1) by (simp add: assms(2,3) Let_def)
qed

definition ex_or :: pnode where
  "ex_or = PNode 0 NT_OP OP_OR [] [] [ex_where, ex_cmp COMP_GE ''a>=2'' NT_INT ''a'' ''2'']"

lemmas exact_eval = exact_range_def exact_def ex_types_def bound_column_def getHandler_def bound_ok_def value_ok_def sized_def
  int_min_def int_max_def stored_column_def stored_def

lemma ex_whole_range:
  "\<exists>r. newKeySearchRange ex_lib ex_types ex_keyed NullNode = Inr (r, []) \<and> exact_range r"
proof -
  have rows: "list_all2 bound_column ex_types (map fst [(R_Int (- 2147483648), R_Int 2147483647), (R_StringView [], R_MaxString)])"
    "list_all2 bound_column ex_types (map snd [(R_Int (- 2147483648), R_Int 2147483647), (R_StringView [], R_MaxString)])"
    by (simp_all add: exact_eval)
  define f where "f = (initial_flags no_pred)\<lparr>rf_keyValid := False\<rparr>"
  have sel: "doSetPredicate ex_keyed NullNode (replicate (length ex_types) no_pred, no_pred) = Inr ([no_pred, no_pred], no_pred)"
    by (simp add: ex_types_def)
  have sc: "scan_predicates 0 [no_pred, no_pred] (initial_flags no_pred) = ([no_pred, no_pred], f)"
    by (simp add: range_eval f_def)
  have fb: "fill_bounds ex_lib ex_keyed (rf_end f) 0 ex_types [no_pred, no_pred] False True =
      Inr [(R_Int (- 2147483648), R_Int 2147483647), (R_StringView [], R_MaxString)]"
    by (simp add: range_eval f_def)
  from newKeySearchRange_eval [OF sel sc fb rows] show ?thesis
    by (auto simp: exact_eval f_def initial_flags_def)
qed

lemma ex_from_range:
  "\<exists>r. newKeySearchRange ex_lib ex_types ex_keyed (ex_cmp COMP_GE ''a>=2'' NT_INT ''a'' ''2'') = Inr (r, [''a>=2'']) \<and> exact_range r \<and>
    kr_startResults r = [R_Int 2, R_StringView []] \<and> kr_endResults r = [R_Int 2147483647, R_MaxString] \<and> kr_keyTypes r = ex_types \<and>
    kr_startInclusive r \<and> kr_endInclusive r \<and> \<not> kr_seekToFirst r \<and> kr_seekToLast r"
proof -
  have rows: "list_all2 bound_column ex_types (map fst [(R_Int 2, R_Int 2147483647), (R_StringView [], R_MaxString)])"
    "list_all2 bound_column ex_types (map snd [(R_Int 2, R_Int 2147483647), (R_StringView [], R_MaxString)])"
    by (simp_all add: exact_eval)
  define ps where "ps = [\<lparr>kp_keyIndex = 0, kp_value = PNode 0 NT_INT OP_NONE ''2'' ''2'' [], kp_op = COMP_GE, kp_expr = ''a>=2''\<rparr>, no_pred]"
  define f where "f = \<lparr>rf_keyValid = False, rf_end = no_pred, rf_startInclusive = True, rf_endInclusive = True,
     rf_seekToFirst = False, rf_seekToLast = True, rf_solved = [''a>=2'']\<rparr>"
  have sel: "doSetPredicate ex_keyed (ex_cmp COMP_GE ''a>=2'' NT_INT ''a'' ''2'') (replicate (length ex_types) no_pred, no_pred) = Inr (ps, no_pred)"
    by (simp add: range_eval ps_def)
  have sc: "scan_predicates 0 ps (initial_flags no_pred) = (ps, f)"
    by (simp add: range_eval ps_def f_def)
  have fb: "fill_bounds ex_lib ex_keyed (rf_end f) 0 ex_types ps False True =
      Inr [(R_Int 2, R_Int 2147483647), (R_StringView [], R_MaxString)]"
    by (simp add: range_eval ps_def f_def)
  from newKeySearchRange_eval [OF sel sc fb rows] show ?thesis by (auto simp: exact_eval f_def)
qed

definition ex_env :: "((byte list \<times> byte list) list, list_iter) plan_env" where
  "ex_env = \<lparr>pe_lib = ex_lib,
     pe_meta = \<lparr>mc_store = [ex_keyed], mc_tableMap = [(''t'', 0)], mc_dataTypeMap = [], mc_workerNum = 1, mc_timeout = 0,
       mc_execBuffer = 0, mc_port = 5432\<rparr>,
     pe_files = (\<lambda>_. None), pe_db = list_db (key_cmp ex_lib ex_types), pe_limit = BLOCK_SIZE, pe_sorter = insertion_sort,
     pe_fuel = 4, pe_depth = 4\<rparr>"

lemma ex_key_frame:
  "fst (table_frame ex_keyed (ex_entry k i v)) 0 DT_INT32 = Inr (R_Int i)" "scan_ty ex_keyed 0 = Inr DT_INT32"
  "fst (table_frame ex_keyed (ex_entry k i v)) (Suc 0) DT_STRING = Inr (R_StringView v)" "scan_ty ex_keyed (Suc 0) = Inr DT_STRING"
  by (simp_all add: table_frame_def shape_frame_def view_row_def row_view_def ex_entry_def project_values_def ex_keyed_def getKeyCount_def
      getColumnCount_def scan_ty_def scan_getResultType_def newLevelDBScanPlan_def scan_types_def scan_type_step_def newColumnInfo_def
      getKeyColumn_def getColumn_def)

lemma ex_columns:
  "scan_col ex_lib ex_keyed (PNode 0 NT_NAME OP_NONE ''a'' ''a'' []) = Inr 0"
  "scan_col ex_lib ex_keyed (PNode 0 NT_NAME OP_NONE ''b'' ''b'' []) = Inr 1"
  "scan_col ex_lib ex_keyed (PNode 0 NT_INT OP_NONE x v []) = Inr (-1)"
  "scan_col ex_lib ex_keyed (PNode 0 NT_STR OP_NONE x v []) = Inr (-1)"
  by (simp_all add: scan_col_def scan_addProjection_def isRowKeyNode_def newLevelDBScanPlan_def getColumnByName_def ex_keyed_def newColumnInfo_def
      ex_lib_def ROWKEY_def ex_lower_def)

lemma table_frame_types: "snd (table_frame T row) = scan_ty T"
  by (simp add: table_frame_def shape_frame_def)

lemma ex_constants:
  "h_fromNode ex_lib (H_Int T_int32) (PNode 0 NT_INT OP_NONE ''1'' ''1'' []) R_Null = Inr (R_Int 1)"
  "h_fromNode ex_lib (H_Int T_int32) (PNode 0 NT_INT OP_NONE ''2'' ''2'' []) R_Null = Inr (R_Int 2)"
  "h_fromNode ex_lib H_String (PNode 0 NT_STR OP_NONE ''m'' ''m'' []) R_Null = Inr (R_StringView ''m'')"
  by (simp_all add: h_fromNode_def int_fromNode_def string_fromNode_def ex_lib_def stringToInt_def checkInt_def int_min_def int_max_def
      int64_range_def ccode_def)

lemma ex_comparisons:
  "comparison_info ex_lib (scan_col ex_lib ex_keyed) (scan_ty ex_keyed) (ex_cmp COMP_EQ ''a=1'' NT_INT ''a'' ''1'') =
    Inr \<lparr>pi_expr = ''a=1'', pi_op = COMP_EQ, pi_leftIndex = 0, pi_rightIndex = -1, pi_leftConst = R_Null, pi_rightConst = R_Int 1\<rparr>"
  "comparison_info ex_lib (scan_col ex_lib ex_keyed) (scan_ty ex_keyed) (ex_cmp COMP_GE ''a>=2'' NT_INT ''a'' ''2'') =
    Inr \<lparr>pi_expr = ''a>=2'', pi_op = COMP_GE, pi_leftIndex = 0, pi_rightIndex = -1, pi_leftConst = R_Null, pi_rightConst = R_Int 2\<rparr>"
  "comparison_info ex_lib (scan_col ex_lib ex_keyed) (scan_ty ex_keyed) (ex_cmp COMP_GT ''b>m'' NT_STR ''b'' ''m'') =
    Inr \<lparr>pi_expr = ''b>m'', pi_op = COMP_GT, pi_leftIndex = 1, pi_rightIndex = -1, pi_leftConst = R_Null, pi_rightConst = R_StringView ''m''\<rparr>"
  by (simp_all add: comparison_info_def pure_const_def ex_cmp_def getChild_def ex_columns ex_key_frame isConst_def with_handler_def getHandler_def ex_constants)

lemma ex_evaluate:
  "filter_evaluate ex_lib (table_frame ex_keyed (ex_entry k i v))
     \<lparr>pi_expr = x, pi_op = COMP_EQ, pi_leftIndex = 0, pi_rightIndex = -1, pi_leftConst = R_Null, pi_rightConst = R_Int n\<rparr> = Inr (i = n)"
  "filter_evaluate ex_lib (table_frame ex_keyed (ex_entry k i v))
     \<lparr>pi_expr = x, pi_op = COMP_GE, pi_leftIndex = 0, pi_rightIndex = -1, pi_leftConst = R_Null, pi_rightConst = R_Int n\<rparr> = Inr (n \<le> i)"
  "filter_evaluate ex_lib (table_frame ex_keyed (ex_entry k i v))
     \<lparr>pi_expr = x, pi_op = COMP_GT, pi_leftIndex = 1, pi_rightIndex = -1, pi_leftConst = R_Null, pi_rightConst = R_StringView s\<rparr> =
     Inr (str_compare v s > 0)"
  by (auto simp: filter_evaluate_def info_operand_def compare_holds_def r_compare_def table_frame_types ex_key_frame with_handler_def getHandler_def
      h_compare_def getInt_def int_compare_def string_compare_def isMaxString_def getString_def isNull_def)

lemma insertion_sort_permutes: "permutes insertion_sort"
proof -
  have insert: "insert_sorted lt x ys = Inr zs \<Longrightarrow> mset zs = add_mset x (mset ys)" for lt :: "scan_info \<Rightarrow> scan_info \<Rightarrow> bool res" and x ys zs
    by (induction lt x ys arbitrary: zs rule: insert_sorted.induct) (auto split: if_splits)
  have "insertion_sort lt xs = Inr ys \<Longrightarrow> mset ys = mset xs" for lt :: "scan_info \<Rightarrow> scan_info \<Rightarrow> bool res" and xs ys
    by (induction xs arbitrary: ys) (auto dest: insert)
  then show ?thesis by (auto simp: permutes_def)
qed

lemma ex_keyed_types: "fst (scan_types ex_keyed) = ex_types" "snd (scan_types ex_keyed) = []"
  using ex_scan_plan(1,2) by (simp_all add: newLevelDBScanPlan_def)

lemma ex_is_keyed: "keyed_table ex_lib ex_keyed"
proof -
  have "smap_ok (t_columnMap ex_keyed)" by (simp add: ex_keyed_def Let_def ccode_def)
  moreover have "column_wf ex_keyed 0" "column_wf ex_keyed 1"
    by (simp_all add: column_wf_def slot_ok_def ex_keyed_def newColumnInfo_def)
  then have "column_wf ex_keyed i" if "i < length (t_columns ex_keyed)" for i
    using that by (cases "i = 0") (auto simp: ex_keyed_def less_Suc_eq)
  moreover have "names_ok (t_columns ex_keyed) (t_columnMap ex_keyed)"
    by (simp add: names_ok_def ex_keyed_def newColumnInfo_def)
  ultimately have "table_wf ex_keyed" by (simp add: table_wf_def) (simp add: ex_keyed_def)
  moreover have "name = ''a'' \<or> name = ''b''" if "getColumnByName ex_keyed name = Some c" for name c
    using that by (simp add: getColumnByName_def ex_keyed_def split: if_splits)
  then have "\<not> EqualsIgnoreCase ex_lib name ROWKEY" if "getColumnByName ex_keyed name = Some c" for name c
    using that by (fastforce simp: ex_lib_def ROWKEY_def)
  ultimately show ?thesis unfolding keyed_table_def by (simp add: ex_keyed_def)
qed

lemma ex_stored_rows:
  assumes "table_rows ex_lib ex_types [] rs" "length rs < 4"
  shows "stored_table ex_env (\<lambda>db. db) 0 ex_keyed (ex_world rs) rs"
proof -
  have "getLevelDBHandler (pe_db ex_env) 0 ex_keyed (w_handlers (ex_world rs)) = Inr (map fst rs, w_handlers (ex_world rs))"
    using ex_handler by (simp add: ex_scan_plan)
  moreover have "db_laws (pe_db ex_env) (key_cmp (pe_lib ex_env) (fst (scan_types ex_keyed))) (\<lambda>db. db) fst snd"
    using list_db_laws by (simp add: ex_env_def ex_keyed_types)
  ultimately show ?thesis using assms
    unfolding stored_table_def ex_keyed_types by (intro exI conjI) (auto simp: ex_env_def)
qed

lemma ex_stored:
  assumes "table_rows ex_lib ex_types [] (ex_table k1 k2 k3)"
  shows "stored_table ex_env (\<lambda>db. db) 0 ex_keyed (ex_world (ex_table k1 k2 k3)) (ex_table k1 k2 k3)"
  by (rule ex_stored_rows [OF assms]) (simp add: ex_table_def)

lemma ex_alternatives: "alternatives ex_or = [ex_where, ex_cmp COMP_GE ''a>=2'' NT_INT ''a'' ''2'']"
  by (simp add: alternatives_def ex_or_def)

lemma ex_conjunctions: "\<forall>q \<in> set (alternatives ex_or). conjunction_ok ex_env ex_keyed (ex_table k1 k2 k3) q"
proof -
  have lib: "pe_lib ex_env = ex_lib" by (simp add: ex_env_def)
  have leaves: "comparisons ex_where = [ex_cmp COMP_EQ ''a=1'' NT_INT ''a'' ''1'', ex_cmp COMP_GT ''b>m'' NT_STR ''b'' ''m'']"
    "comparisons (ex_cmp COMP_GE ''a>=2'' NT_INT ''a'' ''2'') = [ex_cmp COMP_GE ''a>=2'' NT_INT ''a'' ''2'']"
    by (simp_all add: ex_where_def ex_cmp_def)
  have "conjunctive ex_where" "conjunctive (ex_cmp COMP_GE ''a>=2'' NT_INT ''a'' ''2'')" by (simp_all add: ex_where_def ex_cmp_def)
  moreover have "told_by_text ex_where" "told_by_text (ex_cmp COMP_GE ''a>=2'' NT_INT ''a'' ''2'')"
    unfolding told_by_text_def leaves by (simp_all add: ex_cmp_def same_comparison_def)
  moreover have "evaluable ex_lib ex_keyed (ex_table k1 k2 k3) ex_where"
      "evaluable ex_lib ex_keyed (ex_table k1 k2 k3) (ex_cmp COMP_GE ''a>=2'' NT_INT ''a'' ''2'')"
    unfolding evaluable_def leaves by (auto simp: ex_comparisons ex_table_def ex_evaluate)
  ultimately show ?thesis unfolding ex_alternatives conjunction_ok_def lib by simp
qed

lemma ex_where_range:
  "\<exists>r. newKeySearchRange ex_lib ex_types ex_keyed ex_where = Inr (r, [''a=1'', ''b>m'']) \<and> exact_range r \<and>
    kr_startResults r = [R_Int 1, R_StringView ''m''] \<and> kr_endResults r = [R_Int 1, R_MaxString] \<and> kr_keyTypes r = ex_types \<and>
    \<not> kr_seekToFirst r \<and> \<not> kr_seekToLast r"
proof -
  obtain r where r: "newKeySearchRange ex_lib ex_types ex_keyed ex_where = Inr (r, [''a=1'', ''b>m''])"
    "kr_startResults r = [R_Int 1, R_StringView ''m'']" "kr_endResults r = [R_Int 1, R_MaxString]" "kr_keyTypes r = ex_types"
    "\<not> kr_seekToFirst r" "\<not> kr_seekToLast r"
    by (rule ex_range)
  have "exact_range r" by (simp add: exact_eval r)
  with r show ?thesis by blast
qed

lemmas ex_compare = lex_compare.simps type_cmp_def cmp_val_def getHandler_def h_compare_def getInt_def int_compare_def string_compare_def
  isMaxString_def getString_def with_handler_def

lemma ex_bounds: "bounds_ok ex_lib ex_keyed ex_or"
proof -
  obtain r where r: "newKeySearchRange ex_lib ex_types ex_keyed ex_where = Inr (r, [''a=1'', ''b>m''])" "exact_range r"
    "kr_startResults r = [R_Int 1, R_StringView ''m'']" "kr_endResults r = [R_Int 1, R_MaxString]"
    using ex_where_range by blast
  obtain q where q: "newKeySearchRange ex_lib ex_types ex_keyed (ex_cmp COMP_GE ''a>=2'' NT_INT ''a'' ''2'') = Inr (q, [''a>=2''])" "exact_range q"
    "kr_startResults q = [R_Int 2, R_StringView []]" "kr_endResults q = [R_Int 2147483647, R_MaxString]"
    using ex_from_range by blast
  have "proper_range ex_types r" "proper_range ex_types q"
    by (simp_all add: proper_range_def r q ex_types_def ex_compare)
  then show ?thesis using ex_whole_range r q unfolding bounds_ok_def ex_keyed_types ex_alternatives by auto
qed

text \<open>The two scans, and the plan: a union of both on one iterator.\<close>

lemma ex_scan_info:
  assumes "newKeySearchRange ex_lib ex_types ex_keyed p = Inr (r, solved)" "conjunctive p" "\<forall>c \<in> set (comparisons p). n_expr c \<in> set solved"
  shows "newScanPlanInfo ex_env 0 ex_keyed p w =
    Inr (\<lparr>si_scan = newLevelDBScanPlan 0 ex_keyed\<lparr>sc_range := Some r\<rparr>, si_filter = None, si_solved = solved\<rparr>, w)"
proof -
  have "p \<noteq> NullNode" "n_type p = NT_OP" "n_op p \<noteq> OP_OR" using assms(2) by (cases p; simp)+
  then show ?thesis using assms(1,3) needFilter_comparisons [OF assms(2), of solved]
    by (simp add: newScanPlanInfo_def Let_def scan_setPredicate_def ex_scan_plan ex_env_def)
qed

lemma ex_plan: "\<exists>pw. buildSelectPlan ex_env insertion_sort 0 ex_keyed ex_or (ex_world rs) = Inr pw"
proof -
  let ?ge = "ex_cmp COMP_GE ''a>=2'' NT_INT ''a'' ''2''" and ?sc = "newLevelDBScanPlan 0 ex_keyed"
  obtain r where r: "newKeySearchRange ex_lib ex_types ex_keyed ex_where = Inr (r, [''a=1'', ''b>m''])"
    "kr_startResults r = [R_Int 1, R_StringView ''m'']" "kr_endResults r = [R_Int 1, R_MaxString]" "kr_keyTypes r = ex_types"
    "\<not> kr_seekToFirst r" "\<not> kr_seekToLast r"
    using ex_where_range by blast
  obtain q where q: "newKeySearchRange ex_lib ex_types ex_keyed ?ge = Inr (q, [''a>=2''])"
    "kr_startResults q = [R_Int 2, R_StringView []]" "kr_endResults q = [R_Int 2147483647, R_MaxString]" "kr_keyTypes q = ex_types"
    "\<not> kr_seekToFirst q"
    using ex_from_range by blast
  let ?i = "\<lparr>si_scan = ?sc\<lparr>sc_range := Some r\<rparr>, si_filter = None, si_solved = [''a=1'', ''b>m'']\<rparr>"
  let ?j = "\<lparr>si_scan = ?sc\<lparr>sc_range := Some q\<rparr>, si_filter = None, si_solved = [''a>=2'']\<rparr>"
  have i: "newScanPlanInfo ex_env 0 ex_keyed ex_where w = Inr (?i, w)" for w
    by (rule ex_scan_info [OF r(1)]) (simp_all add: ex_where_def ex_cmp_def)
  have j: "newScanPlanInfo ex_env 0 ex_keyed ?ge w = Inr (?j, w)" for w
    by (rule ex_scan_info [OF q(1)]) (simp_all add: ex_cmp_def)
  have ops: "n_op ex_where \<noteq> OP_OR" "n_op ?ge \<noteq> OP_OR" by (simp_all add: ex_where_def ex_cmp_def)
  have scans: "alternative_scans ex_env 0 ex_keyed (n_children ex_or) (ex_world rs) = Inr (Some [?i, ?j], ex_world rs)"
    by (simp add: ex_or_def i j ops isFullScan_def)
  have less: "start_less ex_lib ?j ?i = Inr False"
    by (simp add: start_less_def scan_compareStart_def compareStart_def r q ex_types_def ex_compare)
  have sorted: "insertion_sort (start_less ex_lib) [?i, ?j] = Inr [?i, ?j]" by (simp add: less)
  have apart: "no_overlap ex_lib [?i, ?j] = Inr True"
    by (simp add: scan_startAfterEnd_def startAfterEnd_def r q ex_types_def ex_compare)
  have lib: "pe_lib ex_env = ex_lib" by (simp add: ex_env_def)
  have "\<exists>pw. union_scans ex_env 0 ex_keyed [?i, ?j] (ex_world rs) = Inr pw"
    using ex_handler [of "pe_db ex_env" ex_keyed rs] by (simp add: union_scans_def ex_scan_plan Let_def)
  then show ?thesis
    unfolding buildSelectPlan_def buildUnionAll_def scans
    by (simp add: sorted apart lib ex_scan_plan ex_or_def del: insertion_sort.simps no_overlap.simps)
qed

lemma ex_or_true:
  "where_true ex_lib ex_keyed ex_or (ex_entry k 1 ''k'') = False" "where_true ex_lib ex_keyed ex_or (ex_entry k 1 ''z'')"
  "where_true ex_lib ex_keyed ex_or (ex_entry k 2 ''a'')"
proof -
  have leaf: "where_true ex_lib ex_keyed (ex_cmp op x t c v) row \<longleftrightarrow>
      (case comparison_info ex_lib (scan_col ex_lib ex_keyed) (scan_ty ex_keyed) (ex_cmp op x t c v) of
        Inl err \<Rightarrow> False | Inr info \<Rightarrow> filter_evaluate ex_lib (table_frame ex_keyed row) info = Inr True)"
    if "op \<noteq> OP_AND" "op \<noteq> OP_OR" for op x t c v row
    by (rule leaf_true) (use that in \<open>simp_all add: ex_cmp_def\<close>)
  have "where_true ex_lib ex_keyed ex_or row \<longleftrightarrow>
      where_true ex_lib ex_keyed (ex_cmp COMP_EQ ''a=1'' NT_INT ''a'' ''1'') row \<and>
      where_true ex_lib ex_keyed (ex_cmp COMP_GT ''b>m'' NT_STR ''b'' ''m'') row \<or>
      where_true ex_lib ex_keyed (ex_cmp COMP_GE ''a>=2'' NT_INT ''a'' ''2'') row" for row
    by (simp add: where_true_def ex_or_def ex_where_def)
  then show "where_true ex_lib ex_keyed ex_or (ex_entry k 1 ''k'') = False" "where_true ex_lib ex_keyed ex_or (ex_entry k 1 ''z'')"
    "where_true ex_lib ex_keyed ex_or (ex_entry k 2 ''a'')"
    by (simp_all add: leaf ex_comparisons ex_evaluate Let_def ccode_def)
qed


end
