(* ===== verification/ClausePlans.thy ===== *)
theory ClausePlans
  imports WherePlans
begin

text \<open>
  What the plans \<open>buildSelectPlan\<close> makes keep while they run: they stay scans, filters over scans or
  unions of these on one table, which can be ended at any time.  The theorem: every row they deliver
  has, in each key column, a value of the type that the plan announces.
\<close>

section \<open>What a plan keeps while it runs\<close>

text \<open>
  A plan that keeps \<open>P\<close> of itself and \<open>W\<close> of the rest of the world, and can be ended at any time.
\<close>

locale kept_plan =
  fixes C :: "('p \<times> 'w) plan_ops" and P :: "'p \<Rightarrow> bool" and W :: "'w \<Rightarrow> bool"
  assumes begin_keeps: "P p \<Longrightarrow> W w \<Longrightarrow> o_begin C t (p, w) = Inr (p', w') \<Longrightarrow> P p' \<and> W w'"
    and next_keeps: "P p \<Longrightarrow> W w \<Longrightarrow> o_next C t (p, w) = Inr (b, p', w') \<Longrightarrow> P p' \<and> W w'"
    and end_keeps: "P p \<Longrightarrow> W w \<Longrightarrow> \<exists>p' w'. o_end C (p, w) = Inr (p', w') \<and> P p' \<and> W w'"
begin

lemma delivers_keeps:
  assumes "delivers_to (o_next C t) cur s rs Q" "P (fst s)" "W (snd s)"
  shows "delivers_to (o_next C t) cur s rs (\<lambda>s'. Q s' \<and> P (fst s') \<and> W (snd s'))"
  using assms
proof (induction rs arbitrary: s)
  case Nil
  then show ?case using next_keeps [of "fst s" "snd s"] by fastforce
next
  case (Cons r rs)
  then obtain s' where s': "o_next C t s = Inr (True, s')" "cur s' = r" "delivers_to (o_next C t) cur s' rs Q" by auto
  then show ?case using Cons.IH [OF s'(3)] next_keeps [of "fst s" "snd s" t True "fst s'" "snd s'"] Cons.prems(2,3) by simp
qed

end

text \<open>A union keeps what its plans keep, and ends them all.\<close>

definition all_plans :: "('p \<Rightarrow> bool) \<Rightarrow> 'p union_plan \<Rightarrow> bool" where
  "all_plans P u \<longleftrightarrow> un_plans u \<noteq> [] \<and> (\<forall>p \<in> set (un_plans u). P p)"

lemma at_child_keeps:
  assumes "at_child i f (u, w) = Inr (a, u', w')" "all_plans P u" "W w"
    and "\<And>p b p' w'. P p \<Longrightarrow> W w \<Longrightarrow> f (p, w) = Inr (b, p', w') \<Longrightarrow> P p' \<and> W w'"
  shows "all_plans P u' \<and> W w' \<and> length (un_plans u') = length (un_plans u)"
proof -
  obtain p where i: "i < length (un_plans u)" "f (un_plans u ! i, w) = Inr (a, p, w')" "u' = u\<lparr>un_plans := (un_plans u)[i := p]\<rparr>"
    using assms(1) by (auto simp: at_child_def split: if_splits)
  have "P p \<and> W w'" by (rule assms(4) [OF _ assms(3) i(2)]) (use assms(2) i(1) in \<open>simp add: all_plans_def\<close>)
  then show ?thesis using assms(2) set_update_subset_insert [of "un_plans u" i p] by (auto simp: i(3) all_plans_def)
qed

context kept_plan
begin

lemma union_loop_keeps:
  assumes "union_loop fuel C t (u, w) = Inr (b, u', w')" "all_plans P u" "W w"
  shows "all_plans P u' \<and> W w'"
  using assms
proof (induction fuel arbitrary: u w)
  case (Suc fuel)
  from Suc.prems(1) obtain more u1 w1 where n: "at_child (un_currentIndex u) (o_next C t) (u, w) = Inr (more, u1, w1)"
    and rest: "(if more then Inr (True, u1, w1)
       else let u2 = u1\<lparr>un_currentIndex := un_currentIndex u1 + 1\<rparr> in
         if un_currentIndex u2 \<ge> length (un_plans u2) then Inr (False, u2, w1)
         else bindR (at_child (un_currentIndex u2) (\<lambda>s. unit_result (o_begin C t s)) (u2, w1)) (\<lambda>(_, uw').
           union_loop fuel C t uw')) = Inr (b, u', w')" by auto
  have k: "all_plans P u1 \<and> W w1"
    using at_child_keeps [where P = P and W = W, OF n Suc.prems(2,3)] next_keeps by blast
  show ?case
  proof (cases "more \<or> un_currentIndex u1 + 1 \<ge> length (un_plans u1)")
    case True
    then show ?thesis using rest k by (auto simp: Let_def all_plans_def split: if_splits)
  next
    case False
    let ?u2 = "u1\<lparr>un_currentIndex := un_currentIndex u1 + 1\<rparr>"
    obtain x u3 w3 where b: "at_child (un_currentIndex ?u2) (\<lambda>s. unit_result (o_begin C t s)) (?u2, w1) = Inr (x, u3, w3)"
      "union_loop fuel C t (u3, w3) = Inr (b, u', w')"
      using rest False by (auto simp: Let_def)
    have "all_plans P u3 \<and> W w3 \<and> length (un_plans u3) = length (un_plans ?u2)"
    proof (rule at_child_keeps [where P = P and W = W, OF b(1)])
      fix p c p' w' assume "P p" "W w1" "unit_result (o_begin C t (p, w1)) = Inr (c, p', w')"
      then show "P p' \<and> W w'" using begin_keeps [of p w1 t p' w'] by (auto simp: unit_result_def)
    qed (use k in \<open>simp_all add: all_plans_def\<close>)
    then show ?thesis using Suc.IH [OF b(2)] by blast
  qed
qed simp

lemma union_keeps: "kept_plan (union_ops C) (all_plans P) W"
proof
  fix u w t u' w' assume k: "all_plans P u" "W w" and b: "o_begin (union_ops C) t (u, w) = Inr (u', w')"
  define v where "v = (if un_order u = Descend then u\<lparr>un_plans := rev (un_plans u)\<rparr> else u)"
  have v: "all_plans P v" using k(1) by (simp add: v_def all_plans_def)
  obtain x u2 where u2: "at_child 0 (\<lambda>s. unit_result (o_begin C t s)) (v, w) = Inr (x, u2, w')"
    "u' = u2\<lparr>un_currentRow := 0, un_currentIndex := 0\<rparr>"
    using b by (auto simp: union_ops_def union_begin_def Let_def v_def [symmetric])
  have "all_plans P u2 \<and> W w' \<and> length (un_plans u2) = length (un_plans v)"
  proof (rule at_child_keeps [where P = P and W = W, OF u2(1) v k(2)])
    fix p c p' w' assume "P p" "W w" "unit_result (o_begin C t (p, w)) = Inr (c, p', w')"
    then show "P p' \<and> W w'" using begin_keeps [of p w t p' w'] by (auto simp: unit_result_def)
  qed
  then show "all_plans P u' \<and> W w'" by (simp add: u2(2) all_plans_def)
next
  fix u w t b u' w' assume k: "all_plans P u" "W w" and n: "o_next (union_ops C) t (u, w) = Inr (b, u', w')"
  show "all_plans P u' \<and> W w'"
  proof (cases "un_currentIndex u \<ge> length (un_plans u)")
    case True
    then show ?thesis using n k by (simp add: union_ops_def union_next_def)
  next
    case False
    then obtain u1 where "union_loop (length (un_plans u) - un_currentIndex u) C t (u, w) = Inr (b, u1, w')" "un_plans u' = un_plans u1"
      using n by (auto simp: union_ops_def union_next_def split: if_splits)
    then show ?thesis using union_loop_keeps [OF _ k] by (fastforce simp: all_plans_def)
  qed
next
  fix u :: "'p union_plan" and w assume k: "all_plans P u" "W w"
  have "\<exists>u' w'. foldR (\<lambda>uw i. mapR snd (at_child i (\<lambda>s. unit_result (o_end C s)) uw)) (u, w) is = Inr (u', w') \<and>
      all_plans P u' \<and> W w'" if "\<forall>i \<in> set is. i < length (un_plans u)" for "is" :: "nat list"
    using k that
  proof (induction "is" arbitrary: u w rule: list.induct)
    case (Cons i "is")
    then have i: "i < length (un_plans u)" "P (un_plans u ! i)" by (simp_all add: all_plans_def)
    obtain p w1 where e: "o_end C (un_plans u ! i, w) = Inr (p, w1)" "P p" "W w1" using end_keeps [OF i(2) Cons.prems(2)] by blast
    let ?u = "u\<lparr>un_plans := (un_plans u)[i := p]\<rparr>"
    have "all_plans P ?u"
      using Cons.prems(1) e(2) set_update_subset_insert [of "un_plans u" i p] by (auto simp: all_plans_def)
    from Cons.IH [OF this e(3)] Cons.prems(3) show ?case
      using i(1) e(1) by (simp add: at_child_def unit_result_def)
  qed simp
  from this [of "[0..<length (un_plans u)]"]
  show "\<exists>u' w'. o_end (union_ops C) (u, w) = Inr (u', w') \<and> all_plans P u' \<and> W w'"
    by (simp add: union_ops_def union_end_def)
qed

end

section \<open>The plans of a clause\<close>

lemma scan_begin_keeps:
  assumes "scan_begin L D (sc, w) = Inr (sc', w')"
  shows "sc_tableId sc' = sc_tableId sc" "sc_table sc' = sc_table sc" "sc_columnValues sc' = sc_columnValues sc"
    "w_handlers w' = w_handlers w \<or> (\<exists>db. getLevelDBHandler D (sc_tableId sc) (sc_table sc) (w_handlers w) = Inr (db, w_handlers w'))"
  using assms
  by (auto simp: scan_begin_def Let_def scan_ensureRange_def scan_setPredicate_def split: if_splits option.splits)

lemma scan_next_keeps:
  assumes "scan_next fuel L D t (sc, w) = Inr (b, sc', w')"
  shows "sc_tableId sc' = sc_tableId sc" "sc_table sc' = sc_table sc" "length (sc_columnValues sc') = length (sc_columnValues sc)"
    "w_handlers w' = w_handlers w"
  using assms
  by (auto simp: scan_next_def Let_def read_values_def dest!: traverseR_length split: if_splits option.splits)

lemma scan_kept: "kept_plan (scan_ops (pe_fuel E) (pe_lib E) (pe_db E)) (scan_over tid T) (opens E tid T db)"
proof
  fix sc w t sc' w' assume k: "scan_over tid T sc" "opens E tid T db w"
    and "o_begin (scan_ops (pe_fuel E) (pe_lib E) (pe_db E)) t (sc, w) = Inr (sc', w')"
  then have b: "scan_begin (pe_lib E) (pe_db E) (sc, w) = Inr (sc', w')" by (simp add: scan_ops_def)
  obtain hs where hs: "getLevelDBHandler (pe_db E) tid T (w_handlers w) = Inr (db, hs)" using k(2) by (auto simp: opens_def)
  have "getLevelDBHandler (pe_db E) tid T (w_handlers w') = Inr (db, if w_handlers w' = w_handlers w then hs else w_handlers w')"
    using scan_begin_keeps(4) [OF b] k(1) hs getLevelDBHandler_again [OF hs] by (auto simp: scan_over_def)
  then show "scan_over tid T sc' \<and> opens E tid T db w'"
    using scan_begin_keeps(1-3) [OF b] k(1) unfolding scan_over_def opens_def by auto
next
  fix sc w t b sc' w' assume k: "scan_over tid T sc" "opens E tid T db w"
    and "o_next (scan_ops (pe_fuel E) (pe_lib E) (pe_db E)) t (sc, w) = Inr (b, sc', w')"
  then have n: "scan_next (pe_fuel E) (pe_lib E) (pe_db E) t (sc, w) = Inr (b, sc', w')" by (simp add: scan_ops_def)
  show "scan_over tid T sc' \<and> opens E tid T db w'"
    using scan_next_keeps [OF n] k by (simp add: scan_over_def opens_def)
next
  fix sc w assume "scan_over tid T sc" "opens E tid T db w"
  then show "\<exists>sc' w'. o_end (scan_ops (pe_fuel E) (pe_lib E) (pe_db E)) (sc, w) = Inr (sc', w') \<and> scan_over tid T sc' \<and> opens E tid T db w'"
    by (simp add: scan_ops_def scan_close_def scan_over_def)
qed

text \<open>The same for the nodes of a tree.\<close>

lemma tree_end [simp]: "o_end (tree_ops E (Suc d)) s = o_end (node_ops E (tree_ops E d) s) s"
  by (simp add: tree_ops.simps(2) virtual_def)

lemma bare_scan_kept: "kept_plan (tree_ops E (Suc d)) (bare_scan tid T) (opens E tid T db)"
proof -
  note k = scan_kept [of E tid T db]
  show ?thesis
  proof
    fix p w t p' w' assume p: "bare_scan tid T p" "opens E tid T db w" and b: "o_begin (tree_ops E (Suc d)) t (p, w) = Inr (p', w')"
    obtain sc where sc: "p = PT_Scan sc" "scan_over tid T sc" using p(1) by (auto simp: bare_scan_def)
    from b obtain sc' where "o_begin (scan_ops (pe_fuel E) (pe_lib E) (pe_db E)) t (sc, w) = Inr (sc', w')" "p' = PT_Scan sc'"
      by (auto simp: sc(1) at_state_def)
    then show "bare_scan tid T p' \<and> opens E tid T db w'"
      using kept_plan.begin_keeps [OF k sc(2) p(2)] by (simp add: bare_scan_def)
  next
    fix p w t b p' w' assume p: "bare_scan tid T p" "opens E tid T db w" and n: "o_next (tree_ops E (Suc d)) t (p, w) = Inr (b, p', w')"
    obtain sc where sc: "p = PT_Scan sc" "scan_over tid T sc" using p(1) by (auto simp: bare_scan_def)
    from n obtain sc' where "o_next (scan_ops (pe_fuel E) (pe_lib E) (pe_db E)) t (sc, w) = Inr (b, sc', w')" "p' = PT_Scan sc'"
      by (auto simp: sc(1) at_state_def)
    then show "bare_scan tid T p' \<and> opens E tid T db w'"
      using kept_plan.next_keeps [OF k sc(2) p(2)] by (simp add: bare_scan_def)
  next
    fix p w assume p: "bare_scan tid T p" "opens E tid T db w"
    obtain sc where sc: "p = PT_Scan sc" "scan_over tid T sc" using p(1) by (auto simp: bare_scan_def)
    from kept_plan.end_keeps [OF k sc(2) p(2)]
    show "\<exists>p' w'. o_end (tree_ops E (Suc d)) (p, w) = Inr (p', w') \<and> bare_scan tid T p' \<and> opens E tid T db w'"
      by (auto simp: bare_scan_def at_state_def sc(1))
  qed
qed

lemma filter_next_keeps:
  assumes "kept_plan C P W"
  shows "filter_next fuel L C t (f, p, w) = Inr (b, f', p', w') \<Longrightarrow> P p \<Longrightarrow> W w \<Longrightarrow> P p' \<and> W w'"
proof (induction fuel arbitrary: p w)
  case (Suc fuel)
  from Suc.prems(1) obtain more p1 w1 where n: "o_next C t (p, w) = Inr (more, p1, w1)"
    and rest: "\<not> more \<and> p' = p1 \<and> w' = w1 \<or> more \<and> (p' = p1 \<and> w' = w1 \<or> filter_next fuel L C t (f, p1, w1) = Inr (b, f', p', w'))"
    by (auto split: if_splits)
  from kept_plan.next_keeps [OF assms Suc.prems(2,3) n] show ?case using rest Suc.IH by blast
qed simp

lemma filtered_scan_kept: "kept_plan (tree_ops E (Suc (Suc d))) (filtered_scan tid T) (opens E tid T db)"
proof -
  note k = bare_scan_kept [of E d tid T db] and k' = bare_scan_kept [of E "Suc d" tid T db]
  show ?thesis
  proof
    fix p w t p' w' assume p: "filtered_scan tid T p" "opens E tid T db w" and b: "o_begin (tree_ops E (Suc (Suc d))) t (p, w) = Inr (p', w')"
    from p(1) consider "bare_scan tid T p" | f q where "p = PT_Filter f q" "bare_scan tid T q" by (auto simp: filtered_scan_def)
    then show "filtered_scan tid T p' \<and> opens E tid T db w'"
    proof cases
      case 1
      then show ?thesis using kept_plan.begin_keeps [OF k' 1 p(2) b] by (simp add: filtered_scan_def)
    next
      case 2
      then obtain q' where "o_begin (tree_ops E (Suc d)) t (q, w) = Inr (q', w')" "\<exists>f. p' = PT_Filter f q'"
        using b by (auto simp: node_at_def at_state_def filter_ops_def filter_begin_def simp del: tree_calls(1)
          simp: tree_calls(1) [of _ "Suc d"])
      then show ?thesis using kept_plan.begin_keeps [OF k 2(2) p(2)] by (auto simp: filtered_scan_def)
    qed
  next
    fix p w t b p' w' assume p: "filtered_scan tid T p" "opens E tid T db w" and n: "o_next (tree_ops E (Suc (Suc d))) t (p, w) = Inr (b, p', w')"
    from p(1) consider "bare_scan tid T p" | f q where "p = PT_Filter f q" "bare_scan tid T q" by (auto simp: filtered_scan_def)
    then show "filtered_scan tid T p' \<and> opens E tid T db w'"
    proof cases
      case 1
      then show ?thesis using kept_plan.next_keeps [OF k' 1 p(2) n] by (simp add: filtered_scan_def)
    next
      case 2
      then obtain f' q' where "filter_next (pe_fuel E) (pe_lib E) (tree_ops E (Suc d)) t (f, q, w) = Inr (b, f', q', w')" "p' = PT_Filter f' q'"
        using n by (auto simp: node_at_def at_state_def filter_ops_def)
      then show ?thesis using filter_next_keeps [OF k _ 2(2) p(2)] by (auto simp: filtered_scan_def)
    qed
  next
    fix p w assume p: "filtered_scan tid T p" "opens E tid T db w"
    from p(1) consider "bare_scan tid T p" | f q where "p = PT_Filter f q" "bare_scan tid T q" by (auto simp: filtered_scan_def)
    then show "\<exists>p' w'. o_end (tree_ops E (Suc (Suc d))) (p, w) = Inr (p', w') \<and> filtered_scan tid T p' \<and> opens E tid T db w'"
    proof cases
      case 1
      then show ?thesis using kept_plan.end_keeps [OF k' 1 p(2)] by (auto simp: filtered_scan_def simp del: tree_end)
    next
      case 2
      obtain q' w' where "o_end (tree_ops E (Suc d)) (q, w) = Inr (q', w')" "bare_scan tid T q'" "opens E tid T db w'"
        using kept_plan.end_keeps [OF k 2(2) p(2)] by blast
      then show ?thesis using 2(1)
        by (auto simp: filtered_scan_def node_at_def at_state_def filter_ops_def single_ops_def tree_end [of _ "Suc d"] simp del: tree_end)
    qed
  qed
qed

lemma clause_plan_kept: "kept_plan (tree_ops E (Suc (Suc (Suc d)))) (clause_plan tid T) (opens E tid T db)"
proof -
  note k' = filtered_scan_kept [of E "Suc d" tid T db]
    and k = kept_plan.union_keeps [OF filtered_scan_kept [of E d tid T db]]
  show ?thesis
  proof
    fix p w t p' w' assume p: "clause_plan tid T p" "opens E tid T db w" and b: "o_begin (tree_ops E (Suc (Suc (Suc d)))) t (p, w) = Inr (p', w')"
    from p(1) consider "filtered_scan tid T p" | u ps where "p = PT_Union u ps" "all_plans (filtered_scan tid T) (union_of u ps)"
      by (auto simp: clause_plan_def union_of_def all_plans_def)
    then show "clause_plan tid T p' \<and> opens E tid T db w'"
    proof cases
      case 1
      then show ?thesis using kept_plan.begin_keeps [OF k' 1 p(2) b] by (simp add: clause_plan_def)
    next
      case 2
      then obtain v where "o_begin (union_ops (tree_ops E (Suc (Suc d)))) t (union_of u ps, w) = Inr (v, w')" "p' = of_union v"
        using b by (auto simp: at_state_def simp del: tree_calls(1) simp: tree_calls(1) [of _ "Suc (Suc d)"])
      then show ?thesis using kept_plan.begin_keeps [OF k 2(2) p(2)] by (auto simp: clause_plan_def of_union_def all_plans_def)
    qed
  next
    fix p w t b p' w' assume p: "clause_plan tid T p" "opens E tid T db w" and n: "o_next (tree_ops E (Suc (Suc (Suc d)))) t (p, w) = Inr (b, p', w')"
    from p(1) consider "filtered_scan tid T p" | u ps where "p = PT_Union u ps" "all_plans (filtered_scan tid T) (union_of u ps)"
      by (auto simp: clause_plan_def union_of_def all_plans_def)
    then show "clause_plan tid T p' \<and> opens E tid T db w'"
    proof cases
      case 1
      then show ?thesis using kept_plan.next_keeps [OF k' 1 p(2) n] by (simp add: clause_plan_def)
    next
      case 2
      then obtain v where "o_next (union_ops (tree_ops E (Suc (Suc d)))) t (union_of u ps, w) = Inr (b, v, w')" "p' = of_union v"
        using n by (auto simp: at_state_def simp del: tree_calls(2) simp: tree_calls(2) [of _ "Suc (Suc d)"])
      then show ?thesis using kept_plan.next_keeps [OF k 2(2) p(2)] by (auto simp: clause_plan_def of_union_def all_plans_def)
    qed
  next
    fix p w assume p: "clause_plan tid T p" "opens E tid T db w"
    from p(1) consider "filtered_scan tid T p" | u ps where "p = PT_Union u ps" "all_plans (filtered_scan tid T) (union_of u ps)"
      by (auto simp: clause_plan_def union_of_def all_plans_def)
    then show "\<exists>p' w'. o_end (tree_ops E (Suc (Suc (Suc d)))) (p, w) = Inr (p', w') \<and> clause_plan tid T p' \<and> opens E tid T db w'"
    proof cases
      case 1
      then show ?thesis using kept_plan.end_keeps [OF k' 1 p(2)] by (auto simp: clause_plan_def simp del: tree_end)
    next
      case 2
      obtain v w' where "o_end (union_ops (tree_ops E (Suc (Suc d)))) (union_of u ps, w) = Inr (v, w')"
        "all_plans (filtered_scan tid T) v" "opens E tid T db w'"
        using kept_plan.end_keeps [OF k 2(2) p(2)] by blast
      then show ?thesis using 2(1)
        by (auto simp: clause_plan_def of_union_def all_plans_def at_state_def tree_end [of _ "Suc (Suc d)"] simp del: tree_end)
    qed
  qed
qed

interpretation clause: kept_plan "tree_ops E (Suc (Suc (Suc d)))" "clause_plan tid T" "opens E tid T db" for E d tid T db
  by (rule clause_plan_kept)
section \<open>The types of a plan\<close>

context kept_plan
begin

lemma delivers_holds:
  assumes "delivers_to (o_next C t) (o_getResult C) s rs Q" "P (fst s)" "W (snd s)"
    and "\<And>p w. P p \<Longrightarrow> W w \<Longrightarrow> o_getResult C (p, w) \<in> set rs \<Longrightarrow> G (p, w)"
  shows "delivers (o_next C t) G s (replicate (length rs) True)"
  using assms
proof (induction rs arbitrary: s)
  case (Cons r rs)
  then obtain s' where s': "o_next C t s = Inr (True, s')" "o_getResult C s' = r" "delivers_to (o_next C t) (o_getResult C) s' rs Q" by auto
  have k: "P (fst s')" "W (snd s')"
    using next_keeps [of "fst s" "snd s" t True "fst s'" "snd s'"] s'(1) Cons.prems(2,3) by simp_all
  have "G s'" using Cons.prems(4) [of "fst s'" "snd s'"] k s'(2) by simp
  moreover have "delivers (o_next C t) G s' (replicate (length rs) True)"
    by (rule Cons.IH [OF s'(3) k]) (use Cons.prems(4) in simp)
  ultimately show ?case using s'(1) by simp
qed auto

end

text \<open>A scan announces the types of its table; a union widens integers.\<close>

definition widened :: "DBDataType \<Rightarrow> DBDataType" where
  "widened t = (case t of DT_INT16 \<Rightarrow> DT_INT64 | DT_INT32 \<Rightarrow> DT_INT64 | DT_INT64 \<Rightarrow> DT_INT64 | _ \<Rightarrow> t)"

lemma scan_type: "bare_scan tid T p \<Longrightarrow> o_getResultType (tree_ops E (Suc d)) (p, w) j = scan_ty T j"
  by (auto simp: bare_scan_def scan_over_def at_state_def scan_ops_def scan_ty_def scan_getResultType_def newLevelDBScanPlan_def)

lemma filtered_type:
  assumes "filtered_scan tid T p"
  shows "o_getResultType (tree_ops E (Suc (Suc d))) (p, w) j = scan_ty T j"
  using assms unfolding filtered_scan_def
proof (elim disjE exE conjE)
  assume "bare_scan tid T p"
  then show ?thesis by (rule scan_type)
next
  fix f q assume "p = PT_Filter f q" "bare_scan tid T q"
  then show ?thesis using scan_type [of tid T q E d w j]
    by (simp add: node_at_def at_state_def filter_ops_def single_ops_def tree_calls(4) [of _ "Suc d"] del: tree_calls)
qed

lemma clause_type:
  assumes "clause_plan tid T p" "scan_ty T j = Inr t"
  shows "o_getResultType (tree_ops E (Suc (Suc (Suc d)))) (p, w) j \<in> {Inr t, Inr (widened t)}"
  using assms(1) unfolding clause_plan_def
proof (elim disjE exE conjE)
  assume "filtered_scan tid T p"
  then show ?thesis using filtered_type [of tid T p E "Suc d" w j] assms(2) by simp
next
  fix u ps assume p: "p = PT_Union u ps" "ps \<noteq> []" "\<forall>q \<in> set ps. filtered_scan tid T q"
  let ?C = "tree_ops E (Suc (Suc d))"
  obtain q qs where ps: "ps = q # qs" using p(2) by (cases ps) auto
  have "o_getResultType ?C (q, w) j = Inr t" using filtered_type [of tid T q E d w j] p(3) ps assms(2) by simp
  then have "union_getResultType ?C (union_of u ps, w) j = Inr (widened t)"
    by (simp add: union_getResultType_def union_first_def union_of_def ps widened_def del: tree_calls)
  moreover have "o_getResultType (tree_ops E (Suc (Suc (Suc d)))) (p, w) j = union_getResultType ?C (union_of u ps, w) j"
    unfolding tree_calls(4) node_ops.simps at_state_def p(1) by (simp add: union_ops_def del: tree_calls union_of_union)
  ultimately show ?thesis by simp
qed

text \<open>A value of a column, at the type that the plan announces for it.\<close>

definition typed_column :: "'s plan_ops \<Rightarrow> 's \<Rightarrow> nat \<Rightarrow> bool" where
  "typed_column C s j \<longleftrightarrow> (case o_getResultType C s j of Inl e \<Rightarrow> False
     | Inr t \<Rightarrow> (case (getHandler t, o_getResult C s j t) of (Some h, Inr v) \<Rightarrow> value_ok h v | _ \<Rightarrow> False))"

lemma typed_columnI:
  "o_getResultType C s j = Inr t \<Longrightarrow> getHandler t = Some h \<Longrightarrow> o_getResult C s j t = Inr v \<Longrightarrow> value_ok h v \<Longrightarrow> typed_column C s j"
  by (simp add: typed_column_def)

lemma typed_widened: "column_ok t v \<Longrightarrow> t' \<in> {t, widened t} \<Longrightarrow> \<exists>h. getHandler t' = Some h \<and> value_ok h v"
  by (auto simp: column_ok_def widened_def getHandler_def value_ok_def int_min_def int_max_def split: option.splits DBDataType.splits eresult.splits)

lemma clause_rows_typed:
  assumes built: "plan_shows E (Suc (Suc (Suc d))) contents tid T rs pw hits" and T: "keyed_table (pe_lib E) T"
    and rows: "table_rows (pe_lib E) (fst (scan_types T)) vt rs" and hits: "set hits \<subseteq> set rs"
  shows "\<exists>s. o_begin (tree_ops E (Suc (Suc (Suc d)))) False pw = Inr s \<and>
    delivers (o_next (tree_ops E (Suc (Suc (Suc d)))) False) (\<lambda>s'. \<forall>j < getKeyCount T. typed_column (tree_ops E (Suc (Suc (Suc d)))) s' j) s
      (replicate (length hits) True)"
proof -
  let ?C = "tree_ops E (Suc (Suc (Suc d)))" and ?kt = "fst (scan_types T)"
  obtain p w where pw: "pw = (p, w)" by (cases pw)
  obtain db s shown where sh: "clause_plan tid T p" "opens E tid T db w" "o_begin ?C False (p, w) = Inr s"
    "delivers (o_next ?C False) (o_getResult ?C) s shown" "list_all2 (shows_row T) shown hits"
    using built unfolding plan_shows_def pw fst_conv snd_conv by blast
  have kept: "clause_plan tid T (fst s)" "opens E tid T db (snd s)"
    using clause.begin_keeps [OF sh(1,2), of d False "fst s" "snd s"] sh(3) by simp_all
  have typed: "\<forall>j < getKeyCount T. typed_column ?C (q, v) j"
    if q: "clause_plan tid T q" "o_getResult ?C (q, v) \<in> set shown" for q v
  proof (intro allI impI)
    fix j assume j: "j < getKeyCount T"
    obtain i where i: "i < length shown" "shown ! i = o_getResult ?C (q, v)" using q(2) unfolding in_set_conv_nth by blast
    obtain e ks vs where r: "hits ! i = (e, ks, vs)" by (cases "hits ! i")
    have "i < length hits" using i(1) list_all2_lengthD [OF sh(5)] by (simp only:)
    from nth_mem [OF this] have "(e, ks, vs) \<in> set rs" using hits unfolding r by (rule rev_subsetD)
    moreover have "shows_row T (o_getResult ?C (q, v)) (e, ks, vs)" using list_all2_nthD [OF sh(5) i(1)] unfolding i(2) r .
    ultimately have row: "(e, ks, vs) \<in> set rs" "shows_row T (o_getResult ?C (q, v)) (e, ks, vs)" by (simp_all only:)
    have keys: "list_all2 column_ok ?kt ks" by (rule table_row_keys [OF rows row(1)])
    have shown: "o_getResult ?C (q, v) j t = Inr (ks ! j)" for t
      using row(2) table_frame_key [OF j keys, of e vs t] j unfolding shows_row_def by (metis leD)
    have ok: "column_ok (?kt ! j) (ks ! j)" using list_all2_nthD [OF keys, of j] j by (simp add: scan_types_lengths)
    obtain t where t: "o_getResultType ?C (q, v) j = Inr t" "t \<in> {?kt ! j, widened (?kt ! j)}"
      using clause_type [OF q(1) key_types(1) [OF T j], of E d v] by blast
    obtain h where "getHandler t = Some h" "value_ok h (ks ! j)" using typed_widened [OF ok t(2)] by blast
    from typed_columnI [OF t(1) this(1) shown this(2)] show "typed_column ?C (q, v) j" .
  qed
  have "delivers (o_next ?C False) (\<lambda>s'. \<forall>j < getKeyCount T. typed_column ?C s' j) s (replicate (length shown) True)"
    by (rule clause.delivers_holds [OF sh(4) kept]) (rule typed)
  note this [unfolded list_all2_lengthD [OF sh(5)]]
  with sh(3) show ?thesis unfolding pw by (intro exI conjI)
qed

text \<open>
  C6.  Every row that the plan of a \<open>WHERE\<close> clause delivers has, in each key column, a value of the type
  the plan announces for the column: the type by which a session formats the value and by which plans
  above compare it.
\<close>

theorem where_rows_typed:
  assumes "buildSelectPlan E sorter tid T p w = Inr pw" "stored_table E contents tid T w rs" "keyed_table (pe_lib E) T"
    and "\<forall>q \<in> set (alternatives p). conjunction_ok E T rs q" "p = NullNode \<or> alternatives p \<noteq> []"
    and "bounds_ok (pe_lib E) T p" "permutes sorter" "3 \<le> pe_depth E"
  shows "\<exists>s. o_begin (plan_calls E) False pw = Inr s \<and>
    delivers (o_next (plan_calls E) False) (\<lambda>s'. \<forall>j < getKeyCount T. typed_column (plan_calls E) s' j) s
      (replicate (length (filter (where_true (pe_lib E) T p) rs)) True)"
proof -
  obtain d where d: "pe_depth E = Suc (Suc (Suc d))" using assms(8) that [of "pe_depth E - 3"] by simp
  have rows: "table_rows (pe_lib E) (fst (scan_types T)) (snd (scan_types T)) rs" using assms(2) by (auto simp: stored_table_def)
  from clause_rows_typed [OF buildSelectPlan_shows [OF assms(1-7) refl] assms(3) rows, of d]
  show ?thesis unfolding plan_calls_def d by auto
qed

theorem where_rows_typed_witness:
  "\<exists>k1 k2 k3 pw s. buildSelectPlan ex_env insertion_sort 0 ex_keyed ex_or (ex_world (ex_table k1 k2 k3)) = Inr pw \<and>
    o_begin (plan_calls ex_env) False pw = Inr s \<and>
    delivers (o_next (plan_calls ex_env) False) (\<lambda>s'. \<forall>j < getKeyCount ex_keyed. typed_column (plan_calls ex_env) s' j) s [True, True]"
proof -
  obtain k1 k2 k3 where rows: "table_rows ex_lib ex_types [] (ex_table k1 k2 k3)" by (rule ex_table_rows)
  let ?rs = "ex_table k1 k2 k3"
  obtain pw where pw: "buildSelectPlan ex_env insertion_sort 0 ex_keyed ex_or (ex_world ?rs) = Inr pw" using ex_plan by blast
  have lib: "pe_lib ex_env = ex_lib" "3 \<le> pe_depth ex_env" by (simp_all add: ex_env_def)
  have hits: "replicate (length (filter (where_true ex_lib ex_keyed ex_or) ?rs)) True = [True, True]"
    by (simp add: ex_table_def ex_or_true)
  have "ex_or = NullNode \<or> alternatives ex_or \<noteq> []" by (simp add: ex_alternatives)
  from where_rows_typed [OF pw ex_stored [OF rows] _ ex_conjunctions this _ insertion_sort_permutes lib(2), unfolded lib(1), OF ex_is_keyed ex_bounds]
  show ?thesis unfolding hits using pw by blast
qed

end
