(* ===== verification/WhereDelete.thy ===== *)
theory WhereDelete
  imports ClausePlans
begin

text \<open>
  \<open>DELETE ... WHERE\<close> as \<open>LevelDBPlanBuilder::buildDeletePlan\<close> builds it: a delete plan over whatever
  plan \<open>buildSelectPlan\<close> makes of the clause.  The theorem: it removes exactly the rows on which the
  clause is true.
\<close>

section \<open>The row key\<close>

text \<open>The row key is a column of every such plan, and asking for it changes nothing.\<close>

lemma rowkey_of_scan:
  assumes "EqualsIgnoreCase (pe_lib E) ROWKEY ROWKEY" "getKeyCount T \<le> getColumnCount T" "bare_scan tid T p"
  shows "o_addProjection (tree_ops E (Suc d)) rowkey_node (p, w) = Inr (int (getColumnCount T), p, w)"
proof -
  obtain sc where sc: "p = PT_Scan sc" "scan_over tid T sc" using assms(3) by (auto simp: bare_scan_def)
  have "isRowKeyNode (pe_lib E) rowkey_node" using assms(1) by (simp add: isRowKeyNode_def rowkey_node_def)
  then show ?thesis using sc assms(2)
    by (simp add: at_state_def scan_ops_def scan_addProjection_def scan_over_def)
qed

lemma rowkey_of_filtered:
  assumes "EqualsIgnoreCase (pe_lib E) ROWKEY ROWKEY" "getKeyCount T \<le> getColumnCount T" "filtered_scan tid T p"
  shows "o_addProjection (tree_ops E (Suc (Suc d))) rowkey_node (p, w) = Inr (int (getColumnCount T), p, w)"
  using assms(3) unfolding filtered_scan_def
proof (elim disjE exE conjE)
  assume "bare_scan tid T p"
  then show ?thesis by (rule rowkey_of_scan [OF assms(1,2)])
next
  fix f q assume "p = PT_Filter f q" "bare_scan tid T q"
  then show ?thesis using rowkey_of_scan [OF assms(1,2), of tid q d w]
    by (simp add: node_at_def at_state_def filter_ops_def single_ops_def tree_calls(5) [of _ "Suc d"] del: tree_calls)
qed

lemma rowkey_of_children:
  assumes "\<And>p w. p \<in> set (un_plans u) \<Longrightarrow> o_addProjection C rowkey_node (p, w) = Inr (int n, p, w)"
    and "\<forall>i \<in> set is. i < length (un_plans u)" "m = -1 \<or> m = int n"
  shows "union_addProjection_loop C rowkey_node is m (u, w) = Inr (if is = [] then m else int n, u, w)"
  using assms(2,3)
proof (induction "is" arbitrary: m rule: list.induct)
  case (Cons i "is")
  then have "at_child i (o_addProjection C rowkey_node) (u, w) = Inr (int n, u, w)"
    using assms(1) [of "un_plans u ! i" w] by (simp add: at_child_def)
  then show ?case using Cons by auto
qed simp

lemma rowkey_of_clause:
  assumes "EqualsIgnoreCase (pe_lib E) ROWKEY ROWKEY" "getKeyCount T \<le> getColumnCount T" "clause_plan tid T p"
  shows "o_addProjection (tree_ops E (Suc (Suc (Suc d)))) rowkey_node (p, w) = Inr (int (getColumnCount T), p, w)"
  using assms(3) unfolding clause_plan_def
proof (elim disjE exE conjE)
  assume "filtered_scan tid T p"
  then show ?thesis using rowkey_of_filtered [OF assms(1,2), of tid p "Suc d"] by simp
next
  fix u ps assume p: "p = PT_Union u ps" "\<forall>q \<in> set ps. filtered_scan tid T q" and u: "un_plans u = []" and ps: "ps \<noteq> []"
  let ?u = "union_of u ps" and ?C = "tree_ops E (Suc (Suc d))"
  have plans: "un_plans ?u = ps" by (simp add: union_of_def)
  have each: "o_addProjection ?C rowkey_node (q, v) = Inr (int (getColumnCount T), q, v)" if "q \<in> set (un_plans ?u)" for q v
    by (rule rowkey_of_filtered [where tid = tid, OF assms(1,2)]) (use p(2) that plans in simp)
  have "union_addProjection_loop ?C rowkey_node [0..<length (un_plans ?u)] (-1) (?u, w) = Inr (int (getColumnCount T), ?u, w)"
    using rowkey_of_children [of ?u ?C "getColumnCount T" "[0..<length (un_plans ?u)]" "-1" w, OF each] ps
    by (simp add: plans del: tree_calls)
  then have "union_addProjection ?C rowkey_node (?u, w) = Inr (int (getColumnCount T), ?u, w)"
    using ps by (simp add: union_addProjection_def plans)
  moreover have "of_union ?u = PT_Union u ps" by (cases u) (use u in \<open>simp add: of_union_def union_of_def\<close>)
  moreover have "o_addProjection (tree_ops E (Suc (Suc (Suc d)))) rowkey_node (PT_Union u ps, w) =
      mapR (apsnd (\<lambda>(u, w). (of_union u, w))) (union_addProjection ?C rowkey_node (?u, w))"
    unfolding tree_calls(5) node_ops.simps at_state_def by (simp add: union_ops_def del: tree_calls union_of_union)
  ultimately show ?thesis unfolding p(1) by (simp del: tree_calls union_of_union)
qed

section \<open>The rows of a delete\<close>

definition delete_node :: "delete_plan \<times> plan \<times> ('db, 'it) world \<Rightarrow> plan \<times> ('db, 'it) world" where
  "delete_node = node_of PT_Delete"

lemma delete_node_calls:
  "o_begin (tree_ops E (Suc d)) t (delete_node s) = mapR delete_node (o_begin (delete_ops (pe_lib E) (pe_db E) (tree_ops E d)) t s)"
  "o_next (tree_ops E (Suc d)) t (delete_node s) = mapR (apsnd delete_node) (o_next (delete_ops (pe_lib E) (pe_db E) (tree_ops E d)) t s)"
  "o_end (tree_ops E (Suc d)) (delete_node s) = mapR delete_node (o_end (delete_ops (pe_lib E) (pe_db E) (tree_ops E d)) s)"
  "o_getInfoString (tree_ops E (Suc d)) (delete_node s) = o_getInfoString (delete_ops (pe_lib E) (pe_db E) (tree_ops E d)) s"
  by (cases s; simp add: delete_node_def node_of_def node_at_def at_state_def)+

lemma shown_rowkeys:
  assumes "getKeyCount T \<le> getColumnCount T" "list_all2 (shows_row T) rows hits"
  shows "list_all2 (\<lambda>r k. r (getColumnCount T) DT_BYTES = Inr (R_StringView (string_of k))) rows (map (fst \<circ> fst) hits)"
proof -
  have "r (getColumnCount T) DT_BYTES = Inr (R_StringView (string_of (fst (fst row))))" if "shows_row T r row" for r row
  proof -
    obtain e ks vs where row: "row = (e, ks, vs)" by (cases row)
    have "r (getColumnCount T) DT_BYTES = fst (table_frame T row) (getColumnCount T) DT_BYTES"
      using that unfolding shows_row_def by blast
    also have "\<dots> = Inr (R_StringView (string_of (fst e)))"
      using view_row_rowkey [of "getKeyCount T" ks "replicate (getColumnCount T - getKeyCount T) True" "snd (scan_types T)" vs "fst e" DT_BYTES] assms(1)
      by (simp add: table_frame_def shape_frame_def row_view_def row)
    finally show ?thesis by (simp add: row)
  qed
  with assms(2) show ?thesis unfolding list_all2_map2 by (auto elim!: list_all2_mono)
qed

lemma delete_over_clause:
  assumes built: "plan_shows E (Suc (Suc (Suc d))) contents tid T rs pw (filter P rs)"
    and key: "EqualsIgnoreCase (pe_lib E) ROWKEY ROWKEY" "getKeyCount T \<le> getColumnCount T"
    and laws: "db_laws (pe_db E) (key_cmp (pe_lib E) (fst (scan_types T))) contents ents pos"
    and rows: "table_rows (pe_lib E) (fst (scan_types T)) (snd (scan_types T)) rs"
  shows "\<exists>s. o_begin (tree_ops E (Suc (Suc (Suc (Suc d))))) False (delete_node (newLevelDBDeletePlan tid T, pw)) = Inr s \<and>
    delivers_to (o_next (tree_ops E (Suc (Suc (Suc (Suc d))))) False) (\<lambda>_. ()) s (map (\<lambda>_. ()) (filter P rs))
      (\<lambda>s'. o_getInfoString (tree_ops E (Suc (Suc (Suc (Suc d))))) s' = Inr (''DELETE '' @ nat_to_string (length (filter P rs))) \<and>
        commits tid (o_end (tree_ops E (Suc (Suc (Suc (Suc d))))) s') contents (\<lambda>rs'. rs' = filter (\<lambda>x. \<not> P x) rs))"
proof -
  let ?C = "tree_ops E (Suc (Suc (Suc d)))" and ?new = "newLevelDBDeletePlan tid T"
  let ?O = "delete_ops (pe_lib E) (pe_db E) ?C"
  obtain p w where pw: "pw = (p, w)" by (cases pw)
  obtain db s rows where sh: "clause_plan tid T p" "opens E tid T db w" "contents db = map fst rs"
    "o_begin ?C False (p, w) = Inr s" "delivers (o_next ?C False) (o_getResult ?C) s rows" "list_all2 (shows_row T) rows (filter P rs)"
    using built unfolding plan_shows_def pw fst_conv snd_conv by blast
  let ?dp = "?new\<lparr>de_projection := int (getColumnCount T), de_rows := 0\<rparr>"
  have started: "o_begin ?O False (?new, pw) = Inr (?dp, s)"
    using rowkey_of_clause [OF key sh(1), of d w] sh(4) by (simp add: delete_ops_def delete_begin_def pw del: tree_calls)
  have kept: "clause_plan tid T (fst s)" "opens E tid T db (snd s)"
    using clause.begin_keeps [OF sh(1,2), of d False "fst s" "snd s"] sh(4) by simp_all
  let ?keys = "map (fst \<circ> fst) (filter P rs)"
  have keys: "list_all2 (\<lambda>r k. r (nat (de_projection ?dp)) DT_BYTES = Inr (R_StringView (string_of k))) rows ?keys"
    using shown_rowkeys [OF key(2) sh(6)] by simp
  from delete_delivers [OF clause.delivers_keeps [OF sh(5) kept] keys, of "pe_lib E"]
  have d: "delivers_to (o_next ?O False) (\<lambda>_. ()) (?dp, s) (map (\<lambda>_. ()) (filter P rs))
    (\<lambda>(dp', s'). opens E tid T db (snd s') \<and> clause_plan tid T (fst s') \<and> de_batch dp' = map Del ?keys \<and>
      de_rows dp' = length (filter P rs) \<and> de_table dp' = T \<and> de_tableId dp' = tid)"
    by (auto simp: delete_ops_def newLevelDBDeletePlan_def comp_def simp del: tree_calls elim!: delivers_to_mono)
  have final: "o_getInfoString ?O s' = Inr (''DELETE '' @ nat_to_string (length (filter P rs))) \<and>
      commits tid (mapR delete_node (o_end ?O s')) contents (\<lambda>rs'. rs' = filter (\<lambda>x. \<not> P x) rs)"
    if fin: "case s' of (dp', s') \<Rightarrow> opens E tid T db (snd s') \<and> clause_plan tid T (fst s') \<and> de_batch dp' = map Del ?keys \<and>
      de_rows dp' = length (filter P rs) \<and> de_table dp' = T \<and> de_tableId dp' = tid" for s'
  proof -
    obtain dp' p' w' where s': "s' = (dp', p', w')" "opens E tid T db w'" "clause_plan tid T p'" "de_batch dp' = map Del ?keys"
      "de_rows dp' = length (filter P rs)" "de_table dp' = T" "de_tableId dp' = tid" using fin by (cases s') (auto simp del: map_map)
    obtain p2 w2 where e: "o_end ?C (p', w') = Inr (p2, w2)" "opens E tid T db w2" using clause.end_keeps [OF s'(3,2)] by blast
    obtain hs where hs: "getLevelDBHandler (pe_db E) tid T (w_handlers w2) = Inr (db, hs)" using e(2) by (auto simp: opens_def)
    have "set (filter P rs) = {r \<in> set rs. P r}" by auto
    from delete_hits [OF rows this] sh(3)
    have "foldl (apply_op (key_cmp (pe_lib E) (fst (scan_types T)))) (contents db) (map Del ?keys) = map fst (filter (\<lambda>x. \<not> P x) rs)" by simp
    then have "commits tid (mapR (Pair (PT_Delete dp' p2)) (commit_batch (pe_db E) tid T (map Del ?keys) w2)) contents
      (\<lambda>rs'. rs' = filter (\<lambda>x. \<not> P x) rs)"
      by (rule commit_batch_commits [where P = "\<lambda>rs'. rs' = filter (\<lambda>x. \<not> P x) rs", OF hs laws _ refl])
    moreover have "mapR delete_node (o_end ?O s') = mapR (Pair (PT_Delete dp' p2)) (commit_batch (pe_db E) tid T (map Del ?keys) w2)"
      unfolding s'(1) by (cases "commit_batch (pe_db E) tid T (map Del ?keys) w2")
        (simp_all add: delete_ops_def delete_end_def e(1) s'(4-7) delete_node_def node_of_def del: tree_end)
    ultimately show ?thesis by (simp add: delete_ops_def s' delete_getInfoString_def)
  qed
  have "o_begin (tree_ops E (Suc (Suc (Suc (Suc d))))) False (delete_node (?new, pw)) = Inr (delete_node (?dp, s))"
    unfolding delete_node_calls started by simp
  moreover have "delivers_to (o_next (tree_ops E (Suc (Suc (Suc (Suc d))))) False) (\<lambda>_. ()) (delete_node (?dp, s)) (map (\<lambda>_. ()) (filter P rs))
      (\<lambda>s'. o_getInfoString (tree_ops E (Suc (Suc (Suc (Suc d))))) s' = Inr (''DELETE '' @ nat_to_string (length (filter P rs))) \<and>
        commits tid (o_end (tree_ops E (Suc (Suc (Suc (Suc d))))) s') contents (\<lambda>rs'. rs' = filter (\<lambda>x. \<not> P x) rs))"
  proof (rule delivers_to_sim [OF _ _ d])
    show "o_next (tree_ops E (Suc (Suc (Suc (Suc d))))) False (delete_node x) = mapR (apsnd delete_node) (o_next ?O False x)" for x
      by (rule delete_node_calls)
  qed (simp, unfold delete_node_calls, erule final)
  ultimately show ?thesis by blast
qed


definition ex_delete :: pnode where
  "ex_delete = PNode 0 NT_PLAN OP_REMOVE [] [] [PNode 0 NT_NAME OP_NONE ''t'' ''t'' [], ex_or]"


end
