(* ===== verification/InsertValues.thy ===== *)
theory InsertValues
  imports WherePlans
begin

text \<open>
  \<open>INSERT INTO ... VALUES\<close> as \<open>LevelDBPlanBuilder::buildPlan\<close> builds it: an insert plan over the plan of a
  \<open>VALUES\<close> list.  The theorem: for a table whose key lists its columns in the order of the table, the
  plan is built, and it takes the lines of the list into the table.
\<close>

section \<open>The plan of a VALUES list\<close>

lemma const_addRows:
  "cp_rows (foldl const_addRow p lines) = cp_rows p @ lines \<and>
   cp_columns (foldl const_addRow p lines) = cp_columns (if cp_rows p = [] \<and> lines \<noteq> [] then const_addRow p (hd lines) else p)"
  by (induction lines arbitrary: p) (auto simp: const_addRow_def)

lemma const_rows_same_width:
  assumes "\<forall>l \<in> set lines. l \<noteq> NullNode \<and> length (n_children l) = n"
    and "\<forall>l. prev = Some l \<longrightarrow> length (n_children l) = n"
  shows "const_rows prev lines p = Inr (foldl const_addRow p lines)"
  using assms by (induction lines arbitrary: prev p) (auto simp: nonnull_def split: option.splits)

lemma values_plan:
  assumes "pValues \<noteq> NullNode" "lines \<noteq> []" "n_children pValues = lines" "\<forall>l \<in> set lines. l \<noteq> NullNode \<and> length (n_children l) = n"
  obtains c where "buildPlanForConst pValues = Inr (PT_Const c)" "cp_rows c = lines" "length (cp_columns c) = n"
proof (rule that)
  let ?c = "foldl const_addRow newConstPlan lines"
  show "buildPlanForConst pValues = Inr (PT_Const ?c)"
    using const_rows_same_width [OF assms(4), of None newConstPlan] assms(1,3) by (simp add: buildPlanForConst_def nonnull_def)
  show "cp_rows ?c = lines" by (simp add: const_addRows newConstPlan_def)
  have "hd lines \<in> set lines" using assms(2) by simp
  then have "length (n_children (hd lines)) = n" using assms(4) by blast
  then show "length (cp_columns ?c) = n" using assms(2) by (simp add: const_addRows newConstPlan_def const_addRow_def)
qed

definition const_node :: "const_plan \<times> ('db, 'it) world \<Rightarrow> plan \<times> ('db, 'it) world" where
  "const_node = (\<lambda>(c, w). (PT_Const c, w))"

lemma const_node_calls:
  "o_begin (tree_ops E (Suc d)) t (const_node (c, w)) =
     (if cp_rows c = [] then Inl (Stuck ''!m_rows.empty()'') else Inr (const_node (const_begin c, w)))"
  "o_next (tree_ops E (Suc d)) t (const_node (c, w)) = mapR (apsnd const_node) (mapR (apsnd (\<lambda>c. (c, w))) (const_next t c))"
  "o_getResult (tree_ops E (Suc d)) (const_node (c, w)) = const_getResult (pe_lib E) c"
  "o_getResultColumns (tree_ops E (Suc d)) (const_node (c, w)) = Inr (length (cp_columns c))"
  "o_end (tree_ops E (Suc d)) (const_node (c, w)) = Inr (const_node (c, w))"
  by (cases "const_next t c"; simp add: const_node_def leaf_at_def at_state_def lift_leaf_def const_ops_def empty_ops_def
      tree_ops.simps(2) virtual_def case_prod_unfold apsnd_def map_prod_def)+

text \<open>The lines of the list are the rows; the world stays as it is.\<close>

lemma values_delivered:
  "delivers_to (o_next (tree_ops E (Suc d)) False) (o_getResult (tree_ops E (Suc d))) (const_node (c, w))
     (map (const_value (pe_lib E)) (drop (cp_current c) (cp_rows c))) (\<lambda>s. snd s = w \<and> (\<exists>c. s = const_node (c, w)))"
proof (rule delivers_to_sim [where g = "\<lambda>c. const_node (c, w)"])
  show "delivers (const_next False) (const_getResult (pe_lib E)) c (map (const_value (pe_lib E)) (drop (cp_current c) (cp_rows c)))"
    by (rule const_source.delivers_rows) simp
  show "o_next (tree_ops E (Suc d)) False (const_node (x, w)) = mapR (apsnd (\<lambda>c. const_node (c, w))) (const_next False x)" for x
    unfolding const_node_calls by (cases "const_next False x") (simp_all add: apsnd_def map_prod_def case_prod_unfold)
qed (unfold const_node_calls, rule refl, auto simp: const_node_def)

section \<open>The types of an insert\<close>

text \<open>
  An insert and a scan agree on the layout of the key when the key lists its columns in the order of the
  table: \<open>LevelDBInsertPlan\<close> collects the types in that order.  The values are always in it, since the
  loader gives the positions.
\<close>

definition columns_in_order :: "table_info \<Rightarrow> bool" where
  "columns_in_order T \<longleftrightarrow>
     t_keys T = filter (\<lambda>i. c_keyIndex (t_columns T ! i) \<ge> 0) [0..<getColumnCount T] \<and>
     t_values T = filter (\<lambda>i. \<not> c_keyIndex (t_columns T ! i) \<ge> 0) [0..<getColumnCount T]"

lemma filter_columns:
  "filter P (t_columns T) = map ((!) (t_columns T)) (filter (\<lambda>i. P (t_columns T ! i)) [0..<getColumnCount T])"
  using filter_map [of P "(!) (t_columns T)" "[0..<getColumnCount T]"] by (simp add: map_nth getColumnCount_def comp_def)

lemma scan_value_types: "snd (foldl scan_type_step (ks, vs) cs) = vs @ map c_type (filter (\<lambda>c. \<not> c_keyIndex c \<ge> 0) cs)"
  by (induction cs arbitrary: ks vs) (auto simp: scan_type_step_def)

lemma insert_types:
  assumes "keyed_table L T" "columns_in_order T"
  shows "in_keyTypes (newLevelDBInsertPlan tid T) = fst (scan_types T)" "in_valueTypes (newLevelDBInsertPlan tid T) = snd (scan_types T)"
proof -
  have keys: "in_keyTypes (newLevelDBInsertPlan tid T) = map (\<lambda>i. c_type (t_columns T ! i)) (t_keys T)"
    using assms(2) by (simp add: newLevelDBInsertPlan_def filter_columns columns_in_order_def)
  show "in_keyTypes (newLevelDBInsertPlan tid T) = fst (scan_types T)"
    unfolding keys by (rule nth_equalityI) (simp_all add: scan_types_lengths getKeyCount_def key_types(2) [OF assms(1)])
  show "in_valueTypes (newLevelDBInsertPlan tid T) = snd (scan_types T)"
    by (simp add: newLevelDBInsertPlan_def scan_types_def scan_value_types)
qed

lemma slot_of_column:
  assumes "slot_ok k i xs" "i \<in> set xs" "i \<in> set xs \<longrightarrow> 0 \<le> k"
  shows "0 \<le> k \<and> nat k < length xs \<and> xs ! nat k = i"
  using assms by (auto simp: slot_ok_def)

lemma column_of_slot:
  assumes "distinct xs" "j < length xs" "slot_ok k (xs ! j) xs" "0 \<le> k"
  shows "k = int j"
  using assms by (auto simp: slot_ok_def nth_eq_iff_index_eq)

text \<open>Every position of the key and of the values belongs to one column.\<close>

lemma new_insert_wf:
  assumes T: "keyed_table L T" and order: "columns_in_order T"
  shows "insert_wf (newLevelDBInsertPlan tid T)"
proof -
  let ?cs = "t_columns T" and ?n = "getColumnCount T"
  have keys: "t_keys T = filter (\<lambda>i. c_keyIndex (?cs ! i) \<ge> 0) [0..<?n]"
    and vals: "t_values T = filter (\<lambda>i. \<not> c_keyIndex (?cs ! i) \<ge> 0) [0..<?n]" using order by (simp_all add: columns_in_order_def)
  have dist: "distinct (t_keys T)" "distinct (t_values T)" unfolding keys vals by simp_all
  have wf: "slot_ok (c_keyIndex (?cs ! i)) i (t_keys T)" "slot_ok (c_valueIndex (?cs ! i)) i (t_values T)"
      "i \<in> set (t_values T) \<longrightarrow> 0 \<le> c_valueIndex (?cs ! i)" if "i < ?n" for i
    using T that by (simp_all add: keyed_table_def table_wf_def column_wf_def Let_def getColumnCount_def)
  have lens: "length (in_keyTypes (newLevelDBInsertPlan tid T)) = length (t_keys T)"
      "length (in_valueTypes (newLevelDBInsertPlan tid T)) = length (t_values T)"
    unfolding keys vals by (simp_all add: newLevelDBInsertPlan_def filter_columns)
  have placed: "if c_keyIndex (?cs ! i) \<ge> 0 then nat (c_keyIndex (?cs ! i)) < length (t_keys T)
      else c_valueIndex (?cs ! i) \<ge> 0 \<and> nat (c_valueIndex (?cs ! i)) < length (t_values T)" if i: "i < ?n" for i
  proof (cases "c_keyIndex (?cs ! i) \<ge> 0")
    case False
    then have "i \<in> set (t_values T)" using i unfolding vals by simp
    from slot_of_column [OF wf(2) [OF i] this wf(3) [OF i]] show ?thesis using False by simp
  qed (use wf(1) [OF i] in \<open>auto simp: slot_ok_def\<close>)
  have key_slot: "\<exists>c \<in> set ?cs. c_keyIndex c = int j" if j: "j < length (t_keys T)" for j
  proof -
    have "t_keys T ! j \<in> set (t_keys T)" using j by simp
    then have i: "t_keys T ! j < ?n" "0 \<le> c_keyIndex (?cs ! (t_keys T ! j))" unfolding keys set_filter by simp_all
    show ?thesis using column_of_slot [OF dist(1) j wf(1) [OF i(1)] i(2)] i(1) by (metis getColumnCount_def nth_mem)
  qed
  have value_slot: "\<exists>c \<in> set ?cs. c_keyIndex c < 0 \<and> c_valueIndex c = int j" if j: "j < length (t_values T)" for j
  proof -
    have m: "t_values T ! j \<in> set (t_values T)" using j by simp
    then have i: "t_values T ! j < ?n" "c_keyIndex (?cs ! (t_values T ! j)) < 0" unfolding vals set_filter by simp_all
    show ?thesis using column_of_slot [OF dist(2) j wf(2) [OF i(1)] mp [OF wf(3) [OF i(1)] m]] i by (metis getColumnCount_def nth_mem)
  qed
  have "insert_slots T (length (t_keys T)) (length (t_values T))"
    unfolding insert_slots_def
  proof (intro conjI allI impI ballI)
    fix c assume "c \<in> set ?cs"
    then obtain i where "i < ?n" "c = ?cs ! i" by (auto simp: in_set_conv_nth getColumnCount_def)
    then show "if c_keyIndex c \<ge> 0 then nat (c_keyIndex c) < length (t_keys T)
      else c_valueIndex c \<ge> 0 \<and> nat (c_valueIndex c) < length (t_values T)" using placed by simp
  qed (rule key_slot value_slot, assumption)+
  moreover have "in_table (newLevelDBInsertPlan tid T) = T"
      "length (in_keyResults (newLevelDBInsertPlan tid T)) = length (in_keyTypes (newLevelDBInsertPlan tid T))"
      "length (in_valueResults (newLevelDBInsertPlan tid T)) = length (in_valueTypes (newLevelDBInsertPlan tid T))"
    by (simp_all add: newLevelDBInsertPlan_def)
  ultimately show ?thesis unfolding insert_wf_def by (simp only: lens)
qed

section \<open>The lines of a list as rows\<close>

text \<open>A line gives a row: its values, read at the types of the columns, and their encoding.\<close>

definition line_stored :: "lib \<Rightarrow> table_info \<Rightarrow> pnode \<Rightarrow> table_row \<Rightarrow> bool" where
  "line_stored L T line new \<longleftrightarrow> row_values T (const_value L line) (key_of new) (snd (snd new)) \<and>
     row_ok L (fst (scan_types T)) (snd (scan_types T)) new"

definition insert_node :: "insert_plan \<times> plan \<times> ('db, 'it) world \<Rightarrow> plan \<times> ('db, 'it) world" where
  "insert_node = node_of PT_Insert"

lemma insert_node_calls:
  "o_begin (tree_ops E (Suc d)) t (insert_node s) = mapR insert_node (o_begin (insert_ops (pe_lib E) (pe_db E) (tree_ops E d)) t s)"
  "o_next (tree_ops E (Suc d)) t (insert_node s) = mapR (apsnd insert_node) (o_next (insert_ops (pe_lib E) (pe_db E) (tree_ops E d)) t s)"
  "o_end (tree_ops E (Suc d)) (insert_node s) = mapR insert_node (o_end (insert_ops (pe_lib E) (pe_db E) (tree_ops E d)) s)"
  "o_getInfoString (tree_ops E (Suc d)) (insert_node s) = o_getInfoString (insert_ops (pe_lib E) (pe_db E) (tree_ops E d)) s"
  by (cases s; simp add: insert_node_def node_of_def node_at_def at_state_def tree_ops.simps(2) virtual_def)+

lemma insert_over_values:
  assumes c: "cp_rows c = lines" "lines \<noteq> []" "length (cp_columns c) = getColumnCount T"
    and T: "keyed_table (pe_lib E) T" "columns_in_order T" and news: "list_all2 (line_stored (pe_lib E) T) lines news"
    and w: "stored_table E contents tid T w rs"
  shows "\<exists>s. o_begin (tree_ops E (Suc (Suc d))) False (insert_node (newLevelDBInsertPlan tid T, const_node (c, w))) = Inr s \<and>
    delivers_to (o_next (tree_ops E (Suc (Suc d))) False) (\<lambda>_. ()) s (map (\<lambda>_. ()) news)
      (\<lambda>s'. o_getInfoString (tree_ops E (Suc (Suc d))) s' = Inr (''INSERT 0 '' @ nat_to_string (length news)) \<and>
        commits tid (o_end (tree_ops E (Suc (Suc d))) s') contents
          (rows_inserted (pe_lib E) (fst (scan_types T)) (snd (scan_types T)) rs news))"
proof -
  let ?C = "tree_ops E (Suc d)" and ?kt = "fst (scan_types T)" and ?vt = "snd (scan_types T)"
  let ?O = "insert_ops (pe_lib E) (pe_db E) ?C" and ?ip = "newLevelDBInsertPlan tid T" and ?s = "const_node (const_begin c, w)"
  obtain db hs ents pos where st: "getLevelDBHandler (pe_db E) tid T (w_handlers w) = Inr (db, hs)"
    "db_laws (pe_db E) (key_cmp (pe_lib E) ?kt) contents ents pos" "contents db = map fst rs" "table_rows (pe_lib E) ?kt ?vt rs"
    using w by (auto simp: stored_table_def)
  have ip: "in_table ?ip = T" "in_tableId ?ip = tid" "in_batch ?ip = []" "in_rows ?ip = 0" by (simp_all add: newLevelDBInsertPlan_def)
  have ok: "list_all (row_ok (pe_lib E) ?kt ?vt) news" using list_all2_in2 [OF news] by (auto simp: list_all_iff line_stored_def)
  have start: "o_begin ?O False (?ip, const_node (c, w)) = Inr (?ip, ?s)"
    using c by (simp add: insert_ops_def insert_begin_def ip const_node_calls del: tree_calls)
  have lines: "delivers_to (o_next ?C False) (o_getResult ?C) ?s (map (const_value (pe_lib E)) lines) (\<lambda>s. \<exists>c. s = const_node (c, w))"
    using values_delivered [of E d "const_begin c" w] c(1) by (auto simp: const_begin_def simp del: tree_calls elim!: delivers_to_mono)
  have "list_all2 (inserts (pe_lib E) ?ip) (map (const_value (pe_lib E)) lines) news"
    using news unfolding list_all2_map1 inserts_def line_stored_def ip insert_types [OF T] .
  from insert_delivers [OF lines this new_insert_wf [OF T]]
  have d: "delivers_to (o_next ?O False) (\<lambda>_. ()) (?ip, ?s) (map (\<lambda>_. ()) news)
      (\<lambda>(ip', s'). (\<exists>c. s' = const_node (c, w)) \<and> in_batch ip' = map put_of news \<and> in_rows ip' = length news \<and> in_table ip' = T \<and> in_tableId ip' = tid)"
    by (simp add: insert_ops_def ip del: tree_calls)
  have final: "o_getInfoString ?O s' = Inr (''INSERT 0 '' @ nat_to_string (length news)) \<and>
      commits tid (mapR insert_node (o_end ?O s')) contents (rows_inserted (pe_lib E) ?kt ?vt rs news)"
    if fin: "case s' of (ip', s') \<Rightarrow> (\<exists>c. s' = const_node (c, w)) \<and> in_batch ip' = map put_of news \<and> in_rows ip' = length news \<and>
      in_table ip' = T \<and> in_tableId ip' = tid" for s'
  proof -
    obtain ip' c' where s': "s' = (ip', const_node (c', w))" "in_batch ip' = map put_of news" "in_rows ip' = length news"
      "in_table ip' = T" "in_tableId ip' = tid" using fin by (cases s') auto
    have "mapR insert_node (o_end ?O s') = mapR (Pair (PT_Insert ip' (PT_Const c'))) (commit_batch (pe_db E) tid T (map put_of news) w)"
      unfolding s'(1) by (cases "commit_batch (pe_db E) tid T (map put_of news) w")
        (simp_all add: insert_ops_def insert_end_def const_node_calls s'(2-5), simp_all add: insert_node_def node_of_def const_node_def)
    then show ?thesis using insert_commits [OF st(1,3,2,4) ok] s'(3) by (simp add: insert_ops_def s'(1) insert_getInfoString_def)
  qed
  have "delivers_to (o_next (tree_ops E (Suc (Suc d))) False) (\<lambda>_. ()) (insert_node (?ip, ?s)) (map (\<lambda>_. ()) news)
      (\<lambda>s'. o_getInfoString (tree_ops E (Suc (Suc d))) s' = Inr (''INSERT 0 '' @ nat_to_string (length news)) \<and>
        commits tid (o_end (tree_ops E (Suc (Suc d))) s') contents (rows_inserted (pe_lib E) ?kt ?vt rs news))"
  proof (rule delivers_to_sim [OF _ _ d])
    show "o_next (tree_ops E (Suc (Suc d))) False (insert_node x) = mapR (apsnd insert_node) (o_next ?O False x)" for x
      by (rule insert_node_calls)
  qed (simp, unfold insert_node_calls, erule final)
  then show ?thesis unfolding insert_node_calls start by simp
qed

section \<open>INSERT INTO ... VALUES\<close>

text \<open>The statement, as the parser leaves it: a table, no list of columns, and a list of lines.\<close>

definition insert_values :: "pnode \<Rightarrow> string \<Rightarrow> pnode list \<Rightarrow> bool" where
  "insert_values pNode name lines \<longleftrightarrow> (\<exists>pTable pValue pList. n_type pNode = NT_PLAN \<and> n_op pNode = OP_INSERT \<and>
     n_children pNode = [pTable, NullNode, pValue] \<and> n_type pTable = NT_NAME \<and> n_value pTable = name \<and>
     n_type pValue = NT_PLAN \<and> n_op pValue = OP_VALUES \<and> n_children pValue = [pList] \<and>
     pList \<noteq> NullNode \<and> n_children pList = lines)"

lemma insert_values_plan:
  assumes "insert_values pNode name lines" "find_table (pe_meta E) name = Some (tid, T)" "lines \<noteq> []"
    and "\<forall>l \<in> set lines. l \<noteq> NullNode \<and> length (n_children l) = getColumnCount T"
  obtains c where "buildPlan E sorter pNode w = Inr (insert_node (newLevelDBInsertPlan tid T, const_node (c, w)))"
    "cp_rows c = lines" "length (cp_columns c) = getColumnCount T"
proof -
  obtain pTable pValue pList where n: "n_type pNode = NT_PLAN" "n_op pNode = OP_INSERT"
     "n_children pNode = [pTable, NullNode, pValue]" "n_type pTable = NT_NAME" "n_value pTable = name"
     "n_type pValue = NT_PLAN" "n_op pValue = OP_VALUES" "n_children pValue = [pList]" "pList \<noteq> NullNode" "n_children pList = lines"
    using assms(1) unfolding insert_values_def by blast
  obtain c where c: "buildPlanForConst pList = Inr (PT_Const c)" "cp_rows c = lines" "length (cp_columns c) = getColumnCount T"
    by (rule values_plan [OF n(9) assms(3) n(10) assms(4)])
  have "buildPlan E sorter pValue w = Inr (PT_Const c, w)" by (subst buildPlan.simps) (simp add: n c(1))
  then have "buildPlan E sorter pNode w = Inr (insert_node (newLevelDBInsertPlan tid T, const_node (c, w)))"
    by (subst buildPlan.simps) (simp add: n buildInsertPlan_def assms(2) put_node_def insert_node_def node_of_def const_node_def)
  then show ?thesis by (rule that [OF _ c(2,3)])
qed

text \<open>
  C3.  \<open>INSERT INTO t VALUES\<close>, into a table whose key lists its columns in their order: the plan is
  built, one row is reported for every line, and unless the write fails, with the error of the store,
  the table afterwards has for every key the last line with this key, and its old row for all others.
\<close>

theorem insert_values_exact:
  assumes "insert_values pNode name lines" "find_table (pe_meta E) name = Some (tid, T)" "lines \<noteq> []"
    and "\<forall>l \<in> set lines. l \<noteq> NullNode \<and> length (n_children l) = getColumnCount T"
    and "list_all2 (line_stored (pe_lib E) T) lines news"
    and "stored_table E contents tid T w rs" "keyed_table (pe_lib E) T" "columns_in_order T" "2 \<le> pe_depth E"
  shows "\<exists>pw s. buildPlan E sorter pNode w = Inr pw \<and> o_begin (plan_calls E) False pw = Inr s \<and>
    delivers_to (o_next (plan_calls E) False) (\<lambda>_. ()) s (map (\<lambda>_. ()) news)
      (\<lambda>s'. o_getInfoString (plan_calls E) s' = Inr (''INSERT 0 '' @ nat_to_string (length news)) \<and>
        commits tid (o_end (plan_calls E) s') contents
          (rows_inserted (pe_lib E) (fst (scan_types T)) (snd (scan_types T)) rs news))"
proof -
  obtain d where d: "pe_depth E = Suc (Suc d)" using assms(9) that [of "pe_depth E - 2"] by simp
  obtain c where c: "buildPlan E sorter pNode w = Inr (insert_node (newLevelDBInsertPlan tid T, const_node (c, w)))"
    "cp_rows c = lines" "length (cp_columns c) = getColumnCount T"
    by (rule insert_values_plan [OF assms(1-4)])
  from insert_over_values [OF c(2) assms(3) c(3) assms(7,8,5,6)] show ?thesis unfolding c(1) plan_calls_def d by blast
qed

text \<open>\<open>INSERT INTO t VALUES (2, 'a'), (1, 'z')\<close> into the table with the row \<open>(1, 'k')\<close>.\<close>

definition ex_line :: "string \<Rightarrow> string \<Rightarrow> pnode" where
  "ex_line i v = PNode 0 NT_LIST OP_NONE [] [] [PNode 0 NT_INT OP_NONE i i [], PNode 0 NT_STR OP_NONE v v []]"

definition ex_insert :: pnode where
  "ex_insert = PNode 0 NT_PLAN OP_INSERT [] [] [PNode 0 NT_NAME OP_NONE ''t'' ''t'' [], NullNode,
     PNode 0 NT_PLAN OP_VALUES [] [] [PNode 0 NT_LIST OP_NONE [] [] [ex_line ''2'' ''a'', ex_line ''1'' ''z'']]]"

lemma ex_line_value:
  "const_value ex_lib (ex_line ''1'' v) 0 DT_INT32 = Inr (R_Int 1)" "const_value ex_lib (ex_line ''2'' v) 0 DT_INT32 = Inr (R_Int 2)"
  "const_value ex_lib (ex_line i v) 1 DT_STRING = Inr (R_StringView v)"
  by (simp_all add: ex_line_def const_eval string_fromNode_def)

lemma ex_line_stored:
  assumes "row_ok ex_lib ex_types [] (ex_entry k n v)" "const_value ex_lib (ex_line i v) 0 DT_INT32 = Inr (R_Int n)"
  shows "line_stored ex_lib ex_keyed (ex_line i v) (ex_entry k n v)"
  unfolding line_stored_def ex_keyed_types using assms ex_line_value(3) [of i v]
  by (simp add: row_values_def ex_keyed_def newColumnInfo_def getColumnCount_def ex_entry_def key_of_def)

theorem insert_values_exact_witness:
  "\<exists>k1 k2 k3 pw s. buildPlan ex_env insertion_sort ex_insert (ex_world [ex_entry k1 1 ''k'']) = Inr pw \<and>
    o_begin (plan_calls ex_env) False pw = Inr s \<and>
    delivers_to (o_next (plan_calls ex_env) False) (\<lambda>_. ()) s [(), ()]
      (\<lambda>s'. o_getInfoString (plan_calls ex_env) s' = Inr (''INSERT 0 '' @ nat_to_string 2) \<and>
        commits 0 (o_end (plan_calls ex_env) s') (\<lambda>db. db)
          (rows_inserted ex_lib ex_types [] [ex_entry k1 1 ''k''] [ex_entry k3 2 ''a'', ex_entry k2 1 ''z'']))"
proof -
  obtain k1 k2 k3 where "table_rows ex_lib ex_types [] (ex_table k1 k2 k3)" by (rule ex_table_rows)
  then have rows: "table_rows ex_lib ex_types [] [ex_entry k1 1 ''k'']"
    and new: "row_ok ex_lib ex_types [] (ex_entry k3 2 ''a'')" "row_ok ex_lib ex_types [] (ex_entry k2 1 ''z'')"
    by (simp_all add: ex_table_def table_rows_iff)
  let ?lines = "[ex_line ''2'' ''a'', ex_line ''1'' ''z'']" and ?news = "[ex_entry k3 2 ''a'', ex_entry k2 1 ''z'']"
  have lib: "pe_lib ex_env = ex_lib" "2 \<le> pe_depth ex_env" by (simp_all add: ex_env_def)
  have stmt: "insert_values ex_insert ''t'' ?lines" by (simp add: insert_values_def ex_insert_def)
  have table: "find_table (pe_meta ex_env) ''t'' = Some (0, ex_keyed)" by (simp add: find_table_def ex_env_def)
  have lines: "\<forall>l \<in> set ?lines. l \<noteq> NullNode \<and> length (n_children l) = getColumnCount ex_keyed"
    by (simp add: ex_line_def ex_keyed_def getColumnCount_def)
  have stored: "list_all2 (line_stored ex_lib ex_keyed) ?lines ?news"
    using ex_line_stored [OF new(1) ex_line_value(2)] ex_line_stored [OF new(2) ex_line_value(1)] by simp
  have order: "columns_in_order ex_keyed" by (simp add: columns_in_order_def ex_keyed_def getColumnCount_def newColumnInfo_def upt_rec)
  have two: "length ?news = 2" "map (\<lambda>_. ()) ?news = [(), ()]" by simp_all
  have db: "stored_table ex_env (\<lambda>db. db) 0 ex_keyed (ex_world [ex_entry k1 1 ''k'']) [ex_entry k1 1 ''k'']"
    by (rule ex_stored_rows [OF rows]) simp
  from insert_values_exact [OF stmt table _ lines _ db _ order lib(2), unfolded lib(1), OF _ stored ex_is_keyed, of insertion_sort]
  show ?thesis unfolding two ex_keyed_types by blast
qed

end
