(* ===== verification/Spec2Isabelle.thy ===== *)
theory Spec2Isabelle
  imports QueryRewriter Aggregates WritePlans SortPlan SessionManager WhereDelete InsertValues
begin

text \<open>
  A verification development for \<^verbatim>\<open>level_pgserver\<close>: a server that answers the PostgreSQL wire protocol
  and keeps its tables in LevelDB.

  \<^bold>\<open>The program.\<close>  A connection is a session (\<^verbatim>\<open>src/server\<close>).  The session reads a message into its one
  memory block, has the statement parsed and rewritten (\<^verbatim>\<open>src/common\<close>), has a tree of execution plans
  built from the parse tree (\<^verbatim>\<open>src/planbuilder\<close>), runs the tree row by row (\<^verbatim>\<open>src/execution\<close>) and writes
  the rows into the same block, which is sent whenever it is full.  All sessions share the catalogue
  of tables, the pool of memory blocks and the open databases.

  \<^bold>\<open>Conventions.\<close>  A call that may throw returns \<open>err + 'a\<close> (\<open>Prelude\<close>): the left side is the exception with
  its text, or \<open>Stuck\<close> where the source leaves its defined behaviour (a failed assertion, a null pointer,
  an index out of range), or \<open>OutOfFuel\<close> where a bounded loop of the model was given too little fuel.  State
  is passed explicitly.  Objects are records, with a prefix per class; a pointer that is shared (memory
  blocks, iterators, databases, parse nodes) is a number into a store.  Libraries that are not in the
  repository are arguments: \<open>lib\<close> (abseil's number parsing, \<open>timegm\<close>), \<open>leveldb\<close>, \<open>std::sort\<close>, the generated
  parser, \<open>snprintf\<close> and \<open>strftime\<close>.  Where a theorem needs a law of them it is a hypothesis
  (\<open>iter_laws\<close>, \<open>db_laws\<close>, \<open>sort_law\<close>, \<open>permutes\<close>) that restates their documentation, and the witness of the
  theorem supplies a concrete library that obeys it.

  \<^bold>\<open>Theories and code.\<close>
  \<^item> \<open>Prelude\<close>: errors, sequencing, byte encodings, the order of strings, sorted association lists.
    \<open>Ieee\<close>: the arithmetic of \<open>double\<close> and \<open>float\<close> as bit patterns.
  \<^item> \<open>Nodes\<close>: \<^verbatim>\<open>common/ParseNode\<close>, \<^verbatim>\<open>common/ParseResult\<close>.  \<open>QueryRewriter\<close>: \<^verbatim>\<open>common/QueryRewritter.cpp\<close>; a rewritten
    predicate means what it meant and is an \<open>OR\<close> of \<open>AND\<close>s.
  \<^item> \<open>DataTypes\<close>: \<^verbatim>\<open>execution/ExecutionResult\<close>, \<^verbatim>\<open>execution/DBDataTypeHandler.cpp\<close>, \<^verbatim>\<open>common/ParseTools.h\<close>.  \<open>DataRows\<close>:
    \<^verbatim>\<open>execution/DataRow.cpp\<close> and the key comparator; stored values and rows are read back, the comparator is
    a total preorder.
  \<^item> \<open>Config\<close>: \<^verbatim>\<open>common/ConfigInfo\<close>, \<^verbatim>\<open>common/MetaConfig\<close>; every file that loads gives a well-formed catalogue.
  \<^item> \<open>MemPool\<close>: \<^verbatim>\<open>common/GlobalMemBlockPool\<close>, \<^verbatim>\<open>execution/ExecutionBuffer\<close>; memory is bounded, copied rows stay.
  \<^item> \<open>LevelDB\<close>: \<^verbatim>\<open>execution/LevelDBHandler\<close>.  \<open>KeySearchRange\<close>: \<^verbatim>\<open>execution/KeySearchRange\<close>; \<open>RangeLaws\<close>: a range is the
    set of keys on which the comparisons it was made from are true, and the searches of the range find its
    first and last key.
  \<^item> \<open>PlanBase\<close>: \<^verbatim>\<open>execution/ExecutionPlan.h\<close>, \<^verbatim>\<open>execution/BasePlan\<close>: the calls of a plan as a record of
    operations \<open>plan_ops\<close>, and \<open>delivers\<close>, the protocol of a client that asks for rows until there are no more.
    \<open>World\<close>: what the plans of a statement share.
  \<^item> \<open>LeafPlans\<close>: \<^verbatim>\<open>ConstPlan\<close>, \<^verbatim>\<open>ReadFilePlan\<close>, \<^verbatim>\<open>ShowTables\<close>, \<^verbatim>\<open>ShowColumns\<close>.  \<open>RowPlans\<close>: \<^verbatim>\<open>FilterPlan\<close>, \<^verbatim>\<open>LimitPlan\<close>,
    \<^verbatim>\<open>ProjectionPlan\<close>, \<^verbatim>\<open>ExplainPlan\<close>.  \<open>GroupPlans\<close>: \<^verbatim>\<open>GroupByPlan\<close>, \<^verbatim>\<open>UnionAllPlan\<close>; \<open>Aggregates\<close>: the values of the
    aggregate functions.  \<open>ScanPlan\<close>: \<^verbatim>\<open>LevelDBScanPlan\<close>.  \<open>WritePlans\<close>: \<^verbatim>\<open>LevelDBInsertPlan\<close>, \<^verbatim>\<open>LevelDBDeletePlan\<close>.
    \<open>SortPlan\<close>: \<^verbatim>\<open>SortPlan\<close>.  Each theory states the rows an operator delivers as a function of the rows of the
    plan below it.
  \<^item> \<open>PlanTree\<close>: the plans of a statement as a tree, with virtual calls.  \<open>PlanBuilder\<close>: \<^verbatim>\<open>src/planbuilder\<close>.
    \<open>ScanFilter\<close>, \<open>WherePlans\<close>: the plan for a \<open>WHERE\<close> clause on a keyed table delivers exactly the rows on
    which the clause is true.  \<open>ClausePlans\<close>: such a plan announces the types of the values it delivers.
    \<open>WhereDelete\<close>: a \<open>DELETE\<close> with the clause removes exactly its rows.
    \<open>InsertValues\<close>: \<open>INSERT ... VALUES\<close> takes exactly the lines of its list into the table.
  \<^item> \<open>PgWire\<close>: \<^verbatim>\<open>server/PgDataWriter\<close>, \<^verbatim>\<open>server/PgDataReader\<close>.  \<open>PgProtocol\<close>: \<^verbatim>\<open>server/PostgresProtocol\<close>.
    \<open>SessionInfo\<close>, \<open>SessionRows\<close>: \<^verbatim>\<open>server/SessionInfo\<close> as a machine that the completions of its reads and writes
    drive; rows reach the client in order and once, errors are answered, no operation leaves the block.
    \<open>SessionManager\<close>: \<^verbatim>\<open>server/SessionManager\<close> and the accept loop of \<^verbatim>\<open>server/PgServer.cpp\<close>.

  \<^bold>\<open>Interfaces.\<close>  A plan works on the operations of the plan below it and on nothing else of it.  The locales
  (\<open>row_source\<close>, \<open>column_source\<close>, \<open>kept_plan\<close>, \<open>projecting_source\<close>, \<open>three_way\<close> and the like) state what such a client relies
  on; each is interpreted on the model of the code that provides it.

  \<^bold>\<open>Bounds.\<close>  Loops over the rows of a plan or the entries of an iterator take fuel, one unit per row or entry;
  the theorems ask for more fuel than the table has rows, and show that the loop then returns.  \<open>tree_ops\<close>
  follows virtual calls to a depth; a statement's tree is no higher than its parse tree, and the theorems
  name the depth they need.  Everything else is structural recursion or has a termination proof
  (\<open>buildPlan\<close> on the size of the parse tree).

  \<^bold>\<open>Not modelled.\<close>  The lexer and parser that flex and bison generate (\<^verbatim>\<open>SqlParser.*\<close>): the session takes the parser
  as an argument.  Sockets, threads, signals and timers, which are asio's (\<^verbatim>\<open>asio-1.12.2\<close> is vendored code);
  a handler of a session runs to the point where it starts the next operation.  \<^verbatim>\<open>main.cpp\<close>, which reads the
  command line, and the output to the log.  Allocation failure, and a record of the row count beyond \<open>2 ^ 64\<close>.
\<close>

end
